(* ===== verification/NMP_Prelude.thy ===== *)
theory NMP_Prelude
  imports
    Main
    "HOL-Library.AList"
    "HOL-Library.Char_ord"
    "HOL-Library.List_Lexorder"
    "HOL-Library.Product_Lexorder"
    "HOL-Library.Option_ord"
    "HOL-Library.Word"
    "HOL-Library.Code_Target_Nat"
    "HOL-Library.Monad_Syntax"
begin

text \<open>
  Shared vocabulary of the development: the integer types of the Rust sources, the models
  of the standard collections and iterator adaptors the components use, and the generic
  lemmas about them.

  \<^item> Unsigned integers are natural numbers. Saturating subtraction is subtraction on
    \<open>nat\<close>; where a product or a conversion can leave the width on data an attacker
    controls, the wrap-around is written out (\<open>wrapping_mul_u64\<close>).
  \<^item> A string is a \<open>char list\<close>, that is, the UTF-8 bytes of a Rust \<open>String\<close>; the
    order of \<open>List_Lexorder\<close> and \<open>Char_ord\<close> is Rust's bytewise order.
  \<^item> A \<open>HashMap\<close> is an association list with distinct keys. Its list order stands for
    the unspecified iteration order: every theorem quantifies over the list, hence over
    every order.
  \<^item> A \<open>BTreeSet\<close> is a strictly ascending list, a \<open>BTreeMap\<close> an association list
    with strictly ascending keys, so that iteration order and equality are Rust's.
\<close>

section \<open>Integers\<close>

type_synonym u32 = nat
type_synonym u64 = nat
type_synonym usize = nat
type_synonym byte = "8 word"
type_synonym bytes = "byte list"

definition u64_max :: u64 where
  "u64_max = 18446744073709551615"

definition wrapping_mul_u64 :: "u64 \<Rightarrow> u64 \<Rightarrow> u64" where
  "wrapping_mul_u64 a b = a * b mod 18446744073709551616"

definition checked_add_u64 :: "u64 \<Rightarrow> u64 \<Rightarrow> u64 option" where
  "checked_add_u64 a b = (if a + b \<le> u64_max then Some (a + b) else None)"

section \<open>Collections of facts\<close>

named_theorems frame_simps \<open>fields an operation does not touch\<close>
named_theorems keys_simps \<open>key sets of the maps after an update\<close>

section \<open>Option and list helpers\<close>

text \<open>\<open>slice.first()\<close> and \<open>slice.get(1)\<close>.\<close>

definition get_nth :: "nat \<Rightarrow> 'a list \<Rightarrow> 'a option" where
  "get_nth i xs = (if i < length xs then Some (xs ! i) else None)"

lemma get_nth_Nil [simp]: "get_nth i [] = None"
  by (simp add: get_nth_def)

lemma get_nth_0 [simp]: "get_nth 0 (x # xs) = Some x"
  by (simp add: get_nth_def)

lemma get_nth_Suc [simp]: "get_nth (Suc i) (x # xs) = get_nth i xs"
  by (simp add: get_nth_def)

lemma get_nth_numeral [simp]:
  "get_nth (numeral k) (x # xs) = get_nth (pred_numeral k) xs"
  by (simp add: numeral_eq_Suc)

lemma get_nth_1 [simp]: "get_nth 1 (x # xs) = get_nth 0 xs"
  by (simp add: get_nth_def)

lemma set_map_filter_iff: "set (List.map_filter f xs) = {y. \<exists>x \<in> set xs. f x = Some y}"
  by (induction xs) (auto simp: List.map_filter_simps split: option.splits)

text \<open>\<open>Iterator::max_by\<close>: the last of the greatest elements; \<open>le\<close> is "not greater".\<close>

fun max_by :: "('a \<Rightarrow> 'a \<Rightarrow> bool) \<Rightarrow> 'a list \<Rightarrow> 'a option" where
  "max_by le [] = None"
| "max_by le (x # xs) = Some (fold (\<lambda>y m. if le m y then y else m) xs x)"

text \<open>\<open>Iterator::min_by_key\<close>: the position of the first least element.\<close>

fun min_pos_by_key :: "('a \<Rightarrow> 'k::linorder) \<Rightarrow> 'a list \<Rightarrow> nat option" where
  "min_pos_by_key f [] = None"
| "min_pos_by_key f (x # xs) =
     (case min_pos_by_key f xs of
        None \<Rightarrow> Some 0
      | Some i \<Rightarrow> if f x \<le> f (xs ! i) then Some 0 else Some (Suc i))"

lemma min_pos_by_key_None [simp]: "min_pos_by_key f xs = None \<longleftrightarrow> xs = []"
  by (cases xs) (auto split: option.splits)

lemma min_pos_by_key_less: "min_pos_by_key f xs = Some i \<Longrightarrow> i < length xs"
  by (induction xs arbitrary: i) (auto split: option.splits if_splits)

lemma min_pos_by_key_least:
  "min_pos_by_key f xs = Some i \<Longrightarrow> y \<in> set xs \<Longrightarrow> f (xs ! i) \<le> f y"
proof (induction xs arbitrary: i)
  case Nil
  then show ?case by simp
next
  case (Cons x xs)
  show ?case
  proof (cases "min_pos_by_key f xs")
    case None
    then have "xs = []" by simp
    with Cons.prems show ?thesis by simp
  next
    case (Some j)
    have y: "y = x \<or> f (xs ! j) \<le> f y"
      using Cons.IH [OF Some] Cons.prems(2) by auto
    show ?thesis
    proof (cases "f x \<le> f (xs ! j)")
      case True
      with Some Cons.prems(1) have "i = 0" by simp
      with True y show ?thesis by auto
    next
      case False
      with Some Cons.prems(1) have "i = Suc j" by simp
      with False y show ?thesis by auto
    qed
  qed
qed

text \<open>The greatest element, for a total preorder.\<close>

lemma fold_max_by_mem: "fold (\<lambda>y m. if le m y then y else m) xs x \<in> set (x # xs)"
  by (induction xs arbitrary: x) (auto split: if_splits)

lemma max_by_mem: "max_by le xs = Some m \<Longrightarrow> m \<in> set xs"
  using fold_max_by_mem by (cases xs) fastforce+

lemma max_by_None [simp]: "max_by le xs = None \<longleftrightarrow> xs = []"
  by (cases xs) auto

lemma fold_max_by_ge:
  assumes total: "\<And>a b. le a b \<or> le b a"
    and trans: "\<And>a b c. le a b \<Longrightarrow> le b c \<Longrightarrow> le a c"
    and y: "y \<in> set (x # xs)"
  shows "le y (fold (\<lambda>y m. if le m y then y else m) xs x)"
  using y
proof (induction xs arbitrary: x y)
  case Nil
  then show ?case using total [of x x] by simp
next
  case (Cons z zs)
  define x' where "x' = (if le x z then z else x)"
  have le_x': "le x x'" "le z x'"
    unfolding x'_def using total [of x z] total [of x x] total [of z z] by auto
  have x'_in: "le x' (fold (\<lambda>y m. if le m y then y else m) zs x')"
    by (rule Cons.IH) simp
  have "le y (fold (\<lambda>y m. if le m y then y else m) zs x')"
  proof (cases "y \<in> set zs")
    case True
    then show ?thesis by (intro Cons.IH) simp
  next
    case False
    with Cons.prems have "y = x \<or> y = z" by auto
    with le_x' have "le y x'" by auto
    with x'_in show ?thesis by (rule trans [rotated])
  qed
  then show ?case by (simp add: x'_def)
qed

lemma max_by_ge:
  assumes "\<And>a b. le a b \<or> le b a" and "\<And>a b c. le a b \<Longrightarrow> le b c \<Longrightarrow> le a c"
    and "max_by le xs = Some m" and "y \<in> set xs"
  shows "le y m"
  using fold_max_by_ge [of le y] assms by (cases xs) auto

section \<open>The keyed-map interface\<close>

definition unwrap_or :: "'a \<Rightarrow> 'a option \<Rightarrow> 'a" where
  "unwrap_or d x = (case x of None \<Rightarrow> d | Some v \<Rightarrow> v)"

lemma unwrap_or_simps [simp]: "unwrap_or d None = d" "unwrap_or d (Some v) = v"
  by (simp_all add: unwrap_or_def)

text \<open>
  What the components rely on of a map: lookup after insertion and after removal, and the
  well-formedness every operation keeps. Both map models below provide it.
\<close>

locale keyed_map =
  fixes get :: "'m \<Rightarrow> 'k \<Rightarrow> 'v option"
    and put :: "'k \<Rightarrow> 'v \<Rightarrow> 'm \<Rightarrow> 'm"
    and del :: "'k \<Rightarrow> 'm \<Rightarrow> 'm"
    and wf :: "'m \<Rightarrow> bool"
  assumes get_put: "get (put k v m) = (get m)(k \<mapsto> v)"
    and get_del: "get (del k m) = (get m)(k := None)"
    and wf_put: "wf m \<Longrightarrow> wf (put k v m)"
    and wf_del: "wf m \<Longrightarrow> wf (del k m)"
begin

text \<open>\<open>entry(k).or_insert(d)\<close> followed by a mutation \<open>f\<close> of the slot.\<close>

lemma get_entry:
  "get (put k (f (unwrap_or d (get m k))) m) k' =
     (if k' = k then Some (f (unwrap_or d (get m k))) else get m k')"
  by (simp add: get_put)

text \<open>Writing a batch of rows: the last write to a key wins.\<close>

lemma get_fold_put:
  "get (fold (\<lambda>(k, v). put k v) kvs m) = get m ++ map_of (rev kvs)"
proof (induction kvs arbitrary: m)
  case Nil
  then show ?case by simp
next
  case (Cons kv kvs)
  obtain k v where kv: "kv = (k, v)" by (cases kv)
  show ?case
    using Cons.IH [of "put k v m"] by (simp add: kv get_put map_add_def fun_eq_iff split: option.splits)
qed

lemma wf_fold_put: "wf m \<Longrightarrow> wf (fold (\<lambda>(k, v). put k v) kvs m)"
  by (induction kvs arbitrary: m) (auto simp: wf_put)

lemma wf_fold_del: "wf m \<Longrightarrow> wf (fold del ks m)"
  by (induction ks arbitrary: m) (auto simp: wf_del)

lemma get_fold_del: "get (fold del ks m) k = (if k \<in> set ks then None else get m k)"
  by (induction ks arbitrary: m) (auto simp: get_del)

end

section \<open>HashMap\<close>

text \<open>Lookups stay lookups: the library's rewriting of them to membership is switched off.\<close>

declare map_of_eq_Some_iff [simp del] Some_eq_map_of_iff [simp del]

abbreviation hm_get :: "('k \<times> 'v) list \<Rightarrow> 'k \<Rightarrow> 'v option" where
  "hm_get \<equiv> map_of"

abbreviation hm_insert :: "'k \<Rightarrow> 'v \<Rightarrow> ('k \<times> 'v) list \<Rightarrow> ('k \<times> 'v) list" where
  "hm_insert \<equiv> AList.update"

abbreviation hm_remove :: "'k \<Rightarrow> ('k \<times> 'v) list \<Rightarrow> ('k \<times> 'v) list" where
  "hm_remove \<equiv> AList.delete"

abbreviation hm_wf :: "('k \<times> 'v) list \<Rightarrow> bool" where
  "hm_wf m \<equiv> distinct (map fst m)"

definition hm_keys :: "('k \<times> 'v) list \<Rightarrow> 'k set" where
  "hm_keys m = fst ` set m"

definition hm_contains :: "'k \<Rightarrow> ('k \<times> 'v) list \<Rightarrow> bool" where
  "hm_contains k m \<longleftrightarrow> map_of m k \<noteq> None"

definition hm_entry :: "'v \<Rightarrow> 'k \<Rightarrow> ('v \<Rightarrow> 'v) \<Rightarrow> ('k \<times> 'v) list \<Rightarrow> ('k \<times> 'v) list" where
  "hm_entry d k f m = hm_insert k (f (unwrap_or d (map_of m k))) m"

text \<open>\<open>iter_mut()\<close> over the values and \<open>retain\<close>.\<close>

definition hm_map_values :: "('v \<Rightarrow> 'w) \<Rightarrow> ('k \<times> 'v) list \<Rightarrow> ('k \<times> 'w) list" where
  "hm_map_values f m = map (\<lambda>(k, v). (k, f v)) m"

definition hm_retain :: "('k \<Rightarrow> 'v \<Rightarrow> bool) \<Rightarrow> ('k \<times> 'v) list \<Rightarrow> ('k \<times> 'v) list" where
  "hm_retain P m = filter (\<lambda>(k, v). P k v) m"

interpretation hash_map: keyed_map map_of AList.update AList.delete "\<lambda>m. distinct (map fst m)"
  by unfold_locales (simp_all add: AList.update_conv' AList.delete_conv' AList.distinct_update AList.distinct_delete)

lemma hm_keys_map_of: "k \<in> hm_keys m \<longleftrightarrow> map_of m k \<noteq> None"
  by (simp add: hm_keys_def map_of_eq_None_iff)

lemma hm_keys_Nil [keys_simps, simp]: "hm_keys [] = {}"
  by (simp add: hm_keys_def)

lemma hm_keys_insert [keys_simps, simp]: "hm_keys (hm_insert k v m) = insert k (hm_keys m)"
  by (simp add: hm_keys_def AList.dom_update)

lemma hm_keys_remove [keys_simps, simp]: "hm_keys (hm_remove k m) = hm_keys m - {k}"
  by (auto simp: hm_keys_map_of hash_map.get_del split: if_splits)

lemma hm_contains_iff [simp]: "hm_contains k m \<longleftrightarrow> k \<in> hm_keys m"
  by (simp add: hm_contains_def hm_keys_map_of)

lemma hm_get_Some_keys: "map_of m k = Some v \<Longrightarrow> k \<in> hm_keys m"
  by (simp add: hm_keys_map_of)

lemma hm_wf_entry: "hm_wf m \<Longrightarrow> hm_wf (hm_entry d k f m)"
  by (simp add: hm_entry_def AList.distinct_update)

lemma hm_keys_entry [keys_simps, simp]: "hm_keys (hm_entry d k f m) = insert k (hm_keys m)"
  by (simp add: hm_entry_def)

lemma hm_get_entry:
  "map_of (hm_entry d k f m) k' =
     (if k' = k then Some (f (unwrap_or d (map_of m k))) else map_of m k')"
  by (simp add: hm_entry_def hash_map.get_entry)

lemma hm_get_map_values: "map_of (hm_map_values f m) k = map_option f (map_of m k)"
  by (induction m) (auto simp: hm_map_values_def)

lemma hm_keys_map_values [keys_simps, simp]: "hm_keys (hm_map_values f m) = hm_keys m"
  by (force simp: hm_keys_def hm_map_values_def)

lemma hm_wf_map_values: "hm_wf m \<Longrightarrow> hm_wf (hm_map_values f m)"
  by (simp add: hm_map_values_def comp_def split_def)

lemma hm_wf_retain: "hm_wf m \<Longrightarrow> hm_wf (hm_retain P m)"
  by (simp add: hm_retain_def distinct_map_filter)

lemma hm_get_retain:
  "hm_wf m \<Longrightarrow>
     map_of (hm_retain P m) k =
       (case map_of m k of Some v \<Rightarrow> if P k v then Some v else None | None \<Rightarrow> None)"
proof (induction m)
  case Nil
  then show ?case by (simp add: hm_retain_def)
next
  case (Cons kv m)
  obtain k' v' where kv: "kv = (k', v')" by (cases kv)
  from Cons.prems have "map_of m k' = None" by (simp add: kv map_of_eq_None_iff)
  with Cons show ?case
    by (auto simp: kv hm_retain_def split: option.splits)
qed

lemma hm_retain_subset: "set (hm_retain P m) \<subseteq> set m"
  by (auto simp: hm_retain_def)

lemma hm_mem_iff: "hm_wf m \<Longrightarrow> (k, v) \<in> set m \<longleftrightarrow> map_of m k = Some v"
  by (simp add: map_of_eq_Some_iff)

lemma length_hm_remove:
  "hm_wf m \<Longrightarrow> length (hm_remove k m) = length m - (if k \<in> hm_keys m then 1 else 0)"
proof -
  assume wf: "hm_wf m"
  have "length (hm_remove k m) = length (removeAll k (map fst m))"
    by (metis AList.delete_keys length_map)
  also have "\<dots> = length (remove1 k (map fst m))"
    using wf by (simp add: distinct_remove1_removeAll)
  also have "\<dots> = length m - (if k \<in> hm_keys m then 1 else 0)"
    by (simp add: length_remove1 hm_keys_def)
  finally show ?thesis .
qed

lemma length_hm_insert:
  "hm_wf m \<Longrightarrow> length (hm_insert k v m) = length m + (if k \<in> hm_keys m then 0 else 1)"
proof -
  have "length (hm_insert k v m) = length (map fst (hm_insert k v m))" by simp
  also have "\<dots> = length m + (if k \<in> hm_keys m then 0 else 1)"
    by (auto simp: AList.update_keys hm_keys_def)
  finally show ?thesis .
qed

section \<open>BTreeSet\<close>

abbreviation bs_insert :: "'a::linorder \<Rightarrow> 'a list \<Rightarrow> 'a list" where
  "bs_insert \<equiv> insort_insert"

abbreviation bs_wf :: "'a::linorder list \<Rightarrow> bool" where
  "bs_wf \<equiv> sorted_wrt (<)"

definition bs_remove :: "'a \<Rightarrow> 'a list \<Rightarrow> 'a list" where
  "bs_remove x xs = filter (\<lambda>y. y \<noteq> x) xs"

definition bs_extend :: "'a::linorder list \<Rightarrow> 'a list \<Rightarrow> 'a list" where
  "bs_extend xs ys = fold bs_insert ys xs"

definition bs_of_list :: "'a::linorder list \<Rightarrow> 'a list" where
  "bs_of_list xs = bs_extend [] xs"

definition bs_union :: "'a::linorder list \<Rightarrow> 'a list \<Rightarrow> 'a list" where
  "bs_union xs ys = bs_extend xs ys"

lemma bs_wf_insert: "bs_wf xs \<Longrightarrow> bs_wf (bs_insert x xs)"
  by (simp add: strict_sorted_iff sorted_insort_insert distinct_insort_insert)

lemma set_bs_insert [simp]: "set (bs_insert x xs) = insert x (set xs)"
  by (simp add: set_insort_insert)

lemma set_bs_remove [simp]: "set (bs_remove x xs) = set xs - {x}"
  by (auto simp: bs_remove_def)

lemma bs_wf_remove: "bs_wf xs \<Longrightarrow> bs_wf (bs_remove x xs)"
  by (simp add: bs_remove_def sorted_wrt_filter)

lemma set_bs_extend [simp]: "set (bs_extend xs ys) = set xs \<union> set ys"
  unfolding bs_extend_def by (induction ys arbitrary: xs) auto

lemma bs_wf_extend: "bs_wf xs \<Longrightarrow> bs_wf (bs_extend xs ys)"
  unfolding bs_extend_def by (induction ys arbitrary: xs) (auto simp: bs_wf_insert)

lemma set_bs_of_list [simp]: "set (bs_of_list xs) = set xs"
  by (simp add: bs_of_list_def)

lemma bs_wf_of_list: "bs_wf (bs_of_list xs)"
  by (simp add: bs_of_list_def bs_wf_extend)

lemma set_bs_union [simp]: "set (bs_union xs ys) = set xs \<union> set ys"
  by (simp add: bs_union_def)

lemma bs_wf_union: "bs_wf xs \<Longrightarrow> bs_wf (bs_union xs ys)"
  by (simp add: bs_union_def bs_wf_extend)

lemma bs_eq_iff: "bs_wf xs \<Longrightarrow> bs_wf ys \<Longrightarrow> xs = ys \<longleftrightarrow> set xs = set ys"
  by (auto simp: strict_sorted_iff intro: sorted_distinct_set_unique)

lemma length_bs_card: "bs_wf xs \<Longrightarrow> length xs = card (set xs)"
  by (simp add: strict_sorted_iff distinct_card)

section \<open>BTreeMap\<close>

fun bm_insert :: "'k::linorder \<Rightarrow> 'v \<Rightarrow> ('k \<times> 'v) list \<Rightarrow> ('k \<times> 'v) list" where
  "bm_insert k v [] = [(k, v)]"
| "bm_insert k v ((a, w) # m) =
     (if k = a then (k, v) # m
      else if k < a then (k, v) # (a, w) # m
      else (a, w) # bm_insert k v m)"

abbreviation bm_wf :: "('k::linorder \<times> 'v) list \<Rightarrow> bool" where
  "bm_wf m \<equiv> sorted_wrt (<) (map fst m)"

definition bm_entry ::
  "'v \<Rightarrow> 'k::linorder \<Rightarrow> ('v \<Rightarrow> 'v) \<Rightarrow> ('k \<times> 'v) list \<Rightarrow> ('k \<times> 'v) list" where
  "bm_entry d k f m = bm_insert k (f (unwrap_or d (map_of m k))) m"

lemma map_of_bm_insert: "map_of (bm_insert k v m) = (map_of m)(k \<mapsto> v)"
  by (induction k v m rule: bm_insert.induct) (auto simp: fun_eq_iff)

lemma keys_bm_insert: "fst ` set (bm_insert k v m) = insert k (fst ` set m)"
  by (induction k v m rule: bm_insert.induct) auto

lemma bm_wf_insert: "bm_wf m \<Longrightarrow> bm_wf (bm_insert k v m)"
proof (induction k v m rule: bm_insert.induct)
  case (1 k v)
  then show ?case by simp
next
  case (2 k v a w m)
  have "\<forall>x \<in> fst ` set (bm_insert k v m). a < x" if "a < k"
    using "2.prems" that by (auto simp: keys_bm_insert)
  with 2 show ?case by auto
qed

lemma bm_wf_remove: "bm_wf m \<Longrightarrow> bm_wf (hm_remove k m)"
  by (simp add: AList.delete_keys removeAll_filter_not_eq sorted_wrt_filter)

interpretation btree_map: keyed_map map_of bm_insert AList.delete bm_wf
  by unfold_locales (simp_all add: map_of_bm_insert AList.delete_conv' bm_wf_insert bm_wf_remove)

lemma hm_keys_bm_insert [keys_simps, simp]: "hm_keys (bm_insert k v m) = insert k (hm_keys m)"
  by (simp add: hm_keys_def keys_bm_insert)

lemma hm_keys_bm_entry [keys_simps, simp]: "hm_keys (bm_entry d k f m) = insert k (hm_keys m)"
  by (simp add: bm_entry_def)

lemma bm_get_entry:
  "map_of (bm_entry d k f m) k' =
     (if k' = k then Some (f (unwrap_or d (map_of m k))) else map_of m k')"
  by (simp add: bm_entry_def btree_map.get_entry)

lemma bm_wf_entry: "bm_wf m \<Longrightarrow> bm_wf (bm_entry d k f m)"
  by (simp add: bm_entry_def bm_wf_insert)

lemma bm_wf_distinct: "bm_wf m \<Longrightarrow> hm_wf m"
  by (simp add: strict_sorted_iff)

text \<open>Inserting above the last key appends.\<close>

lemma bm_insert_append: "\<forall>a \<in> hm_keys m. a < k \<Longrightarrow> bm_insert k v m = m @ [(k, v)]"
  by (induction k v m rule: bm_insert.induct) (auto simp: hm_keys_def)

text \<open>Equality of maps is equality of their lookups.\<close>

lemma bm_eqI:
  assumes "bm_wf m" "bm_wf n" "map_of m = map_of n"
  shows "(m :: ('a::linorder \<times> 'b) list) = n"
proof -
  have "set m = set n"
    using assms hm_mem_iff [OF bm_wf_distinct [OF assms(1)]] hm_mem_iff [OF bm_wf_distinct [OF assms(2)]] by auto
  moreover have "map fst m = map fst n"
    using assms calculation by (metis bs_eq_iff list.set_map)
  moreover have rows: "xs = map (\<lambda>k. (k, the (map_of xs k))) (map fst xs)" if "hm_wf xs" for xs :: "('a \<times> 'b) list"
  proof -
    have "map (\<lambda>k. (k, the (map_of xs k))) (map fst xs) = map (\<lambda>kv. kv) xs"
      unfolding map_map comp_def using hm_mem_iff [OF that] by (intro map_cong) auto
    then show ?thesis by simp
  qed
  ultimately show ?thesis using rows [of m] rows [of n] bm_wf_distinct [OF assms(1)] bm_wf_distinct [OF assms(2)] assms(3) by simp
qed

end
