(* ===== verification/NMP_Strings.thy ===== *)
theory NMP_Strings
  imports NMP_Prelude
begin

text \<open>
  The functions of Rust's \<open>str\<close> the components call, on the UTF-8 bytes of the string:
  \<open>starts_with\<close>, \<open>find\<close>, \<open>trim\<close>, \<open>to_ascii_lowercase\<close>, \<open>splitn\<close>,
  \<open>parse\<close> for unsigned integers and \<open>format!\<close> of an integer. The lemmas give the
  print/parse round trip and how splitting and concatenation cancel.
\<close>

section \<open>Search and case\<close>

fun starts_with :: "string \<Rightarrow> string \<Rightarrow> bool" where
  "starts_with [] s = True"
| "starts_with (p # ps) [] = False"
| "starts_with (p # ps) (c # s) = (p = c \<and> starts_with ps s)"

lemma starts_with_iff: "starts_with p s \<longleftrightarrow> take (length p) s = p"
  by (induction p s rule: starts_with.induct) auto

lemma starts_with_append [simp]: "starts_with p (p @ s)"
  by (simp add: starts_with_iff)

text \<open>\<open>str::find(&str)\<close>: the first position where the pattern occurs.\<close>

fun find_sub :: "string \<Rightarrow> string \<Rightarrow> nat option" where
  "find_sub p [] = (if p = [] then Some 0 else None)"
| "find_sub p (c # s) =
     (if starts_with p (c # s) then Some 0 else map_option Suc (find_sub p s))"

text \<open>\<open>str::find([..])\<close> with a set of characters.\<close>

fun find_char :: "(char \<Rightarrow> bool) \<Rightarrow> string \<Rightarrow> nat option" where
  "find_char P [] = None"
| "find_char P (c # s) = (if P c then Some 0 else map_option Suc (find_char P s))"

lemma find_char_None: "find_char P s = None \<longleftrightarrow> (\<forall>c \<in> set s. \<not> P c)"
  by (induction s) auto

lemma find_char_Some:
  "find_char P s = Some i \<Longrightarrow> i < length s \<and> P (s ! i) \<and> (\<forall>c \<in> set (take i s). \<not> P c)"
  by (induction s arbitrary: i) (auto split: if_splits)

lemma find_char_append:
  "\<forall>c \<in> set a. \<not> P c \<Longrightarrow> P c \<Longrightarrow> find_char P (a @ c # s) = Some (length a)"
  by (induction a) auto

text \<open>\<open>u8::to_ascii_lowercase\<close> sets the bit \<open>0x20\<close> of an upper-case letter.\<close>

fun set_bit5 :: "char \<Rightarrow> char" where
  "set_bit5 (Char b0 b1 b2 b3 b4 b5 b6 b7) = Char b0 b1 b2 b3 b4 True b6 b7"

definition ascii_lower_char :: "char \<Rightarrow> char" where
  "ascii_lower_char c = (if CHR ''A'' \<le> c \<and> c \<le> CHR ''Z'' then set_bit5 c else c)"

definition ascii_lower :: "string \<Rightarrow> string" where
  "ascii_lower = map ascii_lower_char"

lemma ascii_lower_char_code:
  "of_char (ascii_lower_char c) =
     (if 65 \<le> (of_char c :: nat) \<and> (of_char c :: nat) \<le> 90 then of_char c + 32 else of_char c :: nat)"
proof (cases c)
  case (Char b0 b1 b2 b3 b4 b5 b6 b7)
  show ?thesis
    unfolding Char
    by (cases b0; cases b1; cases b2; cases b3; cases b4; cases b5; cases b6; cases b7)
       (simp_all add: ascii_lower_char_def less_eq_char_def)
qed

lemma ascii_lower_char_idem [simp]: "ascii_lower_char (ascii_lower_char c) = ascii_lower_char c"
proof -
  have "(of_char (ascii_lower_char (ascii_lower_char c)) :: nat) = of_char (ascii_lower_char c)"
    by (simp add: ascii_lower_char_code)
  then show ?thesis by (rule inj_onD [OF inj_of_char]) simp_all
qed

lemma ascii_lower_idem [simp]: "ascii_lower (ascii_lower s) = ascii_lower s"
  by (simp add: ascii_lower_def comp_def)

lemma length_ascii_lower [simp]: "length (ascii_lower s) = length s"
  by (simp add: ascii_lower_def)

lemma ascii_lower_Nil [simp]: "ascii_lower [] = []"
  by (simp add: ascii_lower_def)

lemma ascii_lower_eq_Nil [simp]: "ascii_lower s = [] \<longleftrightarrow> s = []"
  by (simp add: ascii_lower_def)

text \<open>A character that is no letter is the lower-case image of itself alone.\<close>

lemma ascii_lower_char_nonletter:
  assumes "\<not> (97 \<le> (of_char d :: nat) \<and> (of_char d :: nat) \<le> 122)"
    and "\<not> (65 \<le> (of_char d :: nat) \<and> (of_char d :: nat) \<le> 90)"
  shows "ascii_lower_char c = d \<longleftrightarrow> c = d"
proof
  assume c: "ascii_lower_char c = d"
  have "(of_char c :: nat) = of_char d"
    using assms ascii_lower_char_code [of c] unfolding c by (auto split: if_splits)
  then show "c = d" by (rule inj_onD [OF inj_of_char]) simp_all
next
  assume c: "c = d"
  have "(of_char (ascii_lower_char d) :: nat) = of_char d"
    using assms(2) by (simp add: ascii_lower_char_code)
  then show "ascii_lower_char c = d" unfolding c by (rule inj_onD [OF inj_of_char]) simp_all
qed

section \<open>Trimming\<close>

text \<open>\<open>char::is_whitespace\<close>: the code points with the Unicode property \<open>White_Space\<close>,
  each as its UTF-8 bytes.\<close>

definition white_space :: "string list" where
  "white_space =
     [[CHR 0x09], [CHR 0x0A], [CHR 0x0B], [CHR 0x0C], [CHR 0x0D], [CHR 0x20],
      [CHR 0xC2, CHR 0x85], [CHR 0xC2, CHR 0xA0], [CHR 0xE1, CHR 0x9A, CHR 0x80],
      [CHR 0xE2, CHR 0x80, CHR 0x80], [CHR 0xE2, CHR 0x80, CHR 0x81],
      [CHR 0xE2, CHR 0x80, CHR 0x82], [CHR 0xE2, CHR 0x80, CHR 0x83],
      [CHR 0xE2, CHR 0x80, CHR 0x84], [CHR 0xE2, CHR 0x80, CHR 0x85],
      [CHR 0xE2, CHR 0x80, CHR 0x86], [CHR 0xE2, CHR 0x80, CHR 0x87],
      [CHR 0xE2, CHR 0x80, CHR 0x88], [CHR 0xE2, CHR 0x80, CHR 0x89],
      [CHR 0xE2, CHR 0x80, CHR 0x8A], [CHR 0xE2, CHR 0x80, CHR 0xA8],
      [CHR 0xE2, CHR 0x80, CHR 0xA9], [CHR 0xE2, CHR 0x80, CHR 0xAF],
      [CHR 0xE2, CHR 0x81, CHR 0x9F], [CHR 0xE3, CHR 0x80, CHR 0x80]]"

fun strip_any :: "string list \<Rightarrow> string \<Rightarrow> string option" where
  "strip_any [] s = None"
| "strip_any (p # ps) s =
     (if p \<noteq> [] \<and> starts_with p s then Some (drop (length p) s) else strip_any ps s)"

lemma strip_any_shorter: "strip_any ps s = Some t \<Longrightarrow> length t < length s"
proof (induction ps s rule: strip_any.induct)
  case (2 p ps s)
  show ?case
  proof (cases "p \<noteq> [] \<and> starts_with p s")
    case True
    then have "s \<noteq> []" by (cases p; cases s) auto
    with True 2 show ?thesis by auto
  next
    case False
    with 2 show ?thesis by auto
  qed
qed simp

function trim_prefixes :: "string list \<Rightarrow> string \<Rightarrow> string" where
  "trim_prefixes ps s =
     (case strip_any ps s of None \<Rightarrow> s | Some t \<Rightarrow> trim_prefixes ps t)"
  by pat_completeness auto
termination by (relation "measure (length \<circ> snd)") (auto dest: strip_any_shorter)

declare trim_prefixes.simps [simp del]

definition trim_start :: "string \<Rightarrow> string" where
  "trim_start s = trim_prefixes white_space s"

definition trim_end :: "string \<Rightarrow> string" where
  "trim_end s = rev (trim_prefixes (map rev white_space) (rev s))"

definition trim :: "string \<Rightarrow> string" where
  "trim s = trim_end (trim_start s)"

lemma strip_any_None:
  "strip_any ps s = None \<longleftrightarrow> (\<forall>p \<in> set ps. p = [] \<or> \<not> starts_with p s)"
  by (induction ps s rule: strip_any.induct) auto

lemma strip_any_trim [simp]: "strip_any ps (trim_prefixes ps s) = None"
  by (induction ps s rule: trim_prefixes.induct)
     (subst trim_prefixes.simps, simp split: option.splits)

text \<open>What is left of a string by trimming is a suffix of it: nothing in between changes.\<close>

lemma strip_any_suffix: "strip_any ps s = Some t \<Longrightarrow> \<exists>p. s = p @ t"
  by (induction ps s rule: strip_any.induct)
     (auto split: if_splits intro: append_take_drop_id [symmetric])

lemma trim_prefixes_suffix: "\<exists>p. s = p @ trim_prefixes ps s"
proof (induction ps s rule: trim_prefixes.induct)
  case (1 ps s)
  show ?case
  proof (cases "strip_any ps s")
    case None
    then show ?thesis by (simp add: trim_prefixes.simps [of ps s])
  next
    case (Some t)
    obtain q where s: "s = q @ t" using strip_any_suffix [OF Some] by auto
    obtain p where t: "t = p @ trim_prefixes ps t" using "1.IH" [OF Some] by auto
    have "trim_prefixes ps s = trim_prefixes ps t"
      by (simp add: trim_prefixes.simps [of ps s] Some)
    with s t have "s = (q @ p) @ trim_prefixes ps s" by simp
    then show ?thesis by blast
  qed
qed

lemma trim_prefixes_id: "strip_any ps s = None \<Longrightarrow> trim_prefixes ps s = s"
  by (simp add: trim_prefixes.simps [of ps s])

lemma trim_end_prefix: "\<exists>p. s = trim_end s @ p"
proof -
  obtain p where "rev s = p @ trim_prefixes (map rev white_space) (rev s)"
    using trim_prefixes_suffix by blast
  then have "s = trim_end s @ rev p"
    unfolding trim_end_def by (metis rev_append rev_rev_ident)
  then show ?thesis by blast
qed

text \<open>The first character of a string decides whether its start can be trimmed.\<close>

definition trimmable :: "string \<Rightarrow> bool" where
  "trimmable s \<longleftrightarrow> strip_any white_space s \<noteq> None \<or> strip_any (map rev white_space) (rev s) \<noteq> None"

lemma trim_id: "\<not> trimmable s \<Longrightarrow> trim s = s"
  by (simp add: trimmable_def trim_def trim_start_def trim_end_def trim_prefixes_id)

lemma starts_with_prefix_mono: "starts_with p a \<Longrightarrow> starts_with p (a @ b)"
  by (induction p a rule: starts_with.induct) auto

lemma not_trimmable_trim: "\<not> trimmable (trim s)"
proof -
  define t where "t = trim_start s"
  have start: "strip_any white_space t = None"
    by (simp add: t_def trim_start_def)
  obtain q where t: "t = trim t @ q"
    using trim_end_prefix [of t] start by (auto simp: trim_def trim_start_def trim_prefixes_id)
  have "trim s = trim t"
    using start by (simp add: trim_def t_def trim_start_def trim_prefixes_id)
  moreover have "strip_any white_space (trim t) = None"
    using start t starts_with_prefix_mono unfolding strip_any_None by metis
  moreover have "strip_any (map rev white_space) (rev (trim t)) = None"
    by (simp add: trim_def trim_end_def)
  ultimately show ?thesis by (simp add: trimmable_def)
qed

lemma trim_idem [simp]: "trim (trim s) = trim s"
  by (rule trim_id) (rule not_trimmable_trim)

section \<open>Splitting\<close>

text \<open>\<open>str::splitn(n, c)\<close> for \<open>n \<ge> 1\<close>: at most \<open>n\<close> pieces, the last one the rest.\<close>

fun split_once :: "char \<Rightarrow> string \<Rightarrow> (string \<times> string) option" where
  "split_once c [] = None"
| "split_once c (x # s) =
     (if x = c then Some ([], s)
      else map_option (\<lambda>(a, b). (x # a, b)) (split_once c s))"

fun splitn :: "nat \<Rightarrow> char \<Rightarrow> string \<Rightarrow> string list" where
  "splitn 0 c s = []"
| "splitn (Suc 0) c s = [s]"
| "splitn (Suc (Suc n)) c s =
     (case split_once c s of None \<Rightarrow> [s] | Some (a, b) \<Rightarrow> a # splitn (Suc n) c b)"

lemma split_once_append: "c \<notin> set a \<Longrightarrow> split_once c (a @ c # b) = Some (a, b)"
  by (induction a) auto

lemma split_once_None: "split_once c s = None \<longleftrightarrow> c \<notin> set s"
  by (induction s) auto

lemma split_once_Some: "split_once c s = Some (a, b) \<Longrightarrow> s = a @ c # b \<and> c \<notin> set a"
  by (induction s arbitrary: a) (auto split: if_splits)

lemma length_splitn: "length (splitn n c s) \<le> n"
  by (induction n c s rule: splitn.induct) (auto split: option.splits)

section \<open>Numbers\<close>

definition digit :: "char \<Rightarrow> nat option" where
  "digit c = (let n = of_char c :: nat in if 48 \<le> n \<and> n \<le> 57 then Some (n - 48) else None)"

fun parse_digits :: "nat \<Rightarrow> nat \<Rightarrow> string \<Rightarrow> nat option" where
  "parse_digits bound acc [] = Some acc"
| "parse_digits bound acc (c # s) =
     (case digit c of
        None \<Rightarrow> None
      | Some d \<Rightarrow>
          let acc' = acc * 10 + d in
          if acc' < bound then parse_digits bound acc' s else None)"

text \<open>\<open>str::parse::<uN>()\<close> with \<open>bound = 2 ^ N\<close>: an optional \<open>+\<close>, at least one
  digit, an error on overflow.\<close>

definition parse_uint :: "nat \<Rightarrow> string \<Rightarrow> nat option" where
  "parse_uint bound s =
     (case s of
        [] \<Rightarrow> None
      | c # r \<Rightarrow>
          if c = CHR ''+'' then (if r = [] then None else parse_digits bound 0 r)
          else parse_digits bound 0 (c # r))"

definition parse_u64 :: "string \<Rightarrow> u64 option" where
  "parse_u64 = parse_uint 18446744073709551616"

definition parse_u32 :: "string \<Rightarrow> u32 option" where
  "parse_u32 = parse_uint 4294967296"

definition parse_u16 :: "string \<Rightarrow> nat option" where
  "parse_u16 = parse_uint 65536"

fun show_nat :: "nat \<Rightarrow> string" where
  "show_nat n =
     (if n < 10 then [char_of (48 + n)] else show_nat (n div 10) @ [char_of (48 + n mod 10)])"

declare show_nat.simps [simp del]

lemma digit_char_of: "d < 10 \<Longrightarrow> digit (char_of (48 + d)) = Some d"
  by (simp add: digit_def of_char_of)

lemma parse_digits_append:
  "parse_digits bound acc (s @ t) =
     (case parse_digits bound acc s of None \<Rightarrow> None | Some a \<Rightarrow> parse_digits bound a t)"
  by (induction bound acc s rule: parse_digits.induct) (auto simp: Let_def split: option.splits)

lemma parse_digits_show:
  "n < bound \<Longrightarrow> parse_digits bound 0 (show_nat n) = Some n"
proof (induction n rule: show_nat.induct)
  case (1 n)
  show ?case
  proof (cases "n < 10")
    case True
    with 1 show ?thesis by (subst show_nat.simps) (simp add: digit_char_of)
  next
    case False
    have "parse_digits bound 0 (show_nat (n div 10)) = Some (n div 10)"
      using 1 False by simp
    with False 1 show ?thesis
      by (subst show_nat.simps) (simp add: parse_digits_append digit_char_of Let_def)
  qed
qed

lemma show_nat_ne_Nil [simp]: "show_nat n \<noteq> []"
  by (subst show_nat.simps) auto

lemma digit_show_nat: "c \<in> set (show_nat n) \<Longrightarrow> digit c \<noteq> None"
proof (induction n rule: show_nat.induct)
  case (1 n)
  show ?case
  proof (cases "n < 10")
    case True
    with "1.prems" show ?thesis by (subst (asm) show_nat.simps) (auto simp: digit_char_of)
  next
    case False
    with 1 show ?thesis by (subst (asm) (2) show_nat.simps) (auto simp: digit_char_of)
  qed
qed

lemma nondigit_notin_show_nat: "digit c = None \<Longrightarrow> c \<notin> set (show_nat n)"
  using digit_show_nat by blast

lemma parse_uint_show [simp]:
  assumes "n < bound"
  shows "parse_uint bound (show_nat n) = Some n"
proof (cases "show_nat n")
  case Nil
  then show ?thesis by simp
next
  case (Cons c r)
  have "c \<noteq> CHR ''+''"
    using nondigit_notin_show_nat [of "CHR ''+''" n] Cons by (auto simp: digit_def)
  with parse_digits_show [OF assms] Cons show ?thesis
    by (simp add: parse_uint_def)
qed

lemma parse_digits_bound: "parse_digits bound acc s = Some n \<Longrightarrow> acc < bound \<Longrightarrow> n < bound"
  by (induction bound acc s rule: parse_digits.induct)
     (auto simp: Let_def split: option.splits if_splits)

lemma parse_uint_bound: "parse_uint bound s = Some n \<Longrightarrow> 0 < bound \<Longrightarrow> n < bound"
  by (auto simp del: parse_digits.simps simp: parse_uint_def
      split: list.splits if_splits dest!: parse_digits_bound)

text \<open>Equal numerals come from equal numbers.\<close>

lemma show_nat_inject [simp]: "show_nat a = show_nat b \<longleftrightarrow> a = b"
proof
  assume eq: "show_nat a = show_nat b"
  have a: "parse_digits (Suc (a + b)) 0 (show_nat a) = Some a"
    by (rule parse_digits_show) simp
  have b: "parse_digits (Suc (a + b)) 0 (show_nat b) = Some b"
    by (rule parse_digits_show) simp
  show "a = b" using a [unfolded eq] b by simp
qed simp

end
