(* ===== verification/Nostr_Kinds.thy ===== *)
theory Nostr_Kinds
  imports NMP_Prelude
begin

text \<open>
  The event-kind vocabulary of \<open>src/crates/nmp-kinds/src/lib.rs\<close>: the NIP-01 storage
  classes (regular, replaceable, addressable, ephemeral), the recipient predicate of the
  outbox path and the privacy gates. The lemmas show that the storage classes are disjoint,
  which is what lets the store dispatch on them in sequence.
\<close>

definition KIND_CHAT_MESSAGE :: u32 where
  "KIND_CHAT_MESSAGE = 14"

definition KIND_GIFT_WRAP :: u32 where
  "KIND_GIFT_WRAP = 1059"

definition KIND_RELAY_LIST :: u32 where
  "KIND_RELAY_LIST = 10002"

definition is_replaceable :: "u32 \<Rightarrow> bool" where
  "is_replaceable kind \<longleftrightarrow> kind \<in> {0, 3, 41} \<or> (10000 \<le> kind \<and> kind < 20000)"

definition is_addressable :: "u32 \<Rightarrow> bool" where
  "is_addressable kind \<longleftrightarrow> 30000 \<le> kind \<and> kind < 40000"

definition is_ephemeral :: "u32 \<Rightarrow> bool" where
  "is_ephemeral kind \<longleftrightarrow> 20000 \<le> kind \<and> kind < 30000"

definition ptags_are_recipients :: "u32 \<Rightarrow> bool" where
  "ptags_are_recipients kind \<longleftrightarrow> \<not> (is_replaceable kind \<or> is_addressable kind)"

definition is_encrypted_content_kind :: "u32 \<Rightarrow> bool" where
  "is_encrypted_content_kind kind \<longleftrightarrow> kind \<in> {4, 13, 44, KIND_GIFT_WRAP, 1060}"

definition PRIVATE_RELAY_PROVENANCE_KINDS :: "u32 list" where
  "PRIVATE_RELAY_PROVENANCE_KINDS = [4, 13, KIND_CHAT_MESSAGE, 15, KIND_GIFT_WRAP, 1060]"

definition is_private_relay_provenance_kind :: "u32 \<Rightarrow> bool" where
  "is_private_relay_provenance_kind kind \<longleftrightarrow> kind \<in> set PRIVATE_RELAY_PROVENANCE_KINDS"

definition TOMBSTONE_MAX_AGE_SECS :: u64 where
  "TOMBSTONE_MAX_AGE_SECS = 90 * 24 * 60 * 60"

section \<open>The storage classes are disjoint\<close>

lemma replaceable_not_addressable: "is_replaceable k \<Longrightarrow> \<not> is_addressable k"
  by (auto simp: is_replaceable_def is_addressable_def)

lemma ephemeral_not_stored_class:
  "is_ephemeral k \<Longrightarrow> \<not> is_replaceable k \<and> \<not> is_addressable k"
  by (auto simp: is_replaceable_def is_addressable_def is_ephemeral_def)

lemma kind5_regular:
  "\<not> is_replaceable 5" "\<not> is_addressable 5" "\<not> is_ephemeral 5"
  by (simp_all add: is_replaceable_def is_addressable_def is_ephemeral_def)

lemma private_regular:
  "is_private_relay_provenance_kind k \<Longrightarrow> \<not> is_replaceable k \<and> \<not> is_addressable k"
  by (auto simp: is_private_relay_provenance_kind_def PRIVATE_RELAY_PROVENANCE_KINDS_def
      KIND_CHAT_MESSAGE_def KIND_GIFT_WRAP_def is_replaceable_def is_addressable_def)

end
