(* ===== verification/Store_Types.thy ===== *)
theory Store_Types
  imports NMP_Strings Nostr_Kinds
begin

unbundle bit_operations_syntax

text \<open>
  The value types of the event store, from \<open>src/crates/nmp-store/src/types/\<close>: identifiers
  and their hexadecimal form, events and their tag accessors, insert outcomes, tombstones,
  provenance, queries, delete filters, GC budgets and coverage rows. A tag value or a
  \<open>d\<close> tag is a string here also where the source passes its bytes: the value came out of a
  \<open>String\<close>, so the lossy conversions the source applies to it are the identity.
\<close>

section \<open>Identifiers\<close>

type_synonym event_id = bytes
type_synonym pub_key = bytes
type_synonym relay_url = string

definition as_bytes :: "string \<Rightarrow> bytes" where
  "as_bytes s = map of_char s"

definition hex_nibble :: "byte \<Rightarrow> byte option" where
  "hex_nibble b =
     (if 0x30 \<le> b \<and> b \<le> 0x39 then Some (b - 0x30)
      else if 0x61 \<le> b \<and> b \<le> 0x66 then Some (b - 0x61 + 10)
      else if 0x41 \<le> b \<and> b \<le> 0x46 then Some (b - 0x41 + 10)
      else None)"

text \<open>The loop over \<open>chunks(2)\<close>.\<close>

fun hex_chunks :: "bytes \<Rightarrow> bytes option" where
  "hex_chunks [] = Some []"
| "hex_chunks [h] = None"
| "hex_chunks (h # l # r) =
     do { hi \<leftarrow> hex_nibble h;
          lo \<leftarrow> hex_nibble l;
          rest \<leftarrow> hex_chunks r;
          Some ((push_bit 4 hi OR lo) # rest) }"

definition hex_to_bytes32 :: "string \<Rightarrow> bytes option" where
  "hex_to_bytes32 s = (if length s \<noteq> 64 then None else hex_chunks (as_bytes s))"

definition hex_to_event_id :: "string \<Rightarrow> event_id option" where
  "hex_to_event_id s = hex_to_bytes32 s"

definition is_relay_provenance_private :: "u32 \<Rightarrow> bool" where
  "is_relay_provenance_private kind \<longleftrightarrow> is_private_relay_provenance_kind kind"

section \<open>Events\<close>

record raw_event =
  ev_id :: string
  ev_pubkey :: string
  ev_created_at :: u64
  ev_kind :: u32
  ev_tags :: "string list list"
  ev_content :: string
  ev_sig :: string

record stored_event =
  se_raw :: raw_event
  se_received_at_ms :: u64

definition id_bytes :: "raw_event \<Rightarrow> event_id option" where
  "id_bytes e = hex_to_bytes32 (ev_id e)"

definition pubkey_bytes :: "raw_event \<Rightarrow> pub_key option" where
  "pubkey_bytes e = hex_to_bytes32 (ev_pubkey e)"

definition ev_is_replaceable :: "raw_event \<Rightarrow> bool" where
  "ev_is_replaceable e \<longleftrightarrow> is_replaceable (ev_kind e)"

definition is_param_replaceable :: "raw_event \<Rightarrow> bool" where
  "is_param_replaceable e \<longleftrightarrow> is_addressable (ev_kind e)"

definition ev_is_ephemeral :: "raw_event \<Rightarrow> bool" where
  "ev_is_ephemeral e \<longleftrightarrow> is_ephemeral (ev_kind e)"

text \<open>The first tag with the given name, and the values of all of them.\<close>

definition find_tag :: "string \<Rightarrow> raw_event \<Rightarrow> string option" where
  "find_tag name e =
     do { t \<leftarrow> find (\<lambda>t. get_nth 0 t = Some name) (ev_tags e);
          get_nth 1 t }"

definition tag_values :: "string \<Rightarrow> raw_event \<Rightarrow> string list" where
  "tag_values name e =
     List.map_filter (get_nth 1) (filter (\<lambda>t. get_nth 0 t = Some name) (ev_tags e))"

definition d_tag :: "raw_event \<Rightarrow> string option" where
  "d_tag e = find_tag ''d'' e"

definition expiration :: "raw_event \<Rightarrow> u64 option" where
  "expiration e = do { s \<leftarrow> find_tag ''expiration'' e; parse_u64 s }"

definition e_tags :: "raw_event \<Rightarrow> string list" where
  "e_tags e = tag_values ''e'' e"

definition p_tags :: "raw_event \<Rightarrow> string list" where
  "p_tags e = tag_values ''p'' e"

definition a_tags :: "raw_event \<Rightarrow> string list" where
  "a_tags e = tag_values ''a'' e"

definition is_structurally_valid :: "raw_event \<Rightarrow> bool" where
  "is_structurally_valid e \<longleftrightarrow>
     length (ev_sig e) = 128 \<and> hex_to_bytes32 (ev_id e) \<noteq> None \<and> hex_to_bytes32 (ev_pubkey e) \<noteq> None"

section \<open>Outcomes, tombstones and provenance\<close>

datatype reject_reason = BadSignature | BadDelegation string | Malformed string | ExpiredOnArrival

datatype tombstone_origin = Kind5 | NIP40Expiry | AdminPurgeTomb

datatype insert_outcome =
    Inserted event_id u32
  | Duplicate event_id u32
  | Replaced event_id event_id
  | Superseded event_id event_id
  | Tombstoned event_id "event_id option" tombstone_origin
  | Rejected event_id reject_reason
  | Ephemeral event_id

record tombstone_row =
  tb_target_id :: event_id
  tb_kind5_event_id :: "event_id option"
  tb_deleter_pubkey :: "pub_key option"
  tb_deleted_at :: u64
  tb_sources :: "relay_url list"
  tb_origin :: tombstone_origin

record provenance_entry =
  pe_relay_url :: relay_url
  pe_first_seen_ms :: u64
  pe_last_seen_ms :: u64
  pe_primary :: bool

section \<open>Queries, delete filters and GC budgets\<close>

datatype store_query =
    AuthorKind pub_key "u32 list" "u64 option" "u64 option"
  | AuthorsKind "pub_key list" "u32 list" "u64 option" "u64 option"
  | KindTime "u32 list" "u64 option" "u64 option"
  | KindDtag u32 string "u64 option" "u64 option"
  | Tags "pub_key list" "u32 list" "(char \<times> string list) list" "u64 option" "u64 option"

datatype delete_filter =
    ByRelayOnly relay_url
  | ByAuthor pub_key
  | ByIds "event_id list"
  | ByKindRange u32 u32

record gc_budget =
  gb_max_events_per_step :: usize
  gb_max_duration_ms :: u32
  gb_max_total_events :: usize

definition GC_MAX_EVENTS_PER_STEP :: usize where
  "GC_MAX_EVENTS_PER_STEP = 2000"

definition GC_MAX_DURATION_MS :: u32 where
  "GC_MAX_DURATION_MS = 50"

definition gc_budget_default :: gc_budget where
  "gc_budget_default =
     \<lparr>gb_max_events_per_step = GC_MAX_EVENTS_PER_STEP, gb_max_duration_ms = GC_MAX_DURATION_MS,
      gb_max_total_events = u64_max\<rparr>"

definition gc_budget_production :: gc_budget where
  "gc_budget_production = gc_budget_default"

definition with_durable_event_ceiling :: "usize \<Rightarrow> gc_budget" where
  "with_durable_event_ceiling n = gc_budget_default\<lparr>gb_max_total_events := n\<rparr>"

record gc_report =
  gr_expired_reaped :: usize
  gr_lru_evicted :: usize
  gr_tombstones_purged :: usize
  gr_addr_tombstones_purged :: usize
  gr_duration_ms :: u32

section \<open>Coverage rows\<close>

text \<open>\<open>CoverageMatchFn\<close>: id, author, kind, \<open>created_at\<close> and tags of an event.\<close>

type_synonym coverage_match = "string \<Rightarrow> string \<Rightarrow> u32 \<Rightarrow> u64 \<Rightarrow> string list list \<Rightarrow> bool"

record coverage_guard =
  cg_filter_hash :: string
  cg_relay :: string
  cg_covered_through :: u64
  cg_matches :: coverage_match

definition COVERAGE_KEY_SEP :: char where
  "COVERAGE_KEY_SEP = CHR 0x1F"

definition coverage_key :: "string \<Rightarrow> string \<Rightarrow> string" where
  "coverage_key filter_hash relay = filter_hash @ [COVERAGE_KEY_SEP] @ relay"

text \<open>\<open>std::str::from_utf8\<close>: the well-formed byte sequences of the Unicode standard.\<close>

definition in_range :: "char \<Rightarrow> char \<Rightarrow> char \<Rightarrow> bool" where
  "in_range lo hi c \<longleftrightarrow> lo \<le> c \<and> c \<le> hi"

abbreviation is_cont :: "char \<Rightarrow> bool" where
  "is_cont \<equiv> in_range CHR 0x80 CHR 0xBF"

function valid_utf8 :: "string \<Rightarrow> bool" where
  "valid_utf8 s =
     (case s of
        [] \<Rightarrow> True
      | a # r \<Rightarrow>
          if a \<le> CHR 0x7F then valid_utf8 r
          else if in_range CHR 0xC2 CHR 0xDF a then
            (case r of b # r' \<Rightarrow> is_cont b \<and> valid_utf8 r' | [] \<Rightarrow> False)
          else if in_range CHR 0xE0 CHR 0xEF a then
            (case r of
               b # c # r' \<Rightarrow>
                 (if a = CHR 0xE0 then in_range CHR 0xA0 CHR 0xBF b
                  else if a = CHR 0xED then in_range CHR 0x80 CHR 0x9F b
                  else is_cont b) \<and> is_cont c \<and> valid_utf8 r'
             | _ \<Rightarrow> False)
          else if in_range CHR 0xF0 CHR 0xF4 a then
            (case r of
               b # c # d # r' \<Rightarrow>
                 (if a = CHR 0xF0 then in_range CHR 0x90 CHR 0xBF b
                  else if a = CHR 0xF4 then in_range CHR 0x80 CHR 0x8F b
                  else is_cont b) \<and> is_cont c \<and> is_cont d \<and> valid_utf8 r'
             | _ \<Rightarrow> False)
          else False)"
  by pat_completeness auto
termination by (relation "measure length") auto

declare valid_utf8.simps [simp del]

definition coverage_key_parts :: "string \<Rightarrow> (string \<times> string) option" where
  "coverage_key_parts key =
     do { sep \<leftarrow> find_char (\<lambda>b. b = COVERAGE_KEY_SEP) key;
          let filter_hash = take sep key;
          let relay = drop (sep + 1) key;
          if valid_utf8 filter_hash \<and> valid_utf8 relay then Some (filter_hash, relay) else None }"

section \<open>Errors\<close>

datatype store_error =
    Io string
  | Corrupt string
  | Encoding string
  | SchemaTooNew string u32 u32
  | MigrationFailed string u32 u32 string
  | UnknownNamespace string
  | ReaderExhaustion u32
  | MapFull u64
  | CorruptEnv string
  | VersionMismatch string

section \<open>Example events\<close>

text \<open>Events for the instances at which theorems are evaluated: an id and a public key that
  repeat one hexadecimal digit.\<close>

definition hex64 :: "char \<Rightarrow> string" where
  "hex64 c = replicate 64 c"

definition example_event :: "char \<Rightarrow> char \<Rightarrow> u64 \<Rightarrow> u32 \<Rightarrow> string list list \<Rightarrow> string \<Rightarrow> raw_event" where
  "example_event i a t k tags content =
     \<lparr>ev_id = hex64 i, ev_pubkey = hex64 a, ev_created_at = t, ev_kind = k, ev_tags = tags,
      ev_content = content, ev_sig = replicate 128 (CHR ''0'')\<rparr>"

end
