(* ===== verification/Text_Search.thy ===== *)
theory Text_Search
  imports Store_Types
begin

text \<open>
  Full-text search of the in-memory store: the shared tokenizer
  (\<open>src/crates/nmp-store/src/text_search/\<close>), the inverted index per scope
  (\<open>mem/fts/mod.rs\<close>) and the query (\<open>mem/fts/query.rs\<close>).

  Unicode normalisation (the \<open>unicode-normalization\<close> crate), lower-casing and the
  character class \<open>is_alphanumeric\<close> are parameters; nothing below depends on their
  values. The extractor of a scope is a field of its specification, as in the source.
\<close>

section \<open>Tokenizer\<close>

record text_env =
  te_normalize :: "string \<Rightarrow> nat list" \<comment> \<open>scalar values of the NFKC, lower-cased text\<close>
  te_is_alphanumeric :: "nat \<Rightarrow> bool"

definition MIN_TOKEN_BYTES :: usize where "MIN_TOKEN_BYTES = 2"

definition MAX_TOKENS_PER_DOC :: usize where "MAX_TOKENS_PER_DOC = 256"

definition MAX_TOKEN_BYTES :: usize where "MAX_TOKEN_BYTES = 128"

text \<open>\<open>char::encode_utf8\<close>, which \<open>String::push\<close> applies.\<close>

definition encode_utf8 :: "nat \<Rightarrow> string" where
  "encode_utf8 c =
     (if c < 0x80 then [char_of c]
      else if c < 0x800 then [char_of (0xC0 + c div 64), char_of (0x80 + c mod 64)]
      else if c < 0x10000 then
        [char_of (0xE0 + c div 4096), char_of (0x80 + c div 64 mod 64), char_of (0x80 + c mod 64)]
      else
        [char_of (0xF0 + c div 262144 mod 8), char_of (0x80 + c div 4096 mod 64),
         char_of (0x80 + c div 64 mod 64), char_of (0x80 + c mod 64)])"

definition is_char_boundary :: "string \<Rightarrow> nat \<Rightarrow> bool" where
  "is_char_boundary s i \<longleftrightarrow>
     i = 0 \<or> i = length s \<or> (i < length s \<and> \<not> is_cont (s ! i))"

fun boundary_at_or_below :: "string \<Rightarrow> nat \<Rightarrow> nat" where
  "boundary_at_or_below s 0 = 0"
| "boundary_at_or_below s (Suc n) =
     (if is_char_boundary s (Suc n) then Suc n else boundary_at_or_below s n)"

definition truncate_to_char_boundary :: "string \<Rightarrow> nat \<Rightarrow> string" where
  "truncate_to_char_boundary s max_bytes =
     (if length s \<le> max_bytes then s else take (boundary_at_or_below s max_bytes) s)"

text \<open>\<open>push_token\<close> leaves \<open>cur\<close> empty on both branches.\<close>

definition push_token :: "string list \<Rightarrow> string \<Rightarrow> string list" where
  "push_token out cur =
     (if MIN_TOKEN_BYTES \<le> length cur then
        out @ [if MAX_TOKEN_BYTES < length cur then truncate_to_char_boundary cur MAX_TOKEN_BYTES
               else cur]
      else out)"

fun tokenize_loop :: "text_env \<Rightarrow> string list \<Rightarrow> string \<Rightarrow> nat list \<Rightarrow> string list" where
  "tokenize_loop env out cur [] =
     (if cur \<noteq> [] \<and> length out < MAX_TOKENS_PER_DOC then push_token out cur else out)"
| "tokenize_loop env out cur (ch # chs) =
     (if te_is_alphanumeric env ch then tokenize_loop env out (cur @ encode_utf8 ch) chs
      else if cur \<noteq> [] then
        let out' = push_token out cur in
        if MAX_TOKENS_PER_DOC \<le> length out' then out' else tokenize_loop env out' [] chs
      else tokenize_loop env out cur chs)"

definition tokenize :: "text_env \<Rightarrow> string \<Rightarrow> string list" where
  "tokenize env text = tokenize_loop env [] [] (te_normalize env text)"

definition split_query_terms :: "text_env \<Rightarrow> string \<Rightarrow> string list \<times> string option" where
  "split_query_terms env query =
     (let tokens = tokenize env query in
      if tokens = [] then ([], None) else (butlast tokens, Some (last tokens)))"

definition is_prefix_match :: "string \<Rightarrow> string \<Rightarrow> bool" where
  "is_prefix_match candidate prefix \<longleftrightarrow> starts_with prefix candidate"

section \<open>Scopes, specifications and the index\<close>

record search_scope_id =
  sc_discriminant :: "32 word"
  sc_label :: string

fun fnv1a_32 :: "32 word \<Rightarrow> string \<Rightarrow> 32 word" where
  "fnv1a_32 hash [] = hash"
| "fnv1a_32 hash (b # bs) = fnv1a_32 ((hash XOR of_char b) * 0x01000193) bs"

definition scope_from_label :: "string \<Rightarrow> search_scope_id" where
  "scope_from_label label = \<lparr>sc_discriminant = fnv1a_32 0x811c9dc5 label, sc_label = label\<rparr>"

type_synonym doc_key = bytes

record search_field =
  sf_id :: nat
  sf_weight :: nat

record compiled_index_spec =
  cs_scope_id :: search_scope_id
  cs_kinds :: "u32 list"
  cs_extract :: "stored_event \<Rightarrow> (search_field \<times> string) list"
  cs_local_only_private :: bool

record scope_index =
  si_postings :: "(string \<times> (u64 \<times> doc_key) list) list"
  si_doc_terms :: "(doc_key \<times> string list) list"
  si_doc_meta :: "(doc_key \<times> (u32 \<times> u64)) list"

definition scope_index_default :: scope_index where
  "scope_index_default = \<lparr>si_postings = [], si_doc_terms = [], si_doc_meta = []\<rparr>"

text \<open>The maps are keyed by the discriminant, which alone decides equality of scope ids.\<close>

record fts_state =
  fts_specs :: "(32 word \<times> compiled_index_spec) list"
  fts_indices :: "(32 word \<times> scope_index) list"

definition fts_state_default :: fts_state where
  "fts_state_default = \<lparr>fts_specs = [], fts_indices = []\<rparr>"

definition rev_created_at :: "u64 \<Rightarrow> u64" where
  "rev_created_at created_at = u64_max - created_at"

definition fts_install_one :: "compiled_index_spec \<Rightarrow> fts_state \<Rightarrow> fts_state" where
  "fts_install_one spec fts =
     (let id = sc_discriminant (cs_scope_id spec) in
      fts\<lparr>fts_indices := hm_entry scope_index_default id (\<lambda>i. i) (fts_indices fts),
          fts_specs := hm_insert id spec (fts_specs fts)\<rparr>)"

definition fts_install :: "compiled_index_spec list \<Rightarrow> fts_state \<Rightarrow> fts_state" where
  "fts_install specs fts =
     fold fts_install_one specs (fts\<lparr>fts_specs := [], fts_indices := []\<rparr>)"

definition fts_cache_scopes :: "fts_state \<Rightarrow> (search_scope_id \<times> u32 list) list" where
  "fts_cache_scopes fts = map (\<lambda>(_, spec). (cs_scope_id spec, cs_kinds spec)) (fts_specs fts)"

definition remove_posting ::
  "doc_key \<Rightarrow> string \<Rightarrow> (string \<times> (u64 \<times> doc_key) list) list \<Rightarrow> (string \<times> (u64 \<times> doc_key) list) list" where
  "remove_posting doc tok postings =
     (case map_of postings tok of
        None \<Rightarrow> postings
      | Some ps \<Rightarrow>
          let ps' = filter (\<lambda>(_, d). d \<noteq> doc) ps in
          if ps' = [] then hm_remove tok postings else bm_insert tok ps' postings)"

definition remove_doc_from_scope :: "doc_key \<Rightarrow> scope_index \<Rightarrow> scope_index" where
  "remove_doc_from_scope doc index =
     (let index1 = index\<lparr>si_doc_meta := hm_remove doc (si_doc_meta index)\<rparr> in
      case map_of (si_doc_terms index1) doc of
        None \<Rightarrow> index1
      | Some terms \<Rightarrow>
          index1\<lparr>si_doc_terms := hm_remove doc (si_doc_terms index1),
                 si_postings := fold (remove_posting doc) terms (si_postings index1)\<rparr>)"

definition add_posting ::
  "u64 \<times> doc_key \<Rightarrow> string \<Rightarrow> (string \<times> (u64 \<times> doc_key) list) list \<Rightarrow> (string \<times> (u64 \<times> doc_key) list) list" where
  "add_posting p tok postings = bm_entry [] tok (bs_insert p) postings"

text \<open>The tokens of a stored event under one specification.\<close>

definition spec_tokens :: "text_env \<Rightarrow> compiled_index_spec \<Rightarrow> stored_event \<Rightarrow> string list" where
  "spec_tokens env spec stored =
     bs_of_list (concat (map (\<lambda>(_, text). tokenize env text) (cs_extract spec stored)))"

definition add_doc_to_scope ::
  "doc_key \<Rightarrow> u32 \<Rightarrow> u64 \<Rightarrow> string list \<Rightarrow> scope_index \<Rightarrow> scope_index" where
  "add_doc_to_scope doc kind created_at tokens index =
     (let index1 = remove_doc_from_scope doc index;
          r = rev_created_at created_at
      in index1\<lparr>si_postings := fold (add_posting (r, doc)) tokens (si_postings index1),
                si_doc_terms := hm_insert doc tokens (si_doc_terms index1),
                si_doc_meta := hm_insert doc (kind, created_at) (si_doc_meta index1)\<rparr>)"

definition fts_add_scope ::
  "text_env \<Rightarrow> stored_event \<Rightarrow> doc_key \<Rightarrow> 32 word \<Rightarrow> fts_state \<Rightarrow> fts_state" where
  "fts_add_scope env stored doc scope fts =
     (case map_of (fts_specs fts) scope of
        None \<Rightarrow> fts
      | Some spec \<Rightarrow>
          let tokens = spec_tokens env spec stored in
          if tokens = [] then fts
          else
            fts\<lparr>fts_indices :=
              hm_entry scope_index_default scope
                (add_doc_to_scope doc (ev_kind (se_raw stored)) (ev_created_at (se_raw stored)) tokens)
                (fts_indices fts)\<rparr>)"

definition fts_index_add :: "text_env \<Rightarrow> stored_event \<Rightarrow> fts_state \<Rightarrow> fts_state" where
  "fts_index_add env stored fts =
     (if fts_specs fts = [] then fts
      else
        case id_bytes (se_raw stored) of
          None \<Rightarrow> fts
        | Some doc \<Rightarrow>
            let scope_ids =
              map (\<lambda>(_, spec). sc_discriminant (cs_scope_id spec))
                (filter (\<lambda>(_, spec). ev_kind (se_raw stored) \<in> set (cs_kinds spec)) (fts_specs fts))
            in fold (fts_add_scope env stored doc) scope_ids fts)"

definition fts_index_remove :: "string \<Rightarrow> fts_state \<Rightarrow> fts_state" where
  "fts_index_remove id_hex fts =
     (if fts_indices fts = [] then fts
      else
        case hex_to_event_id id_hex of
          None \<Rightarrow> fts
        | Some doc \<Rightarrow>
            fts\<lparr>fts_indices := hm_map_values (remove_doc_from_scope doc) (fts_indices fts)\<rparr>)"

section \<open>Queries\<close>

datatype text_search_order = NewestFirst | Relevance

record text_search_query =
  tq_scope :: search_scope_id
  tq_query :: string
  tq_kinds :: "u32 list"
  tq_since :: "u64 option"
  tq_until :: "u64 option"
  tq_limit :: usize
  tq_order :: text_search_order
  tq_max_docs_scanned :: usize
  tq_max_matches :: usize

record text_search_hit =
  th_doc :: doc_key
  th_event_id :: "event_id option"
  th_created_at :: u64
  th_score :: u32

datatype text_search_status = Complete | Partial bool | Unsupported | IndexBuilding | StoreError

text \<open>The scan of the postings under the prefix: the documents seen, the number scanned and
  whether the budget ran out. The two loops are left at once when it does.\<close>

fun scan_docs :: "nat \<Rightarrow> (u64 \<times> doc_key) list \<Rightarrow> doc_key list \<Rightarrow> nat \<Rightarrow> doc_key list \<times> nat \<times> bool" where
  "scan_docs budget [] docs n = (docs, n, False)"
| "scan_docs budget ((_, doc) # r) docs n =
     (let docs' = bs_insert doc docs in
      if budget \<le> n + 1 then (docs', n + 1, True) else scan_docs budget r docs' (n + 1))"

fun scan_postings ::
  "nat \<Rightarrow> string \<Rightarrow> (string \<times> (u64 \<times> doc_key) list) list \<Rightarrow> doc_key list \<Rightarrow> nat \<Rightarrow> doc_key list \<times> bool" where
  "scan_postings budget prefix [] docs n = (docs, False)"
| "scan_postings budget prefix ((tok, ps) # r) docs n =
     (if \<not> is_prefix_match tok prefix then (docs, False)
      else
        let (docs', n', exhausted) = scan_docs budget ps docs n in
        if exhausted then (docs', True) else scan_postings budget prefix r docs' n')"

definition has_posting :: "scope_index \<Rightarrow> (u64 \<times> doc_key) list \<Rightarrow> doc_key \<Rightarrow> bool" where
  "has_posting index ps doc \<longleftrightarrow>
     (case map_of (si_doc_meta index) doc of
        Some (_, created_at) \<Rightarrow> (rev_created_at created_at, doc) \<in> set ps
      | None \<Rightarrow> False)"

fun and_terms :: "scope_index \<Rightarrow> string list \<Rightarrow> doc_key list \<Rightarrow> doc_key list" where
  "and_terms index [] docs = docs"
| "and_terms index (t # ts) docs =
     (case map_of (si_postings index) t of
        None \<Rightarrow> []
      | Some ps \<Rightarrow>
          let docs' = filter (has_posting index ps) docs in
          if docs' = [] then [] else and_terms index ts docs')"

definition doc_filter :: "text_search_query \<Rightarrow> u32 \<Rightarrow> u64 \<Rightarrow> bool" where
  "doc_filter q kind created_at \<longleftrightarrow>
     (tq_kinds q = [] \<or> kind \<in> set (tq_kinds q)) \<and>
     (case tq_since q of None \<Rightarrow> True | Some s \<Rightarrow> \<not> created_at < s) \<and>
     (case tq_until q of None \<Rightarrow> True | Some u \<Rightarrow> \<not> created_at > u)"

definition order_docs :: "scope_index \<Rightarrow> doc_key list \<Rightarrow> text_search_query \<Rightarrow> (u64 \<times> doc_key) list" where
  "order_docs index docs q =
     sort (List.map_filter
       (\<lambda>doc. case map_of (si_doc_meta index) doc of
          None \<Rightarrow> None
        | Some (kind, created_at) \<Rightarrow>
            if doc_filter q kind created_at then Some (rev_created_at created_at, doc) else None)
       docs)"

definition collect_candidates ::
  "scope_index \<Rightarrow> string list \<Rightarrow> string \<Rightarrow> text_search_query \<Rightarrow> (u64 \<times> doc_key) list \<times> bool" where
  "collect_candidates index exact_terms prefix q =
     (let range = filter (\<lambda>(tok, _). prefix \<le> tok) (si_postings index);
          (docs, exhausted) = scan_postings (tq_max_docs_scanned q) prefix range [] 0
      in (order_docs index (and_terms index exact_terms docs) q, exhausted))"

text \<open>The visitor is a state transformer that says whether to stop.\<close>

type_synonym 's visitor = "'s \<Rightarrow> text_search_hit \<Rightarrow> 's \<times> bool"

definition mk_hit :: "u64 \<times> doc_key \<Rightarrow> text_search_hit" where
  "mk_hit c =
     \<lparr>th_doc = snd c, th_event_id = Some (snd c), th_created_at = u64_max - fst c, th_score = 1\<rparr>"

fun emit ::
  "text_search_query \<Rightarrow> 's visitor \<Rightarrow> bool \<Rightarrow> (u64 \<times> doc_key) list \<Rightarrow> nat \<Rightarrow> 's \<Rightarrow> 's \<times> text_search_status" where
  "emit q visitor exhausted [] emitted s =
     (s, if exhausted then Partial True else Complete)"
| "emit q visitor exhausted (c # cs) emitted s =
     (if tq_limit q \<le> emitted then (s, if exhausted then Partial True else Partial False)
      else if tq_max_matches q \<le> emitted then (s, Partial True)
      else
        let (s', stop) = visitor s (mk_hit c) in
        if stop then (s', Complete) else emit q visitor exhausted cs (emitted + 1) s')"

definition text_search_visit ::
  "text_env \<Rightarrow> fts_state \<Rightarrow> text_search_query \<Rightarrow> 's visitor \<Rightarrow> 's \<Rightarrow> 's \<times> text_search_status" where
  "text_search_visit env fts q visitor s =
     (case map_of (fts_indices fts) (sc_discriminant (tq_scope q)) of
        None \<Rightarrow> (s, Unsupported)
      | Some index \<Rightarrow>
          let (exact_terms, prefix_term) = split_query_terms env (tq_query q) in
          case prefix_term of
            None \<Rightarrow> (s, Complete)
          | Some prefix \<Rightarrow>
              let (candidates, exhausted) = collect_candidates index exact_terms prefix q in
              emit q visitor exhausted candidates 0 s)"

section \<open>The index invariant\<close>

definition pget :: "(string \<times> (u64 \<times> doc_key) list) list \<Rightarrow> string \<Rightarrow> (u64 \<times> doc_key) list" where
  "pget postings tok = unwrap_or [] (map_of postings tok)"

text \<open>The buckets are ordered, non-empty sets, and a posting is there exactly for the terms
  recorded for a document that has metadata, under its reversed timestamp.\<close>

definition si_shape :: "scope_index \<Rightarrow> bool" where
  "si_shape index \<longleftrightarrow>
     bm_wf (si_postings index) \<and>
     (\<forall>tok ps. map_of (si_postings index) tok = Some ps \<longrightarrow> ps \<noteq> [] \<and> bs_wf ps) \<and>
     hm_wf (si_doc_terms index) \<and> hm_wf (si_doc_meta index) \<and>
     hm_keys (si_doc_terms index) = hm_keys (si_doc_meta index)"

definition si_posts :: "scope_index \<Rightarrow> bool" where
  "si_posts index \<longleftrightarrow>
     (\<forall>tok r doc. (r, doc) \<in> set (pget (si_postings index) tok) \<longleftrightarrow>
        (\<exists>terms kind c. map_of (si_doc_terms index) doc = Some terms \<and> tok \<in> set terms \<and>
           map_of (si_doc_meta index) doc = Some (kind, c) \<and> r = rev_created_at c))"

definition si_inv :: "scope_index \<Rightarrow> bool" where
  "si_inv index \<longleftrightarrow> si_shape index \<and> si_posts index"

definition fts_inv :: "fts_state \<Rightarrow> bool" where
  "fts_inv fts \<longleftrightarrow> hm_wf (fts_specs fts) \<and> hm_wf (fts_indices fts) \<and>
     (\<forall>scope index. map_of (fts_indices fts) scope = Some index \<longrightarrow> si_inv index)"

definition fts_docs :: "fts_state \<Rightarrow> doc_key set" where
  "fts_docs fts = {doc. \<exists>scope index. map_of (fts_indices fts) scope = Some index \<and>
     doc \<in> hm_keys (si_doc_meta index)}"

lemma pget_remove_posting:
  "pget (remove_posting d t ps) t' =
     (if t' = t then filter (\<lambda>(_, x). x \<noteq> d) (pget ps t') else pget ps t')"
  by (auto simp: remove_posting_def pget_def Let_def hash_map.get_del map_of_bm_insert split: option.splits)

lemma pget_fold_remove_posting:
  "pget (fold (remove_posting d) ts ps) t' =
     (if t' \<in> set ts then filter (\<lambda>(_, x). x \<noteq> d) (pget ps t') else pget ps t')"
  by (induction ts arbitrary: ps) (auto simp: pget_remove_posting intro: filter_cong)

lemma pget_add_posting:
  "pget (add_posting p t ps) t' = (if t' = t then bs_insert p (pget ps t') else pget ps t')"
  by (auto simp: add_posting_def pget_def bm_get_entry)

lemma set_pget_fold_add_posting:
  "set (pget (fold (add_posting p) ts ps) t') =
     (if t' \<in> set ts then insert p (set (pget ps t')) else set (pget ps t'))"
  by (induction ts arbitrary: ps) (auto simp: pget_add_posting)

definition buckets_ok :: "(string \<times> (u64 \<times> doc_key) list) list \<Rightarrow> bool" where
  "buckets_ok postings \<longleftrightarrow> bm_wf postings \<and>
     (\<forall>tok ps. map_of postings tok = Some ps \<longrightarrow> ps \<noteq> [] \<and> bs_wf ps)"

lemma buckets_ok_remove_posting: "buckets_ok ps \<Longrightarrow> buckets_ok (remove_posting d t ps)"
  by (auto simp: buckets_ok_def remove_posting_def Let_def bm_wf_insert bm_wf_remove hash_map.get_del
      map_of_bm_insert sorted_wrt_filter split: option.splits if_splits)

lemma insort_insert_ne_Nil [simp]: "insort_insert x xs \<noteq> []"
proof
  assume "insort_insert x xs = []"
  then have "set (insort_insert x xs) = {}" by (simp only: list.set)
  then show False by simp
qed

lemma buckets_ok_add_posting: "buckets_ok ps \<Longrightarrow> buckets_ok (add_posting p t ps)"
  by (auto simp: buckets_ok_def add_posting_def bm_wf_entry bm_get_entry unwrap_or_def
      intro!: bs_wf_insert split: option.splits if_splits)

lemma buckets_ok_fold_remove: "buckets_ok ps \<Longrightarrow> buckets_ok (fold (remove_posting d) ts ps)"
  by (induction ts arbitrary: ps) (auto intro: buckets_ok_remove_posting)

lemma buckets_ok_fold_add: "buckets_ok ps \<Longrightarrow> buckets_ok (fold (add_posting p) ts ps)"
  by (induction ts arbitrary: ps) (auto intro: buckets_ok_add_posting)

lemma si_shape_buckets:
  "si_shape index \<longleftrightarrow> buckets_ok (si_postings index) \<and> hm_wf (si_doc_terms index) \<and>
     hm_wf (si_doc_meta index) \<and> hm_keys (si_doc_terms index) = hm_keys (si_doc_meta index)"
  by (auto simp: si_shape_def buckets_ok_def)

lemma remove_doc_fields:
  assumes "si_shape index"
  shows "si_doc_meta (remove_doc_from_scope doc index) = hm_remove doc (si_doc_meta index)"
    and "map_of (si_doc_terms (remove_doc_from_scope doc index)) = (map_of (si_doc_terms index))(doc := None)"
    and "si_postings (remove_doc_from_scope doc index) =
      fold (remove_posting doc) (unwrap_or [] (map_of (si_doc_terms index) doc)) (si_postings index)"
  using assms
  by (auto simp: remove_doc_from_scope_def Let_def hash_map.get_del fun_eq_iff split: option.splits)

lemma si_shape_remove:
  assumes "si_shape index"
  shows "si_shape (remove_doc_from_scope doc index)"
proof -
  have terms: "hm_wf (si_doc_terms (remove_doc_from_scope doc index))"
    using assms by (auto simp: remove_doc_from_scope_def Let_def si_shape_def hash_map.wf_del split: option.splits)
  have "hm_keys (si_doc_terms (remove_doc_from_scope doc index)) = hm_keys (si_doc_terms index) - {doc}"
    by (auto simp: hm_keys_map_of remove_doc_fields [OF assms] split: if_splits)
  with terms assms show ?thesis
    by (auto simp: si_shape_buckets remove_doc_fields [OF assms] hash_map.wf_del
        intro!: buckets_ok_fold_remove)
qed

lemma posts_after_remove:
  assumes "si_inv index"
  shows "(r, d) \<in> set (pget (si_postings (remove_doc_from_scope doc index)) tok) \<longleftrightarrow>
    d \<noteq> doc \<and> (r, d) \<in> set (pget (si_postings index) tok)"
proof -
  have shape: "si_shape index" and posts: "si_posts index" using assms by (simp_all add: si_inv_def)
  have "tok \<in> set (unwrap_or [] (map_of (si_doc_terms index) doc))"
    if "(r, doc) \<in> set (pget (si_postings index) tok)"
    using that posts unfolding si_posts_def by auto
  then show ?thesis
    by (auto simp: remove_doc_fields(3) [OF shape] pget_fold_remove_posting)
qed

lemma si_inv_remove: "si_inv index \<Longrightarrow> si_inv (remove_doc_from_scope doc index)"
proof -
  assume inv: "si_inv index"
  then have shape: "si_shape index" and posts: "si_posts index" by (simp_all add: si_inv_def)
  have "si_posts (remove_doc_from_scope doc index)"
    unfolding si_posts_def posts_after_remove [OF inv]
    using posts [unfolded si_posts_def]
    by (auto simp: remove_doc_fields [OF shape] hash_map.get_del)
  with si_shape_remove [OF shape] show ?thesis by (simp add: si_inv_def)
qed

lemma si_inv_add:
  assumes "si_inv index"
  shows "si_inv (add_doc_to_scope doc kind created_at tokens index)"
proof -
  define index1 where "index1 = remove_doc_from_scope doc index"
  have inv1: "si_inv index1" using assms by (simp add: index1_def si_inv_remove)
  then have shape1: "si_shape index1" and posts1: "si_posts index1" by (simp_all add: si_inv_def)
  have shape: "si_shape index" using assms by (simp add: si_inv_def)
  have gone: "map_of (si_doc_terms index1) doc = None"
    unfolding index1_def remove_doc_fields [OF shape] by simp
  have eq: "add_doc_to_scope doc kind created_at tokens index =
      index1\<lparr>si_postings := fold (add_posting (rev_created_at created_at, doc)) tokens (si_postings index1),
             si_doc_terms := hm_insert doc tokens (si_doc_terms index1),
             si_doc_meta := hm_insert doc (kind, created_at) (si_doc_meta index1)\<rparr>"
    by (simp add: add_doc_to_scope_def index1_def Let_def)
  have "si_shape (add_doc_to_scope doc kind created_at tokens index)"
    using shape1 by (auto simp: eq si_shape_buckets hash_map.wf_put intro!: buckets_ok_fold_add)
  moreover have "si_posts (add_doc_to_scope doc kind created_at tokens index)"
    using posts1 gone unfolding eq si_posts_def
    by (auto simp: set_pget_fold_add_posting hash_map.get_put)
  ultimately show ?thesis by (simp add: si_inv_def)
qed

lemma si_inv_default: "si_inv scope_index_default"
  by (simp add: si_inv_def si_shape_def si_posts_def scope_index_default_def pget_def)

section \<open>Index maintenance\<close>

lemma fts_add_scope_specs [simp]: "fts_specs (fts_add_scope env stored doc scope fts) = fts_specs fts"
  by (auto simp: fts_add_scope_def Let_def split: option.splits)

lemma fts_inv_add_scope: "fts_inv fts \<Longrightarrow> fts_inv (fts_add_scope env stored doc scope fts)"
  by (auto simp: fts_add_scope_def fts_inv_def Let_def hm_wf_entry hm_get_entry unwrap_or_def
      split: option.splits if_splits intro!: si_inv_add si_inv_default)

lemma fts_inv_fold_add: "fts_inv fts \<Longrightarrow> fts_inv (fold (fts_add_scope env stored doc) scopes fts)"
  by (induction scopes arbitrary: fts) (auto intro: fts_inv_add_scope)

lemma fts_inv_index_add: "fts_inv fts \<Longrightarrow> fts_inv (fts_index_add env stored fts)"
  by (auto simp: fts_index_add_def Let_def intro: fts_inv_fold_add split: option.splits)

lemma fts_inv_index_remove: "fts_inv fts \<Longrightarrow> fts_inv (fts_index_remove id_hex fts)"
  by (auto simp: fts_index_remove_def fts_inv_def hm_wf_map_values hm_get_map_values si_inv_remove
      split: option.splits)

lemma fts_inv_install: "fts_inv (fts_install specs fts)"
proof -
  have "fts_inv (fold fts_install_one specs f)" if "fts_inv f" for f
    using that
  proof (induction specs arbitrary: f)
    case (Cons spec specs)
    have "fts_inv (fts_install_one spec f)"
      using Cons.prems
      by (auto simp: fts_install_one_def fts_inv_def Let_def hm_wf_entry hm_get_entry hash_map.wf_put
          unwrap_or_def si_inv_default split: option.splits if_splits)
    then show ?case using Cons.IH by simp
  qed simp
  moreover have "fts_inv (fts\<lparr>fts_specs := [], fts_indices := []\<rparr>)" by (simp add: fts_inv_def)
  ultimately show ?thesis by (simp add: fts_install_def)
qed

lemma fts_docs_add_scope:
  assumes "fts_inv fts"
  shows "fts_docs (fts_add_scope env stored doc scope fts) \<subseteq> insert doc (fts_docs fts)"
proof -
  have *: "hm_keys (si_doc_meta (add_doc_to_scope doc k c tokens index)) \<subseteq>
      insert doc (hm_keys (si_doc_meta index))" for k c tokens index
    by (auto simp: add_doc_to_scope_def remove_doc_from_scope_def Let_def split: option.splits)
  show ?thesis
    using * by (fastforce simp: fts_add_scope_def fts_docs_def Let_def hm_get_entry unwrap_or_def
        scope_index_default_def split: option.splits if_splits)
qed

lemma fts_docs_fold_add:
  "fts_inv fts \<Longrightarrow>
     fts_docs (fold (fts_add_scope env stored doc) scopes fts) \<subseteq> insert doc (fts_docs fts)"
proof (induction scopes arbitrary: fts)
  case (Cons scope scopes)
  have "fts_docs (fold (fts_add_scope env stored doc) scopes (fts_add_scope env stored doc scope fts))
      \<subseteq> insert doc (fts_docs (fts_add_scope env stored doc scope fts))"
    by (rule Cons.IH) (rule fts_inv_add_scope [OF Cons.prems])
  with fts_docs_add_scope [OF Cons.prems, of env stored doc scope] show ?case by auto
qed auto

lemma fts_docs_index_add:
  "fts_inv fts \<Longrightarrow> id_bytes (se_raw stored) = Some doc \<Longrightarrow>
     fts_docs (fts_index_add env stored fts) \<subseteq> insert doc (fts_docs fts)"
  by (auto simp: fts_index_add_def Let_def dest: subsetD [OF fts_docs_fold_add])

lemma meta_remove_doc: "si_doc_meta (remove_doc_from_scope doc index) = hm_remove doc (si_doc_meta index)"
  by (simp add: remove_doc_from_scope_def Let_def split: option.splits)

lemma fts_docs_index_remove:
  "hex_to_event_id id_hex = Some doc \<Longrightarrow>
     fts_docs (fts_index_remove id_hex fts) = fts_docs fts - {doc}"
  by (auto simp: fts_index_remove_def fts_docs_def hm_get_map_values meta_remove_doc; fastforce simp: meta_remove_doc)

lemma fts_docs_install: "fts_docs (fts_install specs fts) = {}"
proof -
  have "fts_docs (fold fts_install_one specs f) = {}" if "fts_docs f = {}" for f
    using that
  proof (induction specs arbitrary: f)
    case (Cons spec specs)
    have "fts_docs (fts_install_one spec f) = {}"
      using Cons.prems
      by (auto simp: fts_install_one_def fts_docs_def Let_def hm_get_entry unwrap_or_def
          scope_index_default_def split: option.splits if_splits)
    then show ?case using Cons.IH by simp
  qed simp
  moreover have "fts_docs (fts\<lparr>fts_specs := [], fts_indices := []\<rparr>) = {}" by (simp add: fts_docs_def)
  ultimately show ?thesis by (simp add: fts_install_def)
qed

text \<open>An indexed event is found under each of its tokens.\<close>

lemma add_doc_terms:
  "map_of (si_doc_terms (add_doc_to_scope doc k c tokens index)) doc = Some tokens"
  "map_of (si_doc_meta (add_doc_to_scope doc k c tokens index)) doc = Some (k, c)"
  by (simp_all add: add_doc_to_scope_def Let_def hash_map.get_put)

section \<open>Tokens\<close>

lemma boundary_le: "boundary_at_or_below s n \<le> n"
  by (induction n) auto

lemma push_token_bounds:
  assumes "\<forall>t \<in> set out. length t \<le> MAX_TOKEN_BYTES"
  shows "\<forall>t \<in> set (push_token out cur). length t \<le> MAX_TOKEN_BYTES"
proof -
  have "length (take (boundary_at_or_below cur MAX_TOKEN_BYTES) cur) \<le> MAX_TOKEN_BYTES"
    using boundary_le [of cur MAX_TOKEN_BYTES] by simp
  with assms show ?thesis by (auto simp: push_token_def truncate_to_char_boundary_def)
qed

lemma length_push_token: "length (push_token out cur) \<le> Suc (length out)"
  by (simp add: push_token_def)

lemma tokenize_loop_bounds:
  "length out < MAX_TOKENS_PER_DOC \<Longrightarrow> \<forall>t \<in> set out. length t \<le> MAX_TOKEN_BYTES \<Longrightarrow>
     length (tokenize_loop env out cur chs) \<le> MAX_TOKENS_PER_DOC \<and>
     (\<forall>t \<in> set (tokenize_loop env out cur chs). length t \<le> MAX_TOKEN_BYTES)"
proof (induction env out cur chs rule: tokenize_loop.induct)
  case (1 env out cur)
  then show ?case using push_token_bounds [of out cur] length_push_token [of out cur] by auto
next
  case (2 env out cur ch chs)
  show ?case
    using 2 push_token_bounds [of out cur] length_push_token [of out cur]
    by (auto simp: Let_def not_le simp del: tokenize_loop.simps
        simp: tokenize_loop.simps(2) [of env out cur ch chs])
qed

section \<open>What a search sees\<close>

text \<open>A document matches a query in a scope when it has metadata within the filters, every
  exact term is one of its terms, and so is some token with the trailing prefix.\<close>

definition doc_matches :: "scope_index \<Rightarrow> string list \<Rightarrow> string \<Rightarrow> text_search_query \<Rightarrow> doc_key \<Rightarrow> bool" where
  "doc_matches index exact prefix q doc \<longleftrightarrow>
     (\<exists>terms kind c. map_of (si_doc_terms index) doc = Some terms \<and>
        map_of (si_doc_meta index) doc = Some (kind, c) \<and>
        set exact \<subseteq> set terms \<and> (\<exists>tok \<in> set terms. is_prefix_match tok prefix) \<and>
        doc_filter q kind c)"

lemma starts_with_le: "starts_with p s \<Longrightarrow> p \<le> s"
  by (induction p s rule: starts_with.induct) auto

lemma starts_with_between:
  "starts_with p u \<Longrightarrow> p \<le> t \<Longrightarrow> t \<le> u \<Longrightarrow> starts_with p t"
proof (induction p u arbitrary: t rule: starts_with.induct)
  case (3 p ps c s)
  then show ?case by (cases t) (auto simp: less_le)
qed auto

lemma scan_docs_result:
  "scan_docs budget ps docs n = (docs', n', ex) \<Longrightarrow>
     set docs' \<subseteq> set docs \<union> snd ` set ps \<and> (\<not> ex \<longrightarrow> set docs' = set docs \<union> snd ` set ps)"
  by (induction budget ps docs n arbitrary: docs' rule: scan_docs.induct)
     (force simp: Let_def split: if_splits)+

definition under_prefix :: "string \<Rightarrow> (string \<times> (u64 \<times> doc_key) list) list \<Rightarrow> doc_key set" where
  "under_prefix prefix ps = {d. \<exists>tok b r. (tok, b) \<in> set ps \<and> is_prefix_match tok prefix \<and> (r, d) \<in> set b}"

lemma under_prefix_Nil [simp]: "under_prefix prefix [] = {}"
  by (simp add: under_prefix_def)

lemma under_prefix_Cons [simp]:
  "under_prefix prefix ((tok, b) # r) =
     (if is_prefix_match tok prefix then snd ` set b else {}) \<union> under_prefix prefix r"
  by (auto simp: under_prefix_def) (force | blast)+

text \<open>In an ascending map the scan stops at the first key without the prefix, and no later
  key has it.\<close>

lemma scan_postings_result:
  "scan_postings budget prefix ps docs n = (docs', ex) \<Longrightarrow> bm_wf ps \<Longrightarrow>
     \<forall>tok \<in> hm_keys ps. prefix \<le> tok \<Longrightarrow>
     set docs' \<subseteq> set docs \<union> under_prefix prefix ps \<and>
     (\<not> ex \<longrightarrow> set docs' = set docs \<union> under_prefix prefix ps)"
proof (induction budget prefix ps docs n arbitrary: docs' rule: scan_postings.induct)
  case (1 budget prefix docs n)
  then show ?case by simp
next
  case (2 budget prefix tok b r docs n)
  show ?case
  proof (cases "is_prefix_match tok prefix")
    case False
    have "\<not> is_prefix_match t prefix" if "(t, x) \<in> set ((tok, b) # r)" for t x
    proof
      assume t: "is_prefix_match t prefix"
      have "tok \<le> t" using that 2 by (auto simp: less_le)
      moreover have "prefix \<le> tok" using 2 by (simp add: hm_keys_def)
      ultimately have "starts_with prefix tok"
        using t starts_with_between by (auto simp: is_prefix_match_def)
      with False show False by (simp add: is_prefix_match_def)
    qed
    then have "under_prefix prefix ((tok, b) # r) = {}"
      unfolding under_prefix_def by blast
    with 2 False show ?thesis by simp
  next
    case True
    obtain d1 n1 e1 where s: "scan_docs budget b docs n = (d1, n1, e1)" by (metis prod_cases3)
    note r1 = scan_docs_result [OF s]
    show ?thesis
    proof (cases e1)
      case e1: True
      have "docs' = d1" "ex" using s 2 True e1 by simp_all
      with r1 True show ?thesis by auto
    next
      case False
      have rest: "scan_postings budget prefix r d1 n1 = (docs', ex)"
        using 2 s False True by simp
      have "set docs' \<subseteq> set d1 \<union> under_prefix prefix r \<and>
         (\<not> ex \<longrightarrow> set docs' = set d1 \<union> under_prefix prefix r)"
        using True s False rest "2.prems"
        by (intro "2.IH" [of "(d1, n1, e1)" d1 "(n1, e1)" n1 e1]) (auto simp: hm_keys_def)
      moreover have "set d1 = set docs \<union> snd ` set b" using r1 False by simp
      ultimately show ?thesis using True by auto
    qed
  qed
qed

lemma pget_mem: "p \<in> set (pget P tok) \<longleftrightarrow> (\<exists>b. map_of P tok = Some b \<and> p \<in> set b)"
  by (cases "map_of P tok") (simp_all add: pget_def)

lemma has_posting_iff:
  assumes "si_inv index" and "map_of (si_postings index) t = Some ps"
  shows "has_posting index ps doc \<longleftrightarrow>
    (\<exists>terms. map_of (si_doc_terms index) doc = Some terms \<and> t \<in> set terms)"
proof -
  have ps: "ps = pget (si_postings index) t" using assms(2) by (simp add: pget_def)
  have posts: "(r, doc) \<in> set ps \<longleftrightarrow>
      (\<exists>terms kind c. map_of (si_doc_terms index) doc = Some terms \<and> t \<in> set terms \<and>
         map_of (si_doc_meta index) doc = Some (kind, c) \<and> r = rev_created_at c)" for r
    using assms(1) unfolding ps si_inv_def si_posts_def by blast
  have keys: "doc \<in> hm_keys (si_doc_terms index) \<longleftrightarrow> doc \<in> hm_keys (si_doc_meta index)"
    using assms(1) by (simp add: si_inv_def si_shape_def)
  show ?thesis
    using posts keys by (auto simp: has_posting_def hm_keys_map_of split: option.splits)
qed

lemma set_and_terms:
  "si_inv index \<Longrightarrow>
     set (and_terms index ts docs) =
       {d \<in> set docs. \<forall>t \<in> set ts. \<exists>terms. map_of (si_doc_terms index) d = Some terms \<and> t \<in> set terms}"
proof (induction ts arbitrary: docs)
  case (Cons t ts)
  show ?case
  proof (cases "map_of (si_postings index) t")
    case None
    then have "pget (si_postings index) t = []" by (simp add: pget_def)
    then have "\<not> (\<exists>terms kind c. map_of (si_doc_terms index) d = Some terms \<and> t \<in> set terms \<and>
         map_of (si_doc_meta index) d = Some (kind, c))" for d
      using Cons.prems unfolding si_inv_def si_posts_def by (metis empty_iff list.set(1))
    moreover have "map_of (si_doc_terms index) d = Some terms \<Longrightarrow>
        \<exists>kind c. map_of (si_doc_meta index) d = Some (kind, c)" for d terms
      using Cons.prems by (metis hm_get_Some_keys hm_keys_map_of not_None_eq si_inv_def si_shape_def surj_pair)
    ultimately have "map_of (si_doc_terms index) d = Some terms \<Longrightarrow> t \<notin> set terms" for d terms by blast
    with None show ?thesis by auto
  next
    case (Some ps)
    let ?docs = "filter (has_posting index ps) docs"
    have "set (and_terms index (t # ts) docs) = set (and_terms index ts ?docs)"
      using Cons.IH [OF Cons.prems, of "[]"] by (simp add: Some Let_def)
    then show ?thesis
      using Cons.IH [OF Cons.prems, of ?docs] has_posting_iff [OF Cons.prems Some] by auto
  qed
qed simp

lemma set_order_docs:
  "set (order_docs index docs q) =
     {(rev_created_at c, d) | d kind c. d \<in> set docs \<and>
        map_of (si_doc_meta index) d = Some (kind, c) \<and> doc_filter q kind c}"
proof -
  have "(case map_of (si_doc_meta index) d of None \<Rightarrow> None
         | Some (kind, c) \<Rightarrow> if doc_filter q kind c then Some (rev_created_at c, d) else None) = Some y \<longleftrightarrow>
       (\<exists>kind c. map_of (si_doc_meta index) d = Some (kind, c) \<and> doc_filter q kind c \<and> y = (rev_created_at c, d))"
    for d y by (auto split: option.splits if_splits)
  then show ?thesis unfolding order_docs_def set_sort set_map_filter_iff by blast
qed

lemma collect_candidates_result:
  assumes inv: "si_inv index"
    and c: "collect_candidates index exact prefix q = (cands, ex)"
  shows "sorted cands" and "snd ` set cands \<subseteq> {d. doc_matches index exact prefix q d}"
    and "\<not> ex \<Longrightarrow> snd ` set cands = {d. doc_matches index exact prefix q d}"
proof -
  define range where "range = filter (\<lambda>(tok, _). prefix \<le> tok) (si_postings index)"
  obtain docs ex' where scan: "scan_postings (tq_max_docs_scanned q) prefix range [] 0 = (docs, ex')"
    by fastforce
  have cands: "cands = order_docs index (and_terms index exact docs) q" and ex: "ex' = ex"
    using c scan by (simp_all add: collect_candidates_def range_def)
  show "sorted cands" by (simp add: cands order_docs_def)
  have shape: "si_shape index" and posts: "si_posts index" using inv by (simp_all add: si_inv_def)
  have bm: "bm_wf (si_postings index)" using shape by (simp add: si_shape_def)
  have wf_range: "bm_wf range"
    using bm unfolding range_def by (induction "si_postings index") (auto simp: sorted_wrt_map intro: sorted_wrt_filter)
  have ge: "\<forall>tok \<in> hm_keys range. prefix \<le> tok" by (auto simp: range_def hm_keys_def)
  have under: "d \<in> under_prefix prefix range \<longleftrightarrow>
      (\<exists>terms kind c. map_of (si_doc_terms index) d = Some terms \<and>
         map_of (si_doc_meta index) d = Some (kind, c) \<and> (\<exists>tok \<in> set terms. is_prefix_match tok prefix))" for d
  proof -
    have "(tok, b) \<in> set range \<and> is_prefix_match tok prefix \<longleftrightarrow>
        map_of (si_postings index) tok = Some b \<and> is_prefix_match tok prefix" for tok b
      using hm_mem_iff [OF bm_wf_distinct [OF bm]] starts_with_le
      by (auto simp: range_def is_prefix_match_def)
    then have "d \<in> under_prefix prefix range \<longleftrightarrow>
        (\<exists>tok r. is_prefix_match tok prefix \<and> (r, d) \<in> set (pget (si_postings index) tok))"
      unfolding under_prefix_def mem_Collect_eq pget_mem by blast
    also have "\<dots> \<longleftrightarrow> (\<exists>terms kind c. map_of (si_doc_terms index) d = Some terms \<and>
         map_of (si_doc_meta index) d = Some (kind, c) \<and> (\<exists>tok \<in> set terms. is_prefix_match tok prefix))"
      using posts unfolding si_posts_def by blast
    finally show ?thesis .
  qed
  have set_cands: "snd ` set cands = {d \<in> set docs. \<exists>kind c. map_of (si_doc_meta index) d = Some (kind, c) \<and>
      doc_filter q kind c \<and>
      (\<forall>t \<in> set exact. \<exists>terms. map_of (si_doc_terms index) d = Some terms \<and> t \<in> set terms)}"
    unfolding cands set_order_docs set_and_terms [OF inv] by force
  note result = scan_postings_result [OF scan wf_range ge]
  have matches: "doc_matches index exact prefix q d \<longleftrightarrow> d \<in> under_prefix prefix range \<and>
     (\<exists>kind c. map_of (si_doc_meta index) d = Some (kind, c) \<and> doc_filter q kind c) \<and>
      (\<forall>t \<in> set exact. \<exists>terms. map_of (si_doc_terms index) d = Some terms \<and> t \<in> set terms)" for d
    unfolding under doc_matches_def by fastforce
  show "snd ` set cands \<subseteq> {d. doc_matches index exact prefix q d}"
    unfolding set_cands using matches result by fastforce
  show "snd ` set cands = {d. doc_matches index exact prefix q d}" if "\<not> ex"
    unfolding set_cands using matches result that ex by fastforce
qed

text \<open>The visitor that collects every hit.\<close>

definition collect_hits :: "text_search_hit list visitor" where
  "collect_hits hits h = (hits @ [h], False)"

lemma emit_collect:
  "n \<le> min (tq_limit q) (tq_max_matches q) \<Longrightarrow> emit q collect_hits ex cs n hits =
     (hits @ map mk_hit (take (min (tq_limit q) (tq_max_matches q) - n) cs),
      if length cs \<le> min (tq_limit q) (tq_max_matches q) - n then (if ex then Partial True else Complete)
      else if ex \<or> tq_max_matches q < tq_limit q then Partial True else Partial False)"
proof (induction cs arbitrary: n hits)
  case (Cons c cs)
  show ?case
  proof (cases "n < min (tq_limit q) (tq_max_matches q)")
    case True
    then have "emit q collect_hits ex (c # cs) n hits = emit q collect_hits ex cs (n + 1) (hits @ [mk_hit c])"
      by (simp add: collect_hits_def)
    moreover have "min (tq_limit q) (tq_max_matches q) - n = Suc (min (tq_limit q) (tq_max_matches q) - (n + 1))"
      using True by arith
    ultimately show ?thesis using Cons.IH [of "n + 1"] True by simp
  next
    case False
    then have "n = min (tq_limit q) (tq_max_matches q)" using Cons.prems by (auto simp: min_def)
    then show ?thesis by (auto simp: min_def)
  qed
qed simp

text \<open>C15. A text search returns only matching documents, newest first and within the limit
  and the match budget; and when it reports \<open>Complete\<close>, it has returned every matching
  document of the scope. A truncated scan is therefore never reported as complete, and never
  returns a document outside the intersection of the query terms.\<close>

theorem text_search_sound_complete:
  assumes "fts_inv fts"
    and "map_of (fts_indices fts) (sc_discriminant (tq_scope q)) = Some index"
    and "split_query_terms env (tq_query q) = (exact, Some prefix)"
    and "text_search_visit env fts q collect_hits [] = (hits, status)"
  shows "th_doc ` set hits \<subseteq> {d. doc_matches index exact prefix q d} \<and>
    length hits \<le> min (tq_limit q) (tq_max_matches q) \<and>
    sorted_wrt (\<lambda>a b. th_created_at a \<ge> th_created_at b) hits \<and>
    (status = Complete \<longrightarrow> th_doc ` set hits = {d. doc_matches index exact prefix q d})"
proof -
  let ?n = "min (tq_limit q) (tq_max_matches q)"
  obtain cands ex where c: "collect_candidates index exact prefix q = (cands, ex)" by fastforce
  have inv: "si_inv index" using assms(1,2) by (auto simp: fts_inv_def)
  note cands = collect_candidates_result [OF inv c]
  have hits: "hits = map mk_hit (take ?n cands)"
    and status: "status = Complete \<longrightarrow> length cands \<le> ?n \<and> \<not> ex"
    using assms(2-4) c by (auto simp: text_search_visit_def emit_collect split: if_splits)
  have docs: "th_doc ` set hits = snd ` set (take ?n cands)"
    by (simp add: hits mk_hit_def image_image)
  have "sorted_wrt (\<lambda>a b. th_created_at (mk_hit a) \<ge> th_created_at (mk_hit b)) (take ?n cands)"
    by (rule sorted_wrt_mono_rel [OF _ sorted_wrt_take [OF cands(1)]])
       (auto simp: mk_hit_def less_eq_prod_def)
  then have "sorted_wrt (\<lambda>a b. th_created_at a \<ge> th_created_at b) hits"
    by (simp add: hits sorted_wrt_map)
  moreover have "th_doc ` set hits \<subseteq> {d. doc_matches index exact prefix q d}"
    unfolding docs using cands(2) set_take_subset [of ?n cands] by blast
  moreover have "th_doc ` set hits = {d. doc_matches index exact prefix q d}" if "status = Complete"
    unfolding docs using cands(3) status that by simp
  moreover have "length hits \<le> ?n" by (simp add: hits min_def)
  ultimately show ?thesis by blast
qed

text \<open>The tokenizer is bounded: at most 256 tokens per text, each of at most 128 bytes, so
  neither the postings nor a document's term list can grow without bound.\<close>

theorem tokenize_bounded:
  "length (tokenize env text) \<le> MAX_TOKENS_PER_DOC \<and>
   list_all (\<lambda>t. length t \<le> MAX_TOKEN_BYTES) (tokenize env text)"
  using tokenize_loop_bounds [of "[]" env "[]" "te_normalize env text"]
  by (simp add: tokenize_def MAX_TOKENS_PER_DOC_def list_all_iff)

section \<open>An instance\<close>

definition demo_env :: text_env where
  "demo_env = \<lparr>te_normalize = map of_char, te_is_alphanumeric = (\<lambda>c. 97 \<le> c \<and> c \<le> 122)\<rparr>"

definition demo_spec :: compiled_index_spec where
  "demo_spec =
     \<lparr>cs_scope_id = scope_from_label ''notes'', cs_kinds = [1],
      cs_extract = (\<lambda>e. [(\<lparr>sf_id = 0, sf_weight = 1\<rparr>, ev_content (se_raw e))]),
      cs_local_only_private = False\<rparr>"

definition demo_stored :: "char \<Rightarrow> u64 \<Rightarrow> string \<Rightarrow> stored_event" where
  "demo_stored i t content =
     \<lparr>se_raw = example_event i (CHR ''b'') t 1 [] content, se_received_at_ms = 0\<rparr>"

definition demo_fts :: fts_state where
  "demo_fts =
     fts_index_add demo_env (demo_stored (CHR ''1'') 10 ''hello nostr world'')
       (fts_index_add demo_env (demo_stored (CHR ''2'') 20 ''hello north'')
         (fts_install [demo_spec] fts_state_default))"

definition demo_query :: text_search_query where
  "demo_query =
     \<lparr>tq_scope = scope_from_label ''notes'', tq_query = ''hello no'', tq_kinds = [], tq_since = None,
      tq_until = None, tq_limit = 10, tq_order = NewestFirst, tq_max_docs_scanned = 100,
      tq_max_matches = 100\<rparr>"

lemma text_search_sound_complete_witness:
  "\<exists>index. map_of (fts_indices demo_fts) (sc_discriminant (tq_scope demo_query)) = Some index \<and>
     {d. doc_matches index [''hello''] ''no'' demo_query d} = {replicate 32 0x11, replicate 32 0x22}"
proof -
  obtain hits status where
    visit: "text_search_visit demo_env demo_fts demo_query collect_hits [] = (hits, status)" by fastforce
  have "(\<lambda>(h, s). (map th_doc h, s)) (text_search_visit demo_env demo_fts demo_query collect_hits []) =
      ([replicate 32 0x22, replicate 32 0x11], Complete)"
    by code_simp
  with visit have hits: "map th_doc hits = [replicate 32 0x22, replicate 32 0x11]" and "status = Complete"
    by auto
  obtain index where
    index: "map_of (fts_indices demo_fts) (sc_discriminant (tq_scope demo_query)) = Some index"
    using visit \<open>status = Complete\<close> by (auto simp: text_search_visit_def split: option.splits)
  have "fts_inv demo_fts"
    by (simp add: demo_fts_def fts_inv_index_add fts_inv_install)
  moreover have "split_query_terms demo_env (tq_query demo_query) = ([''hello''], Some ''no'')"
    by code_simp
  moreover note \<open>status = Complete\<close>
  ultimately have "th_doc ` set hits = {d. doc_matches index [''hello''] ''no'' demo_query d}"
    using text_search_sound_complete [OF _ index _ visit] by blast
  moreover have "th_doc ` set hits = {replicate 32 0x11, replicate 32 0x22}"
    unfolding list.set_map [symmetric] hits by (simp only: list.set insert_commute)
  ultimately show ?thesis using index by auto
qed

end
