(* ===== verification/Relay_Url.thy ===== *)
theory Relay_Url
  imports NMP_Strings Nostr_Kinds
begin

text \<open>
  Relay-URL canonicalisation (\<open>src/crates/nmp-relay-url/src/lib.rs\<close>) and the decoding of
  NIP-65 relay lists (\<open>src/crates/nmp-nip65-types/src/lib.rs\<close>). A canonical URL is the
  key of the relay indexes, the mailbox cache and the planner's partition, so the lemmas
  show its shape, that every spelling of a URL reaches it, and when it is a fixed point.
\<close>

section \<open>Canonicalisation\<close>

definition ends_authority :: "char \<Rightarrow> bool" where
  "ends_authority c \<longleftrightarrow> c = CHR ''/'' \<or> c = CHR ''?'' \<or> c = CHR ''#''"

definition canonicalize :: "string \<Rightarrow> string option" where
  "canonicalize raw =
     (let s = trim raw in
      case find_sub ''://'' s of
        None \<Rightarrow> None
      | Some sep \<Rightarrow>
          let scheme = ascii_lower (take sep s) in
          if scheme \<noteq> ''ws'' \<and> scheme \<noteq> ''wss'' then None
          else
            let rest = drop (sep + 3) s in
            if rest = [] then None
            else
              let (authority, path_etc) =
                    (case find_char ends_authority rest of
                       Some pos \<Rightarrow> (take pos rest, drop pos rest)
                     | None \<Rightarrow> (rest, []))
              in
              if authority = [] then None
              else
                let authority_lower = ascii_lower authority;
                    path_etc_norm = (if path_etc = ''/'' then [] else path_etc)
                in Some (scheme @ ''://'' @ authority_lower @ path_etc_norm))"

section \<open>NIP-65 relay lists\<close>

record nip65_relay_list =
  nl_read :: "string list"
  nl_write :: "string list"
  nl_both :: "string list"

definition nl_is_empty :: "nip65_relay_list \<Rightarrow> bool" where
  "nl_is_empty l \<longleftrightarrow> nl_read l = [] \<and> nl_write l = [] \<and> nl_both l = []"

definition read_set :: "nip65_relay_list \<Rightarrow> string list" where
  "read_set l = nl_read l @ nl_both l"

definition write_set :: "nip65_relay_list \<Rightarrow> string list" where
  "write_set l = nl_write l @ nl_both l"

text \<open>\<open>Vec::dedup\<close> removes consecutive repetitions.\<close>

definition sort_dedup :: "string list \<Rightarrow> string list" where
  "sort_dedup v = remdups_adj (sort v)"

type_synonym rwb = "string list \<times> string list \<times> string list"

text \<open>One iteration of the loop over the tags.\<close>

definition relay_list_tag :: "string list \<Rightarrow> rwb \<Rightarrow> rwb" where
  "relay_list_tag tag acc =
     (let (read, write, both) = acc in
      if get_nth 0 tag \<noteq> Some ''r'' then acc
      else
        case get_nth 1 tag of
          None \<Rightarrow> acc
        | Some raw \<Rightarrow>
            if \<not> starts_with ''wss://'' raw then acc
            else
              case canonicalize raw of
                None \<Rightarrow> acc
              | Some url \<Rightarrow>
                  case get_nth 2 tag of
                    None \<Rightarrow> (read, write, both @ [url])
                  | Some marker \<Rightarrow>
                      if marker = [] then (read, write, both @ [url])
                      else if marker = ''read'' then (read @ [url], write, both)
                      else if marker = ''write'' then (read, write @ [url], both)
                      else acc)"

definition parse_relay_list_tags :: "string list list \<Rightarrow> nip65_relay_list" where
  "parse_relay_list_tags tags =
     (let (read, write, both) = fold relay_list_tag tags ([], [], []) in
      \<lparr>nl_read = sort_dedup read, nl_write = sort_dedup write, nl_both = sort_dedup both\<rparr>)"

definition parse_event_tags :: "u32 \<Rightarrow> string list list \<Rightarrow> nip65_relay_list option" where
  "parse_event_tags kind tags =
     (if kind = KIND_RELAY_LIST then Some (parse_relay_list_tags tags) else None)"

section \<open>The shape of a canonical URL\<close>

text \<open>Scheme, authority and rest of a URL of the form \<open>scheme://authority rest\<close>.\<close>

definition url_parts :: "string \<Rightarrow> string \<Rightarrow> string \<Rightarrow> bool" where
  "url_parts scheme authority path \<longleftrightarrow>
     ascii_lower scheme \<in> {''ws'', ''wss''} \<and> authority \<noteq> [] \<and>
     (\<forall>c \<in> set authority. \<not> ends_authority c) \<and>
     (path = [] \<or> ends_authority (hd path))"

lemma ascii_lower_colon [simp]: "ascii_lower_char c = CHR '':'' \<longleftrightarrow> c = CHR '':''"
  by (rule ascii_lower_char_nonletter) simp_all

lemma scheme_no_colon: "ascii_lower scheme \<in> {''ws'', ''wss''} \<Longrightarrow> CHR '':'' \<notin> set scheme"
proof
  assume lower: "ascii_lower scheme \<in> {''ws'', ''wss''}" and "CHR '':'' \<in> set scheme"
  then have "ascii_lower_char (CHR '':'') \<in> set (ascii_lower scheme)"
    by (auto simp: ascii_lower_def)
  with lower show False by (auto simp: ascii_lower_char_def less_eq_char_def)
qed

lemma find_sub_scheme: "CHR '':'' \<notin> set a \<Longrightarrow> find_sub ''://'' (a @ ''://'' @ r) = Some (length a)"
  by (induction a) auto

lemma ends_authority_lower [simp]: "ends_authority (ascii_lower_char c) = ends_authority c"
proof -
  have "ascii_lower_char c = CHR ''/'' \<longleftrightarrow> c = CHR ''/''"
    by (rule ascii_lower_char_nonletter) simp_all
  moreover have "ascii_lower_char c = CHR ''?'' \<longleftrightarrow> c = CHR ''?''"
    by (rule ascii_lower_char_nonletter) simp_all
  moreover have "ascii_lower_char c = CHR ''#'' \<longleftrightarrow> c = CHR ''#''"
    by (rule ascii_lower_char_nonletter) simp_all
  ultimately show ?thesis by (simp add: ends_authority_def)
qed

lemma find_authority_end:
  assumes "\<forall>c \<in> set authority. \<not> ends_authority c" and "path = [] \<or> ends_authority (hd path)"
  shows "(case find_char ends_authority (authority @ path) of
            Some pos \<Rightarrow> (take pos (authority @ path), drop pos (authority @ path))
          | None \<Rightarrow> (authority @ path, [])) = (authority, path)"
proof (cases path)
  case Nil
  with assms(1) show ?thesis by (simp add: find_char_None [THEN iffD2])
next
  case (Cons c r)
  with assms have "find_char ends_authority (authority @ path) = Some (length authority)"
    by (simp add: find_char_append)
  then show ?thesis by simp
qed

text \<open>Every spelling with a \<open>ws\<close> or \<open>wss\<close> scheme in any case is accepted.\<close>

lemma canonicalize_parts:
  assumes parts: "url_parts scheme authority path"
    and raw: "trim raw = scheme @ ''://'' @ authority @ path"
  shows "canonicalize raw =
    Some (ascii_lower scheme @ ''://'' @ ascii_lower authority @ (if path = ''/'' then [] else path))"
proof -
  have sep: "find_sub ''://'' (trim raw) = Some (length scheme)"
    unfolding raw using parts scheme_no_colon by (intro find_sub_scheme) (simp add: url_parts_def)
  have rest: "drop (length scheme + 3) (trim raw) = authority @ path"
    by (simp add: raw)
  have auth: "(case find_char ends_authority (authority @ path) of
            Some pos \<Rightarrow> (take pos (authority @ path), drop pos (authority @ path))
          | None \<Rightarrow> (authority @ path, [])) = (authority, path)"
    using parts by (intro find_authority_end) (simp_all add: url_parts_def)
  have take: "take (length scheme) (trim raw) = scheme"
    by (simp add: raw)
  show ?thesis
    using parts
    by (simp only: canonicalize_def Let_def sep option.case take rest auth prod.case)
       (auto simp: url_parts_def)
qed

text \<open>And every accepted URL has those parts.\<close>

lemma find_sub_Some: "find_sub p s = Some i \<Longrightarrow> p \<noteq> [] \<Longrightarrow> i \<le> length s \<and> (\<exists>r. s = take i s @ p @ r)"
proof (induction p s arbitrary: i rule: find_sub.induct)
  case (2 p c s)
  show ?case
  proof (cases "starts_with p (c # s)")
    case True
    then have "c # s = p @ drop (length p) (c # s)"
      by (metis append_take_drop_id starts_with_iff)
    moreover have "i = 0" using True 2 by simp
    ultimately show ?thesis by auto
  next
    case False
    with 2 obtain j where j: "find_sub p s = Some j" "i = Suc j" by auto
    with 2 False obtain r where "j \<le> length s" "s = take j s @ p @ r" by blast
    with j show ?thesis by auto
  qed
qed (simp split: if_splits)

lemma canonicalize_Some:
  assumes "canonicalize raw = Some u"
  obtains scheme authority path where
    "url_parts scheme authority path" "trim raw = scheme @ ''://'' @ authority @ path"
proof -
  obtain sep where sep: "find_sub ''://'' (trim raw) = Some sep"
    using assms by (auto simp: canonicalize_def Let_def split: option.splits)
  define scheme where "scheme = take sep (trim raw)"
  obtain rest where s: "trim raw = scheme @ ''://'' @ rest"
    using find_sub_Some [OF sep] unfolding scheme_def by auto
  have len: "length scheme = sep"
    using find_sub_Some [OF sep] by (simp add: scheme_def)
  have rest: "drop (sep + 3) (trim raw) = rest"
    using s len by simp
  have scheme_ok: "ascii_lower scheme \<in> {''ws'', ''wss''}"
    using assms sep by (auto simp: canonicalize_def Let_def scheme_def split: if_splits)
  show ?thesis
  proof (cases "find_char ends_authority rest")
    case None
    then have "\<forall>c \<in> set rest. \<not> ends_authority c" by (simp add: find_char_None)
    moreover have "rest \<noteq> []"
      using assms sep rest by (auto simp: canonicalize_def Let_def split: if_splits)
    ultimately have "url_parts scheme rest []" using scheme_ok by (simp add: url_parts_def)
    with s show ?thesis by (intro that) auto
  next
    case (Some pos)
    note pos = find_char_Some [OF Some]
    have "take pos rest \<noteq> []"
      using assms sep rest Some by (auto simp: canonicalize_def Let_def split: if_splits)
    moreover have "ends_authority (hd (drop pos rest))"
      using pos by (simp add: hd_drop_conv_nth)
    ultimately have "url_parts scheme (take pos rest) (drop pos rest)"
      using scheme_ok pos by (simp add: url_parts_def)
    with s show ?thesis by (intro that) auto
  qed
qed

section \<open>Theorems\<close>

text \<open>Canonicalisation is complete and exact: a URL whose scheme is \<open>ws\<close> or
  \<open>wss\<close> in any case and whose authority is non-empty is accepted, with scheme and
  authority lowered, a lone trailing slash dropped and every other path, query or fragment
  kept verbatim. So two spellings that differ in case or in that slash share one key.\<close>

theorem canonicalize_spelling:
  assumes "url_parts scheme authority path"
    and "\<not> trimmable (scheme @ ''://'' @ authority @ path)"
  shows "canonicalize (scheme @ ''://'' @ authority @ path) =
    Some (ascii_lower scheme @ ''://'' @ ascii_lower authority @ (if path = ''/'' then [] else path))"
  using assms by (intro canonicalize_parts) (simp_all add: trim_id)

text \<open>The result has the same parts, in lower case, so it is read back as itself.\<close>

lemma url_parts_lower:
  "url_parts scheme authority path \<Longrightarrow>
     url_parts (ascii_lower scheme) (ascii_lower authority) (if path = ''/'' then [] else path)"
  by (auto simp: url_parts_def) (auto simp: ascii_lower_def)

lemma canonicalize_shorter:
  assumes "canonicalize raw = Some u"
  shows "length u \<le> length (trim raw)"
proof -
  obtain scheme authority path where
    p: "url_parts scheme authority path" and t: "trim raw = scheme @ ''://'' @ authority @ path"
    using assms by (rule canonicalize_Some)
  show ?thesis
    using canonicalize_parts [OF p t] assms by (auto simp: t)
qed

lemma length_trim: "length (trim s) \<le> length s"
proof -
  obtain p where p: "s = p @ trim_start s"
    using trim_prefixes_suffix unfolding trim_start_def by blast
  obtain q where q: "trim_start s = trim s @ q"
    using trim_end_prefix unfolding trim_def by blast
  have "length s = length p + length (trim_start s)" by (subst p) simp
  moreover have "length (trim_start s) = length (trim s) + length q" by (subst q) simp
  ultimately show ?thesis by simp
qed

lemma trim_length_eq: "length (trim s) = length s \<Longrightarrow> trim s = s"
proof -
  assume len: "length (trim s) = length s"
  obtain p where p: "s = p @ trim_start s"
    using trim_prefixes_suffix unfolding trim_start_def by blast
  obtain q where q: "trim_start s = trim s @ q"
    using trim_end_prefix unfolding trim_def by blast
  have "s = p @ trim s @ q" using p q by simp
  moreover have "length s = length p + length (trim s) + length q"
    by (subst calculation) simp
  ultimately show ?thesis using len by simp
qed

text \<open>A canonical URL is a fixed point of canonicalisation exactly when it carries no
  outer white space: only then do all subsystems that canonicalise again agree on the key.\<close>

theorem canonicalize_fixpoint:
  assumes "canonicalize raw = Some u"
  shows "canonicalize u = Some u \<longleftrightarrow> trim u = u"
proof
  assume "canonicalize u = Some u"
  from canonicalize_shorter [OF this] have "length u \<le> length (trim u)" .
  with length_trim [of u] show "trim u = u" by (intro trim_length_eq) simp
next
  assume trim: "trim u = u"
  obtain scheme authority path where
    p: "url_parts scheme authority path" and t: "trim raw = scheme @ ''://'' @ authority @ path"
    using assms by (rule canonicalize_Some)
  let ?path = "if path = ''/'' then [] else path"
  have u: "u = ascii_lower scheme @ ''://'' @ ascii_lower authority @ ?path"
    using canonicalize_parts [OF p t] assms by simp
  have "canonicalize u = Some (ascii_lower (ascii_lower scheme) @ ''://'' @
      ascii_lower (ascii_lower authority) @ (if ?path = ''/'' then [] else ?path))"
    using trim u by (intro canonicalize_parts url_parts_lower p) simp
  also have "\<dots> = Some u" by (auto simp: u)
  finally show "canonicalize u = Some u" .
qed

text \<open>The white space inside a URL that the fixed-point theorem excludes is accepted by the
  code: a blank before a lone slash survives the first pass and is trimmed by the second.\<close>

lemma canonicalize_not_idempotent:
  "canonicalize ''wss://r.ex /'' = Some ''wss://r.ex '' \<and>
   canonicalize ''wss://r.ex '' = Some ''wss://r.ex''"
  by code_simp

lemma canonicalize_spelling_witness:
  "canonicalize ''WSS://R.Ex:7777/'' = Some ''wss://r.ex:7777''"
proof -
  have "url_parts ''WSS'' ''R.Ex:7777'' ''/''" by code_simp
  moreover have "\<not> trimmable (''WSS'' @ ''://'' @ ''R.Ex:7777'' @ ''/'')" by code_simp
  ultimately have "canonicalize (''WSS'' @ ''://'' @ ''R.Ex:7777'' @ ''/'') =
      Some (ascii_lower ''WSS'' @ ''://'' @ ascii_lower ''R.Ex:7777'' @ (if ''/'' = ''/'' then [] else ''/''))"
    by (rule canonicalize_spelling)
  moreover have "ascii_lower ''WSS'' = ''wss'' \<and> ascii_lower ''R.Ex:7777'' = ''r.ex:7777''"
    by code_simp
  ultimately show ?thesis by simp
qed

lemma canonicalize_fixpoint_witness:
  "canonicalize ''wss://r.ex/nostr/'' = Some ''wss://r.ex/nostr/''"
proof -
  have "canonicalize '' WSS://R.ex/nostr/'' = Some ''wss://r.ex/nostr/''" by code_simp
  then have "canonicalize ''wss://r.ex/nostr/'' = Some ''wss://r.ex/nostr/'' \<longleftrightarrow>
      trim ''wss://r.ex/nostr/'' = ''wss://r.ex/nostr/''"
    by (rule canonicalize_fixpoint)
  moreover have "trim ''wss://r.ex/nostr/'' = ''wss://r.ex/nostr/''" by code_simp
  ultimately show ?thesis by simp
qed

section \<open>Relay lists\<close>

text \<open>The relay a tag contributes under a given marker.\<close>

definition tag_relay :: "string list \<Rightarrow> string option" where
  "tag_relay tag =
     (if get_nth 0 tag = Some ''r'' then
        case get_nth 1 tag of
          Some raw \<Rightarrow> if starts_with ''wss://'' raw then canonicalize raw else None
        | None \<Rightarrow> None
      else None)"

definition marked :: "(string option \<Rightarrow> bool) \<Rightarrow> string list list \<Rightarrow> string set" where
  "marked P tags = {u. \<exists>tag \<in> set tags. tag_relay tag = Some u \<and> P (get_nth 2 tag)}"

definition is_both :: "string option \<Rightarrow> bool" where
  "is_both m \<longleftrightarrow> m = None \<or> m = Some []"

lemma is_both_simps [simp]: "is_both None" "is_both (Some m) \<longleftrightarrow> m = []"
  by (simp_all add: is_both_def)

lemma marked_simps:
  "marked P [] = {}"
  "marked P (tag # tags) =
     (case tag_relay tag of None \<Rightarrow> {} | Some u \<Rightarrow> if P (get_nth 2 tag) then {u} else {}) \<union>
     marked P tags"
  by (auto simp: marked_def split: option.splits)

lemma relay_list_tag_cases:
  "relay_list_tag tag (r, w, b) =
     (case tag_relay tag of
        None \<Rightarrow> (r, w, b)
      | Some u \<Rightarrow>
          if is_both (get_nth 2 tag) then (r, w, b @ [u])
          else if get_nth 2 tag = Some ''read'' then (r @ [u], w, b)
          else if get_nth 2 tag = Some ''write'' then (r, w @ [u], b)
          else (r, w, b))"
  by (auto simp: relay_list_tag_def tag_relay_def is_both_def split: option.splits)

lemma fold_relay_list_tag:
  "fold relay_list_tag tags (r, w, b) = (r', w', b') \<Longrightarrow>
     set r' = set r \<union> marked (\<lambda>m. m = Some ''read'') tags \<and>
     set w' = set w \<union> marked (\<lambda>m. m = Some ''write'') tags \<and>
     set b' = set b \<union> marked is_both tags"
proof (induction tags arbitrary: r w b)
  case Nil
  then show ?case by (simp add: marked_simps)
next
  case (Cons tag tags)
  obtain r1 w1 b1 where step: "relay_list_tag tag (r, w, b) = (r1, w1, b1)"
    by (metis prod_cases3)
  have "set r' = set r1 \<union> marked (\<lambda>m. m = Some ''read'') tags \<and>
     set w' = set w1 \<union> marked (\<lambda>m. m = Some ''write'') tags \<and>
     set b' = set b1 \<union> marked is_both tags"
    using Cons.prems step by (intro Cons.IH) simp
  with step show ?case
    by (auto simp: relay_list_tag_cases marked_simps split: option.splits if_splits)
qed

lemma distinct_remdups_adj_sorted: "sorted xs \<Longrightarrow> distinct (remdups_adj xs)"
  by (induction xs rule: remdups_adj.induct) auto

lemma sort_dedup_props [simp]:
  "set (sort_dedup v) = set v" "sorted (sort_dedup v)" "distinct (sort_dedup v)"
  by (simp_all add: sort_dedup_def sorted_remdups_adj distinct_remdups_adj_sorted)

text \<open>Decoding a kind:10002 event yields exactly the relays its well-formed \<open>r\<close> tags
  name: the write set holds those marked \<open>write\<close> or unmarked, the read set those marked
  \<open>read\<close> or unmarked, each canonical, and each group ascending without repetition.\<close>

theorem parse_relay_list_exact:
  "set (write_set (parse_relay_list_tags tags)) =
     marked (\<lambda>m. m = Some ''write'' \<or> is_both m) tags \<and>
   set (read_set (parse_relay_list_tags tags)) =
     marked (\<lambda>m. m = Some ''read'' \<or> is_both m) tags \<and>
   (\<forall>f \<in> {nl_read, nl_write, nl_both}.
      sorted (f (parse_relay_list_tags tags)) \<and> distinct (f (parse_relay_list_tags tags)))"
proof -
  obtain r w b where f: "fold relay_list_tag tags ([], [], []) = (r, w, b)"
    by (metis prod_cases3)
  have sets: "set r = marked (\<lambda>m. m = Some ''read'') tags"
    "set w = marked (\<lambda>m. m = Some ''write'') tags" "set b = marked is_both tags"
    using fold_relay_list_tag [OF f] by simp_all
  have split: "marked (\<lambda>m. P m \<or> Q m) tags = marked P tags \<union> marked Q tags" for P Q
    by (auto simp: marked_def)
  show ?thesis
    by (simp add: parse_relay_list_tags_def f read_set_def write_set_def sets split)
qed

lemma parse_relay_list_exact_witness:
  "set (write_set (parse_relay_list_tags
     [[''r'', ''wss://B.ex/''], [''r'', ''wss://w.ex'', ''write''], [''r'', ''wss://r.ex'', ''read'']])) =
   {''wss://b.ex'', ''wss://w.ex''}"
proof -
  let ?tags = "[[''r'', ''wss://B.ex/''], [''r'', ''wss://w.ex'', ''write''], [''r'', ''wss://r.ex'', ''read'']]"
  have "set (write_set (parse_relay_list_tags ?tags)) =
      marked (\<lambda>m. m = Some ''write'' \<or> is_both m) ?tags"
    using parse_relay_list_exact by blast
  moreover have "tag_relay [''r'', ''wss://B.ex/''] = Some ''wss://b.ex'' \<and>
      tag_relay [''r'', ''wss://w.ex'', ''write''] = Some ''wss://w.ex'' \<and>
      tag_relay [''r'', ''wss://r.ex'', ''read''] = Some ''wss://r.ex''"
    by code_simp
  ultimately show ?thesis by (simp add: marked_simps insert_commute)
qed

end
