(* ===== verification/Mem_State.thy ===== *)
theory Mem_State
  imports Text_Search Relay_Url
begin

unbundle bit_operations_syntax

text \<open>
  The state of the in-memory event store and its index helpers, from
  \<open>src/crates/nmp-store/src/mem/mod.rs\<close>, with the types of the ingest log
  (\<open>src/crates/nmp-store/src/ingest_log/mod.rs\<close>). Every operation of the store runs under
  one mutex, so a state transition is a function from the state to the state; the only error
  these operations return is a poisoned mutex, which the model leaves out.

  The lemmas give the provenance discipline (at most 32 entries, one per relay, ordered, the
  first one primary), the contract of the per-event indexes as the locale \<open>id_index\<close>, and
  the hexadecimal round trips.
\<close>

section \<open>Ingest-log types\<close>

definition DEFAULT_LOG_MAX_ENTRIES :: u64 where
  "DEFAULT_LOG_MAX_ENTRIES = 10000"

record log_retention_claim =
  rc_after_seq :: u64
  rc_max_lag_entries :: u64

datatype delete_reason = Nip09 | Nip40Expiry | AdminPurge

datatype log_op =
    LogInserted
  | LogReplaced event_id
  | LogDeleted event_id delete_reason

record store_log_entry =
  le_seq :: u64
  le_op :: log_op
  le_event_id :: event_id
  le_raw_event :: "raw_event option"
  le_source_relay :: "relay_url option"
  le_received_at_ms :: u64

record pull_page =
  pp_entries :: "store_log_entry list"
  pp_next_after_seq :: u64
  pp_latest_seq :: u64
  pp_has_more :: bool

record pull_gap =
  pg_requested_after_seq :: u64
  pg_first_available_seq :: u64

datatype scan_log_result = Page pull_page | Gap pull_gap

section \<open>State\<close>

datatype replaceable_key =
    Regular u32 pub_key
  | Parameterized u32 pub_key string

definition MAX_PROVENANCE_ENTRIES :: usize where
  "MAX_PROVENANCE_ENTRIES = 32"

record mem_state =
  ms_events :: "(string \<times> stored_event) list"
  ms_tombstones :: "(string \<times> tombstone_row) list"
  ms_addr_tombstones :: "(string \<times> tombstone_row) list"
  ms_provenance :: "(string \<times> provenance_entry list) list"
  ms_relay_index :: "(relay_url \<times> string list) list"
  ms_relay_kind :: "(relay_url \<times> (u32 \<times> string list) list) list"
  ms_replaceable_freshness :: "(replaceable_key \<times> u64) list"
  ms_coverage :: "((string \<times> string) \<times> u64) list"
  ms_domain_data :: "(string \<times> (bytes \<times> bytes) list) list"
  ms_domain_versions :: "(string \<times> u32) list"
  ms_ingest_seq :: u64
  ms_ingest_log :: "(u64 \<times> store_log_entry) list"
  ms_log_gc_floor :: u64
  ms_retention_claims :: "log_retention_claim list"
  ms_access_seq :: u64
  ms_access_index :: "(string \<times> u64) list"
  ms_fts :: fts_state

definition mem_state_new :: mem_state where
  "mem_state_new =
     \<lparr>ms_events = [], ms_tombstones = [], ms_addr_tombstones = [], ms_provenance = [],
      ms_relay_index = [], ms_relay_kind = [], ms_replaceable_freshness = [], ms_coverage = [],
      ms_domain_data = [], ms_domain_versions = [], ms_ingest_seq = 0, ms_ingest_log = [],
      ms_log_gc_floor = 0, ms_retention_claims = [], ms_access_seq = 0, ms_access_index = [],
      ms_fts = fts_state_default\<rparr>"

section \<open>Provenance\<close>

text \<open>\<open>sort_by\<close> is stable; the entries are ordered by first sighting, then by URL, and the
  first one is the primary.\<close>

definition prov_key :: "provenance_entry \<Rightarrow> u64 \<times> relay_url" where
  "prov_key e = (pe_first_seen_ms e, pe_relay_url e)"

fun mark_primary :: "bool \<Rightarrow> provenance_entry list \<Rightarrow> provenance_entry list" where
  "mark_primary first [] = []"
| "mark_primary first (e # es) = e\<lparr>pe_primary := first\<rparr> # mark_primary False es"

definition sort_provenance :: "provenance_entry list \<Rightarrow> provenance_entry list" where
  "sort_provenance entries = mark_primary True (sort_key prov_key entries)"

definition new_provenance_entry :: "relay_url \<Rightarrow> u64 \<Rightarrow> provenance_entry" where
  "new_provenance_entry relay_url received_at_ms =
     \<lparr>pe_relay_url = relay_url, pe_first_seen_ms = received_at_ms,
      pe_last_seen_ms = received_at_ms, pe_primary = False\<rparr>"

definition touch_provenance_entry :: "u64 \<Rightarrow> provenance_entry \<Rightarrow> provenance_entry" where
  "touch_provenance_entry received_at_ms e =
     (let e1 = (if received_at_ms < pe_first_seen_ms e then e\<lparr>pe_first_seen_ms := received_at_ms\<rparr> else e)
      in if received_at_ms > pe_last_seen_ms e1 then e1\<lparr>pe_last_seen_ms := received_at_ms\<rparr> else e1)"

text \<open>\<open>iter_mut().find(..)\<close> followed by an update of the slot.\<close>

fun update_first :: "('a \<Rightarrow> bool) \<Rightarrow> ('a \<Rightarrow> 'a) \<Rightarrow> 'a list \<Rightarrow> 'a list" where
  "update_first P f [] = []"
| "update_first P f (x # xs) = (if P x then f x # xs else x # update_first P f xs)"

definition upsert_provenance ::
  "relay_url \<Rightarrow> u64 \<Rightarrow> provenance_entry list \<Rightarrow> provenance_entry list" where
  "upsert_provenance relay_url received_at_ms entries =
     (if list_ex (\<lambda>e. pe_relay_url e = relay_url) entries then
        sort_provenance
          (update_first (\<lambda>e. pe_relay_url e = relay_url) (touch_provenance_entry received_at_ms) entries)
      else
        let new = new_provenance_entry relay_url received_at_ms in
        case (if MAX_PROVENANCE_ENTRIES \<le> length entries
              then min_pos_by_key pe_last_seen_ms (tl entries) else None) of
          Some i \<Rightarrow> sort_provenance (entries[Suc i := new])
        | None \<Rightarrow> sort_provenance (entries @ [new]))"

section \<open>Relay index\<close>

definition relay_index_add :: "relay_url \<Rightarrow> string \<Rightarrow> mem_state \<Rightarrow> mem_state" where
  "relay_index_add relay_url id_hex st =
     st\<lparr>ms_relay_index := hm_entry [] relay_url (bs_insert id_hex) (ms_relay_index st)\<rparr>"

text \<open>The id leaves every bucket and the buckets it leaves empty are dropped.\<close>

definition relay_index_remove :: "string \<Rightarrow> mem_state \<Rightarrow> mem_state" where
  "relay_index_remove id_hex st =
     (let m = hm_map_values (bs_remove id_hex) (ms_relay_index st);
          empty_relays = map fst (filter (\<lambda>(url, ids). ids = []) m)
      in st\<lparr>ms_relay_index := fold hm_remove empty_relays m\<rparr>)"

definition list_seen_on :: "mem_state \<Rightarrow> relay_url \<Rightarrow> event_id list" where
  "list_seen_on st relay_url =
     (case map_of (ms_relay_index st) relay_url of
        None \<Rightarrow> []
      | Some ids \<Rightarrow> List.map_filter hex_to_event_id ids)"

section \<open>Relay-kind index\<close>

definition relay_kind_add :: "relay_url \<Rightarrow> u32 \<Rightarrow> string \<Rightarrow> mem_state \<Rightarrow> mem_state" where
  "relay_kind_add relay_url kind id_hex st =
     (if is_relay_provenance_private kind then st
      else
        st\<lparr>ms_relay_kind :=
          hm_entry [] relay_url (hm_entry [] kind (bs_insert id_hex)) (ms_relay_kind st)\<rparr>)"

definition prune_kinds :: "string \<Rightarrow> (u32 \<times> string list) list \<Rightarrow> (u32 \<times> string list) list" where
  "prune_kinds id_hex kinds =
     (let m = hm_map_values (bs_remove id_hex) kinds;
          empty_kinds = map fst (filter (\<lambda>(kind, ids). ids = []) m)
      in fold hm_remove empty_kinds m)"

definition relay_kind_remove_id :: "string \<Rightarrow> mem_state \<Rightarrow> mem_state" where
  "relay_kind_remove_id id_hex st =
     (let m = hm_map_values (prune_kinds id_hex) (ms_relay_kind st);
          empty_relays = map fst (filter (\<lambda>(url, kinds). kinds = []) m)
      in st\<lparr>ms_relay_kind := fold hm_remove empty_relays m\<rparr>)"

definition relay_kind_coverage :: "mem_state \<Rightarrow> relay_url \<Rightarrow> u32 list" where
  "relay_kind_coverage st relay_url =
     (case map_of (ms_relay_kind st) relay_url of
        None \<Rightarrow> []
      | Some kinds \<Rightarrow> sort (filter (\<lambda>kind. \<not> is_relay_provenance_private kind) (map fst kinds)))"

definition relay_kind_count :: "mem_state \<Rightarrow> relay_url \<Rightarrow> u32 \<Rightarrow> u64" where
  "relay_kind_count st relay_url kind =
     (if is_relay_provenance_private kind then 0
      else
        unwrap_or 0
          (do { kinds \<leftarrow> map_of (ms_relay_kind st) relay_url;
                ids \<leftarrow> map_of kinds kind;
                Some (length ids) }))"

section \<open>Access index\<close>

definition access_stamp :: "string \<Rightarrow> mem_state \<Rightarrow> mem_state" where
  "access_stamp id_hex st =
     (let seq = ms_access_seq st + 1 in
      st\<lparr>ms_access_seq := seq, ms_access_index := hm_insert id_hex seq (ms_access_index st)\<rparr>)"

definition access_remove :: "string \<Rightarrow> mem_state \<Rightarrow> mem_state" where
  "access_remove id_hex st = st\<lparr>ms_access_index := hm_remove id_hex (ms_access_index st)\<rparr>"

section \<open>Hexadecimal form\<close>

definition HEX :: string where
  "HEX = ''0123456789abcdef''"

definition bytes_to_hex :: "bytes \<Rightarrow> string" where
  "bytes_to_hex b =
     concat (map (\<lambda>byte. [HEX ! unat (drop_bit 4 byte), HEX ! unat (byte AND 0x0f)]) b)"

section \<open>Frames\<close>

text \<open>The index helpers touch their own map only.\<close>

lemma relay_index_add_frame [simp, frame_simps]:
  "ms_events (relay_index_add u i st) = ms_events st"
  "ms_tombstones (relay_index_add u i st) = ms_tombstones st"
  "ms_addr_tombstones (relay_index_add u i st) = ms_addr_tombstones st"
  "ms_provenance (relay_index_add u i st) = ms_provenance st"
  "ms_relay_kind (relay_index_add u i st) = ms_relay_kind st"
  "ms_replaceable_freshness (relay_index_add u i st) = ms_replaceable_freshness st"
  "ms_coverage (relay_index_add u i st) = ms_coverage st"
  "ms_domain_data (relay_index_add u i st) = ms_domain_data st"
  "ms_domain_versions (relay_index_add u i st) = ms_domain_versions st"
  "ms_ingest_seq (relay_index_add u i st) = ms_ingest_seq st"
  "ms_ingest_log (relay_index_add u i st) = ms_ingest_log st"
  "ms_log_gc_floor (relay_index_add u i st) = ms_log_gc_floor st"
  "ms_retention_claims (relay_index_add u i st) = ms_retention_claims st"
  "ms_access_seq (relay_index_add u i st) = ms_access_seq st"
  "ms_access_index (relay_index_add u i st) = ms_access_index st"
  "ms_fts (relay_index_add u i st) = ms_fts st"
  by (simp_all add: relay_index_add_def)

lemma relay_index_remove_frame [simp, frame_simps]:
  "ms_events (relay_index_remove i st) = ms_events st"
  "ms_tombstones (relay_index_remove i st) = ms_tombstones st"
  "ms_addr_tombstones (relay_index_remove i st) = ms_addr_tombstones st"
  "ms_provenance (relay_index_remove i st) = ms_provenance st"
  "ms_relay_kind (relay_index_remove i st) = ms_relay_kind st"
  "ms_replaceable_freshness (relay_index_remove i st) = ms_replaceable_freshness st"
  "ms_coverage (relay_index_remove i st) = ms_coverage st"
  "ms_domain_data (relay_index_remove i st) = ms_domain_data st"
  "ms_domain_versions (relay_index_remove i st) = ms_domain_versions st"
  "ms_ingest_seq (relay_index_remove i st) = ms_ingest_seq st"
  "ms_ingest_log (relay_index_remove i st) = ms_ingest_log st"
  "ms_log_gc_floor (relay_index_remove i st) = ms_log_gc_floor st"
  "ms_retention_claims (relay_index_remove i st) = ms_retention_claims st"
  "ms_access_seq (relay_index_remove i st) = ms_access_seq st"
  "ms_access_index (relay_index_remove i st) = ms_access_index st"
  "ms_fts (relay_index_remove i st) = ms_fts st"
  by (simp_all add: relay_index_remove_def Let_def)

lemma relay_kind_add_frame [simp, frame_simps]:
  "ms_events (relay_kind_add u k i st) = ms_events st"
  "ms_tombstones (relay_kind_add u k i st) = ms_tombstones st"
  "ms_addr_tombstones (relay_kind_add u k i st) = ms_addr_tombstones st"
  "ms_provenance (relay_kind_add u k i st) = ms_provenance st"
  "ms_relay_index (relay_kind_add u k i st) = ms_relay_index st"
  "ms_replaceable_freshness (relay_kind_add u k i st) = ms_replaceable_freshness st"
  "ms_coverage (relay_kind_add u k i st) = ms_coverage st"
  "ms_domain_data (relay_kind_add u k i st) = ms_domain_data st"
  "ms_domain_versions (relay_kind_add u k i st) = ms_domain_versions st"
  "ms_ingest_seq (relay_kind_add u k i st) = ms_ingest_seq st"
  "ms_ingest_log (relay_kind_add u k i st) = ms_ingest_log st"
  "ms_log_gc_floor (relay_kind_add u k i st) = ms_log_gc_floor st"
  "ms_retention_claims (relay_kind_add u k i st) = ms_retention_claims st"
  "ms_access_seq (relay_kind_add u k i st) = ms_access_seq st"
  "ms_access_index (relay_kind_add u k i st) = ms_access_index st"
  "ms_fts (relay_kind_add u k i st) = ms_fts st"
  by (simp_all add: relay_kind_add_def)

lemma relay_kind_remove_id_frame [simp, frame_simps]:
  "ms_events (relay_kind_remove_id i st) = ms_events st"
  "ms_tombstones (relay_kind_remove_id i st) = ms_tombstones st"
  "ms_addr_tombstones (relay_kind_remove_id i st) = ms_addr_tombstones st"
  "ms_provenance (relay_kind_remove_id i st) = ms_provenance st"
  "ms_relay_index (relay_kind_remove_id i st) = ms_relay_index st"
  "ms_replaceable_freshness (relay_kind_remove_id i st) = ms_replaceable_freshness st"
  "ms_coverage (relay_kind_remove_id i st) = ms_coverage st"
  "ms_domain_data (relay_kind_remove_id i st) = ms_domain_data st"
  "ms_domain_versions (relay_kind_remove_id i st) = ms_domain_versions st"
  "ms_ingest_seq (relay_kind_remove_id i st) = ms_ingest_seq st"
  "ms_ingest_log (relay_kind_remove_id i st) = ms_ingest_log st"
  "ms_log_gc_floor (relay_kind_remove_id i st) = ms_log_gc_floor st"
  "ms_retention_claims (relay_kind_remove_id i st) = ms_retention_claims st"
  "ms_access_seq (relay_kind_remove_id i st) = ms_access_seq st"
  "ms_access_index (relay_kind_remove_id i st) = ms_access_index st"
  "ms_fts (relay_kind_remove_id i st) = ms_fts st"
  by (simp_all add: relay_kind_remove_id_def Let_def)

lemma access_stamp_frame [simp, frame_simps]:
  "ms_events (access_stamp i st) = ms_events st"
  "ms_tombstones (access_stamp i st) = ms_tombstones st"
  "ms_addr_tombstones (access_stamp i st) = ms_addr_tombstones st"
  "ms_provenance (access_stamp i st) = ms_provenance st"
  "ms_relay_index (access_stamp i st) = ms_relay_index st"
  "ms_relay_kind (access_stamp i st) = ms_relay_kind st"
  "ms_replaceable_freshness (access_stamp i st) = ms_replaceable_freshness st"
  "ms_coverage (access_stamp i st) = ms_coverage st"
  "ms_domain_data (access_stamp i st) = ms_domain_data st"
  "ms_domain_versions (access_stamp i st) = ms_domain_versions st"
  "ms_ingest_seq (access_stamp i st) = ms_ingest_seq st"
  "ms_ingest_log (access_stamp i st) = ms_ingest_log st"
  "ms_log_gc_floor (access_stamp i st) = ms_log_gc_floor st"
  "ms_retention_claims (access_stamp i st) = ms_retention_claims st"
  "ms_fts (access_stamp i st) = ms_fts st"
  by (simp_all add: access_stamp_def Let_def)

lemma access_remove_frame [simp, frame_simps]:
  "ms_events (access_remove i st) = ms_events st"
  "ms_tombstones (access_remove i st) = ms_tombstones st"
  "ms_addr_tombstones (access_remove i st) = ms_addr_tombstones st"
  "ms_provenance (access_remove i st) = ms_provenance st"
  "ms_relay_index (access_remove i st) = ms_relay_index st"
  "ms_relay_kind (access_remove i st) = ms_relay_kind st"
  "ms_replaceable_freshness (access_remove i st) = ms_replaceable_freshness st"
  "ms_coverage (access_remove i st) = ms_coverage st"
  "ms_domain_data (access_remove i st) = ms_domain_data st"
  "ms_domain_versions (access_remove i st) = ms_domain_versions st"
  "ms_ingest_seq (access_remove i st) = ms_ingest_seq st"
  "ms_ingest_log (access_remove i st) = ms_ingest_log st"
  "ms_log_gc_floor (access_remove i st) = ms_log_gc_floor st"
  "ms_retention_claims (access_remove i st) = ms_retention_claims st"
  "ms_access_seq (access_remove i st) = ms_access_seq st"
  "ms_fts (access_remove i st) = ms_fts st"
  by (simp_all add: access_remove_def)

section \<open>Provenance discipline\<close>

definition prov_urls :: "provenance_entry list \<Rightarrow> relay_url list" where
  "prov_urls es = map pe_relay_url es"

definition prov_ok :: "provenance_entry list \<Rightarrow> bool" where
  "prov_ok es \<longleftrightarrow> length es \<le> MAX_PROVENANCE_ENTRIES \<and> distinct (prov_urls es) \<and>
     sorted (map prov_key es) \<and> mark_primary True es = es"

lemma mark_primary_fields [simp]:
  "map pe_relay_url (mark_primary b es) = map pe_relay_url es"
  "map prov_key (mark_primary b es) = map prov_key es"
  "map pe_first_seen_ms (mark_primary b es) = map pe_first_seen_ms es"
  "length (mark_primary b es) = length es"
  by (induction b es rule: mark_primary.induct) (auto simp: prov_key_def)

lemma mark_primary_idem [simp]: "mark_primary b (mark_primary b es) = mark_primary b es"
  by (induction b es rule: mark_primary.induct) auto

lemma set_prov_urls_sort [simp]: "set (prov_urls (sort_provenance es)) = set (prov_urls es)"
proof -
  have "set (map pe_relay_url (sort_key prov_key es)) = set (map pe_relay_url es)" by simp
  then show ?thesis by (simp only: prov_urls_def sort_provenance_def mark_primary_fields)
qed

lemma mset_first_seen_sort:
  "set (map pe_first_seen_ms (sort_provenance es)) = set (map pe_first_seen_ms es)"
  by (simp only: sort_provenance_def mark_primary_fields) simp

lemma length_sort_provenance [simp]: "length (sort_provenance es) = length es"
  by (simp add: sort_provenance_def)

lemma prov_ok_sort:
  assumes "length es \<le> MAX_PROVENANCE_ENTRIES" and "distinct (prov_urls es)"
  shows "prov_ok (sort_provenance es)"
proof -
  have "distinct (map pe_relay_url (sort_key prov_key es))"
    using assms(2) by (simp add: prov_urls_def distinct_map)
  with assms(1) show ?thesis
    by (simp only: prov_ok_def length_sort_provenance) (simp add: sort_provenance_def prov_urls_def)
qed

lemma prov_urls_update_first:
  "(\<And>e. pe_relay_url (f e) = pe_relay_url e) \<Longrightarrow> prov_urls (update_first P f es) = prov_urls es"
  by (induction es) (auto simp: prov_urls_def)

lemma length_update_first [simp]: "length (update_first P f es) = length es"
  by (induction es) auto

lemma touch_url [simp]: "pe_relay_url (touch_provenance_entry t e) = pe_relay_url e"
  by (simp add: touch_provenance_entry_def Let_def)

lemma touch_first_seen: "pe_first_seen_ms (touch_provenance_entry t e) = min t (pe_first_seen_ms e)"
  by (simp add: touch_provenance_entry_def Let_def min_def)

text \<open>The slot that makes room at capacity: never the first one.\<close>

definition prov_victim :: "provenance_entry list \<Rightarrow> nat option" where
  "prov_victim es =
     (if MAX_PROVENANCE_ENTRIES \<le> length es then min_pos_by_key pe_last_seen_ms (tl es) else None)"

lemma prov_victim_less: "prov_victim es = Some i \<Longrightarrow> Suc i < length es"
  by (auto simp: prov_victim_def dest: min_pos_by_key_less split: if_splits)

lemma prov_victim_None: "prov_victim es = None \<Longrightarrow> length es < MAX_PROVENANCE_ENTRIES"
  by (cases es) (auto simp: prov_victim_def MAX_PROVENANCE_ENTRIES_def split: if_splits)

lemma upsert_provenance_cases:
  "upsert_provenance u t es =
     sort_provenance
       (if u \<in> set (prov_urls es)
        then update_first (\<lambda>e. pe_relay_url e = u) (touch_provenance_entry t) es
        else case prov_victim es of
               Some i \<Rightarrow> es[Suc i := new_provenance_entry u t]
             | None \<Rightarrow> es @ [new_provenance_entry u t])"
proof -
  have "list_ex (\<lambda>e. pe_relay_url e = u) es \<longleftrightarrow> u \<in> set (prov_urls es)"
    by (auto simp: prov_urls_def list_ex_iff)
  then show ?thesis
    by (auto simp: upsert_provenance_def prov_victim_def Let_def split: option.splits)
qed

lemma prov_urls_new [simp]:
  "prov_urls (es[i := new_provenance_entry u t]) = (prov_urls es)[i := u]"
  "prov_urls (es @ [new_provenance_entry u t]) = prov_urls es @ [u]"
  by (simp_all add: prov_urls_def new_provenance_entry_def map_update)

lemma length_prov_urls [simp]: "length (prov_urls es) = length es"
  by (simp add: prov_urls_def)

lemma upsert_prov_ok:
  assumes "prov_ok es"
  shows "prov_ok (upsert_provenance u t es)"
  unfolding upsert_provenance_cases
proof (rule prov_ok_sort)
  have len: "length es \<le> MAX_PROVENANCE_ENTRIES" and dist: "distinct (prov_urls es)"
    using assms by (simp_all add: prov_ok_def)
  let ?es = "if u \<in> set (prov_urls es)
      then update_first (\<lambda>e. pe_relay_url e = u) (touch_provenance_entry t) es
      else case prov_victim es of
             Some i \<Rightarrow> es[Suc i := new_provenance_entry u t]
           | None \<Rightarrow> es @ [new_provenance_entry u t]"
  show "length ?es \<le> MAX_PROVENANCE_ENTRIES"
    using len prov_victim_None [of es] by (auto split: option.splits)
  show "distinct (prov_urls ?es)"
    using dist by (auto simp: prov_urls_update_first intro: distinct_list_update split: option.splits)
qed

lemma upsert_urls_new: "u \<in> set (prov_urls (upsert_provenance u t es))"
  unfolding upsert_provenance_cases set_prov_urls_sort
  using prov_victim_less [of es]
  by (auto simp: prov_urls_update_first intro!: set_update_memI split: option.splits)

lemma upsert_urls_subset:
  "set (prov_urls (upsert_provenance u t es)) \<subseteq> insert u (set (prov_urls es))"
  unfolding upsert_provenance_cases set_prov_urls_sort
  using set_update_subset_insert [of "prov_urls es" _ u]
  by (auto simp: prov_urls_update_first split: option.splits)

text \<open>The earliest sighting stays at the head.\<close>

lemma hd_first_seen_sort:
  assumes "es \<noteq> []"
  shows "pe_first_seen_ms (hd (sort_provenance es)) = Min (set (map pe_first_seen_ms es))"
proof -
  let ?s = "sort_provenance es"
  have ne: "?s \<noteq> []" using assms by (metis length_0_conv length_sort_provenance)
  have "sorted (map prov_key ?s)" by (simp add: sort_provenance_def)
  then have le: "pe_first_seen_ms (hd ?s) \<le> pe_first_seen_ms e" if "e \<in> set ?s" for e
    using that ne by (cases ?s) (auto simp: prov_key_def less_eq_prod_def)
  have "pe_first_seen_ms (hd ?s) \<in> set (map pe_first_seen_ms ?s)" using ne by simp
  with le have "Min (set (map pe_first_seen_ms ?s)) = pe_first_seen_ms (hd ?s)"
    by (intro Min_eqI) auto
  then show ?thesis by (simp only: mset_first_seen_sort)
qed

lemma hd_first_seen_ok:
  assumes "prov_ok es" and "es \<noteq> []"
  shows "pe_first_seen_ms (hd es) = Min (set (map pe_first_seen_ms es))"
proof -
  have "sort_key prov_key es = es" using assms(1) by (intro sort_key_id_if_sorted) (simp add: prov_ok_def)
  then have "sort_provenance es = es" using assms(1) by (simp add: sort_provenance_def prov_ok_def)
  with hd_first_seen_sort [OF assms(2)] show ?thesis by simp
qed

lemma Min_update_first:
  assumes "\<exists>e \<in> set es. P e"
  shows "Min (set (map pe_first_seen_ms (update_first P (touch_provenance_entry t) es))) =
    min t (Min (set (map pe_first_seen_ms es)))"
  using assms
proof (induction es)
  case (Cons e es)
  show ?case
  proof (cases "P e \<or> es = []")
    case True
    with Cons.prems show ?thesis
      by (cases "es = []") (auto simp: touch_first_seen min.assoc)
  next
    case False
    let ?es = "update_first P (touch_provenance_entry t) es"
    have ne: "es \<noteq> []" using False by simp
    then have ne': "?es \<noteq> []" by (cases es) auto
    have IH: "Min (set (map pe_first_seen_ms ?es)) = min t (Min (set (map pe_first_seen_ms es)))"
      using Cons False by auto
    have "Min (set (map pe_first_seen_ms (e # ?es))) = min (pe_first_seen_ms e) (Min (set (map pe_first_seen_ms ?es)))"
      using ne' by simp
    also have "\<dots> = min t (min (pe_first_seen_ms e) (Min (set (map pe_first_seen_ms es))))"
      unfolding IH by (rule min.left_commute)
    also have "\<dots> = min t (Min (set (map pe_first_seen_ms (e # es))))"
      using ne by simp
    finally show ?thesis using False by simp
  qed
qed simp

text \<open>The provenance of an event stays within 32 entries, one per relay, ordered by first
  sighting with the first entry marked primary, whatever sequence of deliveries is recorded;
  the delivering relay is always recorded, no other relay appears, and the earliest sighting
  is never lost, not even when an entry is evicted at capacity.\<close>

theorem upsert_provenance_discipline:
  assumes "prov_ok es"
  shows "prov_ok (upsert_provenance u t es) \<and>
    u \<in> set (prov_urls (upsert_provenance u t es)) \<and>
    set (prov_urls (upsert_provenance u t es)) \<subseteq> insert u (set (prov_urls es)) \<and>
    pe_first_seen_ms (hd (upsert_provenance u t es)) =
      (if es = [] then t else min t (pe_first_seen_ms (hd es)))"
proof -
  let ?es = "if u \<in> set (prov_urls es)
      then update_first (\<lambda>e. pe_relay_url e = u) (touch_provenance_entry t) es
      else case prov_victim es of
             Some i \<Rightarrow> es[Suc i := new_provenance_entry u t]
           | None \<Rightarrow> es @ [new_provenance_entry u t]"
  have ne: "?es \<noteq> []"
    by (cases es) (auto simp: prov_urls_def prov_victim_def split: option.splits)
  have first: "pe_first_seen_ms (hd (upsert_provenance u t es)) = Min (set (map pe_first_seen_ms ?es))"
    unfolding upsert_provenance_cases by (rule hd_first_seen_sort [OF ne])
  have "Min (set (map pe_first_seen_ms ?es)) = (if es = [] then t else min t (pe_first_seen_ms (hd es)))"
  proof (cases "u \<in> set (prov_urls es)")
    case True
    then have "es \<noteq> []" "\<exists>e \<in> set es. pe_relay_url e = u" by (auto simp: prov_urls_def)
    with True show ?thesis by (simp add: Min_update_first hd_first_seen_ok [OF assms] del: set_map)
  next
    case False
    show ?thesis
    proof (cases "prov_victim es")
      case None
      with False show ?thesis
        by (cases "es = []")
           (simp_all add: new_provenance_entry_def hd_first_seen_ok [OF assms] min.commute)
    next
      case (Some i)
      note i = prov_victim_less [OF Some]
      have head: "\<forall>e \<in> set es. pe_first_seen_ms (hd es) \<le> pe_first_seen_ms e"
        using i by (subst hd_first_seen_ok [OF assms]) auto
      let ?f = "map pe_first_seen_ms es"
      have "min t (pe_first_seen_ms (hd es)) \<le> y" if "y \<in> set (?f[Suc i := t])" for y
        using that set_update_subset_insert [of ?f "Suc i" t] head by (auto simp: min_le_iff_disj)
      moreover have "t \<in> set (?f[Suc i := t])" using i by (intro set_update_memI) simp
      moreover have "pe_first_seen_ms (hd es) \<in> set (?f[Suc i := t])"
        using i by (cases es) auto
      ultimately have "Min (set (?f[Suc i := t])) = min t (pe_first_seen_ms (hd es))"
        by (intro Min_eqI) (simp_all only: min_def split: if_split, auto)
      moreover have "map pe_first_seen_ms (es[Suc i := new_provenance_entry u t]) = ?f[Suc i := t]"
        by (simp add: map_update new_provenance_entry_def)
      ultimately show ?thesis using False Some i by auto
    qed
  qed
  with first show ?thesis
    using upsert_prov_ok [OF assms] upsert_urls_new upsert_urls_subset by simp
qed

lemma upsert_provenance_discipline_witness:
  "prov_urls (upsert_provenance ''wss://a'' 5 [\<lparr>pe_relay_url = ''wss://b'', pe_first_seen_ms = 7,
     pe_last_seen_ms = 9, pe_primary = True\<rparr>]) = [''wss://a'', ''wss://b''] \<and>
   pe_first_seen_ms (hd (upsert_provenance ''wss://a'' 5 [\<lparr>pe_relay_url = ''wss://b'',
     pe_first_seen_ms = 7, pe_last_seen_ms = 9, pe_primary = True\<rparr>])) = 5"
proof -
  let ?es = "[\<lparr>pe_relay_url = ''wss://b'', pe_first_seen_ms = 7, pe_last_seen_ms = 9, pe_primary = True\<rparr>]"
  have "prov_ok ?es" by code_simp
  from upsert_provenance_discipline [OF this, of "''wss://a''" 5]
  have "pe_first_seen_ms (hd (upsert_provenance ''wss://a'' 5 ?es)) = 5" by simp
  moreover have "prov_urls (upsert_provenance ''wss://a'' 5 ?es) = [''wss://a'', ''wss://b'']" by code_simp
  ultimately show ?thesis by simp
qed

section \<open>Per-event indexes\<close>

text \<open>
  The contract of an index over event ids: \<open>rows\<close> says where an id is recorded, and
  dropping an id removes all its rows and no other. A client that drops the id of every
  event it deletes never leaves a dangling row.
\<close>

locale id_index =
  fixes rows :: "'s \<Rightarrow> 'i \<Rightarrow> 'r set"
    and wf :: "'s \<Rightarrow> bool"
    and drop :: "'i \<Rightarrow> 's \<Rightarrow> 's"
  assumes wf_drop: "wf s \<Longrightarrow> wf (drop i s)"
    and rows_drop: "wf s \<Longrightarrow> rows (drop i s) j = (if j = i then {} else rows s j)"
begin

lemma no_dangling:
  "wf s \<Longrightarrow> \<forall>j. rows s j \<noteq> {} \<longrightarrow> j \<in> D \<Longrightarrow> rows (drop i s) j \<noteq> {} \<Longrightarrow> j \<in> D - {i}"
  by (auto simp: rows_drop split: if_splits)

lemma wf_fold_drop: "wf s \<Longrightarrow> wf (fold drop ids s)"
  by (induction ids arbitrary: s) (auto simp: wf_drop)

lemma rows_fold_drop: "wf s \<Longrightarrow> rows (fold drop ids s) j = (if j \<in> set ids then {} else rows s j)"
  by (induction ids arbitrary: s) (auto simp: wf_drop rows_drop)

end

text \<open>Dropping the buckets a removal left empty.\<close>

definition drop_empty :: "('k \<times> 'v list) list \<Rightarrow> ('k \<times> 'v list) list" where
  "drop_empty m = fold hm_remove (map fst (filter (\<lambda>(_, v). v = []) m)) m"

lemma map_of_drop_empty:
  "hm_wf m \<Longrightarrow> map_of (drop_empty m) k = (case map_of m k of Some v \<Rightarrow> if v = [] then None else Some v | None \<Rightarrow> None)"
proof -
  assume wf: "hm_wf m"
  have "k \<in> set (map fst (filter (\<lambda>(_, v). v = []) m)) \<longleftrightarrow> map_of m k = Some []"
    using hm_mem_iff [OF wf] by (force simp: image_iff)
  then show ?thesis
    by (auto simp: drop_empty_def hash_map.get_fold_del split: option.splits)
qed

lemma hm_wf_drop_empty: "hm_wf m \<Longrightarrow> hm_wf (drop_empty m)"
  by (simp add: drop_empty_def hash_map.wf_fold_del)

text \<open>Well-formed buckets are non-empty ascending sets.\<close>

definition buckets_wf :: "('k \<times> string list) list \<Rightarrow> bool" where
  "buckets_wf m \<longleftrightarrow> hm_wf m \<and> (\<forall>k ids. map_of m k = Some ids \<longrightarrow> ids \<noteq> [] \<and> bs_wf ids)"

definition bucket_rows :: "('k \<times> string list) list \<Rightarrow> string \<Rightarrow> 'k set" where
  "bucket_rows m i = {k. \<exists>ids. map_of m k = Some ids \<and> i \<in> set ids}"

definition bucket_add :: "'k \<Rightarrow> string \<Rightarrow> ('k \<times> string list) list \<Rightarrow> ('k \<times> string list) list" where
  "bucket_add k i m = hm_entry [] k (bs_insert i) m"

definition bucket_drop :: "string \<Rightarrow> ('k \<times> string list) list \<Rightarrow> ('k \<times> string list) list" where
  "bucket_drop i m = drop_empty (hm_map_values (bs_remove i) m)"

lemma map_of_bucket_drop:
  "hm_wf m \<Longrightarrow>
     map_of (bucket_drop i m) k =
       (case map_of m k of
          Some ids \<Rightarrow> if bs_remove i ids = [] then None else Some (bs_remove i ids)
        | None \<Rightarrow> None)"
  by (simp add: bucket_drop_def map_of_drop_empty hm_wf_map_values hm_get_map_values split: option.splits)

lemma hm_wf_bucket_drop: "hm_wf m \<Longrightarrow> hm_wf (bucket_drop i m)"
  by (simp add: bucket_drop_def hm_wf_drop_empty hm_wf_map_values)

lemma buckets_wf_drop: "buckets_wf m \<Longrightarrow> buckets_wf (bucket_drop i m)"
  unfolding buckets_wf_def
  by (auto simp: map_of_bucket_drop bs_wf_remove hm_wf_bucket_drop split: option.splits if_splits)

lemma bucket_rows_Nil [simp]: "bucket_rows [] j = {}"
  by (simp add: bucket_rows_def)

lemma bucket_rows_drop:
  assumes "hm_wf m"
  shows "bucket_rows (bucket_drop i m) j = (if j = i then {} else bucket_rows m j)"
proof -
  have "(\<exists>ids. map_of (bucket_drop i m) k = Some ids \<and> j \<in> set ids) \<longleftrightarrow>
      j \<noteq> i \<and> (\<exists>ids. map_of m k = Some ids \<and> j \<in> set ids)" for k
  proof (cases "map_of m k")
    case None
    then show ?thesis by (simp add: map_of_bucket_drop [OF assms])
  next
    case (Some ids)
    have "j \<in> set (bs_remove i ids) \<longleftrightarrow> j \<noteq> i \<and> j \<in> set ids" by auto
    with Some show ?thesis
      by (cases "bs_remove i ids = []") (auto simp: map_of_bucket_drop [OF assms])
  qed
  then show ?thesis by (auto simp: bucket_rows_def)
qed

lemma buckets_wf_add: "buckets_wf m \<Longrightarrow> buckets_wf (bucket_add k i m)"
  by (auto simp: buckets_wf_def bucket_add_def hm_wf_entry hm_get_entry unwrap_or_def
      intro!: bs_wf_insert split: option.splits if_splits)

lemma bucket_rows_add: "bucket_rows (bucket_add k i m) j = bucket_rows m j \<union> (if j = i then {k} else {})"
  by (auto simp: bucket_rows_def bucket_add_def hm_get_entry unwrap_or_def split: option.splits if_splits)

interpretation bucket_index: id_index bucket_rows buckets_wf bucket_drop
proof
  show "buckets_wf (bucket_drop i s)" if "buckets_wf s" for s :: "('k \<times> string list) list" and i
    using that by (rule buckets_wf_drop)
  show "bucket_rows (bucket_drop i s) j = (if j = i then {} else bucket_rows s j)"
    if "buckets_wf s" for s :: "('k \<times> string list) list" and i j
    using that by (intro bucket_rows_drop) (simp add: buckets_wf_def)
qed

text \<open>The relay index is such a map, the relay-kind index a map of them.\<close>

lemma relay_index_add_bucket:
  "ms_relay_index (relay_index_add u i st) = bucket_add u i (ms_relay_index st)"
  by (simp add: relay_index_add_def bucket_add_def)

lemma relay_index_remove_bucket:
  "ms_relay_index (relay_index_remove i st) = bucket_drop i (ms_relay_index st)"
  by (simp add: relay_index_remove_def bucket_drop_def drop_empty_def Let_def)

lemma prune_kinds_bucket: "prune_kinds i kinds = bucket_drop i kinds"
  by (simp add: prune_kinds_def bucket_drop_def drop_empty_def Let_def)

definition kinds_wf :: "(relay_url \<times> (u32 \<times> string list) list) list \<Rightarrow> bool" where
  "kinds_wf m \<longleftrightarrow> hm_wf m \<and> (\<forall>u kinds. map_of m u = Some kinds \<longrightarrow> kinds \<noteq> [] \<and> buckets_wf kinds)"

definition kind_rows :: "(relay_url \<times> (u32 \<times> string list) list) list \<Rightarrow> string \<Rightarrow> (relay_url \<times> u32) set" where
  "kind_rows m i = {(u, k). \<exists>kinds. map_of m u = Some kinds \<and> k \<in> bucket_rows kinds i}"

definition kind_drop :: "string \<Rightarrow> (relay_url \<times> (u32 \<times> string list) list) list \<Rightarrow> (relay_url \<times> (u32 \<times> string list) list) list" where
  "kind_drop i m = drop_empty (hm_map_values (bucket_drop i) m)"

lemma relay_kind_remove_bucket:
  "ms_relay_kind (relay_kind_remove_id i st) = kind_drop i (ms_relay_kind st)"
  by (simp add: relay_kind_remove_id_def kind_drop_def drop_empty_def Let_def prune_kinds_bucket [abs_def])

lemma map_of_kind_drop:
  "hm_wf m \<Longrightarrow>
     map_of (kind_drop i m) u =
       (case map_of m u of
          Some kinds \<Rightarrow> if bucket_drop i kinds = [] then None else Some (bucket_drop i kinds)
        | None \<Rightarrow> None)"
  by (simp add: kind_drop_def map_of_drop_empty hm_wf_map_values hm_get_map_values split: option.splits)

lemma kinds_wf_drop: "kinds_wf m \<Longrightarrow> kinds_wf (kind_drop i m)"
  unfolding kinds_wf_def
  by (auto simp: map_of_kind_drop buckets_wf_drop split: option.splits if_splits)
     (simp add: kind_drop_def hm_wf_drop_empty hm_wf_map_values)

lemma kind_rows_drop: "kinds_wf m \<Longrightarrow> kind_rows (kind_drop i m) j = (if j = i then {} else kind_rows m j)"
proof -
  assume wf: "kinds_wf m"
  have rows: "(case map_of (kind_drop i m) u of Some kinds \<Rightarrow> bucket_rows kinds j | None \<Rightarrow> {}) =
      (case map_of m u of Some kinds \<Rightarrow> if j = i then {} else bucket_rows kinds j | None \<Rightarrow> {})" for u
  proof (cases "map_of m u")
    case (Some kinds)
    then have "buckets_wf kinds" using wf by (auto simp: kinds_wf_def)
    then have "bucket_rows (bucket_drop i kinds) j = (if j = i then {} else bucket_rows kinds j)"
      by (rule bucket_index.rows_drop)
    then show ?thesis
      using Some wf bucket_rows_Nil [of j]
      by (cases "bucket_drop i kinds = []") (auto simp: map_of_kind_drop kinds_wf_def)
  next
    case None
    then show ?thesis using wf by (simp add: map_of_kind_drop kinds_wf_def)
  qed
  have alt: "kind_rows m' j = {(u, k). k \<in> (case map_of m' u of Some kinds \<Rightarrow> bucket_rows kinds j | None \<Rightarrow> {})}" for m'
    by (auto simp: kind_rows_def split: option.splits)
  show ?thesis unfolding alt rows by (auto split: option.splits)
qed

interpretation kind_index: id_index kind_rows kinds_wf kind_drop
  by unfold_locales (simp_all add: kinds_wf_drop kind_rows_drop)

lemma relay_kind_add_bucket:
  "ms_relay_kind (relay_kind_add u k i st) =
     (if is_relay_provenance_private k then ms_relay_kind st
      else hm_entry [] u (bucket_add k i) (ms_relay_kind st))"
  by (simp add: relay_kind_add_def bucket_add_def [abs_def])

lemma buckets_wf_Nil [simp]: "buckets_wf []"
  by (simp add: buckets_wf_def)

lemma bucket_add_ne_Nil [simp]: "bucket_add k i m \<noteq> []"
proof
  assume "bucket_add k i m = []"
  then have "hm_keys (bucket_add k i m) = {}" by simp
  then show False by (simp add: bucket_add_def)
qed

lemma kinds_wf_add: "kinds_wf m \<Longrightarrow> kinds_wf (hm_entry [] u (bucket_add k i) m)"
  by (auto simp: kinds_wf_def hm_wf_entry hm_get_entry unwrap_or_def buckets_wf_add
      split: option.splits if_splits)

lemma kind_rows_add:
  "kind_rows (hm_entry [] u (bucket_add k i) m) j = kind_rows m j \<union> (if j = i then {(u, k)} else {})"
  by (auto simp: kind_rows_def hm_get_entry unwrap_or_def bucket_rows_add split: option.splits if_splits)

text \<open>Plain maps keyed by the id: provenance and the access index.\<close>

definition key_rows :: "(string \<times> 'v) list \<Rightarrow> string \<Rightarrow> 'v set" where
  "key_rows m i = set_option (map_of m i)"

interpretation key_index: id_index key_rows "\<lambda>m. distinct (map fst m)" AList.delete
  by unfold_locales (simp_all add: key_rows_def hash_map.wf_del hash_map.get_del)

text \<open>And the text index, by document key.\<close>

definition doc_rows :: "fts_state \<Rightarrow> doc_key \<Rightarrow> 32 word set" where
  "doc_rows fts d = {scope. \<exists>index. map_of (fts_indices fts) scope = Some index \<and> d \<in> hm_keys (si_doc_meta index)}"

definition doc_drop :: "doc_key \<Rightarrow> fts_state \<Rightarrow> fts_state" where
  "doc_drop d fts = fts\<lparr>fts_indices := hm_map_values (remove_doc_from_scope d) (fts_indices fts)\<rparr>"

interpretation doc_index: id_index doc_rows fts_inv doc_drop
proof
  show "fts_inv (doc_drop i s)" if "fts_inv s" for s i
    using that by (auto simp: doc_drop_def fts_inv_def hm_wf_map_values hm_get_map_values si_inv_remove)
  show "doc_rows (doc_drop i s) j = (if j = i then {} else doc_rows s j)" if "fts_inv s" for s i j
    by (auto simp: doc_rows_def doc_drop_def hm_get_map_values meta_remove_doc)
qed

lemma fts_index_remove_doc_drop:
  "hex_to_event_id i = Some d \<Longrightarrow> fts_index_remove i fts = doc_drop d fts"
  by (simp add: fts_index_remove_def doc_drop_def hm_map_values_def)

lemma fts_docs_rows: "d \<in> fts_docs fts \<longleftrightarrow> doc_rows fts d \<noteq> {}"
  by (auto simp: fts_docs_def doc_rows_def)

section \<open>Hexadecimal round trips\<close>

lemma bytes_to_hex_simps [simp]:
  "bytes_to_hex [] = []"
  "bytes_to_hex (b # bs) = HEX ! unat (drop_bit 4 b) # HEX ! unat (b AND 0x0f) # bytes_to_hex bs"
  by (simp_all add: bytes_to_hex_def)

lemma length_bytes_to_hex [simp]: "length (bytes_to_hex bs) = 2 * length bs"
  by (induction bs) auto

lemma HEX_nibble:
  assumes "n < 16"
  shows "hex_nibble (of_char (HEX ! n)) = Some (word_of_nat n)"
proof -
  have "list_all (\<lambda>n. hex_nibble (of_char (HEX ! n)) = Some (word_of_nat n)) [0..<16]" by code_simp
  with assms show ?thesis by (simp add: list_all_iff)
qed

lemma unat_nibbles:
  fixes b :: byte
  shows "unat (drop_bit 4 b) < 16" "unat (b AND 0x0f) < 16"
proof -
  have "unat (drop_bit 4 b) = drop_bit 4 (unat b)" by (rule unat_drop_bit_eq)
  also have "\<dots> = unat b div 16" by (simp add: drop_bit_eq_div)
  finally show "unat (drop_bit 4 b) < 16" using unsigned_less [of b, where ?'a = nat] by simp
  have "b AND 0x0f \<le> 0x0f" by (rule word_and_le1)
  then show "unat (b AND 0x0f) < 16" by (simp add: word_le_nat_alt)
qed

lemma join_nibbles:
  fixes b :: byte
  shows "push_bit 4 (drop_bit 4 b) OR (b AND 0x0f) = b"
proof -
  have "b AND 0x0f = take_bit 4 b" by (simp add: take_bit_eq_mask mask_eq_exp_minus_1)
  then show ?thesis
    by (simp add: bit_eq_iff bit_simps) (auto simp: bit_simps)
qed

lemma hex_chunks_bytes_to_hex: "hex_chunks (as_bytes (bytes_to_hex bs)) = Some bs"
  by (induction bs) (simp_all add: as_bytes_def HEX_nibble unat_nibbles join_nibbles)

lemma hex_roundtrip: "length bs = 32 \<Longrightarrow> hex_to_bytes32 (bytes_to_hex bs) = Some bs"
  by (simp add: hex_to_bytes32_def hex_chunks_bytes_to_hex)

lemma bytes_to_hex_inject:
  "length a = 32 \<Longrightarrow> length b = 32 \<Longrightarrow> bytes_to_hex a = bytes_to_hex b \<longleftrightarrow> a = b"
  using hex_roundtrip by (metis option.inject)

text \<open>The other way round, decoding forgets the case of the digits only.\<close>

lemma hex_digit_lower:
  "hex_nibble (of_char c) = Some n \<Longrightarrow> n < 16 \<and> HEX ! unat n = ascii_lower_char c"
proof (cases c)
  case (Char b0 b1 b2 b3 b4 b5 b6 b7)
  show "hex_nibble (of_char c) = Some n \<Longrightarrow> n < 16 \<and> HEX ! unat n = ascii_lower_char c"
    unfolding Char
    by (cases b0; cases b1; cases b2; cases b3; cases b4; cases b5; cases b6; cases b7)
       (auto simp: hex_nibble_def HEX_def ascii_lower_char_def less_eq_char_def word_le_nat_alt split: if_splits)
qed

lemma hex_nibble_lower: "hex_nibble (of_char (ascii_lower_char c)) = hex_nibble (of_char c)"
proof (cases c)
  case (Char b0 b1 b2 b3 b4 b5 b6 b7)
  show ?thesis
    unfolding Char
    by (cases b0; cases b1; cases b2; cases b3; cases b4; cases b5; cases b6; cases b7)
       (simp_all add: hex_nibble_def ascii_lower_char_def less_eq_char_def word_le_nat_alt)
qed

lemma hex_chunks_lower: "hex_chunks (as_bytes (ascii_lower s)) = hex_chunks (as_bytes s)"
  by (induction s rule: induct_list012) (simp_all add: as_bytes_def ascii_lower_def hex_nibble_lower)

lemma split_nibbles:
  fixes hi lo :: byte
  assumes "hi < 16" and "lo < 16"
  shows "drop_bit 4 (push_bit 4 hi OR lo) = hi" and "(push_bit 4 hi OR lo) AND 0x0f = lo"
proof -
  have "list_all (\<lambda>(h, l). drop_bit 4 (push_bit 4 (word_of_nat h) OR word_of_nat l) = (word_of_nat h :: byte) \<and>
     (push_bit 4 (word_of_nat h) OR word_of_nat l) AND 0x0f = (word_of_nat l :: byte)) (List.product [0..<16] [0..<16])"
    by code_simp
  then have "drop_bit 4 (push_bit 4 (word_of_nat h) OR word_of_nat l) = (word_of_nat h :: byte) \<and>
     (push_bit 4 (word_of_nat h) OR word_of_nat l) AND 0x0f = (word_of_nat l :: byte)"
    if "h < 16" "l < 16" for h l
    using that by (simp add: list_all_iff)
  from this [of "unat hi" "unat lo"] assms
  show "drop_bit 4 (push_bit 4 hi OR lo) = hi" "(push_bit 4 hi OR lo) AND 0x0f = lo"
    by (simp_all add: word_less_nat_alt)
qed

lemma hex_chunks_inverse:
  "hex_chunks (as_bytes s) = Some bs \<Longrightarrow> bytes_to_hex bs = ascii_lower s \<and> length s = 2 * length bs"
proof (induction "as_bytes s" arbitrary: s bs rule: hex_chunks.induct)
  case 1
  then show ?case by (simp add: as_bytes_def)
next
  case (2 h)
  from "2.prems" show ?case by (simp flip: "2.hyps")
next
  case (3 h l r)
  then obtain c d t where s: "s = c # d # t" and h: "h = of_char c" "l = of_char d" "r = as_bytes t"
    by (cases s; cases "tl s") (auto simp: as_bytes_def)
  from "3.prems" obtain hi lo rest where
    n: "hex_nibble h = Some hi" "hex_nibble l = Some lo" "hex_chunks r = Some rest"
    and bs: "bs = (push_bit 4 hi OR lo) # rest"
    unfolding "3.hyps"(2) [symmetric] by (auto simp: bind_eq_Some_conv)
  from "3.hyps"(1) [OF n(1,2) h(3)] n(3) h(3) have "bytes_to_hex rest = ascii_lower t \<and> length t = 2 * length rest"
    by simp
  moreover have c: "hi < 16 \<and> HEX ! unat hi = ascii_lower_char c"
    and d: "lo < 16 \<and> HEX ! unat lo = ascii_lower_char d"
    using hex_digit_lower [of c hi] hex_digit_lower [of d lo] n h by simp_all
  ultimately show ?case
    using split_nibbles [of hi lo] by (simp only: s bs bytes_to_hex_simps ascii_lower_def list.map list.size) simp
qed

lemma hex_to_bytes32_inverse:
  "hex_to_bytes32 s = Some bs \<Longrightarrow> length bs = 32 \<and> bytes_to_hex bs = ascii_lower s"
  using hex_chunks_inverse [of s bs] by (auto simp: hex_to_bytes32_def split: if_splits)

text \<open>Hexadecimal identifiers round-trip: encoding 32 bytes and decoding gives them back,
  and decoding a string and encoding the result gives the string in lower case. So a
  lower-case id is the key its decoded bytes lead back to.\<close>

theorem hex_roundtrips:
  assumes "length bs = 32"
  shows "hex_to_bytes32 (bytes_to_hex bs) = Some bs \<and>
    (\<forall>s. hex_to_bytes32 s = Some bs \<longleftrightarrow> ascii_lower s = bytes_to_hex bs)"
proof -
  have "hex_to_bytes32 s = Some bs" if eq: "ascii_lower s = bytes_to_hex bs" for s
    using hex_roundtrip [OF assms] hex_chunks_lower [of s] length_ascii_lower [of s]
    unfolding eq [symmetric] hex_to_bytes32_def by (simp split: if_splits)
  then show ?thesis using hex_roundtrip [OF assms] hex_to_bytes32_inverse by metis
qed

lemma hex_roundtrips_witness:
  "hex_to_bytes32 (bytes_to_hex (replicate 32 0xAB)) = Some (replicate 32 0xAB) \<and>
   (\<forall>s. hex_to_bytes32 s = Some (replicate 32 0xAB) \<longleftrightarrow> ascii_lower s = bytes_to_hex (replicate 32 0xAB))"
  by (rule hex_roundtrips) simp

end
