(* ===== verification/Store_Log.thy ===== *)
theory Store_Log
  imports Mem_State
begin

text \<open>
  The ingest log of the store: \<open>src/crates/nmp-store/src/mem/ingest_log.rs\<close> and the log
  methods of \<open>mem/store_impl.rs\<close>. Every accepted, replaced or removed event appends a row
  under the next sequence number; the append trims the log to the retention floor, held back
  by the claims of protected cursors; a consumer pulls pages behind its cursor.

  The lemmas show that the log is gap-free above its floor, that a page is the contiguous run
  behind the cursor and a gap is reported exactly when rows are gone, that draining terminates
  and delivers every row once and in order, and how far claims hold the floor back.
\<close>

section \<open>Operations\<close>

definition protected_floor :: "mem_state \<Rightarrow> u64 option" where
  "protected_floor st =
     (let latest_seq = ms_ingest_seq st;
          eligible = filter (\<lambda>c. latest_seq - rc_after_seq c \<le> rc_max_lag_entries c)
                       (ms_retention_claims st)
      in if eligible = [] then None else Some (Min (set (map rc_after_seq eligible))))"

definition log_gc_trim :: "mem_state \<Rightarrow> mem_state" where
  "log_gc_trim st =
     (let latest_seq = ms_ingest_seq st;
          normal_floor = latest_seq - DEFAULT_LOG_MAX_ENTRIES;
          target_floor = (case protected_floor st of
                            Some p \<Rightarrow> min normal_floor p
                          | None \<Rightarrow> normal_floor);
          new_floor = max (ms_log_gc_floor st) target_floor
      in if new_floor \<le> ms_log_gc_floor st then st
         else
           let to_remove = map fst (filter (\<lambda>(seq, _). ms_log_gc_floor st < seq \<and> seq \<le> new_floor)
                                      (ms_ingest_log st))
           in st\<lparr>ms_ingest_log := fold hm_remove to_remove (ms_ingest_log st),
                 ms_log_gc_floor := new_floor\<rparr>)"

definition log_append ::
  "log_op \<Rightarrow> event_id \<Rightarrow> raw_event option \<Rightarrow> relay_url option \<Rightarrow> u64 \<Rightarrow> mem_state \<Rightarrow> mem_state" where
  "log_append op event_id raw_event source_relay received_at_ms st =
     (let seq = ms_ingest_seq st + 1;
          entry = \<lparr>le_seq = seq, le_op = op, le_event_id = event_id, le_raw_event = raw_event,
                   le_source_relay = source_relay, le_received_at_ms = received_at_ms\<rparr>
      in log_gc_trim (st\<lparr>ms_ingest_seq := seq,
                         ms_ingest_log := bm_insert seq entry (ms_ingest_log st)\<rparr>))"

definition emit_inserted ::
  "event_id \<Rightarrow> raw_event \<Rightarrow> relay_url \<Rightarrow> u64 \<Rightarrow> mem_state \<Rightarrow> mem_state" where
  "emit_inserted event_id raw_event source_relay received_at_ms st =
     log_append LogInserted event_id (Some raw_event) (Some source_relay) received_at_ms st"

definition emit_replaced ::
  "event_id \<Rightarrow> event_id \<Rightarrow> raw_event \<Rightarrow> relay_url \<Rightarrow> u64 \<Rightarrow> mem_state \<Rightarrow> mem_state" where
  "emit_replaced new_event_id replaced_id raw_event source_relay received_at_ms st =
     log_append (LogReplaced replaced_id) new_event_id (Some raw_event) (Some source_relay)
       received_at_ms st"

definition emit_deleted ::
  "event_id \<Rightarrow> event_id \<Rightarrow> delete_reason \<Rightarrow> u64 \<Rightarrow> mem_state \<Rightarrow> mem_state" where
  "emit_deleted carrier_event_id target_id reason received_at_ms st =
     log_append (LogDeleted target_id reason) carrier_event_id None None received_at_ms st"

definition latest_ingest_seq :: "mem_state \<Rightarrow> u64" where
  "latest_ingest_seq st = ms_ingest_seq st"

definition oldest_available_seq :: "mem_state \<Rightarrow> u64 option" where
  "oldest_available_seq st = (case ms_ingest_log st of [] \<Rightarrow> None | (seq, _) # _ \<Rightarrow> Some seq)"

definition scan_log_since_seq :: "mem_state \<Rightarrow> u64 \<Rightarrow> usize \<Rightarrow> scan_log_result" where
  "scan_log_since_seq st after_seq limit =
     (let latest = ms_ingest_seq st;
          gc_floor = ms_log_gc_floor st
      in if gc_floor > 0 \<and> after_seq < gc_floor then
           Gap \<lparr>pg_requested_after_seq = after_seq, pg_first_available_seq = gc_floor + 1\<rparr>
         else
           case checked_add_u64 after_seq 1 of
             None \<Rightarrow>
               Page \<lparr>pp_entries = [], pp_next_after_seq = after_seq, pp_latest_seq = latest,
                     pp_has_more = False\<rparr>
           | Some start_seq \<Rightarrow>
               let entries = map snd (take limit (filter (\<lambda>(seq, _). start_seq \<le> seq) (ms_ingest_log st)));
                   next_after_seq = (if entries = [] then after_seq else le_seq (last entries))
               in Page \<lparr>pp_entries = entries, pp_next_after_seq = next_after_seq,
                        pp_latest_seq = latest, pp_has_more = (next_after_seq < latest)\<rparr>)"

definition replace_log_retention_claims :: "log_retention_claim list \<Rightarrow> mem_state \<Rightarrow> mem_state" where
  "replace_log_retention_claims claims st = st\<lparr>ms_retention_claims := claims\<rparr>"

section \<open>The log invariant\<close>

definition log_inv :: "mem_state \<Rightarrow> bool" where
  "log_inv st \<longleftrightarrow> ms_log_gc_floor st \<le> ms_ingest_seq st \<and>
     map fst (ms_ingest_log st) = [ms_log_gc_floor st + 1 ..< ms_ingest_seq st + 1] \<and>
     (\<forall>(seq, e) \<in> set (ms_ingest_log st). le_seq e = seq)"

lemma log_gc_trim_frame [simp, frame_simps]:
  "ms_events (log_gc_trim st) = ms_events st"
  "ms_tombstones (log_gc_trim st) = ms_tombstones st"
  "ms_addr_tombstones (log_gc_trim st) = ms_addr_tombstones st"
  "ms_provenance (log_gc_trim st) = ms_provenance st"
  "ms_relay_index (log_gc_trim st) = ms_relay_index st"
  "ms_relay_kind (log_gc_trim st) = ms_relay_kind st"
  "ms_replaceable_freshness (log_gc_trim st) = ms_replaceable_freshness st"
  "ms_coverage (log_gc_trim st) = ms_coverage st"
  "ms_domain_data (log_gc_trim st) = ms_domain_data st"
  "ms_domain_versions (log_gc_trim st) = ms_domain_versions st"
  "ms_ingest_seq (log_gc_trim st) = ms_ingest_seq st"
  "ms_retention_claims (log_gc_trim st) = ms_retention_claims st"
  "ms_access_seq (log_gc_trim st) = ms_access_seq st"
  "ms_access_index (log_gc_trim st) = ms_access_index st"
  "ms_fts (log_gc_trim st) = ms_fts st"
  by (simp_all add: log_gc_trim_def Let_def)

lemma log_append_frame [simp, frame_simps]:
  "ms_events (log_append op i r s t st) = ms_events st"
  "ms_tombstones (log_append op i r s t st) = ms_tombstones st"
  "ms_addr_tombstones (log_append op i r s t st) = ms_addr_tombstones st"
  "ms_provenance (log_append op i r s t st) = ms_provenance st"
  "ms_relay_index (log_append op i r s t st) = ms_relay_index st"
  "ms_relay_kind (log_append op i r s t st) = ms_relay_kind st"
  "ms_replaceable_freshness (log_append op i r s t st) = ms_replaceable_freshness st"
  "ms_coverage (log_append op i r s t st) = ms_coverage st"
  "ms_domain_data (log_append op i r s t st) = ms_domain_data st"
  "ms_domain_versions (log_append op i r s t st) = ms_domain_versions st"
  "ms_retention_claims (log_append op i r s t st) = ms_retention_claims st"
  "ms_access_seq (log_append op i r s t st) = ms_access_seq st"
  "ms_access_index (log_append op i r s t st) = ms_access_index st"
  "ms_fts (log_append op i r s t st) = ms_fts st"
  by (simp_all add: log_append_def Let_def)

lemma emit_inserted_frame [simp, frame_simps]:
  "ms_events (emit_inserted i r s t st) = ms_events st"
  "ms_tombstones (emit_inserted i r s t st) = ms_tombstones st"
  "ms_addr_tombstones (emit_inserted i r s t st) = ms_addr_tombstones st"
  "ms_provenance (emit_inserted i r s t st) = ms_provenance st"
  "ms_relay_index (emit_inserted i r s t st) = ms_relay_index st"
  "ms_relay_kind (emit_inserted i r s t st) = ms_relay_kind st"
  "ms_replaceable_freshness (emit_inserted i r s t st) = ms_replaceable_freshness st"
  "ms_coverage (emit_inserted i r s t st) = ms_coverage st"
  "ms_domain_data (emit_inserted i r s t st) = ms_domain_data st"
  "ms_domain_versions (emit_inserted i r s t st) = ms_domain_versions st"
  "ms_retention_claims (emit_inserted i r s t st) = ms_retention_claims st"
  "ms_access_seq (emit_inserted i r s t st) = ms_access_seq st"
  "ms_access_index (emit_inserted i r s t st) = ms_access_index st"
  "ms_fts (emit_inserted i r s t st) = ms_fts st"
  by (simp_all add: emit_inserted_def)

lemma emit_replaced_frame [simp, frame_simps]:
  "ms_events (emit_replaced i j r s t st) = ms_events st"
  "ms_tombstones (emit_replaced i j r s t st) = ms_tombstones st"
  "ms_addr_tombstones (emit_replaced i j r s t st) = ms_addr_tombstones st"
  "ms_provenance (emit_replaced i j r s t st) = ms_provenance st"
  "ms_relay_index (emit_replaced i j r s t st) = ms_relay_index st"
  "ms_relay_kind (emit_replaced i j r s t st) = ms_relay_kind st"
  "ms_replaceable_freshness (emit_replaced i j r s t st) = ms_replaceable_freshness st"
  "ms_coverage (emit_replaced i j r s t st) = ms_coverage st"
  "ms_domain_data (emit_replaced i j r s t st) = ms_domain_data st"
  "ms_domain_versions (emit_replaced i j r s t st) = ms_domain_versions st"
  "ms_retention_claims (emit_replaced i j r s t st) = ms_retention_claims st"
  "ms_access_seq (emit_replaced i j r s t st) = ms_access_seq st"
  "ms_access_index (emit_replaced i j r s t st) = ms_access_index st"
  "ms_fts (emit_replaced i j r s t st) = ms_fts st"
  by (simp_all add: emit_replaced_def)

lemma emit_deleted_frame [simp, frame_simps]:
  "ms_events (emit_deleted i j r t st) = ms_events st"
  "ms_tombstones (emit_deleted i j r t st) = ms_tombstones st"
  "ms_addr_tombstones (emit_deleted i j r t st) = ms_addr_tombstones st"
  "ms_provenance (emit_deleted i j r t st) = ms_provenance st"
  "ms_relay_index (emit_deleted i j r t st) = ms_relay_index st"
  "ms_relay_kind (emit_deleted i j r t st) = ms_relay_kind st"
  "ms_replaceable_freshness (emit_deleted i j r t st) = ms_replaceable_freshness st"
  "ms_coverage (emit_deleted i j r t st) = ms_coverage st"
  "ms_domain_data (emit_deleted i j r t st) = ms_domain_data st"
  "ms_domain_versions (emit_deleted i j r t st) = ms_domain_versions st"
  "ms_retention_claims (emit_deleted i j r t st) = ms_retention_claims st"
  "ms_access_seq (emit_deleted i j r t st) = ms_access_seq st"
  "ms_access_index (emit_deleted i j r t st) = ms_access_index st"
  "ms_fts (emit_deleted i j r t st) = ms_fts st"
  by (simp_all add: emit_deleted_def)

text \<open>The target of a trim.\<close>

definition trim_floor :: "mem_state \<Rightarrow> u64" where
  "trim_floor st =
     max (ms_log_gc_floor st)
       (case protected_floor st of
          Some p \<Rightarrow> min (ms_ingest_seq st - DEFAULT_LOG_MAX_ENTRIES) p
        | None \<Rightarrow> ms_ingest_seq st - DEFAULT_LOG_MAX_ENTRIES)"

text \<open>In a log with consecutive keys a bound on the key is a position.\<close>

lemma upt_Cons_conv: "k # ks = [a..<b] \<longleftrightarrow> a < b \<and> k = a \<and> ks = [Suc a..<b]"
  by (auto simp: upt_rec [of a b])

lemma filter_ge_consecutive: "map fst m = [a..<b] \<Longrightarrow> filter (\<lambda>(k, _). c \<le> k) m = drop (c - a) m"
proof (induction m arbitrary: a)
  case (Cons kv m)
  then have kv: "fst kv = a" and m: "map fst m = [Suc a..<b]" by (simp_all add: upt_Cons_conv)
  have IH: "filter (\<lambda>(k, _). c \<le> k) m = drop (c - Suc a) m" by (rule Cons.IH [OF m])
  show ?case
  proof (cases "c \<le> a")
    case True
    with kv IH show ?thesis by (cases kv) simp
  next
    case False
    then have "c - a = Suc (c - Suc a)" by simp
    with kv IH False show ?thesis by (cases kv) simp
  qed
qed simp

lemma fold_hm_remove_filter: "fold hm_remove ks m = filter (\<lambda>(k, _). k \<notin> set ks) m"
  by (induction ks arbitrary: m) (auto simp: AList.delete_eq comp_def intro!: filter_cong)

lemma fold_hm_remove_prefix:
  assumes "map fst m = [a..<b]"
  shows "fold hm_remove (map fst (filter (\<lambda>(k, _). k < c) m)) m = drop (c - a) m"
proof -
  have "filter (\<lambda>(k, _). k \<notin> set (map fst (filter (\<lambda>(k, _). k < c) m))) m = filter (\<lambda>(k, _). c \<le> k) m"
    by (rule filter_cong) force+
  then show ?thesis by (simp only: fold_hm_remove_filter filter_ge_consecutive [OF assms])
qed

text \<open>A trim moves the floor to its target and drops exactly the rows up to it.\<close>

lemma log_gc_trim_eq:
  assumes "log_inv st"
  shows "log_gc_trim st =
    st\<lparr>ms_ingest_log := drop (trim_floor st - ms_log_gc_floor st) (ms_ingest_log st),
       ms_log_gc_floor := trim_floor st\<rparr>"
proof (cases "trim_floor st \<le> ms_log_gc_floor st")
  case True
  then have "trim_floor st = ms_log_gc_floor st" by (simp add: trim_floor_def)
  with True show ?thesis by (simp add: log_gc_trim_def trim_floor_def Let_def)
next
  case False
  have keys: "map fst (ms_ingest_log st) = [ms_log_gc_floor st + 1 ..< ms_ingest_seq st + 1]"
    using assms by (simp add: log_inv_def)
  have pos: "ms_log_gc_floor st < k" if "(k, e) \<in> set (ms_ingest_log st)" for k e
  proof -
    have "k \<in> set (map fst (ms_ingest_log st))" using that by force
    then show ?thesis unfolding keys by auto
  qed
  have "filter (\<lambda>(seq, _). ms_log_gc_floor st < seq \<and> seq \<le> trim_floor st) (ms_ingest_log st) =
      filter (\<lambda>(seq, _). seq < trim_floor st + 1) (ms_ingest_log st)"
    using pos by (intro filter_cong) auto
  moreover have "fold hm_remove (map fst (filter (\<lambda>(seq, _). seq < trim_floor st + 1) (ms_ingest_log st))) (ms_ingest_log st) =
      drop (trim_floor st - ms_log_gc_floor st) (ms_ingest_log st)"
    using fold_hm_remove_prefix [OF keys, of "trim_floor st + 1"] by simp
  ultimately show ?thesis
    using False by (simp add: log_gc_trim_def trim_floor_def Let_def)
qed

lemma trim_floor_bounds:
  assumes "log_inv st"
  shows "ms_log_gc_floor st \<le> trim_floor st" "trim_floor st \<le> ms_ingest_seq st"
  using assms by (auto simp: trim_floor_def log_inv_def split: option.splits)

lemma log_inv_trim:
  assumes "log_inv st"
  shows "log_inv (log_gc_trim st)"
proof -
  have "map fst (drop (trim_floor st - ms_log_gc_floor st) (ms_ingest_log st)) =
      [trim_floor st + 1 ..< ms_ingest_seq st + 1]"
    using assms trim_floor_bounds [OF assms]
    by (simp flip: drop_map add: log_inv_def drop_upt del: upt_Suc)
  then show ?thesis
    using assms trim_floor_bounds [OF assms]
    by (auto simp: log_gc_trim_eq [OF assms] log_inv_def dest: in_set_dropD simp del: upt_Suc)
qed

text \<open>The state between the two halves of an append.\<close>

definition log_push :: "store_log_entry \<Rightarrow> mem_state \<Rightarrow> mem_state" where
  "log_push e st =
     st\<lparr>ms_ingest_seq := ms_ingest_seq st + 1,
        ms_ingest_log := ms_ingest_log st @ [(ms_ingest_seq st + 1, e\<lparr>le_seq := ms_ingest_seq st + 1\<rparr>)]\<rparr>"

lemma log_inv_push: "log_inv st \<Longrightarrow> log_inv (log_push e st)"
  by (auto simp: log_inv_def log_push_def)

lemma log_append_push:
  assumes "log_inv st"
  shows "log_append op i r s t st =
    log_gc_trim (log_push \<lparr>le_seq = 0, le_op = op, le_event_id = i, le_raw_event = r,
      le_source_relay = s, le_received_at_ms = t\<rparr> st)"
proof -
  have "\<forall>k \<in> hm_keys (ms_ingest_log st). k < ms_ingest_seq st + 1"
  proof
    fix k assume "k \<in> hm_keys (ms_ingest_log st)"
    then have "k \<in> set (map fst (ms_ingest_log st))" by (simp add: hm_keys_def)
    then show "k < ms_ingest_seq st + 1" using assms by (simp add: log_inv_def del: set_map upt_Suc)
  qed
  then show ?thesis by (simp add: log_append_def log_push_def bm_insert_append Let_def)
qed

lemma log_inv_append: "log_inv st \<Longrightarrow> log_inv (log_append op i r s t st)"
  by (simp add: log_append_push log_inv_trim log_inv_push)

lemma log_inv_emit:
  "log_inv st \<Longrightarrow> log_inv (emit_inserted i raw u t st)"
  "log_inv st \<Longrightarrow> log_inv (emit_replaced i j raw u t st)"
  "log_inv st \<Longrightarrow> log_inv (emit_deleted i j reason t st)"
  by (simp_all add: emit_inserted_def emit_replaced_def emit_deleted_def log_inv_append)

section \<open>Reading the log\<close>

text \<open>The rows behind a cursor.\<close>

definition rows_after :: "mem_state \<Rightarrow> u64 \<Rightarrow> store_log_entry list" where
  "rows_after st n = map snd (filter (\<lambda>(seq, _). n < seq) (ms_ingest_log st))"

lemma rows_after_drop:
  assumes "log_inv st" and "ms_log_gc_floor st \<le> n"
  shows "rows_after st n = map snd (drop (n - ms_log_gc_floor st) (ms_ingest_log st))"
proof -
  have keys: "map fst (ms_ingest_log st) = [ms_log_gc_floor st + 1 ..< ms_ingest_seq st + 1]"
    using assms by (simp add: log_inv_def)
  have "filter (\<lambda>(seq, _). n < seq) (ms_ingest_log st) = filter (\<lambda>(seq, _). n + 1 \<le> seq) (ms_ingest_log st)"
    by (rule filter_cong) auto
  then show ?thesis
    using filter_ge_consecutive [OF keys, of "n + 1"] by (simp add: rows_after_def)
qed

lemma le_seq_log: "log_inv st \<Longrightarrow> map le_seq (map snd (ms_ingest_log st)) = map fst (ms_ingest_log st)"
proof -
  assume "log_inv st"
  then have "\<forall>x \<in> set (ms_ingest_log st). le_seq (snd x) = fst x" by (auto simp: log_inv_def simp del: upt_Suc)
  then show ?thesis by simp
qed

lemma seqs_rows_after:
  assumes "log_inv st" and "ms_log_gc_floor st \<le> n"
  shows "map le_seq (rows_after st n) = [n + 1 ..< ms_ingest_seq st + 1]"
proof -
  have "map le_seq (rows_after st n) =
      drop (n - ms_log_gc_floor st) (map le_seq (map snd (ms_ingest_log st)))"
    by (simp add: rows_after_drop [OF assms] drop_map)
  also have "\<dots> = drop (n - ms_log_gc_floor st) [ms_log_gc_floor st + 1 ..< ms_ingest_seq st + 1]"
    using assms(1) by (simp only: le_seq_log) (simp add: log_inv_def del: upt_Suc)
  also have "\<dots> = [n + 1 ..< ms_ingest_seq st + 1]"
    using assms(2) by (simp add: drop_upt del: upt_Suc)
  finally show ?thesis .
qed

lemma length_rows_after:
  assumes "log_inv st" and "ms_log_gc_floor st \<le> n"
  shows "length (rows_after st n) = ms_ingest_seq st - n"
  using arg_cong [OF seqs_rows_after [OF assms], of length] by (simp del: upt_Suc)

lemma rows_after_rows_after:
  assumes "log_inv st" and "ms_log_gc_floor st \<le> n"
  shows "drop k (rows_after st n) = rows_after st (n + k)"
  using assms by (simp add: rows_after_drop drop_map add.commute)

lemma le_seq_nth_rows:
  assumes "log_inv st" and "ms_log_gc_floor st \<le> n" and "k < length (rows_after st n)"
  shows "le_seq (rows_after st n ! k) = n + k + 1"
proof -
  have "le_seq (rows_after st n ! k) = [n + 1 ..< ms_ingest_seq st + 1] ! k"
    using assms(3) seqs_rows_after [OF assms(1,2)] by (metis nth_map)
  also have "\<dots> = n + 1 + k"
    using assms length_rows_after [OF assms(1,2)] by (intro nth_upt) simp
  finally show ?thesis by simp
qed

text \<open>The page behind a cursor at or above the floor.\<close>

lemma scan_log_page:
  assumes inv: "log_inv st" and n: "ms_log_gc_floor st \<le> n" "n < u64_max"
  shows "scan_log_since_seq st n limit =
    (let rows = take limit (rows_after st n) in
     Page \<lparr>pp_entries = rows, pp_next_after_seq = n + length rows, pp_latest_seq = ms_ingest_seq st,
           pp_has_more = (n + length rows < ms_ingest_seq st)\<rparr>)"
proof -
  define rows where "rows = take limit (rows_after st n)"
  have entries: "map snd (take limit (filter (\<lambda>(seq, _). n + 1 \<le> seq) (ms_ingest_log st))) = rows"
    by (simp add: rows_def rows_after_def take_map Suc_le_eq)
  have "le_seq (last rows) = n + length rows" if ne: "rows \<noteq> []"
  proof -
    have "length rows \<le> limit" "0 < length rows" using ne by (simp_all add: rows_def)
    then have "length rows - 1 < limit" by linarith
    then have "last rows = rows_after st n ! (length rows - 1)"
      using ne by (simp add: rows_def last_conv_nth nth_take)
    moreover have "length rows - 1 < length (rows_after st n)"
    proof -
      have "length rows \<le> length (rows_after st n)" by (simp add: rows_def)
      with \<open>0 < length rows\<close> show ?thesis by linarith
    qed
    ultimately show ?thesis using le_seq_nth_rows [OF inv n(1)] ne by (cases rows) auto
  qed
  then have next_seq: "(if rows = [] then n else le_seq (last rows)) = n + length rows" by auto
  have "\<not> (0 < ms_log_gc_floor st \<and> n < ms_log_gc_floor st)" "checked_add_u64 n 1 = Some (n + 1)"
    using n by (simp_all add: checked_add_u64_def)
  then show ?thesis
    by (simp only: scan_log_since_seq_def Let_def if_False option.case entries next_seq flip: rows_def)
qed

text \<open>C14. A pull is never a silent skip. For a log in its invariant, a cursor below the floor gets
  an explicit gap, and a cursor at or above it gets a page whose rows carry exactly the next
  sequence numbers behind the cursor, without holes, up to the limit; \<open>has_more\<close> is set
  exactly when rows remain.\<close>

theorem scan_log_exact:
  assumes "log_inv st" and "n < u64_max"
  shows "case scan_log_since_seq st n limit of
      Gap g \<Rightarrow> n < ms_log_gc_floor st \<and> pg_first_available_seq g = ms_log_gc_floor st + 1
    | Page p \<Rightarrow> ms_log_gc_floor st \<le> n \<and>
        map le_seq (pp_entries p) = [n + 1 ..< min (n + limit) (max n (ms_ingest_seq st)) + 1] \<and>
        pp_next_after_seq p = n + length (pp_entries p) \<and>
        (pp_has_more p \<longleftrightarrow> pp_next_after_seq p < ms_ingest_seq st)"
proof (cases "n < ms_log_gc_floor st")
  case True
  then show ?thesis by (simp add: scan_log_since_seq_def Let_def)
next
  case False
  then have n: "ms_log_gc_floor st \<le> n" by simp
  have "map le_seq (take limit (rows_after st n)) = take limit [n + 1 ..< ms_ingest_seq st + 1]"
    by (simp add: seqs_rows_after [OF assms(1) n] flip: take_map del: upt_Suc)
  also have "\<dots> = [n + 1 ..< min (n + limit) (max n (ms_ingest_seq st)) + 1]"
    by (cases "n \<le> ms_ingest_seq st"; cases "n + limit \<le> ms_ingest_seq st")
       (simp_all add: take_upt min_def max_def del: upt_Suc, (simp_all add: upt_conv_Nil del: upt_Suc)?)
  finally show ?thesis
    using n by (simp add: scan_log_page [OF assms(1) n assms(2)] Let_def del: upt_Suc)
qed

text \<open>A consumer that keeps pulling while \<open>has_more\<close> is set.\<close>

fun drain :: "nat \<Rightarrow> usize \<Rightarrow> mem_state \<Rightarrow> u64 \<Rightarrow> store_log_entry list option" where
  "drain 0 limit st n = None"
| "drain (Suc fuel) limit st n =
     (case scan_log_since_seq st n limit of
        Gap _ \<Rightarrow> None
      | Page p \<Rightarrow>
          if pp_has_more p then map_option (\<lambda>r. pp_entries p @ r) (drain fuel limit st (pp_next_after_seq p))
          else Some (pp_entries p))"

text \<open>Draining terminates and loses nothing: from a cursor at or above the floor, at most
  one pull per remaining row delivers every row behind the cursor, once and in order.\<close>

theorem drain_complete:
  assumes "log_inv st" and "ms_log_gc_floor st \<le> n" and "ms_ingest_seq st < u64_max"
    and "n < u64_max" and "0 < limit" and "ms_ingest_seq st - n < fuel"
  shows "drain fuel limit st n = Some (rows_after st n)"
  using assms
proof (induction fuel arbitrary: n)
  case 0
  then show ?case by simp
next
  case (Suc fuel)
  let ?rows = "take limit (rows_after st n)"
  have len: "length (rows_after st n) = ms_ingest_seq st - n"
    using Suc.prems by (intro length_rows_after)
  note page = scan_log_page [OF Suc.prems(1,2,4), of limit]
  show ?case
  proof (cases "n + length ?rows < ms_ingest_seq st")
    case True
    with len Suc.prems have "limit < length (rows_after st n)" by (simp add: min_def split: if_splits)
    then have lim: "length ?rows = limit" by simp
    have "drain fuel limit st (n + limit) = Some (rows_after st (n + limit))"
      using Suc.prems True lim by (intro Suc.IH) auto
    moreover have "rows_after st (n + limit) = drop limit (rows_after st n)"
      using rows_after_rows_after [OF Suc.prems(1,2)] by simp
    ultimately show ?thesis using True lim by (simp add: page Let_def)
  next
    case False
    with len have "length (rows_after st n) \<le> limit" by (simp add: min_def split: if_splits)
    with False show ?thesis by (simp add: page Let_def)
  qed
qed

lemma length_log: "log_inv st \<Longrightarrow> length (ms_ingest_log st) = ms_ingest_seq st - ms_log_gc_floor st"
  using length_map [of fst "ms_ingest_log st"] by (simp add: log_inv_def del: upt_Suc)

lemma protected_floor_le:
  assumes "c \<in> set (ms_retention_claims st)"
    and "ms_ingest_seq st - rc_after_seq c \<le> rc_max_lag_entries c"
  shows "\<exists>p. protected_floor st = Some p \<and> p \<le> rc_after_seq c"
proof -
  let ?el = "filter (\<lambda>c. ms_ingest_seq st - rc_after_seq c \<le> rc_max_lag_entries c) (ms_retention_claims st)"
  have c: "c \<in> set ?el" using assms by simp
  then have "?el \<noteq> []" by (metis empty_iff list.set(1))
  then have "protected_floor st = Some (Min (set (map rc_after_seq ?el)))"
    by (simp only: protected_floor_def Let_def if_False)
  moreover have "Min (set (map rc_after_seq ?el)) \<le> rc_after_seq c"
    using c by (intro Min_le) auto
  ultimately show ?thesis by blast
qed

lemma protected_floor_mem:
  assumes "protected_floor st = Some p"
  shows "\<exists>c \<in> set (ms_retention_claims st). p = rc_after_seq c \<and>
    ms_ingest_seq st - rc_after_seq c \<le> rc_max_lag_entries c"
proof -
  let ?el = "filter (\<lambda>c. ms_ingest_seq st - rc_after_seq c \<le> rc_max_lag_entries c) (ms_retention_claims st)"
  have ne: "?el \<noteq> []" and p: "p = Min (set (map rc_after_seq ?el))"
    using assms by (simp_all only: protected_floor_def Let_def split: if_splits) simp_all
  have "Min (set (map rc_after_seq ?el)) \<in> set (map rc_after_seq ?el)"
    using ne by (intro Min_in) (simp_all del: set_map set_filter)
  then show ?thesis unfolding p by auto
qed

lemma trim_floor_protects:
  assumes "c \<in> set (ms_retention_claims st)"
    and "ms_ingest_seq st - rc_after_seq c \<le> rc_max_lag_entries c"
    and "ms_log_gc_floor st \<le> rc_after_seq c"
  shows "trim_floor st \<le> rc_after_seq c"
  using protected_floor_le [OF assms(1,2)] assms(3) by (auto simp: trim_floor_def)

lemma trim_floor_lag:
  "ms_ingest_seq st - trim_floor st \<le> Max (insert DEFAULT_LOG_MAX_ENTRIES (rc_max_lag_entries ` set (ms_retention_claims st)))"
proof -
  let ?S = "insert DEFAULT_LOG_MAX_ENTRIES (rc_max_lag_entries ` set (ms_retention_claims st))"
  have "\<exists>b \<in> ?S. ms_ingest_seq st - trim_floor st \<le> b"
  proof (cases "protected_floor st")
    case None
    then show ?thesis by (auto simp: trim_floor_def)
  next
    case (Some p)
    obtain c where c: "c \<in> set (ms_retention_claims st)" "p = rc_after_seq c"
        "ms_ingest_seq st - rc_after_seq c \<le> rc_max_lag_entries c"
      using protected_floor_mem [OF Some] by blast
    have "min (ms_ingest_seq st - DEFAULT_LOG_MAX_ENTRIES) p \<le> trim_floor st"
      by (simp add: trim_floor_def Some)
    then have "ms_ingest_seq st - trim_floor st \<le> DEFAULT_LOG_MAX_ENTRIES \<or>
        ms_ingest_seq st - trim_floor st \<le> rc_max_lag_entries c"
      using c(2,3) by linarith
    with c(1) show ?thesis by blast
  qed
  then show ?thesis by (meson Max_ge List.finite_set finite.insertI finite_imageI order_trans)
qed

text \<open>Retention is bounded and honours the claims. After an append, a protected cursor
  whose lag is within its bound still finds every row behind it, while the log never holds more
  rows than the default retention or the largest lag a claim may ask for, so a stuck consumer
  cannot pin it without bound.\<close>

theorem log_append_retention:
  assumes "log_inv st"
  shows "length (ms_ingest_log (log_append op i r s t st)) \<le>
      Max (insert DEFAULT_LOG_MAX_ENTRIES (rc_max_lag_entries ` set (ms_retention_claims st))) \<and>
    (\<forall>c \<in> set (ms_retention_claims st).
       ms_log_gc_floor st \<le> rc_after_seq c \<and>
       ms_ingest_seq st + 1 - rc_after_seq c \<le> rc_max_lag_entries c \<longrightarrow>
       ms_log_gc_floor (log_append op i r s t st) \<le> rc_after_seq c)"
proof -
  define st1 where "st1 = log_push \<lparr>le_seq = 0, le_op = op, le_event_id = i, le_raw_event = r,
      le_source_relay = s, le_received_at_ms = t\<rparr> st"
  have inv1: "log_inv st1" using assms by (simp add: st1_def log_inv_push)
  have eq: "log_append op i r s t st = log_gc_trim st1" using log_append_push [OF assms] by (simp add: st1_def)
  have fields: "ms_retention_claims st1 = ms_retention_claims st" "ms_ingest_seq st1 = ms_ingest_seq st + 1"
    "ms_log_gc_floor st1 = ms_log_gc_floor st"
    by (simp_all add: st1_def log_push_def)
  have "length (ms_ingest_log st1) = ms_ingest_seq st1 - ms_log_gc_floor st1"
    using inv1 by (rule length_log)
  then have "length (ms_ingest_log (log_gc_trim st1)) = ms_ingest_seq st1 - trim_floor st1"
    using trim_floor_bounds [OF inv1] by (simp add: log_gc_trim_eq [OF inv1])
  then show ?thesis
    using trim_floor_lag [of st1] trim_floor_protects [of _ st1] unfolding eq
    by (auto simp: log_gc_trim_eq [OF inv1] fields)
qed

text \<open>A cursor that is set to \<open>first_available_seq\<close> after a gap, as the consumers in
  \<open>nmp-feed\<close> and \<open>nmp-feed-session\<close> do, skips the first available row: the
  cursor is exclusive.\<close>

lemma gap_rebase_skips_row:
  assumes inv: "log_inv st" and gap: "scan_log_since_seq st n limit = Gap g"
    and avail: "ms_log_gc_floor st < ms_ingest_seq st"
  shows "\<exists>e. map_of (ms_ingest_log st) (pg_first_available_seq g) = Some e \<and>
     e \<notin> set (rows_after st (pg_first_available_seq g))"
proof -
  have g: "pg_first_available_seq g = ms_log_gc_floor st + 1"
    using gap by (auto simp: scan_log_since_seq_def Let_def split: if_splits option.splits)
  have keys: "map fst (ms_ingest_log st) = [ms_log_gc_floor st + 1 ..< ms_ingest_seq st + 1]"
    using inv by (simp add: log_inv_def)
  have "ms_log_gc_floor st + 1 \<in> set (map fst (ms_ingest_log st))"
    unfolding keys using avail by auto
  then obtain e where e: "map_of (ms_ingest_log st) (ms_log_gc_floor st + 1) = Some e"
    using hm_keys_map_of by (metis hm_keys_def not_None_eq set_map)
  have "le_seq e = ms_log_gc_floor st + 1"
    using inv map_of_SomeD [OF e] by (auto simp: log_inv_def simp del: upt_Suc)
  moreover have "le_seq x \<noteq> ms_log_gc_floor st + 1" if "x \<in> set (rows_after st (ms_log_gc_floor st + 1))" for x
  proof -
    have "le_seq x \<in> set (map le_seq (rows_after st (ms_log_gc_floor st + 1)))" using that by simp
    then show ?thesis by (simp add: seqs_rows_after [OF inv] del: set_map upt_Suc)
  qed
  ultimately show ?thesis using e g by auto
qed

section \<open>Instances\<close>

definition demo_log :: mem_state where
  "demo_log =
     fold (\<lambda>i. emit_deleted [] [] AdminPurge i) [0, 1, 2]
       (mem_state_new\<lparr>ms_retention_claims := [\<lparr>rc_after_seq = 0, rc_max_lag_entries = 5\<rparr>]\<rparr>)"

lemma log_inv_new: "log_inv mem_state_new"
  by (simp add: log_inv_def mem_state_new_def)

lemma log_inv_demo: "log_inv demo_log"
proof -
  have "log_inv (mem_state_new\<lparr>ms_retention_claims := c\<rparr>)" for c
    by (simp add: log_inv_def mem_state_new_def)
  then show ?thesis by (simp add: demo_log_def log_inv_emit)
qed

lemma demo_log_facts:
  "ms_ingest_seq demo_log = 3 \<and> ms_log_gc_floor demo_log = 0 \<and>
   ms_retention_claims demo_log = [\<lparr>rc_after_seq = 0, rc_max_lag_entries = 5\<rparr>]"
  by code_simp

lemma scan_log_exact_witness:
  "case scan_log_since_seq demo_log 1 1 of
     Gap g \<Rightarrow> False
   | Page p \<Rightarrow> map le_seq (pp_entries p) = [2] \<and> pp_has_more p"
  using scan_log_exact [OF log_inv_demo, of 1 1] demo_log_facts
  by (auto simp: u64_max_def length_Suc_conv split: scan_log_result.splits dest: arg_cong [of _ _ length])

lemma drain_complete_witness: "map_option (map le_seq) (drain 4 2 demo_log 0) = Some [1, 2, 3]"
proof -
  have "drain 4 2 demo_log 0 = Some (rows_after demo_log 0)"
    using log_inv_demo demo_log_facts by (intro drain_complete) (simp_all add: u64_max_def)
  moreover have "map le_seq (rows_after demo_log 0) = [1, 2, 3]" by code_simp
  ultimately show ?thesis by simp
qed

lemma log_append_retention_witness:
  "ms_log_gc_floor (log_append LogInserted [] None None 0 demo_log) \<le> 0 \<and>
   length (ms_ingest_log (log_append LogInserted [] None None 0 demo_log)) \<le> 10000"
  using log_append_retention [OF log_inv_demo, of LogInserted "[]" None None 0] demo_log_facts
  by (simp add: DEFAULT_LOG_MAX_ENTRIES_def)

end
