(* ===== verification/Store_Insert.thy ===== *)
theory Store_Insert
  imports Store_Log
begin

text \<open>
  Writing to the in-memory store: \<open>src/crates/nmp-store/src/mem/insert.rs\<close> and
  \<open>mem/insert_kind5.rs\<close>. An insertion validates the event, consults the tombstones, and
  then dispatches on the kind: NIP-09 deletion, replaceable or addressable supersession, or a
  plain insert.

  A call of \<open>expect\<close> or an index that may panic is a bind in the option monad: \<open>None\<close> is
  the panic, and the theorems show that it does not occur in a state in the invariant. The
  multiplication \<open>kind5_at * 1000\<close> wraps, as in a release build. The kind classes of the
  \<open>nostr\<close> crate and the text services are parameters (\<open>ext\<close>).
\<close>

record ext =
  ex_text :: text_env
  ex_kind_is_addressable :: "nat \<Rightarrow> bool"
  ex_kind_is_replaceable :: "nat \<Rightarrow> bool"

section \<open>Shared row updates\<close>

text \<open>The six calls that remove an event and all its index rows.\<close>

definition remove_event_rows :: "string \<Rightarrow> mem_state \<Rightarrow> mem_state" where
  "remove_event_rows id_hex st =
     (let st = st\<lparr>ms_events := hm_remove id_hex (ms_events st)\<rparr>;
          st = st\<lparr>ms_provenance := hm_remove id_hex (ms_provenance st)\<rparr>;
          st = relay_index_remove id_hex st;
          st = relay_kind_remove_id id_hex st;
          st = st\<lparr>ms_fts := fts_index_remove id_hex (ms_fts st)\<rparr>
      in access_remove id_hex st)"

text \<open>Storing the event body and stamping its access.\<close>

definition put_event :: "raw_event \<Rightarrow> u64 \<Rightarrow> mem_state \<Rightarrow> mem_state" where
  "put_event event received_at_ms st =
     access_stamp (ev_id event)
       (st\<lparr>ms_events := hm_insert (ev_id event)
            \<lparr>se_raw = event, se_received_at_ms = received_at_ms\<rparr> (ms_events st)\<rparr>)"

definition fts_add_by_id :: "ext \<Rightarrow> string \<Rightarrow> mem_state \<Rightarrow> mem_state" where
  "fts_add_by_id ext id_hex st =
     (if fts_specs (ms_fts st) = [] then st
      else
        case map_of (ms_events st) id_hex of
          None \<Rightarrow> st
        | Some stored \<Rightarrow> st\<lparr>ms_fts := fts_index_add (ex_text ext) stored (ms_fts st)\<rparr>)"

text \<open>Recording that a relay delivered an event, with the number of sources afterwards.\<close>

definition record_sighting :: "relay_url \<Rightarrow> u64 \<Rightarrow> u32 \<Rightarrow> string \<Rightarrow> mem_state \<Rightarrow> mem_state" where
  "record_sighting source received_at_ms kind id_hex st =
     (let st = st\<lparr>ms_provenance :=
                 hm_entry [] id_hex (upsert_provenance source received_at_ms) (ms_provenance st)\<rparr>;
          st = relay_index_add source id_hex st
      in relay_kind_add source kind id_hex st)"

definition sources_after :: "string \<Rightarrow> mem_state \<Rightarrow> u32" where
  "sources_after id_hex st = length (unwrap_or [] (map_of (ms_provenance st) id_hex))"

section \<open>Supersession\<close>

type_synonym supersession_key = "string \<times> u32 \<times> string option"

text \<open>"Not greater" in the order of \<open>max_by\<close>: by \<open>created_at\<close>, then by descending id.\<close>

definition not_newer :: "raw_event \<Rightarrow> raw_event \<Rightarrow> bool" where
  "not_newer a b \<longleftrightarrow> ev_created_at a < ev_created_at b \<or>
     (ev_created_at a = ev_created_at b \<and> ev_id b \<le> ev_id a)"

definition supersession_match :: "supersession_key \<Rightarrow> stored_event \<Rightarrow> bool" where
  "supersession_match key ev =
     (let (pubkey_hex, kind, d_tag_filter) = key in
      ev_pubkey (se_raw ev) = pubkey_hex \<and> ev_kind (se_raw ev) = kind \<and>
      (case d_tag_filter of None \<Rightarrow> True | Some d \<Rightarrow> d_tag (se_raw ev) = Some d))"

definition find_existing :: "supersession_key \<Rightarrow> mem_state \<Rightarrow> string option" where
  "find_existing key st =
     map_option fst
       (max_by (\<lambda>(_, a) (_, b). not_newer (se_raw a) (se_raw b))
         (filter (\<lambda>(_, ev). supersession_match key ev) (ms_events st)))"

definition incoming_wins :: "raw_event \<Rightarrow> raw_event \<Rightarrow> bool" where
  "incoming_wins event existing \<longleftrightarrow> ev_created_at event > ev_created_at existing \<or>
     (ev_created_at event = ev_created_at existing \<and> ev_id event < ev_id existing)"

definition handle_supersession ::
  "ext \<Rightarrow> raw_event \<Rightarrow> relay_url \<Rightarrow> u64 \<Rightarrow> supersession_key \<Rightarrow> mem_state \<Rightarrow> (insert_outcome \<times> mem_state) option" where
  "handle_supersession ext event source received_at_ms key st =
     do { idb \<leftarrow> id_bytes event;
          let id_hex = ev_id event;
          let kind = fst (snd key);
          if hm_contains id_hex (ms_events st) then
            let st = record_sighting source received_at_ms kind id_hex st
            in Some (Duplicate idb (sources_after id_hex st), st)
          else
            case find_existing key st of
              Some existing_hex \<Rightarrow>
                do { existing_ev \<leftarrow> map_of (ms_events st) existing_hex;
                     replaced_id \<leftarrow> hex_to_bytes32 existing_hex;
                     if incoming_wins event (se_raw existing_ev) then
                       let st = remove_event_rows existing_hex st;
                           st = put_event event received_at_ms st;
                           st = fts_add_by_id ext id_hex st;
                           st = record_sighting source received_at_ms kind id_hex st
                       in Some (Replaced idb replaced_id,
                                emit_replaced idb replaced_id event source received_at_ms st)
                     else Some (Superseded idb replaced_id, st) }
            | None \<Rightarrow>
                let st = put_event event received_at_ms st;
                    st = fts_add_by_id ext id_hex st;
                    st = record_sighting source received_at_ms kind id_hex st
                in Some (Inserted idb (sources_after id_hex st),
                         emit_inserted idb event source received_at_ms st) }"

section \<open>Plain insertion\<close>

definition handle_normal_insert ::
  "ext \<Rightarrow> raw_event \<Rightarrow> relay_url \<Rightarrow> u64 \<Rightarrow> mem_state \<Rightarrow> (insert_outcome \<times> mem_state) option" where
  "handle_normal_insert ext event source received_at_ms st =
     do { idb \<leftarrow> id_bytes event;
          let id_hex = ev_id event;
          let kind = ev_kind event;
          if hm_contains id_hex (ms_events st) then
            let st = record_sighting source received_at_ms kind id_hex st
            in Some (Duplicate idb (sources_after id_hex st), st)
          else
            let st = put_event event received_at_ms st;
                st = fts_add_by_id ext id_hex st;
                st = record_sighting source received_at_ms kind id_hex st
            in Some (Inserted idb (sources_after id_hex st),
                     emit_inserted idb event source received_at_ms st) }"

section \<open>NIP-09 deletion\<close>

definition kind5_tomb ::
  "event_id \<Rightarrow> event_id \<Rightarrow> string \<Rightarrow> u64 \<Rightarrow> relay_url \<Rightarrow> tombstone_row option" where
  "kind5_tomb target_id kind5_id kind5_pubkey deleted_at source =
     do { deleter \<leftarrow> hex_to_bytes32 kind5_pubkey;
          Some \<lparr>tb_target_id = target_id, tb_kind5_event_id = Some kind5_id,
                tb_deleter_pubkey = Some deleter, tb_deleted_at = deleted_at,
                tb_sources = [source], tb_origin = Kind5\<rparr> }"

definition merge_sources :: "relay_url list \<Rightarrow> relay_url list \<Rightarrow> relay_url list" where
  "merge_sources incoming existing =
     fold (\<lambda>src acc. if src \<in> set acc then acc else acc @ [src]) incoming existing"

definition merge_tombstone ::
  "string \<Rightarrow> tombstone_row \<Rightarrow> (string \<times> tombstone_row) list \<Rightarrow> (string \<times> tombstone_row) list" where
  "merge_tombstone key incoming m =
     (case map_of m key of
        Some existing \<Rightarrow>
          let existing = (if tb_deleted_at incoming > tb_deleted_at existing
                          then existing\<lparr>tb_deleted_at := tb_deleted_at incoming,
                                        tb_kind5_event_id := tb_kind5_event_id incoming\<rparr>
                          else existing)
          in hm_insert key (existing\<lparr>tb_sources := merge_sources (tb_sources incoming) (tb_sources existing)\<rparr>) m
      | None \<Rightarrow> hm_insert key incoming m)"

text \<open>A loop body that may panic, over a list.\<close>

fun try_fold :: "('a \<Rightarrow> 's \<Rightarrow> 's option) \<Rightarrow> 'a list \<Rightarrow> 's \<Rightarrow> 's option" where
  "try_fold f [] s = Some s"
| "try_fold f (x # xs) s = do { s' \<leftarrow> f x s; try_fold f xs s' }"

text \<open>Removing one target of the deletion \<open>event\<close> with its log row and its tombstone.\<close>

definition kind5_delete_target ::
  "raw_event \<Rightarrow> relay_url \<Rightarrow> event_id \<Rightarrow> string \<Rightarrow> event_id \<Rightarrow> mem_state \<Rightarrow> mem_state option" where
  "kind5_delete_target event source kind5_idb target_hex target_id st =
     do { let st = remove_event_rows target_hex st;
          let st = emit_deleted kind5_idb target_id Nip09 (wrapping_mul_u64 (ev_created_at event) 1000) st;
          tomb \<leftarrow> kind5_tomb target_id kind5_idb (ev_pubkey event) (ev_created_at event) source;
          Some (st\<lparr>ms_tombstones := merge_tombstone target_hex tomb (ms_tombstones st)\<rparr>) }"

definition kind5_e_tag ::
  "raw_event \<Rightarrow> relay_url \<Rightarrow> event_id \<Rightarrow> string \<Rightarrow> mem_state \<Rightarrow> mem_state option" where
  "kind5_e_tag event source kind5_idb target_hex st =
     (case map_of (ms_events st) target_hex of
        Some existing \<Rightarrow>
          if ev_pubkey (se_raw existing) \<noteq> ev_pubkey event then Some st
          else
            do { target_id \<leftarrow> id_bytes (se_raw existing);
                 kind5_delete_target event source kind5_idb target_hex target_id st }
      | None \<Rightarrow>
          (case hex_to_bytes32 target_hex of
             None \<Rightarrow> Some st
           | Some target_id \<Rightarrow>
               do { tomb \<leftarrow> kind5_tomb target_id kind5_idb (ev_pubkey event) (ev_created_at event) source;
                    Some (st\<lparr>ms_tombstones := merge_tombstone target_hex tomb (ms_tombstones st)\<rparr>) }))"

text \<open>The stored events an address coordinate deletes.\<close>

definition kind5_a_match :: "ext \<Rightarrow> raw_event \<Rightarrow> string \<Rightarrow> u32 \<Rightarrow> string \<Rightarrow> raw_event \<Rightarrow> bool" where
  "kind5_a_match ext event tgt_pk tgt_kind tgt_dtag ev \<longleftrightarrow>
     ev_pubkey ev = tgt_pk \<and> ev_kind ev = tgt_kind \<and> ev_created_at ev \<le> ev_created_at event \<and>
     (if ex_kind_is_addressable ext (tgt_kind mod 65536) then d_tag ev = Some tgt_dtag
      else if ex_kind_is_replaceable ext (tgt_kind mod 65536) then True
      else False)"

definition kind5_a_delete ::
  "raw_event \<Rightarrow> relay_url \<Rightarrow> event_id \<Rightarrow> string \<Rightarrow> mem_state \<Rightarrow> mem_state option" where
  "kind5_a_delete event source kind5_idb target_hex st =
     (case map_of (ms_events st) target_hex of
        None \<Rightarrow> Some st
      | Some existing \<Rightarrow>
          do { target_id \<leftarrow> id_bytes (se_raw existing);
               kind5_delete_target event source kind5_idb target_hex target_id st })"

definition kind5_a_tag ::
  "ext \<Rightarrow> raw_event \<Rightarrow> relay_url \<Rightarrow> event_id \<Rightarrow> string \<Rightarrow> mem_state \<Rightarrow> mem_state option" where
  "kind5_a_tag ext event source kind5_idb addr st =
     (case splitn 3 CHR '':'' addr of
        [tgt_kind_str, tgt_pk, tgt_dtag] \<Rightarrow>
          if tgt_pk \<noteq> ev_pubkey event then Some st
          else
            (case parse_u32 tgt_kind_str of
               None \<Rightarrow> Some st
             | Some tgt_kind \<Rightarrow>
                 do { let addr_key = tgt_kind_str @ '':'' @ tgt_pk @ '':'' @ tgt_dtag;
                      let to_delete =
                        map fst (filter (\<lambda>(_, ev). kind5_a_match ext event tgt_pk tgt_kind tgt_dtag (se_raw ev))
                          (ms_events st));
                      st \<leftarrow> try_fold (kind5_a_delete event source kind5_idb) to_delete st;
                      tomb \<leftarrow> kind5_tomb (replicate 32 0) kind5_idb (ev_pubkey event) (ev_created_at event) source;
                      Some (st\<lparr>ms_addr_tombstones := merge_tombstone addr_key tomb (ms_addr_tombstones st)\<rparr>) })
      | _ \<Rightarrow> Some st)"

definition handle_kind5_insert ::
  "ext \<Rightarrow> raw_event \<Rightarrow> relay_url \<Rightarrow> u64 \<Rightarrow> mem_state \<Rightarrow> (insert_outcome \<times> mem_state) option" where
  "handle_kind5_insert ext event source received_at_ms st =
     do { kind5_idb \<leftarrow> id_bytes event;
          let kind5_id_hex = ev_id event;
          if hm_contains kind5_id_hex (ms_events st) then
            let st = record_sighting source received_at_ms 5 kind5_id_hex st
            in Some (Duplicate kind5_idb (sources_after kind5_id_hex st), st)
          else
            do { st \<leftarrow> try_fold (kind5_e_tag event source kind5_idb) (e_tags event) st;
                 st \<leftarrow> try_fold (kind5_a_tag ext event source kind5_idb) (a_tags event) st;
                 let st = put_event event received_at_ms st;
                 let st = record_sighting source received_at_ms 5 kind5_id_hex st;
                 Some (Inserted kind5_idb (sources_after kind5_id_hex st),
                       emit_inserted kind5_idb event source received_at_ms st) } }"

section \<open>The entry points\<close>

definition tombstone_applies :: "tombstone_row \<Rightarrow> raw_event \<Rightarrow> bool" where
  "tombstone_applies tomb event =
     (case tb_origin tomb of
        Kind5 \<Rightarrow> (case tb_deleter_pubkey tomb of Some dp \<Rightarrow> bytes_to_hex dp = ev_pubkey event | None \<Rightarrow> False)
      | NIP40Expiry \<Rightarrow> True
      | AdminPurgeTomb \<Rightarrow> True)"

definition addr_key_of :: "raw_event \<Rightarrow> string \<Rightarrow> string" where
  "addr_key_of event d = show_nat (ev_kind event) @ '':'' @ ev_pubkey event @ '':'' @ d"

text \<open>The address tombstone that covers an addressable event.\<close>

definition addr_tombstone_for :: "raw_event \<Rightarrow> mem_state \<Rightarrow> tombstone_row option" where
  "addr_tombstone_for event st =
     (if is_param_replaceable event then
        do { d \<leftarrow> d_tag event;
             tomb \<leftarrow> map_of (ms_addr_tombstones st) (addr_key_of event d);
             if tb_deleted_at tomb \<ge> ev_created_at event then Some tomb else None }
      else None)"

definition insert_dispatch ::
  "ext \<Rightarrow> raw_event \<Rightarrow> relay_url \<Rightarrow> u64 \<Rightarrow> mem_state \<Rightarrow> (insert_outcome \<times> mem_state) option" where
  "insert_dispatch ext event source received_at_ms st =
     (if ev_kind event = 5 then handle_kind5_insert ext event source received_at_ms st
      else if ev_is_replaceable event then
        handle_supersession ext event source received_at_ms (ev_pubkey event, ev_kind event, None) st
      else if is_param_replaceable event then
        handle_supersession ext event source received_at_ms (ev_pubkey event, ev_kind event, d_tag event) st
      else handle_normal_insert ext event source received_at_ms st)"

definition insert_event ::
  "ext \<Rightarrow> raw_event \<Rightarrow> relay_url \<Rightarrow> u64 \<Rightarrow> mem_state \<Rightarrow> (insert_outcome \<times> mem_state) option" where
  "insert_event ext event source received_at_ms st =
     (if \<not> is_structurally_valid event then
        Some (Rejected (unwrap_or (replicate 32 0) (id_bytes event))
                (Malformed ''invalid id/pubkey/sig length or non-hex''), st)
      else if ev_is_ephemeral event then
        do { idb \<leftarrow> id_bytes event; Some (Ephemeral idb, st) }
      else if (case expiration event of Some ex \<Rightarrow> ex \<le> received_at_ms div 1000 | None \<Rightarrow> False) then
        do { idb \<leftarrow> id_bytes event; Some (Rejected idb ExpiredOnArrival, st) }
      else
        do { idb \<leftarrow> id_bytes event;
             case map_of (ms_tombstones st) (ev_id event) of
               Some tomb \<Rightarrow>
                 if tombstone_applies tomb event
                 then Some (Tombstoned idb (tb_kind5_event_id tomb) (tb_origin tomb), st)
                 else
                   (let st = st\<lparr>ms_tombstones := hm_remove (ev_id event) (ms_tombstones st)\<rparr> in
                    case addr_tombstone_for event st of
                      Some tomb \<Rightarrow> Some (Tombstoned idb (tb_kind5_event_id tomb) (tb_origin tomb), st)
                    | None \<Rightarrow> insert_dispatch ext event source received_at_ms st)
             | None \<Rightarrow>
                 (case addr_tombstone_for event st of
                    Some tomb \<Rightarrow> Some (Tombstoned idb (tb_kind5_event_id tomb) (tb_origin tomb), st)
                  | None \<Rightarrow> insert_dispatch ext event source received_at_ms st) })"

definition delete_targets :: "delete_filter \<Rightarrow> mem_state \<Rightarrow> string list" where
  "delete_targets filt st =
     (case filt of
        ByRelayOnly relay \<Rightarrow>
          filter (\<lambda>id. case map_of (ms_provenance st) id of
                         Some p \<Rightarrow> length p = 1 \<and> pe_relay_url (p ! 0) = relay
                       | None \<Rightarrow> False) (map fst (ms_events st))
      | ByAuthor pk \<Rightarrow>
          map fst (filter (\<lambda>(_, ev). ev_pubkey (se_raw ev) = bytes_to_hex pk) (ms_events st))
      | ByIds ids \<Rightarrow> filter (\<lambda>h. hm_contains h (ms_events st)) (map bytes_to_hex ids)
      | ByKindRange lo hi \<Rightarrow>
          map fst (filter (\<lambda>(_, ev). lo \<le> ev_kind (se_raw ev) \<and> ev_kind (se_raw ev) \<le> hi) (ms_events st)))"

definition delete_one :: "bool \<Rightarrow> string \<Rightarrow> mem_state \<Rightarrow> mem_state" where
  "delete_one emit_purge id_hex st =
     (let st = remove_event_rows id_hex st in
      if emit_purge then
        case hex_to_event_id id_hex of
          Some event_id \<Rightarrow> emit_deleted event_id event_id AdminPurge 0 st
        | None \<Rightarrow> st
      else st)"

definition delete_by_filter :: "delete_filter \<Rightarrow> mem_state \<Rightarrow> usize \<times> mem_state" where
  "delete_by_filter filt st =
     (let ids_to_remove = delete_targets filt st;
          emit_purge = (case filt of ByRelayOnly _ \<Rightarrow> False | _ \<Rightarrow> True)
      in (length ids_to_remove, fold (delete_one emit_purge) ids_to_remove st))"

end
