(* ===== verification/Store_Inv.thy ===== *)
theory Store_Inv
  imports Store_Insert
begin

text \<open>
  The invariant of the in-memory store and its preservation by every write. The primary map
  holds structurally valid, storable events under their own id; provenance and the access
  index cover exactly the stored ids; the relay, relay-kind and text indexes never mention an
  id that is not stored and cover the provenance of those that are; a private kind never
  enters the relay-kind index; and the ingest log is gap-free above its floor.
\<close>

section \<open>The invariant\<close>

definition storable :: "raw_event \<Rightarrow> bool" where
  "storable e \<longleftrightarrow> is_structurally_valid e \<and> \<not> ev_is_ephemeral e"

definition events_ok :: "(string \<times> stored_event) list \<Rightarrow> bool" where
  "events_ok evs \<longleftrightarrow> hm_wf evs \<and>
     (\<forall>i se. map_of evs i = Some se \<longrightarrow> ev_id (se_raw se) = i \<and> storable (se_raw se))"

definition prov_inv :: "(string \<times> stored_event) list \<Rightarrow> (string \<times> provenance_entry list) list \<Rightarrow> bool" where
  "prov_inv evs prov \<longleftrightarrow> hm_wf prov \<and> hm_keys prov = hm_keys evs \<and>
     (\<forall>i es. map_of prov i = Some es \<longrightarrow> es \<noteq> [] \<and> prov_ok es)"

definition access_inv :: "(string \<times> stored_event) list \<Rightarrow> (string \<times> u64) list \<Rightarrow> u64 \<Rightarrow> bool" where
  "access_inv evs acc seq \<longleftrightarrow> hm_wf acc \<and> hm_keys acc = hm_keys evs \<and>
     (\<forall>i n. map_of acc i = Some n \<longrightarrow> n \<le> seq) \<and>
     (\<forall>i j n. map_of acc i = Some n \<longrightarrow> map_of acc j = Some n \<longrightarrow> i = j)"

definition ridx_inv ::
  "(string \<times> stored_event) list \<Rightarrow> (string \<times> provenance_entry list) list \<Rightarrow> (relay_url \<times> string list) list \<Rightarrow> bool" where
  "ridx_inv evs prov ri \<longleftrightarrow> buckets_wf ri \<and>
     (\<forall>i. bucket_rows ri i \<noteq> {} \<longrightarrow> i \<in> hm_keys evs) \<and>
     (\<forall>i es. map_of prov i = Some es \<longrightarrow> set (prov_urls es) \<subseteq> bucket_rows ri i)"

definition rkind_inv ::
  "(string \<times> stored_event) list \<Rightarrow> (string \<times> provenance_entry list) list \<Rightarrow>
   (relay_url \<times> (u32 \<times> string list) list) list \<Rightarrow> bool" where
  "rkind_inv evs prov rk \<longleftrightarrow> kinds_wf rk \<and>
     (\<forall>i u k. (u, k) \<in> kind_rows rk i \<longrightarrow>
        \<not> is_relay_provenance_private k \<and> (\<exists>se. map_of evs i = Some se \<and> ev_kind (se_raw se) = k)) \<and>
     (\<forall>i es se. map_of prov i = Some es \<longrightarrow> map_of evs i = Some se \<longrightarrow>
        \<not> is_relay_provenance_private (ev_kind (se_raw se)) \<longrightarrow>
        set (prov_urls es) \<times> {ev_kind (se_raw se)} \<subseteq> kind_rows rk i)"

definition ftsx_inv :: "(string \<times> stored_event) list \<Rightarrow> fts_state \<Rightarrow> bool" where
  "ftsx_inv evs fts \<longleftrightarrow> fts_inv fts \<and>
     (\<forall>d \<in> fts_docs fts. \<exists>i \<in> hm_keys evs. hex_to_event_id i = Some d)"

definition core_inv :: "mem_state \<Rightarrow> bool" where
  "core_inv st \<longleftrightarrow>
     events_ok (ms_events st) \<and>
     prov_inv (ms_events st) (ms_provenance st) \<and>
     access_inv (ms_events st) (ms_access_index st) (ms_access_seq st) \<and>
     ridx_inv (ms_events st) (ms_provenance st) (ms_relay_index st) \<and>
     rkind_inv (ms_events st) (ms_provenance st) (ms_relay_kind st) \<and>
     ftsx_inv (ms_events st) (ms_fts st) \<and>
     hm_wf (ms_tombstones st) \<and> hm_wf (ms_addr_tombstones st) \<and> hm_wf (ms_coverage st)"

definition mem_inv :: "mem_state \<Rightarrow> bool" where
  "mem_inv st \<longleftrightarrow> core_inv st \<and> log_inv st"

section \<open>Fields after the shared updates\<close>

lemma remove_event_rows_frame [simp, frame_simps]:
  "ms_tombstones (remove_event_rows i st) = ms_tombstones st"
  "ms_addr_tombstones (remove_event_rows i st) = ms_addr_tombstones st"
  "ms_replaceable_freshness (remove_event_rows i st) = ms_replaceable_freshness st"
  "ms_coverage (remove_event_rows i st) = ms_coverage st"
  "ms_domain_data (remove_event_rows i st) = ms_domain_data st"
  "ms_domain_versions (remove_event_rows i st) = ms_domain_versions st"
  "ms_ingest_seq (remove_event_rows i st) = ms_ingest_seq st"
  "ms_ingest_log (remove_event_rows i st) = ms_ingest_log st"
  "ms_log_gc_floor (remove_event_rows i st) = ms_log_gc_floor st"
  "ms_retention_claims (remove_event_rows i st) = ms_retention_claims st"
  "ms_access_seq (remove_event_rows i st) = ms_access_seq st"
  by (simp_all add: remove_event_rows_def Let_def)

lemma put_event_frame [simp, frame_simps]:
  "ms_tombstones (put_event e t st) = ms_tombstones st"
  "ms_addr_tombstones (put_event e t st) = ms_addr_tombstones st"
  "ms_provenance (put_event e t st) = ms_provenance st"
  "ms_relay_index (put_event e t st) = ms_relay_index st"
  "ms_relay_kind (put_event e t st) = ms_relay_kind st"
  "ms_replaceable_freshness (put_event e t st) = ms_replaceable_freshness st"
  "ms_coverage (put_event e t st) = ms_coverage st"
  "ms_domain_data (put_event e t st) = ms_domain_data st"
  "ms_domain_versions (put_event e t st) = ms_domain_versions st"
  "ms_ingest_seq (put_event e t st) = ms_ingest_seq st"
  "ms_ingest_log (put_event e t st) = ms_ingest_log st"
  "ms_log_gc_floor (put_event e t st) = ms_log_gc_floor st"
  "ms_retention_claims (put_event e t st) = ms_retention_claims st"
  "ms_fts (put_event e t st) = ms_fts st"
  by (simp_all add: put_event_def)

lemma fts_add_by_id_frame [simp, frame_simps]:
  "ms_events (fts_add_by_id ext i st) = ms_events st"
  "ms_tombstones (fts_add_by_id ext i st) = ms_tombstones st"
  "ms_addr_tombstones (fts_add_by_id ext i st) = ms_addr_tombstones st"
  "ms_provenance (fts_add_by_id ext i st) = ms_provenance st"
  "ms_relay_index (fts_add_by_id ext i st) = ms_relay_index st"
  "ms_relay_kind (fts_add_by_id ext i st) = ms_relay_kind st"
  "ms_replaceable_freshness (fts_add_by_id ext i st) = ms_replaceable_freshness st"
  "ms_coverage (fts_add_by_id ext i st) = ms_coverage st"
  "ms_domain_data (fts_add_by_id ext i st) = ms_domain_data st"
  "ms_domain_versions (fts_add_by_id ext i st) = ms_domain_versions st"
  "ms_ingest_seq (fts_add_by_id ext i st) = ms_ingest_seq st"
  "ms_ingest_log (fts_add_by_id ext i st) = ms_ingest_log st"
  "ms_log_gc_floor (fts_add_by_id ext i st) = ms_log_gc_floor st"
  "ms_retention_claims (fts_add_by_id ext i st) = ms_retention_claims st"
  "ms_access_seq (fts_add_by_id ext i st) = ms_access_seq st"
  "ms_access_index (fts_add_by_id ext i st) = ms_access_index st"
  by (simp_all add: fts_add_by_id_def split: option.splits)

lemma record_sighting_frame [simp, frame_simps]:
  "ms_events (record_sighting u t k i st) = ms_events st"
  "ms_tombstones (record_sighting u t k i st) = ms_tombstones st"
  "ms_addr_tombstones (record_sighting u t k i st) = ms_addr_tombstones st"
  "ms_replaceable_freshness (record_sighting u t k i st) = ms_replaceable_freshness st"
  "ms_coverage (record_sighting u t k i st) = ms_coverage st"
  "ms_domain_data (record_sighting u t k i st) = ms_domain_data st"
  "ms_domain_versions (record_sighting u t k i st) = ms_domain_versions st"
  "ms_ingest_seq (record_sighting u t k i st) = ms_ingest_seq st"
  "ms_ingest_log (record_sighting u t k i st) = ms_ingest_log st"
  "ms_log_gc_floor (record_sighting u t k i st) = ms_log_gc_floor st"
  "ms_retention_claims (record_sighting u t k i st) = ms_retention_claims st"
  "ms_access_seq (record_sighting u t k i st) = ms_access_seq st"
  "ms_access_index (record_sighting u t k i st) = ms_access_index st"
  "ms_fts (record_sighting u t k i st) = ms_fts st"
  by (simp_all add: record_sighting_def Let_def)

lemma remove_event_rows_fields [simp]:
  "ms_events (remove_event_rows i st) = hm_remove i (ms_events st)"
  "ms_provenance (remove_event_rows i st) = hm_remove i (ms_provenance st)"
  "ms_relay_index (remove_event_rows i st) = bucket_drop i (ms_relay_index st)"
  "ms_relay_kind (remove_event_rows i st) = kind_drop i (ms_relay_kind st)"
  "ms_fts (remove_event_rows i st) = fts_index_remove i (ms_fts st)"
  "ms_access_index (remove_event_rows i st) = hm_remove i (ms_access_index st)"
  by (simp_all add: remove_event_rows_def Let_def relay_index_remove_bucket relay_kind_remove_bucket
      access_remove_def)

lemma put_event_fields [simp]:
  "ms_events (put_event e t st) = hm_insert (ev_id e) \<lparr>se_raw = e, se_received_at_ms = t\<rparr> (ms_events st)"
  "ms_access_seq (put_event e t st) = ms_access_seq st + 1"
  "ms_access_index (put_event e t st) = hm_insert (ev_id e) (ms_access_seq st + 1) (ms_access_index st)"
  by (simp_all add: put_event_def access_stamp_def Let_def)

lemma record_sighting_fields [simp]:
  "ms_provenance (record_sighting u t k i st) = hm_entry [] i (upsert_provenance u t) (ms_provenance st)"
  "ms_relay_index (record_sighting u t k i st) = bucket_add u i (ms_relay_index st)"
  "ms_relay_kind (record_sighting u t k i st) =
     (if is_relay_provenance_private k then ms_relay_kind st
      else hm_entry [] u (bucket_add k i) (ms_relay_kind st))"
  by (simp_all add: record_sighting_def Let_def relay_index_add_bucket relay_kind_add_bucket)

lemma fts_add_by_id_put:
  "ms_fts (fts_add_by_id ext (ev_id e) (put_event e t st)) =
     (if fts_specs (ms_fts st) = [] then ms_fts st
      else fts_index_add (ex_text ext) \<lparr>se_raw = e, se_received_at_ms = t\<rparr> (ms_fts st))"
  by (simp add: fts_add_by_id_def hash_map.get_put)

section \<open>Removal\<close>

lemma storable_id: "storable e \<Longrightarrow> \<exists>d. hex_to_bytes32 (ev_id e) = Some d \<and> id_bytes e = Some d"
  by (auto simp: storable_def is_structurally_valid_def id_bytes_def)

lemma events_ok_key: "events_ok evs \<Longrightarrow> i \<in> hm_keys evs \<Longrightarrow> \<exists>d. hex_to_bytes32 i = Some d"
  using storable_id by (force simp: events_ok_def hm_keys_map_of)

lemma ftsx_inv_remove:
  assumes "ftsx_inv evs fts"
  shows "ftsx_inv (hm_remove i evs) (fts_index_remove i fts)"
proof -
  have inv: "fts_inv (fts_index_remove i fts)"
    using assms by (simp add: ftsx_inv_def fts_inv_index_remove)
  have "\<exists>j \<in> hm_keys (hm_remove i evs). hex_to_event_id j = Some d"
    if d: "d \<in> fts_docs (fts_index_remove i fts)" for d
  proof (cases "hex_to_event_id i")
    case None
    then have "fts_index_remove i fts = fts" by (simp add: fts_index_remove_def)
    with d assms None show ?thesis by (fastforce simp: ftsx_inv_def)
  next
    case (Some c)
    with d have "d \<in> fts_docs fts" "d \<noteq> c" by (simp_all add: fts_docs_index_remove)
    with assms Some show ?thesis by (fastforce simp: ftsx_inv_def)
  qed
  with inv show ?thesis by (simp add: ftsx_inv_def)
qed

lemma events_ok_remove: "events_ok evs \<Longrightarrow> events_ok (hm_remove i evs)"
  by (simp add: events_ok_def hash_map.wf_del hash_map.get_del)

lemma core_inv_remove:
  assumes "core_inv st"
  shows "core_inv (remove_event_rows i st)"
proof -
  let ?ev = "hm_remove i (ms_events st)" and ?pr = "hm_remove i (ms_provenance st)"
  have "prov_inv ?ev ?pr"
    using assms by (auto simp: core_inv_def prov_inv_def hash_map.wf_del hash_map.get_del split: if_splits)
  moreover have "access_inv ?ev (hm_remove i (ms_access_index st)) (ms_access_seq st)"
    using assms by (auto simp: core_inv_def access_inv_def hash_map.wf_del hash_map.get_del split: if_splits)
  moreover have "ridx_inv ?ev ?pr (bucket_drop i (ms_relay_index st))"
    using assms bucket_index.rows_drop [of "ms_relay_index st" i] bucket_index.wf_drop [of "ms_relay_index st" i]
    by (auto simp: core_inv_def ridx_inv_def hash_map.get_del split: if_splits)
  moreover have "rkind_inv ?ev ?pr (kind_drop i (ms_relay_kind st))"
    using assms kind_index.rows_drop [of "ms_relay_kind st" i] kind_index.wf_drop [of "ms_relay_kind st" i]
    by (auto simp: core_inv_def rkind_inv_def hash_map.get_del split: if_splits)
  moreover have "ftsx_inv ?ev (fts_index_remove i (ms_fts st))"
    using assms by (intro ftsx_inv_remove) (simp add: core_inv_def)
  moreover have "events_ok ?ev"
    using assms by (simp add: core_inv_def events_ok_remove)
  ultimately show ?thesis
    using assms by (simp add: core_inv_def)
qed

section \<open>A further sighting of a stored event\<close>

lemma prov_ok_Nil [simp]: "prov_ok []"
  by (simp add: prov_ok_def prov_urls_def)

lemma upsert_ne_Nil [simp]: "upsert_provenance u t es \<noteq> []"
  using upsert_urls_new [of u t es] by (auto simp: prov_urls_def)

lemma prov_inv_sighting:
  assumes "hm_wf prov" and "\<forall>j es. map_of prov j = Some es \<longrightarrow> es \<noteq> [] \<and> prov_ok es"
  shows "hm_wf (hm_entry [] i (upsert_provenance u t) prov) \<and>
    (\<forall>j es. map_of (hm_entry [] i (upsert_provenance u t) prov) j = Some es \<longrightarrow> es \<noteq> [] \<and> prov_ok es)"
  using assms
  by (auto simp: hm_wf_entry hm_get_entry unwrap_or_def upsert_prov_ok split: option.splits if_splits)

lemma ridx_inv_sighting:
  assumes "ridx_inv evs prov ri" and "i \<in> hm_keys evs'" and "hm_keys evs \<subseteq> hm_keys evs'"
  shows "ridx_inv evs' (hm_entry [] i (upsert_provenance u t) prov) (bucket_add u i ri)"
proof -
  have "set (prov_urls es) \<subseteq> bucket_rows (bucket_add u i ri) j"
    if es: "map_of (hm_entry [] i (upsert_provenance u t) prov) j = Some es" for j es
  proof (cases "j = i")
    case True
    have "set (prov_urls (unwrap_or [] (map_of prov i))) \<subseteq> bucket_rows ri i"
      using assms(1) by (cases "map_of prov i") (auto simp: ridx_inv_def prov_urls_def)
    moreover have "es = upsert_provenance u t (unwrap_or [] (map_of prov i))"
      using es True by (simp add: hm_get_entry)
    ultimately show ?thesis
      using True upsert_urls_subset [of u t "unwrap_or [] (map_of prov i)"] by (auto simp: bucket_rows_add)
  next
    case False
    with es assms(1) show ?thesis by (auto simp: hm_get_entry bucket_rows_add ridx_inv_def)
  qed
  then show ?thesis
    using assms by (auto simp: ridx_inv_def buckets_wf_add bucket_rows_add split: if_splits)
qed

lemma rkind_inv_sighting:
  assumes inv: "rkind_inv evs prov rk"
    and se: "map_of evs' i = Some se" "ev_kind (se_raw se) = k"
    and old: "\<forall>j. j \<noteq> i \<longrightarrow> map_of evs' j = map_of evs j"
    and same: "map_of evs i = None \<and> map_of prov i = None \<or> map_of evs i = Some se"
  shows "rkind_inv evs' (hm_entry [] i (upsert_provenance u t) prov)
    (if is_relay_provenance_private k then rk else hm_entry [] u (bucket_add k i) rk)"
    (is "rkind_inv _ ?prov ?rk")
proof -
  have rows: "kind_rows ?rk j = kind_rows rk j \<union> (if j = i \<and> \<not> is_relay_provenance_private k then {(u, k)} else {})" for j
    by (simp add: kind_rows_add)
  have wf: "kinds_wf ?rk" using inv by (simp add: rkind_inv_def kinds_wf_add)
  have "\<not> is_relay_provenance_private k' \<and> (\<exists>se. map_of evs' j = Some se \<and> ev_kind (se_raw se) = k')"
    if row: "(v, k') \<in> kind_rows ?rk j" for v k' j
  proof (cases "(v, k') \<in> kind_rows rk j")
    case True
    then obtain se' where "\<not> is_relay_provenance_private k'" "map_of evs j = Some se'" "ev_kind (se_raw se') = k'"
      using inv unfolding rkind_inv_def by blast
    then show ?thesis using se old same by (cases "j = i") auto
  next
    case False
    with row have "j = i" "k' = k" "\<not> is_relay_provenance_private k" unfolding rows by (auto split: if_splits)
    with se show ?thesis by auto
  qed
  moreover have "set (prov_urls es) \<times> {ev_kind (se_raw se')} \<subseteq> kind_rows ?rk j"
    if es: "map_of ?prov j = Some es" and se': "map_of evs' j = Some se'"
      and pub: "\<not> is_relay_provenance_private (ev_kind (se_raw se'))" for j es se'
  proof (cases "j = i")
    case True
    have "set (prov_urls (unwrap_or [] (map_of prov i))) \<times> {k} \<subseteq> kind_rows rk i"
    proof (cases "map_of prov i")
      case None
      then show ?thesis by (simp add: prov_urls_def)
    next
      case (Some a)
      have "map_of evs i = Some se" "se' = se" using same Some se se' True by auto
      with inv Some pub se show ?thesis unfolding rkind_inv_def by force
    qed
    moreover have "es = upsert_provenance u t (unwrap_or [] (map_of prov i))"
      using es True by (simp add: hm_get_entry)
    ultimately show ?thesis
      using True se se' pub upsert_urls_subset [of u t "unwrap_or [] (map_of prov i)"]
      unfolding rows by auto
  next
    case False
    with es se' pub inv old show ?thesis unfolding rows by (auto simp: hm_get_entry rkind_inv_def)
  qed
  ultimately show ?thesis using wf unfolding rkind_inv_def by blast
qed

lemma core_inv_sighting:
  assumes inv: "core_inv st" and se: "map_of (ms_events st) i = Some se" "ev_kind (se_raw se) = k"
  shows "core_inv (record_sighting u t k i st)"
proof -
  let ?pr = "hm_entry [] i (upsert_provenance u t) (ms_provenance st)"
  have i: "i \<in> hm_keys (ms_events st)" using se by (simp add: hm_keys_map_of)
  have "prov_inv (ms_events st) ?pr"
    using inv i prov_inv_sighting [of "ms_provenance st"] by (auto simp: core_inv_def prov_inv_def)
  moreover have "ridx_inv (ms_events st) ?pr (bucket_add u i (ms_relay_index st))"
    using inv i by (intro ridx_inv_sighting [of "ms_events st"]) (auto simp: core_inv_def)
  moreover have "rkind_inv (ms_events st) ?pr
      (if is_relay_provenance_private k then ms_relay_kind st
       else hm_entry [] u (bucket_add k i) (ms_relay_kind st))"
    using inv se by (intro rkind_inv_sighting [of "ms_events st"]) (auto simp: core_inv_def)
  ultimately show ?thesis
    using inv by (simp add: core_inv_def)
qed

section \<open>Storing a new event\<close>

lemma ftsx_inv_put:
  assumes inv: "ftsx_inv evs fts" and e: "storable e"
  shows "ftsx_inv (hm_insert (ev_id e) \<lparr>se_raw = e, se_received_at_ms = t\<rparr> evs)
    (fts_index_add env \<lparr>se_raw = e, se_received_at_ms = t\<rparr> fts)"
proof -
  obtain d where d: "hex_to_bytes32 (ev_id e) = Some d" "id_bytes e = Some d"
    using storable_id [OF e] by blast
  have "fts_docs (fts_index_add env \<lparr>se_raw = e, se_received_at_ms = t\<rparr> fts) \<subseteq> insert d (fts_docs fts)"
    using inv d by (intro fts_docs_index_add) (simp_all add: ftsx_inv_def)
  then show ?thesis
    using inv d by (fastforce simp: ftsx_inv_def fts_inv_index_add hex_to_event_id_def)
qed

lemma ftsx_inv_keep: "ftsx_inv evs fts \<Longrightarrow> hm_keys evs \<subseteq> hm_keys evs' \<Longrightarrow> ftsx_inv evs' fts"
  unfolding ftsx_inv_def by blast

lemma ftsx_inv_add_by_id:
  assumes "core_inv st" and "storable e"
  shows "ftsx_inv (hm_insert (ev_id e) \<lparr>se_raw = e, se_received_at_ms = t\<rparr> (ms_events st))
    (ms_fts (fts_add_by_id ext (ev_id e) (put_event e t st)))"
proof (cases "fts_specs (ms_fts st) = []")
  case True
  then show ?thesis
    using assms by (auto simp: fts_add_by_id_put core_inv_def intro: ftsx_inv_keep [of "ms_events st"])
next
  case False
  then show ?thesis
    using assms by (simp add: fts_add_by_id_put core_inv_def ftsx_inv_put)
qed

text \<open>\<open>g\<close> is the indexing of the body, which a kind:5 event skips.\<close>

lemma core_inv_put:
  assumes inv: "core_inv st" and new: "ev_id e \<notin> hm_keys (ms_events st)" and e: "storable e"
    and g: "g = fts_add_by_id ext (ev_id e) \<or> g = (\<lambda>st. st)"
  shows "core_inv (record_sighting u t (ev_kind e) (ev_id e) (g (put_event e t st)))"
proof -
  let ?se = "\<lparr>se_raw = e, se_received_at_ms = t\<rparr>"
  let ?ev = "hm_insert (ev_id e) ?se (ms_events st)"
  let ?pr = "hm_entry [] (ev_id e) (upsert_provenance u t) (ms_provenance st)"
  let ?k = "ev_kind e"
  have noprov: "map_of (ms_provenance st) (ev_id e) = None" "map_of (ms_events st) (ev_id e) = None"
  proof -
    have "ev_id e \<notin> hm_keys (ms_provenance st)" using inv new by (simp add: core_inv_def prov_inv_def)
    with new show "map_of (ms_provenance st) (ev_id e) = None" "map_of (ms_events st) (ev_id e) = None"
      by (simp_all add: hm_keys_map_of)
  qed
  have "events_ok ?ev"
    using inv e by (auto simp: core_inv_def events_ok_def hash_map.wf_put hash_map.get_put split: if_splits)
  moreover have "prov_inv ?ev ?pr"
    using inv prov_inv_sighting [of "ms_provenance st"] by (auto simp: core_inv_def prov_inv_def)
  moreover have "access_inv ?ev (hm_insert (ev_id e) (ms_access_seq st + 1) (ms_access_index st)) (ms_access_seq st + 1)"
    using inv by (fastforce simp: core_inv_def access_inv_def hash_map.wf_put hash_map.get_put split: if_splits)
  moreover have "ridx_inv ?ev ?pr (bucket_add u (ev_id e) (ms_relay_index st))"
    using inv by (intro ridx_inv_sighting [of "ms_events st"]) (auto simp: core_inv_def)
  moreover have "rkind_inv ?ev ?pr
      (if is_relay_provenance_private ?k then ms_relay_kind st
       else hm_entry [] u (bucket_add ?k (ev_id e)) (ms_relay_kind st))"
    using inv noprov
    by (intro rkind_inv_sighting [of "ms_events st" _ _ _ _ ?se]) (auto simp: core_inv_def hash_map.get_put)
  moreover have "ftsx_inv ?ev (ms_fts (g (put_event e t st)))"
    using g
  proof
    assume "g = fts_add_by_id ext (ev_id e)"
    then show ?thesis using ftsx_inv_add_by_id [OF inv e] by simp
  next
    assume "g = (\<lambda>st. st)"
    then show ?thesis using inv by (auto simp: core_inv_def intro: ftsx_inv_keep)
  qed
  moreover have "\<And>s. ms_events (g s) = ms_events s" "\<And>s. ms_provenance (g s) = ms_provenance s"
    "\<And>s. ms_access_index (g s) = ms_access_index s" "\<And>s. ms_access_seq (g s) = ms_access_seq s"
    "\<And>s. ms_relay_index (g s) = ms_relay_index s" "\<And>s. ms_relay_kind (g s) = ms_relay_kind s"
    "\<And>s. ms_tombstones (g s) = ms_tombstones s" "\<And>s. ms_addr_tombstones (g s) = ms_addr_tombstones s"
    "\<And>s. ms_coverage (g s) = ms_coverage s"
    using g by auto
  ultimately show ?thesis
    using inv by (simp add: core_inv_def split: if_splits)
qed

lemmas core_inv_put_fts = core_inv_put [where g = "fts_add_by_id ext (ev_id e)" for ext e, OF _ _ _ disjI1 [OF refl]]
lemmas core_inv_put_plain = core_inv_put [where g = "\<lambda>st. st", OF _ _ _ disjI2 [OF refl]]

text \<open>Log rows and tombstones do not touch the indexed state.\<close>

lemma core_inv_emit [simp]:
  "core_inv (emit_inserted i raw u t st) = core_inv st"
  "core_inv (emit_replaced i j raw u t st) = core_inv st"
  "core_inv (emit_deleted i j reason t st) = core_inv st"
  by (simp_all add: core_inv_def)

lemma log_inv_frame:
  "ms_ingest_seq st' = ms_ingest_seq st \<Longrightarrow> ms_ingest_log st' = ms_ingest_log st \<Longrightarrow>
     ms_log_gc_floor st' = ms_log_gc_floor st \<Longrightarrow> log_inv st' = log_inv st"
  by (simp add: log_inv_def)

lemma log_inv_updates [simp]:
  "log_inv (remove_event_rows i st) = log_inv st"
  "log_inv (put_event e t st) = log_inv st"
  "log_inv (fts_add_by_id ext i st) = log_inv st"
  "log_inv (record_sighting u t k i st) = log_inv st"
  "log_inv (st\<lparr>ms_tombstones := m\<rparr>) = log_inv st"
  "log_inv (st\<lparr>ms_addr_tombstones := m\<rparr>) = log_inv st"
  by (rule log_inv_frame; simp)+

lemma hm_wf_merge_tombstone: "hm_wf m \<Longrightarrow> hm_wf (merge_tombstone key row m)"
  by (simp add: merge_tombstone_def hash_map.wf_put Let_def split: option.splits)

lemma core_inv_tombstones:
  "core_inv st \<Longrightarrow> hm_wf m \<Longrightarrow> core_inv (st\<lparr>ms_tombstones := m\<rparr>)"
  "core_inv st \<Longrightarrow> hm_wf m \<Longrightarrow> core_inv (st\<lparr>ms_addr_tombstones := m\<rparr>)"
  by (simp_all add: core_inv_def)

lemma mem_inv_new: "mem_inv mem_state_new"
  unfolding mem_inv_def using log_inv_new
  by (simp add: core_inv_def mem_state_new_def events_ok_def prov_inv_def access_inv_def ridx_inv_def rkind_inv_def ftsx_inv_def fts_inv_def fts_docs_def fts_state_default_def
      kinds_wf_def kind_rows_def)

section \<open>Insertions never panic and keep the invariant\<close>

lemma try_fold_inv:
  assumes "\<And>x s. x \<in> set xs \<Longrightarrow> P s \<Longrightarrow> \<exists>s'. f x s = Some s' \<and> P s'" and "P s"
  shows "\<exists>s'. try_fold f xs s = Some s' \<and> P s'"
  using assms
proof (induction xs arbitrary: s)
  case (Cons x xs)
  obtain s1 where s1: "f x s = Some s1" "P s1" using Cons.prems by force
  have "\<exists>s'. try_fold f xs s1 = Some s' \<and> P s'"
    using Cons.prems(1) s1(2) by (intro Cons.IH) auto
  with s1 show ?case by simp
qed simp

lemma not_newer_total: "not_newer a b \<or> not_newer b a"
  by (auto simp: not_newer_def)

lemma not_newer_trans: "not_newer a b \<Longrightarrow> not_newer b c \<Longrightarrow> not_newer a c"
  by (auto simp: not_newer_def)

lemma find_existing_Some:
  assumes "events_ok (ms_events st)" and "find_existing key st = Some h"
  obtains se where "map_of (ms_events st) h = Some se" and "supersession_match key se"
    and "\<And>i se'. map_of (ms_events st) i = Some se' \<Longrightarrow> supersession_match key se' \<Longrightarrow>
           not_newer (se_raw se') (se_raw se)"
proof -
  let ?le = "\<lambda>(_, a) (_, b). not_newer (se_raw a) (se_raw b)"
  let ?xs = "filter (\<lambda>(_, ev). supersession_match key ev) (ms_events st)"
  have wf: "hm_wf (ms_events st)" using assms(1) by (simp add: events_ok_def)
  obtain se where m: "max_by ?le ?xs = Some (h, se)"
    using assms(2) by (auto simp: find_existing_def)
  have "(h, se) \<in> set ?xs" using max_by_mem [OF m] .
  moreover have "not_newer (se_raw se') (se_raw se)"
    if "map_of (ms_events st) i = Some se'" "supersession_match key se'" for i se'
  proof -
    have mem: "(i, se') \<in> set ?xs" using that hm_mem_iff [OF wf] by auto
    have total: "?le a b \<or> ?le b a" for a b :: "string \<times> stored_event"
      unfolding split_beta by (rule not_newer_total)
    have trans: "?le a b \<Longrightarrow> ?le b c \<Longrightarrow> ?le a c" for a b c :: "string \<times> stored_event"
      unfolding split_beta by (rule not_newer_trans)
    have "?le (i, se') (h, se)" using total trans m mem by (rule max_by_ge)
    then show ?thesis by simp
  qed
  ultimately show ?thesis using that hm_mem_iff [OF wf] by auto
qed

lemma find_existing_None:
  assumes "events_ok (ms_events st)" and "find_existing key st = None"
    and "map_of (ms_events st) i = Some se"
  shows "\<not> supersession_match key se"
  using assms hm_mem_iff [of "ms_events st" i se]
  by (auto simp: find_existing_def events_ok_def filter_empty_conv)

text \<open>The kind a stored duplicate is recorded under is the kind it was stored with, because
  an id determines the event; \<open>same_body\<close> is that hypothesis on the id hash.\<close>

definition same_body :: "raw_event \<Rightarrow> mem_state \<Rightarrow> bool" where
  "same_body e st \<longleftrightarrow> (\<forall>se. map_of (ms_events st) (ev_id e) = Some se \<longrightarrow> se_raw se = e)"

lemma mem_inv_sighting:
  assumes "mem_inv st" and "same_body e st" and "ev_id e \<in> hm_keys (ms_events st)"
  shows "mem_inv (record_sighting u t (ev_kind e) (ev_id e) st)"
proof -
  obtain se where "map_of (ms_events st) (ev_id e) = Some se" using assms(3) by (auto simp: hm_keys_map_of)
  moreover then have "se_raw se = e" using assms(2) by (auto simp: same_body_def)
  ultimately show ?thesis
    using assms(1) core_inv_sighting [of st "ev_id e" se "ev_kind e"] by (simp add: mem_inv_def)
qed

lemma handle_normal_insert_ok:
  assumes "mem_inv st" and "storable e" and "same_body e st"
  shows "\<exists>out st'. handle_normal_insert ext e u t st = Some (out, st') \<and> mem_inv st'"
proof -
  obtain d where d: "id_bytes e = Some d" using storable_id [OF assms(2)] by blast
  show ?thesis
  proof (cases "ev_id e \<in> hm_keys (ms_events st)")
    case True
    then show ?thesis
      using d mem_inv_sighting [OF assms(1,3)] by (simp add: handle_normal_insert_def Let_def)
  next
    case False
    with assms core_inv_put_fts [of st e u t ext] show ?thesis
      by (simp add: handle_normal_insert_def Let_def d mem_inv_def log_inv_emit)
  qed
qed

lemma handle_supersession_ok:
  assumes inv: "mem_inv st" and e: "storable e" and body: "same_body e st"
    and key: "fst (snd key) = ev_kind e"
  shows "\<exists>out st'. handle_supersession ext e u t key st = Some (out, st') \<and> mem_inv st'"
proof -
  obtain d where d: "id_bytes e = Some d" using storable_id [OF e] by blast
  have ok: "events_ok (ms_events st)" using inv by (simp add: mem_inv_def core_inv_def)
  show ?thesis
  proof (cases "ev_id e \<in> hm_keys (ms_events st)")
    case True
    then show ?thesis
      using d mem_inv_sighting [OF inv body] by (simp add: handle_supersession_def Let_def key)
  next
    case new: False
    show ?thesis
    proof (cases "find_existing key st")
      case None
      with new inv e core_inv_put_fts [of st e u t ext] show ?thesis
        by (simp add: handle_supersession_def Let_def d key mem_inv_def log_inv_emit)
    next
      case (Some h)
      obtain se where se: "map_of (ms_events st) h = Some se"
        using find_existing_Some [OF ok Some] by blast
      obtain r where r: "hex_to_bytes32 h = Some r"
        using events_ok_key [OF ok] se by (metis hm_get_Some_keys)
      have "core_inv (remove_event_rows h st)" using inv by (simp add: mem_inv_def core_inv_remove)
      moreover have "ev_id e \<notin> hm_keys (ms_events (remove_event_rows h st))" using new by simp
      ultimately have "core_inv (record_sighting u t (ev_kind e) (ev_id e)
          (fts_add_by_id ext (ev_id e) (put_event e t (remove_event_rows h st))))"
        using e by (intro core_inv_put_fts)
      with new inv Some se r show ?thesis
        by (simp add: handle_supersession_def Let_def d key mem_inv_def log_inv_emit)
    qed
  qed
qed

text \<open>Deletion requests only remove events.\<close>

definition k5_inv :: "mem_state \<Rightarrow> mem_state \<Rightarrow> bool" where
  "k5_inv st0 st \<longleftrightarrow> mem_inv st \<and> map_of (ms_events st) \<subseteq>\<^sub>m map_of (ms_events st0)"

lemma kind5_tomb_Some:
  "storable e \<Longrightarrow> \<exists>row. kind5_tomb i j (ev_pubkey e) t u = Some row"
  by (auto simp: kind5_tomb_def storable_def is_structurally_valid_def)

lemma kind5_delete_target_ok:
  assumes "k5_inv st0 st" and "storable e"
  shows "\<exists>st'. kind5_delete_target e u kid h i st = Some st' \<and> k5_inv st0 st'"
proof -
  obtain row where row: "kind5_tomb i kid (ev_pubkey e) (ev_created_at e) u = Some row"
    using kind5_tomb_Some [OF assms(2)] by blast
  define st1 where "st1 = emit_deleted kid i Nip09 (wrapping_mul_u64 (ev_created_at e) 1000) (remove_event_rows h st)"
  have inv1: "mem_inv st1"
    using assms(1) by (simp add: st1_def k5_inv_def mem_inv_def log_inv_emit core_inv_remove)
  have "core_inv (st1\<lparr>ms_tombstones := merge_tombstone h row (ms_tombstones st1)\<rparr>)"
    using inv1 by (intro core_inv_tombstones hm_wf_merge_tombstone) (simp_all add: mem_inv_def core_inv_def)
  then have "mem_inv (st1\<lparr>ms_tombstones := merge_tombstone h row (ms_tombstones st1)\<rparr>)"
    using inv1 by (simp add: mem_inv_def)
  moreover have "map_of (ms_events st1) \<subseteq>\<^sub>m map_of (ms_events st0)"
    using assms(1) by (auto simp: st1_def k5_inv_def map_le_def hash_map.get_del)
  moreover have "kind5_delete_target e u kid h i st =
      Some (st1\<lparr>ms_tombstones := merge_tombstone h row (ms_tombstones st1)\<rparr>)"
    by (simp add: kind5_delete_target_def row st1_def Let_def)
  ultimately show ?thesis by (simp add: k5_inv_def)
qed

lemma k5_inv_tombstones:
  "k5_inv st0 st \<Longrightarrow> k5_inv st0 (st\<lparr>ms_tombstones := merge_tombstone k row (ms_tombstones st)\<rparr>)"
  "k5_inv st0 st \<Longrightarrow> k5_inv st0 (st\<lparr>ms_addr_tombstones := merge_tombstone k row (ms_addr_tombstones st)\<rparr>)"
  by (simp_all add: k5_inv_def mem_inv_def core_inv_tombstones hm_wf_merge_tombstone core_inv_def)

lemma k5_stored_id:
  assumes "k5_inv st0 st" and "map_of (ms_events st) h = Some se"
  shows "\<exists>d. id_bytes (se_raw se) = Some d"
  using assms storable_id by (fastforce simp: k5_inv_def mem_inv_def core_inv_def events_ok_def)

lemma kind5_e_tag_ok:
  assumes "k5_inv st0 st" and "storable e"
  shows "\<exists>st'. kind5_e_tag e u kid h st = Some st' \<and> k5_inv st0 st'"
proof (cases "map_of (ms_events st) h")
  case None
  show ?thesis
  proof (cases "hex_to_bytes32 h")
    case (Some i)
    obtain row where "kind5_tomb i kid (ev_pubkey e) (ev_created_at e) u = Some row"
      using kind5_tomb_Some [OF assms(2)] by blast
    with Some show ?thesis using assms(1) by (simp add: kind5_e_tag_def None k5_inv_tombstones)
  qed (simp add: kind5_e_tag_def None assms(1))
next
  case (Some se)
  then show ?thesis
    using k5_stored_id [OF assms(1) Some] kind5_delete_target_ok [OF assms] assms(1)
    by (auto simp: kind5_e_tag_def)
qed

lemma kind5_a_delete_ok:
  assumes "k5_inv st0 st" and "storable e"
  shows "\<exists>st'. kind5_a_delete e u kid h st = Some st' \<and> k5_inv st0 st'"
  using k5_stored_id [OF assms(1)] kind5_delete_target_ok [OF assms] assms(1)
  by (cases "map_of (ms_events st) h") (fastforce simp: kind5_a_delete_def)+

lemma splitn3_cases:
  obtains a b c where "splitn 3 x s = [a, b, c]" | "\<forall>a b c. splitn 3 x s \<noteq> [a, b, c]"
  by blast

lemma kind5_a_tag_ok:
  assumes "k5_inv st0 st" and "storable e"
  shows "\<exists>st'. kind5_a_tag ext e u kid addr st = Some st' \<and> k5_inv st0 st'"
proof (cases rule: splitn3_cases [of "CHR '':''" addr])
  case (1 k pk dt)
  show ?thesis
  proof (cases "pk \<noteq> ev_pubkey e \<or> parse_u32 k = None")
    case True
    then show ?thesis using assms(1) by (auto simp: kind5_a_tag_def 1)
  next
    case False
    then obtain kind where kind: "parse_u32 k = Some kind" "pk = ev_pubkey e" by auto
    let ?ids = "map fst (filter (\<lambda>(_, ev). kind5_a_match ext e pk kind dt (se_raw ev)) (ms_events st))"
    obtain st1 where st1: "try_fold (kind5_a_delete e u kid) ?ids st = Some st1" "k5_inv st0 st1"
      using try_fold_inv [of ?ids "k5_inv st0" "kind5_a_delete e u kid" st] kind5_a_delete_ok assms by blast
    obtain row where "kind5_tomb (replicate 32 0) kid (ev_pubkey e) (ev_created_at e) u = Some row"
      using kind5_tomb_Some [OF assms(2)] by blast
    with st1 kind show ?thesis by (auto simp: kind5_a_tag_def 1 Let_def intro: k5_inv_tombstones)
  qed
next
  case 2
  then have "kind5_a_tag ext e u kid addr st = Some st"
    by (auto simp: kind5_a_tag_def split: list.splits)
  then show ?thesis using assms(1) by simp
qed

lemma handle_kind5_insert_ok:
  assumes inv: "mem_inv st" and e: "storable e" and body: "same_body e st" and kind: "ev_kind e = 5"
  shows "\<exists>out st'. handle_kind5_insert ext e u t st = Some (out, st') \<and> mem_inv st'"
proof -
  obtain kid where kid: "id_bytes e = Some kid" using storable_id [OF e] by blast
  show ?thesis
  proof (cases "ev_id e \<in> hm_keys (ms_events st)")
    case True
    then show ?thesis
      using kid mem_inv_sighting [OF inv body] kind by (simp add: handle_kind5_insert_def Let_def)
  next
    case False
    have "k5_inv st st" using inv by (simp add: k5_inv_def)
    then obtain st1 where st1: "try_fold (kind5_e_tag e u kid) (e_tags e) st = Some st1" "k5_inv st st1"
      using try_fold_inv [of "e_tags e" "k5_inv st" "kind5_e_tag e u kid" st] kind5_e_tag_ok e by blast
    then obtain st2 where st2: "try_fold (kind5_a_tag ext e u kid) (a_tags e) st1 = Some st2" "k5_inv st st2"
      using try_fold_inv [of "a_tags e" "k5_inv st" "kind5_a_tag ext e u kid" st1] kind5_a_tag_ok e by blast
    have "ev_id e \<notin> hm_keys (ms_events st2)"
      using st2(2) False by (auto simp: k5_inv_def map_le_def hm_keys_map_of dom_def)
    then have "core_inv (record_sighting u t (ev_kind e) (ev_id e) (put_event e t st2))"
      using st2(2) e by (intro core_inv_put_plain) (simp_all add: k5_inv_def mem_inv_def)
    with False st1 st2 kid show ?thesis
      by (simp add: handle_kind5_insert_def Let_def mem_inv_def k5_inv_def log_inv_emit kind)
  qed
qed

lemma insert_dispatch_ok:
  assumes "mem_inv st" and "storable e" and "same_body e st"
  shows "\<exists>out st'. insert_dispatch ext e u t st = Some (out, st') \<and> mem_inv st'"
  using assms handle_kind5_insert_ok handle_normal_insert_ok handle_supersession_ok
  by (simp add: insert_dispatch_def)

lemma mem_inv_drop_tombstone:
  "mem_inv st \<Longrightarrow> mem_inv (st\<lparr>ms_tombstones := hm_remove k (ms_tombstones st)\<rparr>)"
  by (simp add: mem_inv_def core_inv_tombstones hash_map.wf_del core_inv_def)

lemma insert_event_ok:
  assumes "mem_inv st" and "same_body e st"
  shows "\<exists>out st'. insert_event ext e u t st = Some (out, st') \<and> mem_inv st'"
proof (cases "storable e")
  case False
  then show ?thesis
    using assms(1)
    by (cases "is_structurally_valid e")
       (auto simp: insert_event_def storable_def is_structurally_valid_def id_bytes_def)
next
  case True
  obtain d where d: "id_bytes e = Some d" using storable_id [OF True] by blast
  have same: "same_body e (st\<lparr>ms_tombstones := m\<rparr>)" for m using assms(2) by (simp add: same_body_def)
  show ?thesis
    using True d assms insert_dispatch_ok [OF assms(1) True assms(2)]
      insert_dispatch_ok [OF mem_inv_drop_tombstone [OF assms(1)] True same]
      mem_inv_drop_tombstone [OF assms(1), of "ev_id e"]
    by (auto simp: insert_event_def storable_def Let_def split: option.splits)
qed

section \<open>Deletion by filter\<close>

lemma delete_one_ok: "mem_inv st \<Longrightarrow> mem_inv (delete_one b i st)"
  by (simp add: delete_one_def Let_def mem_inv_def core_inv_remove log_inv_emit split: option.splits)

lemma delete_by_filter_ok: "mem_inv st \<Longrightarrow> mem_inv (snd (delete_by_filter f st))"
proof -
  have "mem_inv st \<Longrightarrow> mem_inv (fold (delete_one b) ids st)" for b ids
    by (induction ids arbitrary: st) (auto simp: delete_one_ok)
  then show "mem_inv st \<Longrightarrow> mem_inv (snd (delete_by_filter f st))"
    by (simp add: delete_by_filter_def Let_def)
qed

lemma ms_events_delete_one: "ms_events (delete_one b i st) = hm_remove i (ms_events st)"
  by (simp add: delete_one_def Let_def split: option.splits)

lemma map_of_fold_delete_one:
  "map_of (ms_events (fold (delete_one b) ids st)) i =
     (if i \<in> set ids then None else map_of (ms_events st) i)"
  by (induction ids arbitrary: st) (auto simp: ms_events_delete_one hash_map.get_del)

end
