(* ===== verification/Store_Semantics.thy ===== *)
theory Store_Semantics
  imports Store_Inv
begin

text \<open>
  What the write path of the store promises, beyond its invariant: NIP-09 deletions remove the
  author's events for good and nobody else's, replaceable and addressable events are unique per
  coordinate and converge to the newest version whatever the order of arrival, redelivery is
  idempotent, and the read-side indexes answer from stored events only.
\<close>

section \<open>Loops that may panic\<close>

lemma try_fold_partial:
  assumes "try_fold f xs s = Some s'" and "P s"
    and "\<And>x a b. x \<in> set xs \<Longrightarrow> P a \<Longrightarrow> f x a = Some b \<Longrightarrow> P b"
  shows "P s'"
  using assms
proof (induction xs arbitrary: s)
  case (Cons x xs)
  obtain s1 where s1: "f x s = Some s1" "try_fold f xs s1 = Some s'"
    using Cons.prems(1) by (auto simp: bind_eq_Some_conv)
  have "P s1" using Cons.prems(2,3) s1(1) by auto
  with s1(2) Cons.prems(3) show ?case by (intro Cons.IH) auto
qed simp

text \<open>A step that establishes \<open>Q\<close> at one element, with \<open>P\<close> or \<open>Q\<close> kept throughout.\<close>

lemma try_fold_reaches:
  assumes "try_fold f xs s = Some s'" and "P s \<or> Q s" and "y \<in> set xs"
    and keep: "\<And>x a b. x \<in> set xs \<Longrightarrow> P a \<Longrightarrow> f x a = Some b \<Longrightarrow> P b \<or> Q b"
    and stay: "\<And>x a b. x \<in> set xs \<Longrightarrow> Q a \<Longrightarrow> f x a = Some b \<Longrightarrow> Q b"
    and hit: "\<And>a b. P a \<Longrightarrow> f y a = Some b \<Longrightarrow> Q b"
  shows "Q s'"
  using assms(1-3) keep stay
proof (induction xs arbitrary: s)
  case Nil
  from Nil.prems(3) show ?case by simp
next
  case (Cons x xs)
  obtain s1 where s1: "f x s = Some s1" "try_fold f xs s1 = Some s'"
    using Cons.prems(1) by (auto simp: bind_eq_Some_conv)
  have PQ: "P s1 \<or> Q s1"
    using Cons.prems(2)
  proof
    assume "P s"
    then show ?thesis using Cons.prems(4) [of x s s1] s1(1) by simp
  next
    assume "Q s"
    then show ?thesis using Cons.prems(5) [of x s s1] s1(1) by simp
  qed
  show ?case
  proof (cases "y \<in> set xs")
    case True
    show ?thesis
    proof (rule Cons.IH [OF s1(2) PQ True])
      show "P b \<or> Q b" if "z \<in> set xs" "P a" "f z a = Some b" for z a b
        using Cons.prems(4) [of z a b] that by simp
      show "Q b" if "z \<in> set xs" "Q a" "f z a = Some b" for z a b
        using Cons.prems(5) [of z a b] that by simp
    qed
  next
    case False
    with Cons.prems(3) have "x = y" by simp
    then have "Q s1" using Cons.prems(2,5) s1(1) hit by auto
    then show ?thesis
    proof (rule try_fold_partial [where P = Q, OF s1(2)])
      show "Q b" if "z \<in> set xs" "Q a" "f z a = Some b" for z a b
        using Cons.prems(5) [of z a b] that by simp
    qed
  qed
qed

section \<open>Single deletion steps\<close>

lemma kind5_delete_target_events:
  "kind5_delete_target e u kid h i st = Some st' \<Longrightarrow> ms_events st' = hm_remove h (ms_events st)"
  by (auto simp: kind5_delete_target_def Let_def bind_eq_Some_conv)

lemma kind5_delete_target_tombstones:
  "kind5_delete_target e u kid h i st = Some st' \<Longrightarrow>
     \<exists>row. kind5_tomb i kid (ev_pubkey e) (ev_created_at e) u = Some row \<and>
       ms_tombstones st' = merge_tombstone h row (ms_tombstones st)"
  by (auto simp: kind5_delete_target_def Let_def bind_eq_Some_conv)

text \<open>An \<open>e\<close> tag leaves the state alone, or lays a tombstone for an absent target, or
  removes a target of the same author and lays its tombstone.\<close>

lemma kind5_e_tag_cases:
  assumes "kind5_e_tag e u kid h st = Some st'"
  obtains (skip) "st' = st"
    and "\<And>se. map_of (ms_events st) h = Some se \<Longrightarrow> ev_pubkey (se_raw se) \<noteq> ev_pubkey e"
  | (absent) i row where "map_of (ms_events st) h = None" "hex_to_bytes32 h = Some i"
      "kind5_tomb i kid (ev_pubkey e) (ev_created_at e) u = Some row"
      "st' = st\<lparr>ms_tombstones := merge_tombstone h row (ms_tombstones st)\<rparr>"
  | (own) se i where "map_of (ms_events st) h = Some se" "ev_pubkey (se_raw se) = ev_pubkey e"
      "kind5_delete_target e u kid h i st = Some st'"
  using assms
  by (auto simp: kind5_e_tag_def bind_eq_Some_conv split: option.splits if_splits)

lemma kind5_a_delete_cases:
  assumes "kind5_a_delete e u kid h st = Some st'"
  obtains (gone) "st' = st" "map_of (ms_events st) h = None"
  | (stored) se i where "map_of (ms_events st) h = Some se" "kind5_delete_target e u kid h i st = Some st'"
  using assms by (auto simp: kind5_a_delete_def bind_eq_Some_conv split: option.splits)

lemma kind5_a_tag_cases:
  assumes "kind5_a_tag ext e u kid addr st = Some st'"
  obtains (skip) "st' = st"
  | (own) kstr k d st1 row where "splitn 3 CHR '':'' addr = [kstr, ev_pubkey e, d]" "parse_u32 kstr = Some k"
      "try_fold (kind5_a_delete e u kid)
         (map fst (filter (\<lambda>(_, ev). kind5_a_match ext e (ev_pubkey e) k d (se_raw ev)) (ms_events st))) st = Some st1"
      "st' = st1\<lparr>ms_addr_tombstones :=
         merge_tombstone (kstr @ '':'' @ ev_pubkey e @ '':'' @ d) row (ms_addr_tombstones st1)\<rparr>"
proof -
  show ?thesis
  proof (cases rule: splitn3_cases [of "CHR '':''" addr])
    case (1 a b c)
    with assms that show ?thesis
      by (auto simp: kind5_a_tag_def Let_def bind_eq_Some_conv split: option.splits if_splits)
  next
    case 2
    with assms that(1) show ?thesis by (auto simp: kind5_a_tag_def split: list.splits)
  qed
qed

section \<open>Deletions spare foreign events\<close>

definition keeps :: "string \<Rightarrow> stored_event \<Rightarrow> mem_state \<Rightarrow> mem_state \<Rightarrow> bool" where
  "keeps i se st0 st \<longleftrightarrow> k5_inv st0 st \<and> map_of (ms_events st) i = Some se"

lemma keeps_e_tag:
  assumes "keeps i se st0 st" and "storable e" and "ev_pubkey (se_raw se) \<noteq> ev_pubkey e"
    and "kind5_e_tag e u kid h st = Some st'"
  shows "keeps i se st0 st'"
proof -
  have "k5_inv st0 st'"
    using kind5_e_tag_ok [of st0 st e u kid h] assms by (auto simp: keeps_def)
  moreover have "map_of (ms_events st') i = Some se"
    using assms(4)
  proof (cases rule: kind5_e_tag_cases)
    case (own se' j)
    with assms(1,3) have "h \<noteq> i" by (auto simp: keeps_def)
    then show ?thesis
      using assms(1) by (simp add: keeps_def kind5_delete_target_events [OF own(3)] hash_map.get_del)
  next
    case skip
    then show ?thesis using assms(1) by (simp add: keeps_def)
  next
    case (absent j row)
    then show ?thesis using assms(1) by (simp add: keeps_def)
  qed
  ultimately show ?thesis by (simp add: keeps_def)
qed

lemma keeps_a_tag:
  assumes keeps: "keeps i se st0 st" and e: "storable e" and foreign: "ev_pubkey (se_raw se) \<noteq> ev_pubkey e"
    and step: "kind5_a_tag ext e u kid addr st = Some st'"
  shows "keeps i se st0 st'"
proof -
  have inv: "k5_inv st0 st'"
    using kind5_a_tag_ok [of st0 st e ext u kid addr] keeps e step by (auto simp: keeps_def)
  have wf: "hm_wf (ms_events st)"
    using keeps by (simp add: keeps_def k5_inv_def mem_inv_def core_inv_def events_ok_def)
  have "map_of (ms_events st') i = Some se"
    using step
  proof (cases rule: kind5_a_tag_cases)
    case skip
    then show ?thesis using keeps by (simp add: keeps_def)
  next
    case (own kstr k d st1 row)
    let ?ids = "map fst (filter (\<lambda>(_, ev). kind5_a_match ext e (ev_pubkey e) k d (se_raw ev)) (ms_events st))"
    have i: "i \<notin> set ?ids"
      using keeps foreign hm_mem_iff [OF wf, of i] by (auto simp: keeps_def kind5_a_match_def)
    have "map_of (ms_events st1) i = Some se"
    proof (rule try_fold_partial [OF own(3)])
      show "map_of (ms_events st) i = Some se" using keeps by (simp add: keeps_def)
      fix h a b
      assume h: "h \<in> set ?ids" and a: "map_of (ms_events a) i = Some se"
        and "kind5_a_delete e u kid h a = Some b"
      from this(3) show "map_of (ms_events b) i = Some se"
      proof (cases rule: kind5_a_delete_cases)
        case gone
        then show ?thesis using a by simp
      next
        case (stored se' j)
        have "h \<noteq> i" using h i by auto
        then show ?thesis
          using a by (simp add: kind5_delete_target_events [OF stored(2)] hash_map.get_del)
      qed
    qed
    then show ?thesis by (simp add: own(4))
  qed
  with inv show ?thesis by (simp add: keeps_def)
qed

lemma handle_kind5_insert_keeps:
  assumes inv: "mem_inv st" and e: "storable e"
    and se: "map_of (ms_events st) i = Some se" "ev_pubkey (se_raw se) \<noteq> ev_pubkey e"
    and res: "handle_kind5_insert ext e u t st = Some (out, st')"
  shows "map_of (ms_events st') i = Some se"
proof (cases "ev_id e \<in> hm_keys (ms_events st)")
  case True
  with res se show ?thesis by (auto simp: handle_kind5_insert_def Let_def bind_eq_Some_conv)
next
  case False
  then obtain kid st1 st2 where
    st1: "try_fold (kind5_e_tag e u kid) (e_tags e) st = Some st1" and
    st2: "try_fold (kind5_a_tag ext e u kid) (a_tags e) st1 = Some st2" and
    st': "ms_events st' = ms_events (put_event e t st2)"
    using res by (auto simp: handle_kind5_insert_def Let_def bind_eq_Some_conv)
  have "keeps i se st st" using inv se by (simp add: keeps_def k5_inv_def)
  then have "keeps i se st st1"
    by (rule try_fold_partial [OF st1]) (rule keeps_e_tag [OF _ e se(2)])
  then have "keeps i se st st2"
    by (rule try_fold_partial [OF st2]) (rule keeps_a_tag [OF _ e se(2)])
  moreover have "i \<noteq> ev_id e" using False se(1) by (auto simp: hm_keys_map_of)
  ultimately show ?thesis by (simp add: st' keeps_def hash_map.get_put)
qed

text \<open>How a call of \<open>insert\<close> unfolds: it returns early with the events untouched, or it
  dispatches, possibly after dropping a foreign tombstone for the id.\<close>

lemma insert_event_cases:
  assumes "insert_event ext e u t st = Some (out, st')"
  obtains (early) "ms_events st' = ms_events st" "ms_addr_tombstones st' = ms_addr_tombstones st"
      "ms_tombstones st' = ms_tombstones st \<or> ms_tombstones st' = hm_remove (ev_id e) (ms_tombstones st)"
      "ms_ingest_log st' = ms_ingest_log st" "ms_provenance st' = ms_provenance st"
      "\<And>i n. out \<noteq> Inserted i n" "\<And>i j. out \<noteq> Replaced i j" "\<And>i j. out \<noteq> Superseded i j" "\<And>i n. out \<noteq> Duplicate i n"
  | (dispatch) st0 where "storable e" "insert_dispatch ext e u t st0 = Some (out, st')"
      "st0 = st\<lparr>ms_tombstones := hm_remove (ev_id e) (ms_tombstones st)\<rparr> \<or> st0 = st"
      "map_of (ms_tombstones st0) (ev_id e) = None" "addr_tombstone_for e st0 = None"
proof -
  note D = assms [unfolded insert_event_def]
  show ?thesis
  proof (cases "storable e \<and> \<not> (case expiration e of Some ex \<Rightarrow> ex \<le> t div 1000 | None \<Rightarrow> False)")
    case False
    with D that(1) show ?thesis
      by (auto simp: storable_def bind_eq_Some_conv split: if_splits)
  next
    case True
    then have st: "storable e" and v: "is_structurally_valid e" "\<not> ev_is_ephemeral e" by (simp_all add: storable_def)
    show ?thesis
    proof (cases "map_of (ms_tombstones st) (ev_id e)")
      case None
      then show ?thesis
        using D True v st that(1) that(2) [of st]
        by (auto simp: bind_eq_Some_conv split: option.splits)
    next
      case (Some tomb)
      let ?st0 = "st\<lparr>ms_tombstones := hm_remove (ev_id e) (ms_tombstones st)\<rparr>"
      show ?thesis
        using D True v st Some that(1) that(2) [of ?st0]
        by (auto simp: bind_eq_Some_conv Let_def hash_map.get_del split: option.splits if_splits)
    qed
  qed
qed

text \<open>C4. Nobody can delete another author's event: whatever a kind:5 event names in its
  \<open>e\<close> and \<open>a\<close> tags, every stored event of a different author is still stored,
  unchanged, after it is inserted.\<close>

theorem kind5_spares_foreign_events:
  assumes "mem_inv st" and "ev_kind e = 5"
    and "insert_event ext e u t st = Some (out, st')"
    and "map_of (ms_events st) i = Some se" and "ev_pubkey (se_raw se) \<noteq> ev_pubkey e"
  shows "map_of (ms_events st') i = Some se"
  using assms(3)
proof (cases rule: insert_event_cases)
  case early
  then show ?thesis using assms(4) by simp
next
  case (dispatch st0)
  have "mem_inv st0" "map_of (ms_events st0) i = Some se"
    using dispatch(3) assms(1,4) mem_inv_drop_tombstone by auto
  moreover have "handle_kind5_insert ext e u t st0 = Some (out, st')"
    using dispatch(2) assms(2) by (simp add: insert_dispatch_def)
  ultimately show ?thesis
    using handle_kind5_insert_keeps [OF _ dispatch(1)] assms(5) by blast
qed

section \<open>Deletions by the author are final\<close>

text \<open>No id is both stored and tombstoned.\<close>

definition tomb_disjoint :: "mem_state \<Rightarrow> bool" where
  "tomb_disjoint st \<longleftrightarrow> hm_keys (ms_events st) \<inter> hm_keys (ms_tombstones st) = {}"

lemma tomb_disjointD:
  assumes "tomb_disjoint st" and "map_of (ms_events st) h = Some se"
  shows "map_of (ms_tombstones st) h = None"
proof -
  have "h \<in> hm_keys (ms_events st)" using assms(2) by (simp add: hm_keys_map_of)
  then have "h \<notin> hm_keys (ms_tombstones st)" using assms(1) by (auto simp: tomb_disjoint_def)
  then show ?thesis by (simp add: hm_keys_map_of)
qed

lemma hm_keys_merge_tombstone [simp]:
  "hm_keys (merge_tombstone k row m) = insert k (hm_keys m)"
  by (simp add: merge_tombstone_def Let_def split: option.splits)

lemma map_of_merge_tombstone_other:
  "k' \<noteq> k \<Longrightarrow> map_of (merge_tombstone k row m) k' = map_of m k'"
  by (simp add: merge_tombstone_def Let_def hash_map.get_put split: option.splits)

text \<open>The first deleter of a target stays its deleter.\<close>

lemma merge_tombstone_deleter:
  "\<exists>row'. map_of (merge_tombstone k row m) k = Some row' \<and>
     (case map_of m k of
        None \<Rightarrow> row' = row
      | Some old \<Rightarrow> tb_origin row' = tb_origin old \<and> tb_deleter_pubkey row' = tb_deleter_pubkey old)"
  by (simp add: merge_tombstone_def Let_def hash_map.get_put split: option.splits)

lemma kind5_tomb_fields:
  "kind5_tomb i kid pk t u = Some row \<Longrightarrow> tb_origin row = Kind5 \<and> tb_deleter_pubkey row = hex_to_bytes32 pk"
  by (auto simp: kind5_tomb_def bind_eq_Some_conv)

text \<open>The two phases of a target: still stored, with no tombstone; deleted, with a tombstone of
  the author.\<close>

definition pending :: "raw_event \<Rightarrow> string \<Rightarrow> stored_event \<Rightarrow> mem_state \<Rightarrow> bool" where
  "pending e h se st \<longleftrightarrow> map_of (ms_events st) h = Some se \<and> map_of (ms_tombstones st) h = None"

definition deleted :: "raw_event \<Rightarrow> string \<Rightarrow> mem_state \<Rightarrow> bool" where
  "deleted e h st \<longleftrightarrow> map_of (ms_events st) h = None \<and>
     (\<exists>row. map_of (ms_tombstones st) h = Some row \<and> tb_origin row = Kind5 \<and>
        tb_deleter_pubkey row = hex_to_bytes32 (ev_pubkey e))"

lemma deleted_merge:
  assumes "deleted e h st" and "map_of (ms_events st') h = None"
    and "ms_tombstones st' = merge_tombstone k row (ms_tombstones st)"
  shows "deleted e h st'"
proof (cases "k = h")
  case True
  then show ?thesis
    using assms merge_tombstone_deleter [of h row "ms_tombstones st"] by (auto simp: deleted_def)
next
  case False
  then show ?thesis
    using assms map_of_merge_tombstone_other [of h k row "ms_tombstones st"] by (auto simp: deleted_def)
qed

lemma deleted_target:
  assumes "deleted e h st" and "kind5_delete_target f u kid k i st = Some st'"
  shows "deleted e h st'"
proof -
  obtain row where "ms_tombstones st' = merge_tombstone k row (ms_tombstones st)"
    using kind5_delete_target_tombstones [OF assms(2)] by blast
  moreover have "map_of (ms_events st') h = None"
    using assms(1) by (simp add: kind5_delete_target_events [OF assms(2)] deleted_def hash_map.get_del)
  ultimately show ?thesis by (rule deleted_merge [OF assms(1), rotated])
qed

lemma deleted_e_tag:
  assumes "deleted e h st" and "kind5_e_tag f u kid k st = Some st'"
  shows "deleted e h st'"
  using assms(2)
proof (cases rule: kind5_e_tag_cases)
  case skip
  then show ?thesis using assms(1) by simp
next
  case (absent i row)
  then show ?thesis using assms(1) by (intro deleted_merge [OF assms(1)]) (auto simp: deleted_def)
next
  case (own se i)
  then show ?thesis using deleted_target [OF assms(1)] by blast
qed

lemma deleted_a_tag:
  assumes "deleted e h st" and "kind5_a_tag ext f u kid addr st = Some st'"
  shows "deleted e h st'"
  using assms(2)
proof (cases rule: kind5_a_tag_cases)
  case skip
  then show ?thesis using assms(1) by simp
next
  case (own kstr k d st1 row)
  have "deleted e h st1"
  proof (rule try_fold_partial [where P = "deleted e h", OF own(3) assms(1)])
    fix x a b
    assume a: "deleted e h a" and "kind5_a_delete f u kid x a = Some b"
    from this(2) show "deleted e h b"
      using a deleted_target by (cases rule: kind5_a_delete_cases) auto
  qed
  then show ?thesis by (simp add: own(4) deleted_def)
qed

lemma pending_e_tag:
  assumes "pending e h se st" and "kind5_e_tag e u kid k st = Some st'"
    and "ev_pubkey (se_raw se) = ev_pubkey e"
  shows "if k = h then deleted e h st' else pending e h se st'"
  using assms(2)
proof (cases rule: kind5_e_tag_cases)
  case skip
  then show ?thesis using assms(1,3) by (auto simp: pending_def)
next
  case (absent i row)
  then show ?thesis using assms(1) by (auto simp: pending_def map_of_merge_tombstone_other)
next
  case (own se' i)
  obtain row where row: "kind5_tomb i kid (ev_pubkey e) (ev_created_at e) u = Some row"
      "ms_tombstones st' = merge_tombstone k row (ms_tombstones st)"
    using kind5_delete_target_tombstones [OF own(3)] by blast
  show ?thesis
  proof (cases "k = h")
    case True
    then show ?thesis
      using assms(1) row kind5_tomb_fields [OF row(1)] kind5_delete_target_events [OF own(3)]
        merge_tombstone_deleter [of h row "ms_tombstones st"]
      by (auto simp: pending_def deleted_def hash_map.get_del)
  next
    case False
    then show ?thesis
      using assms(1) row kind5_delete_target_events [OF own(3)]
      by (auto simp: pending_def hash_map.get_del map_of_merge_tombstone_other)
  qed
qed

lemma handle_kind5_insert_deletes:
  assumes new: "ev_id e \<notin> hm_keys (ms_events st)" and pend: "pending e h se st"
    and own: "ev_pubkey (se_raw se) = ev_pubkey e" and h: "h \<in> set (e_tags e)"
    and res: "handle_kind5_insert ext e u t st = Some (out, st')"
  shows "deleted e h st'"
proof -
  obtain kid st1 st2 where
    st1: "try_fold (kind5_e_tag e u kid) (e_tags e) st = Some st1" and
    st2: "try_fold (kind5_a_tag ext e u kid) (a_tags e) st1 = Some st2" and
    st': "ms_events st' = ms_events (put_event e t st2)" "ms_tombstones st' = ms_tombstones st2"
    using new res by (auto simp: handle_kind5_insert_def Let_def bind_eq_Some_conv)
  have "deleted e h st1"
  proof (rule try_fold_reaches [where P = "pending e h se" and Q = "deleted e h", OF st1 disjI1 [OF pend] h])
    show "pending e h se b \<or> deleted e h b" if "pending e h se a" "kind5_e_tag e u kid x a = Some b" for x a b
      using pending_e_tag [OF that own] by (auto split: if_splits)
    show "deleted e h b" if "deleted e h a" "kind5_e_tag e u kid x a = Some b" for x a b
      using deleted_e_tag [OF that] .
    show "deleted e h b" if "pending e h se a" "kind5_e_tag e u kid h a = Some b" for a b
      using pending_e_tag [OF that own] by simp
  qed
  then have "deleted e h st2"
    by (rule try_fold_partial [OF st2]) (rule deleted_a_tag)
  moreover have "h \<noteq> ev_id e" using pend new by (auto simp: pending_def hm_keys_map_of)
  ultimately show ?thesis by (simp add: deleted_def st' hash_map.get_put)
qed

lemma deleted_blocks_insert:
  assumes "deleted e (ev_id f) st" and "ev_pubkey f = ev_pubkey e"
    and "ascii_lower (ev_pubkey e) = ev_pubkey e" and "is_structurally_valid f"
  shows "\<exists>out. insert_event ext f u t st = Some (out, st)"
proof -
  obtain d where d: "hex_to_bytes32 (ev_pubkey f) = Some d"
    using assms(4) by (auto simp: is_structurally_valid_def)
  obtain i where i: "id_bytes f = Some i"
    using assms(4) by (auto simp: is_structurally_valid_def id_bytes_def)
  obtain row where row: "map_of (ms_tombstones st) (ev_id f) = Some row" "tb_origin row = Kind5"
      "tb_deleter_pubkey row = Some d"
    using assms(1,2) d by (auto simp: deleted_def)
  have "bytes_to_hex d = ev_pubkey f"
    using hex_to_bytes32_inverse [OF d] assms(2,3) by simp
  then have "tombstone_applies row f" using row by (simp add: tombstone_applies_def)
  then show ?thesis using assms(4) i row by (simp add: insert_event_def)
qed

text \<open>C5. An author's deletion takes effect and is final: after a kind:5 event by the author of
  a stored event names it in an \<open>e\<close> tag, the event is gone, and inserting it again, from
  any relay at any time, leaves the store as it is.\<close>

theorem kind5_deletes_own_event:
  assumes inv: "mem_inv st" "tomb_disjoint st" and kind: "ev_kind e = 5"
    and new: "ev_id e \<notin> hm_keys (ms_events st)"
    and target: "map_of (ms_events st) h = Some se" "h \<in> set (e_tags e)"
      "ev_pubkey (se_raw se) = ev_pubkey e" "ascii_lower (ev_pubkey e) = ev_pubkey e"
    and res: "insert_event ext e u t st = Some (Inserted i n, st')"
  shows "map_of (ms_events st') h = None \<and>
    (\<exists>out. insert_event ext (se_raw se) u' t' st' = Some (out, st'))"
  using res
proof (cases rule: insert_event_cases)
  case early
  then show ?thesis using early(6) [of i n] by simp
next
  case (dispatch st0)
  have "h \<noteq> ev_id e" using target(1) new by (auto simp: hm_keys_map_of)
  moreover have "map_of (ms_tombstones st) h = None"
    using tomb_disjointD [OF inv(2) target(1)] .
  ultimately have "pending e h se st0" "ev_id e \<notin> hm_keys (ms_events st0)"
    using dispatch(3) target(1) new by (auto simp: pending_def hash_map.get_del)
  then have del: "deleted e h st'"
    using dispatch(2) kind target by (intro handle_kind5_insert_deletes [of e st0]) (simp_all add: insert_dispatch_def)
  have "ev_id (se_raw se) = h" "is_structurally_valid (se_raw se)"
    using inv(1) target(1) by (auto simp: mem_inv_def core_inv_def events_ok_def storable_def)
  then have "\<exists>out. insert_event ext (se_raw se) u' t' st' = Some (out, st')"
    using del target by (intro deleted_blocks_insert) simp_all
  with del show ?thesis by (simp add: deleted_def)
qed

section \<open>The branches of the handlers\<close>

text \<open>The state after a new event body is stored with its index rows.\<close>

definition stored_state :: "ext \<Rightarrow> raw_event \<Rightarrow> relay_url \<Rightarrow> u64 \<Rightarrow> u32 \<Rightarrow> mem_state \<Rightarrow> mem_state" where
  "stored_state ext e u t k st =
     record_sighting u t k (ev_id e) (fts_add_by_id ext (ev_id e) (put_event e t st))"

lemma stored_state_fields [simp]:
  "ms_events (stored_state ext e u t k st) = ms_events (put_event e t st)"
  "ms_tombstones (stored_state ext e u t k st) = ms_tombstones st"
  "ms_addr_tombstones (stored_state ext e u t k st) = ms_addr_tombstones st"
  "ms_ingest_log (stored_state ext e u t k st) = ms_ingest_log st"
  "ms_ingest_seq (stored_state ext e u t k st) = ms_ingest_seq st"
  "ms_log_gc_floor (stored_state ext e u t k st) = ms_log_gc_floor st"
  by (simp_all add: stored_state_def)

lemma handle_supersession_cases:
  assumes "handle_supersession ext e u t k st = Some (out, st')"
  obtains (dup) i where "id_bytes e = Some i" "ev_id e \<in> hm_keys (ms_events st)"
      "st' = record_sighting u t (fst (snd k)) (ev_id e) st" "out = Duplicate i (sources_after (ev_id e) st')"
  | (wins) i h se r where "id_bytes e = Some i" "ev_id e \<notin> hm_keys (ms_events st)"
      "find_existing k st = Some h" "map_of (ms_events st) h = Some se" "hex_to_bytes32 h = Some r"
      "incoming_wins e (se_raw se)" "out = Replaced i r"
      "st' = emit_replaced i r e u t (stored_state ext e u t (fst (snd k)) (remove_event_rows h st))"
  | (loses) i h se r where "id_bytes e = Some i" "ev_id e \<notin> hm_keys (ms_events st)"
      "find_existing k st = Some h" "map_of (ms_events st) h = Some se" "hex_to_bytes32 h = Some r"
      "\<not> incoming_wins e (se_raw se)" "out = Superseded i r" "st' = st"
  | (fresh) i where "id_bytes e = Some i" "ev_id e \<notin> hm_keys (ms_events st)" "find_existing k st = None"
      "out = Inserted i (sources_after (ev_id e) (stored_state ext e u t (fst (snd k)) st))"
      "st' = emit_inserted i e u t (stored_state ext e u t (fst (snd k)) st)"
proof -
  obtain i where i: "id_bytes e = Some i" using assms by (auto simp: handle_supersession_def bind_eq_Some_conv)
  show ?thesis
  proof (cases "ev_id e \<in> hm_keys (ms_events st)")
    case True
    then show ?thesis using assms dup [OF i] by (auto simp: handle_supersession_def Let_def i)
  next
    case new: False
    show ?thesis
    proof (cases "find_existing k st")
      case None
      then show ?thesis using assms i new fresh by (simp add: handle_supersession_def Let_def stored_state_def)
    next
      case (Some h)
      obtain se r where h: "map_of (ms_events st) h = Some se" "hex_to_bytes32 h = Some r"
        using assms i new Some by (auto simp: handle_supersession_def Let_def bind_eq_Some_conv)
      note res = assms [unfolded handle_supersession_def Let_def, simplified i new Some h, simplified, folded stored_state_def]
      show ?thesis
      proof (cases "incoming_wins e (se_raw se)")
        case True
        with res h new have "out = Replaced i r"
          "st' = emit_replaced i r e u t (stored_state ext e u t (fst (snd k)) (remove_event_rows h st))" by simp_all
        with True show ?thesis by (rule wins [OF i new Some h])
      next
        case False
        with res h new have "out = Superseded i r" "st' = st" by simp_all
        with False show ?thesis by (rule loses [OF i new Some h])
      qed
    qed
  qed
qed

lemma handle_normal_insert_cases:
  assumes "handle_normal_insert ext e u t st = Some (out, st')"
  obtains (dup) i where "id_bytes e = Some i" "ev_id e \<in> hm_keys (ms_events st)"
      "st' = record_sighting u t (ev_kind e) (ev_id e) st" "out = Duplicate i (sources_after (ev_id e) st')"
  | (fresh) i where "id_bytes e = Some i" "ev_id e \<notin> hm_keys (ms_events st)"
      "out = Inserted i (sources_after (ev_id e) (stored_state ext e u t (ev_kind e) st))"
      "st' = emit_inserted i e u t (stored_state ext e u t (ev_kind e) st)"
  using assms
  by (cases "ev_id e \<in> hm_keys (ms_events st)")
     (auto simp: handle_normal_insert_def Let_def stored_state_def bind_eq_Some_conv)

lemma handle_kind5_insert_cases:
  assumes "handle_kind5_insert ext e u t st = Some (out, st')"
  obtains (dup) i where "id_bytes e = Some i" "ev_id e \<in> hm_keys (ms_events st)"
      "st' = record_sighting u t 5 (ev_id e) st" "out = Duplicate i (sources_after (ev_id e) st')"
  | (new) i st1 st2 where "id_bytes e = Some i" "ev_id e \<notin> hm_keys (ms_events st)"
      "try_fold (kind5_e_tag e u i) (e_tags e) st = Some st1"
      "try_fold (kind5_a_tag ext e u i) (a_tags e) st1 = Some st2"
      "out = Inserted i (sources_after (ev_id e) (record_sighting u t 5 (ev_id e) (put_event e t st2)))"
      "st' = emit_inserted i e u t (record_sighting u t 5 (ev_id e) (put_event e t st2))"
  using assms
  by (cases "ev_id e \<in> hm_keys (ms_events st)")
     (auto simp: handle_kind5_insert_def Let_def bind_eq_Some_conv)

text \<open>The effect of a dispatch on the event map and the tombstones.\<close>

lemma insert_dispatch_cases:
  assumes "insert_dispatch ext e u t st = Some (out, st')"
  obtains (same) "ms_events st' = ms_events st" "ms_tombstones st' = ms_tombstones st"
  | (put) "ev_id e \<notin> hm_keys (ms_events st)" "ms_events st' = ms_events (put_event e t st)"
      "ms_tombstones st' = ms_tombstones st"
  | (replace) k h where "ev_id e \<notin> hm_keys (ms_events st)" "find_existing k st = Some h"
      "ms_events st' = ms_events (put_event e t (remove_event_rows h st))" "ms_tombstones st' = ms_tombstones st"
  | (kind5) i st1 st2 where "ev_kind e = 5" "ev_id e \<notin> hm_keys (ms_events st)"
      "try_fold (kind5_e_tag e u i) (e_tags e) st = Some st1"
      "try_fold (kind5_a_tag ext e u i) (a_tags e) st1 = Some st2"
      "ms_events st' = ms_events (put_event e t st2)" "ms_tombstones st' = ms_tombstones st2"
proof -
  consider "ev_kind e = 5" "handle_kind5_insert ext e u t st = Some (out, st')"
    | k where "handle_supersession ext e u t k st = Some (out, st')"
    | "handle_normal_insert ext e u t st = Some (out, st')"
    using assms by (auto simp: insert_dispatch_def split: if_splits)
  then show ?thesis
  proof cases
    case 1
    from 1(2) show ?thesis
      by (cases rule: handle_kind5_insert_cases) (auto intro: same kind5 [OF 1(1)])
  next
    case 2
    then show ?thesis
      by (cases rule: handle_supersession_cases) (auto intro: same put replace)
  next
    case 3
    then show ?thesis
      by (cases rule: handle_normal_insert_cases) (auto intro: same put)
  qed
qed

section \<open>Tombstones and stored events stay apart\<close>

definition stay_apart :: "string \<Rightarrow> mem_state \<Rightarrow> bool" where
  "stay_apart i st \<longleftrightarrow> tomb_disjoint st \<and> i \<notin> hm_keys (ms_events st) \<and> i \<notin> hm_keys (ms_tombstones st)"

lemma stay_apart_target:
  assumes "stay_apart i st" and "kind5_delete_target e u kid h j st = Some st'" and "h \<noteq> i"
  shows "stay_apart i st'"
  using assms(1,3) kind5_delete_target_tombstones [OF assms(2)]
  by (auto simp: stay_apart_def tomb_disjoint_def kind5_delete_target_events [OF assms(2)])

lemma stay_apart_e_tag:
  assumes "stay_apart i st" and "kind5_e_tag e u kid h st = Some st'" and "h \<noteq> i"
  shows "stay_apart i st'"
  using assms(2)
proof (cases rule: kind5_e_tag_cases)
  case skip
  then show ?thesis using assms(1) by simp
next
  case (absent j row)
  have "h \<notin> hm_keys (ms_events st)" using absent(1) by (simp add: hm_keys_map_of)
  then show ?thesis using assms(1,3) by (auto simp: absent(4) stay_apart_def tomb_disjoint_def)
next
  case (own se j)
  then show ?thesis using stay_apart_target [OF assms(1)] assms(3) by blast
qed

lemma stay_apart_a_tag:
  assumes "stay_apart i st" and "kind5_a_tag ext e u kid addr st = Some st'"
  shows "stay_apart i st'"
  using assms(2)
proof (cases rule: kind5_a_tag_cases)
  case skip
  then show ?thesis using assms(1) by simp
next
  case (own kstr k d st1 row)
  have "stay_apart i st1"
  proof (rule try_fold_partial [where P = "stay_apart i", OF own(3) assms(1)])
    fix h a b
    assume a: "stay_apart i a" and "kind5_a_delete e u kid h a = Some b"
    from this(2) show "stay_apart i b"
    proof (cases rule: kind5_a_delete_cases)
      case gone
      then show ?thesis using a by simp
    next
      case (stored se j)
      have "h \<in> hm_keys (ms_events a)" using stored(1) by (simp add: hm_keys_map_of)
      then have "h \<noteq> i" using a by (auto simp: stay_apart_def)
      then show ?thesis using stay_apart_target [OF a stored(2)] by simp
    qed
  qed
  then show ?thesis by (simp add: own(4) stay_apart_def tomb_disjoint_def)
qed

lemma tomb_disjoint_put:
  "stay_apart (ev_id e) st \<Longrightarrow> ms_events st' = ms_events (put_event e t st) \<Longrightarrow>
     ms_tombstones st' = ms_tombstones st \<Longrightarrow> tomb_disjoint st'"
  by (simp add: stay_apart_def tomb_disjoint_def)

lemma insert_dispatch_disjoint:
  assumes dis: "tomb_disjoint st" and clear: "map_of (ms_tombstones st) (ev_id e) = None"
    and self: "ev_id e \<notin> set (e_tags e)"
    and res: "insert_dispatch ext e u t st = Some (out, st')"
  shows "tomb_disjoint st'"
proof -
  have apart: "stay_apart (ev_id e) st" if "ev_id e \<notin> hm_keys (ms_events st)"
    using dis clear that by (auto simp: stay_apart_def hm_keys_map_of)
  from res show ?thesis
  proof (cases rule: insert_dispatch_cases)
    case same
    then show ?thesis using dis by (simp add: tomb_disjoint_def)
  next
    case put
    then show ?thesis using apart by (intro tomb_disjoint_put)
  next
    case (replace k h)
    then show ?thesis using apart by (auto simp: stay_apart_def tomb_disjoint_def)
  next
    case (kind5 i st1 st2)
    have "stay_apart (ev_id e) st1"
    proof (rule try_fold_partial [where P = "stay_apart (ev_id e)", OF kind5(3) apart [OF kind5(2)]])
      show "stay_apart (ev_id e) b" if "x \<in> set (e_tags e)" "stay_apart (ev_id e) a" "kind5_e_tag e u i x a = Some b" for x a b
        using that self by (intro stay_apart_e_tag [OF that(2,3)]) auto
    qed
    then have "stay_apart (ev_id e) st2"
      by (rule try_fold_partial [OF kind5(4)]) (rule stay_apart_a_tag)
    then show ?thesis using kind5(5,6) by (rule tomb_disjoint_put)
  qed
qed

lemma insert_event_disjoint:
  assumes "tomb_disjoint st" and "ev_id e \<notin> set (e_tags e)"
    and "insert_event ext e u t st = Some (out, st')"
  shows "tomb_disjoint st'"
  using assms(3)
proof (cases rule: insert_event_cases)
  case early
  then show ?thesis using assms(1) by (auto simp: tomb_disjoint_def)
next
  case (dispatch st0)
  have "tomb_disjoint st0" using dispatch(3) assms(1) by (auto simp: tomb_disjoint_def)
  then show ?thesis using insert_dispatch_disjoint [OF _ dispatch(4) assms(2) dispatch(2)] by simp
qed

section \<open>One event per coordinate\<close>

text \<open>The coordinate of a replaceable event, or of an addressable event with a \<open>d\<close> tag.\<close>

definition coordinate :: "raw_event \<Rightarrow> supersession_key option" where
  "coordinate e =
     (if ev_is_replaceable e then Some (ev_pubkey e, ev_kind e, None)
      else if is_param_replaceable e then
        map_option (\<lambda>d. (ev_pubkey e, ev_kind e, Some d)) (d_tag e)
      else None)"

definition unique_coordinates :: "mem_state \<Rightarrow> bool" where
  "unique_coordinates st \<longleftrightarrow>
     (\<forall>i j a b. map_of (ms_events st) i = Some a \<longrightarrow> map_of (ms_events st) j = Some b \<longrightarrow>
        coordinate (se_raw a) \<noteq> None \<longrightarrow> coordinate (se_raw a) = coordinate (se_raw b) \<longrightarrow> i = j)"

lemma coordinate_match:
  assumes "coordinate e = Some k"
  shows "supersession_match k se \<longleftrightarrow> coordinate (se_raw se) = Some k"
  using assms replaceable_not_addressable
  by (auto simp: coordinate_def supersession_match_def ev_is_replaceable_def is_param_replaceable_def
      split: if_splits)

lemma unique_coordinates_remove: "unique_coordinates st \<Longrightarrow> ms_events st' = hm_remove h (ms_events st) \<Longrightarrow> unique_coordinates st'"
  by (auto simp: unique_coordinates_def hash_map.get_del split: if_splits)

lemma unique_coordinates_subset:
  "unique_coordinates st \<Longrightarrow> map_of (ms_events st') \<subseteq>\<^sub>m map_of (ms_events st) \<Longrightarrow> unique_coordinates st'"
  unfolding unique_coordinates_def map_le_def by (metis domI)

lemma unique_coordinates_put:
  assumes "unique_coordinates st" and "ms_events st' = ms_events (put_event e t st)"
    and "\<And>i se. map_of (ms_events st) i = Some se \<Longrightarrow> coordinate (se_raw se) \<noteq> None \<Longrightarrow> coordinate (se_raw se) \<noteq> coordinate e"
  shows "unique_coordinates st'"
  using assms unfolding unique_coordinates_def
  by (auto simp: hash_map.get_put split: if_splits) metis+

lemma dispatch_coordinate:
  assumes "ev_kind e \<noteq> 5" and "coordinate e = Some k"
  shows "insert_dispatch ext e u t st = handle_supersession ext e u t k st"
  using assms by (auto simp: insert_dispatch_def coordinate_def split: if_splits)

lemma coordinate_kind5: "coordinate e = Some k \<Longrightarrow> ev_kind e \<noteq> 5"
  using kind5_regular by (auto simp: coordinate_def ev_is_replaceable_def is_param_replaceable_def split: if_splits)

lemma handle_supersession_unique:
  assumes inv: "mem_inv st" and uni: "unique_coordinates st"
    and key: "coordinate e = Some k \<or> coordinate e = None"
    and res: "handle_supersession ext e u t k st = Some (out, st')"
  shows "unique_coordinates st'"
proof -
  have ok: "events_ok (ms_events st)" using inv by (simp add: mem_inv_def core_inv_def)
  from res show ?thesis
  proof (cases rule: handle_supersession_cases)
    case (dup i)
    then show ?thesis using uni by (simp add: unique_coordinates_def)
  next
    case (loses i h se r)
    then show ?thesis using uni by simp
  next
    case (fresh i)
    have "coordinate (se_raw se) \<noteq> coordinate e"
      if "map_of (ms_events st) i = Some se" "coordinate (se_raw se) \<noteq> None" for i se
    proof
      assume eq: "coordinate (se_raw se) = coordinate e"
      then have "coordinate e = Some k" using key that(2) by auto
      with eq find_existing_None [OF ok fresh(3) that(1)] coordinate_match show False by auto
    qed
    then show ?thesis by (intro unique_coordinates_put [OF uni, of st' e t]) (simp_all add: fresh(5))
  next
    case (wins i h se r)
    let ?st1 = "remove_event_rows h st"
    have uni1: "unique_coordinates ?st1" using uni by (rule unique_coordinates_remove) simp
    have "supersession_match k se"
      using find_existing_Some [OF ok wins(3)] wins(4) by (metis option.inject)
    have "coordinate (se_raw se') \<noteq> coordinate e"
      if "map_of (ms_events ?st1) i = Some se'" "coordinate (se_raw se') \<noteq> None" for i se'
    proof
      assume eq: "coordinate (se_raw se') = coordinate e"
      then have k: "coordinate e = Some k" using key that(2) by auto
      have "coordinate (se_raw se) = Some k" using coordinate_match [OF k] \<open>supersession_match k se\<close> by simp
      moreover have "i \<noteq> h" "map_of (ms_events st) i = Some se'"
        using that(1) by (auto simp: hash_map.get_del split: if_splits)
      ultimately show False using uni wins(4) eq k unfolding unique_coordinates_def by (metis option.distinct(1))
    qed
    then show ?thesis by (intro unique_coordinates_put [OF uni1, of st' e t]) (simp_all add: wins(8))
  qed
qed

lemma insert_dispatch_unique:
  assumes inv: "mem_inv st" and e: "storable e" and uni: "unique_coordinates st"
    and res: "insert_dispatch ext e u t st = Some (out, st')"
  shows "unique_coordinates st'"
proof (cases "coordinate e")
  case (Some k)
  then show ?thesis
    using handle_supersession_unique [OF inv uni] res dispatch_coordinate coordinate_kind5 by metis
next
  case None
  from res show ?thesis
  proof (cases rule: insert_dispatch_cases)
    case same
    then show ?thesis using uni by (simp add: unique_coordinates_def)
  next
    case put
    show ?thesis by (rule unique_coordinates_put [OF uni put(2)]) (simp add: None)
  next
    case (replace k h)
    have "unique_coordinates (remove_event_rows h st)" using uni by (rule unique_coordinates_remove) simp
    then show ?thesis using replace(3) by (rule unique_coordinates_put) (simp add: None)
  next
    case (kind5 i st1 st2)
    have "k5_inv st st" using inv by (simp add: k5_inv_def)
    then have "k5_inv st st1"
      by (rule try_fold_partial [OF kind5(3)]) (metis e kind5_e_tag_ok option.inject)
    then have "k5_inv st st2"
      by (rule try_fold_partial [OF kind5(4)]) (metis e kind5_a_tag_ok option.inject)
    then have "unique_coordinates st2" using unique_coordinates_subset [OF uni] by (simp add: k5_inv_def)
    then show ?thesis using kind5(5) by (rule unique_coordinates_put) (simp add: None)
  qed
qed

lemma insert_event_unique:
  assumes "mem_inv st" and "unique_coordinates st" and "insert_event ext e u t st = Some (out, st')"
  shows "unique_coordinates st'"
  using assms(3)
proof (cases rule: insert_event_cases)
  case early
  then show ?thesis using assms(2) by (simp add: unique_coordinates_def)
next
  case (dispatch st0)
  have "mem_inv st0" "unique_coordinates st0"
    using dispatch(3) assms(1,2) mem_inv_drop_tombstone by (auto simp: unique_coordinates_def)
  then show ?thesis using insert_dispatch_unique [OF _ dispatch(1) _ dispatch(2)] by simp
qed

end
