(* ===== verification/Store_Converge.thy ===== *)
theory Store_Converge
  imports Store_Semantics
begin

text \<open>
  Replaceable and addressable events against their contract: the store, seen as a map from
  coordinates to the version it holds, implements "newest wins" (\<open>newer\<close>), and the version held
  after a batch of arrivals is the newest one, whatever the order of arrival.
\<close>

section \<open>The abstract view\<close>

text \<open>The version stored at a coordinate.\<close>

definition holder :: "mem_state \<Rightarrow> supersession_key \<rightharpoonup> raw_event" where
  "holder st k = map_option (se_raw \<circ> snd) (find (\<lambda>(_, se). coordinate (se_raw se) = Some k) (ms_events st))"

definition newer :: "raw_event \<Rightarrow> raw_event option \<Rightarrow> raw_event" where
  "newer e old = (case old of None \<Rightarrow> e | Some o' \<Rightarrow> if incoming_wins e o' then e else o')"

text \<open>The abstract operation: an arrival at a coordinate competes with the version held there,
  any other event changes no coordinate.\<close>

definition offer :: "raw_event \<Rightarrow> (supersession_key \<rightharpoonup> raw_event) \<Rightarrow> (supersession_key \<rightharpoonup> raw_event)" where
  "offer e m = (case coordinate e of None \<Rightarrow> m | Some k \<Rightarrow> m(k \<mapsto> newer e (m k)))"

lemma holder_eq_Some:
  assumes wf: "hm_wf (ms_events st)" and uni: "unique_coordinates st"
  shows "holder st k = Some r \<longleftrightarrow>
    (\<exists>i se. map_of (ms_events st) i = Some se \<and> se_raw se = r \<and> coordinate r = Some k)"
proof
  assume "holder st k = Some r"
  then obtain i se where "(i, se) \<in> set (ms_events st)" "se_raw se = r" "coordinate r = Some k"
    by (auto simp: holder_def find_Some_iff in_set_conv_nth) (metis nth_mem)
  then show "\<exists>i se. map_of (ms_events st) i = Some se \<and> se_raw se = r \<and> coordinate r = Some k"
    using hm_mem_iff [OF wf] by blast
next
  assume "\<exists>i se. map_of (ms_events st) i = Some se \<and> se_raw se = r \<and> coordinate r = Some k"
  then obtain i se where se: "map_of (ms_events st) i = Some se" "se_raw se = r" "coordinate r = Some k" by blast
  then have "(i, se) \<in> set (ms_events st)" using hm_mem_iff [OF wf] by blast
  then obtain x where x: "find (\<lambda>(_, se). coordinate (se_raw se) = Some k) (ms_events st) = Some x"
    using se by (cases "find (\<lambda>(_, se). coordinate (se_raw se) = Some k) (ms_events st)")
      (auto simp: find_None_iff)
  obtain j se' where j: "x = (j, se')" by (cases x)
  have "(j, se') \<in> set (ms_events st)" "coordinate (se_raw se') = Some k"
    using x by (auto simp: j find_Some_iff) (metis nth_mem)
  moreover from this(1) have se': "map_of (ms_events st) j = Some se'" using hm_mem_iff [OF wf] by blast
  ultimately have "j = i" using uni se unfolding unique_coordinates_def by (metis option.distinct(1))
  then show "holder st k = Some r" using x se se' by (simp add: holder_def j)
qed

lemma holder_ext:
  assumes "hm_wf (ms_events st)" "unique_coordinates st" "hm_wf (ms_events st')" "unique_coordinates st'"
    and "\<And>i se. map_of (ms_events st') i = Some se \<Longrightarrow> coordinate (se_raw se) = Some k \<Longrightarrow>
           map_of (ms_events st) i = Some se"
    and "\<And>i se. map_of (ms_events st) i = Some se \<Longrightarrow> coordinate (se_raw se) = Some k \<Longrightarrow>
           map_of (ms_events st') i = Some se"
  shows "holder st' k = holder st k"
proof -
  have "holder st' k = Some r \<longleftrightarrow> holder st k = Some r" for r
    unfolding holder_eq_Some [OF assms(1,2)] holder_eq_Some [OF assms(3,4)] using assms(5,6) by blast
  then show ?thesis by (metis option.exhaust)
qed

lemma holder_same_events: "ms_events st' = ms_events st \<Longrightarrow> holder st' = holder st"
  by (simp add: holder_def fun_eq_iff)

section \<open>One arrival\<close>

text \<open>The conditions under which an arrival reaches the supersession or the plain handler: a
  valid, persistent event that is no deletion, not expired on arrival, not tombstoned, with a
  \<open>d\<close> tag when it is addressable.\<close>

definition plain_arrival :: "raw_event \<Rightarrow> u64 \<Rightarrow> bool" where
  "plain_arrival e t \<longleftrightarrow> storable e \<and> ev_kind e \<noteq> 5 \<and> (is_param_replaceable e \<longrightarrow> d_tag e \<noteq> None) \<and>
     (case expiration e of Some ex \<Rightarrow> t div 1000 < ex | None \<Rightarrow> True)"

definition untombstoned :: "raw_event \<Rightarrow> mem_state \<Rightarrow> bool" where
  "untombstoned e st \<longleftrightarrow> map_of (ms_tombstones st) (ev_id e) = None \<and> addr_tombstone_for e st = None"

lemma insert_event_plain:
  assumes "plain_arrival e t" and "untombstoned e st"
  shows "insert_event ext e u t st =
    (case coordinate e of None \<Rightarrow> handle_normal_insert ext e u t st | Some k \<Rightarrow> handle_supersession ext e u t k st)"
proof -
  obtain i where "id_bytes e = Some i"
    using assms(1) by (auto simp: plain_arrival_def storable_def is_structurally_valid_def id_bytes_def)
  moreover have "\<not> (case expiration e of Some ex \<Rightarrow> ex \<le> t div 1000 | None \<Rightarrow> False)"
    using assms(1) by (auto simp: plain_arrival_def split: option.splits)
  moreover have "is_structurally_valid e" "\<not> ev_is_ephemeral e" "ev_kind e \<noteq> 5"
      "is_param_replaceable e \<longrightarrow> d_tag e \<noteq> None"
    using assms(1) by (auto simp: plain_arrival_def storable_def)
  ultimately have "insert_event ext e u t st = insert_dispatch ext e u t st"
    using assms(2) by (simp add: insert_event_def untombstoned_def)
  also have "\<dots> = (case coordinate e of None \<Rightarrow> handle_normal_insert ext e u t st | Some k \<Rightarrow> handle_supersession ext e u t k st)"
    using \<open>ev_kind e \<noteq> 5\<close> \<open>is_param_replaceable e \<longrightarrow> d_tag e \<noteq> None\<close>
    by (auto simp: insert_dispatch_def coordinate_def)
  finally show ?thesis .
qed


lemma put_event_events [simp]:
  "ms_events (put_event e t st) = hm_insert (ev_id e) \<lparr>se_raw = e, se_received_at_ms = t\<rparr> (ms_events st)"
  by (simp add: put_event_def)

lemma holder_None:
  assumes "hm_wf (ms_events st)" "unique_coordinates st"
  shows "holder st k = None \<longleftrightarrow> (\<forall>i se. map_of (ms_events st) i = Some se \<longrightarrow> coordinate (se_raw se) \<noteq> Some k)"
proof -
  have "holder st k = None \<longleftrightarrow> (\<forall>r. holder st k \<noteq> Some r)" by auto
  then show ?thesis by (auto simp: holder_eq_Some [OF assms])
qed

lemma holder_put:
  assumes wf: "hm_wf (ms_events st)" and uni: "unique_coordinates st"
    and new: "ev_id e \<notin> hm_keys (ms_events st)" and st': "ms_events st' = ms_events (put_event e t st)"
    and free: "\<And>k. coordinate e = Some k \<Longrightarrow> holder st k = None"
  shows "holder st' = (case coordinate e of None \<Rightarrow> holder st | Some k \<Rightarrow> (holder st)(k \<mapsto> e))"
proof
  fix c
  have uni': "unique_coordinates st'"
    using free by (intro unique_coordinates_put [OF uni st']) (auto simp: holder_None [OF wf uni])
  have wf': "hm_wf (ms_events st')" using wf st' by (simp add: hash_map.wf_put)
  have get: "map_of (ms_events st') i = (if i = ev_id e then Some \<lparr>se_raw = e, se_received_at_ms = t\<rparr> else map_of (ms_events st) i)" for i
    using st' by (simp add: hash_map.get_put)
  have old: "map_of (ms_events st) (ev_id e) = None" using new by (simp add: hm_keys_map_of)
  show "holder st' c = (case coordinate e of None \<Rightarrow> holder st | Some k \<Rightarrow> (holder st)(k \<mapsto> e)) c"
  proof (cases "coordinate e = Some c")
    case True
    then have "holder st' c = Some e"
      unfolding holder_eq_Some [OF wf' uni'] using get [of "ev_id e"] by (intro exI [of _ "ev_id e"]) simp
    then show ?thesis using True by simp
  next
    case False
    have "holder st' c = holder st c"
      using False old by (intro holder_ext [OF wf uni wf' uni']) (auto simp: get split: if_splits)
    then show ?thesis using False by (auto split: option.splits)
  qed
qed

lemma holder_remove:
  assumes wf: "hm_wf (ms_events st)" and uni: "unique_coordinates st"
    and h: "map_of (ms_events st) h = Some se" "coordinate (se_raw se) = Some k"
  shows "holder (remove_event_rows h st) = (holder st)(k := None)"
proof
  fix c
  let ?st = "remove_event_rows h st"
  have uni': "unique_coordinates ?st" using uni by (rule unique_coordinates_remove) simp
  have wf': "hm_wf (ms_events ?st)" using wf by (simp add: hash_map.wf_del)
  show "holder ?st c = ((holder st)(k := None)) c"
  proof (cases "c = k")
    case True
    have "i = h" if "map_of (ms_events st) i = Some se'" "coordinate (se_raw se') = Some k" for i se'
      using uni h that unfolding unique_coordinates_def by (metis option.distinct(1))
    then have "holder ?st k = None" unfolding holder_None [OF wf' uni'] by (auto simp: hash_map.get_del)
    then show ?thesis using True by simp
  next
    case False
    then have "holder ?st c = holder st c"
      using h by (intro holder_ext [OF wf uni wf' uni']) (auto simp: hash_map.get_del split: if_splits)
    then show ?thesis using False by simp
  qed
qed

lemma handle_supersession_holder:
  assumes inv: "mem_inv st" and uni: "unique_coordinates st" and body: "same_body e st"
    and k: "coordinate e = Some k" and res: "handle_supersession ext e u t k st = Some (out, st')"
  shows "holder st' = (holder st)(k \<mapsto> newer e (holder st k))"
proof -
  have ok: "events_ok (ms_events st)" and wf: "hm_wf (ms_events st)"
    using inv by (auto simp: mem_inv_def core_inv_def events_ok_def)
  have at: "holder st k = Some (se_raw se)" if "find_existing k st = Some h" "map_of (ms_events st) h = Some se" for h se
  proof -
    have "supersession_match k se" using find_existing_Some [OF ok that(1)] that(2) by (metis option.inject)
    then show ?thesis unfolding holder_eq_Some [OF wf uni] using that(2) coordinate_match [OF k] by blast
  qed
  from res show ?thesis
  proof (cases rule: handle_supersession_cases)
    case (dup i)
    obtain se where se: "map_of (ms_events st) (ev_id e) = Some se" using dup(2) by (auto simp: hm_keys_map_of)
    then have "se_raw se = e" using body by (auto simp: same_body_def)
    then have "holder st k = Some e" unfolding holder_eq_Some [OF wf uni] using se k by blast
    moreover have "holder st' = holder st" by (rule holder_same_events) (simp add: dup(3))
    ultimately show ?thesis by (simp add: newer_def fun_upd_idem)
  next
    case (loses i h se r)
    then show ?thesis using at [OF loses(3,4)] by (simp add: newer_def fun_upd_idem)
  next
    case (fresh i)
    have none: "holder st k = None"
      unfolding holder_None [OF wf uni] using find_existing_None [OF ok fresh(3)] coordinate_match [OF k] by blast
    then have "holder st' = (holder st)(k \<mapsto> e)"
      using holder_put [OF wf uni fresh(2), of st' t] k by (simp add: fresh(5))
    then show ?thesis using none by (simp add: newer_def)
  next
    case (wins i h se r)
    let ?st1 = "remove_event_rows h st"
    have hk: "holder st k = Some (se_raw se)" "coordinate (se_raw se) = Some k"
      using at [OF wins(3,4)] find_existing_Some [OF ok wins(3)] wins(4) coordinate_match [OF k]
      by (metis option.inject)+
    have rem: "holder ?st1 = (holder st)(k := None)" by (rule holder_remove [OF wf uni wins(4) hk(2)])
    have "unique_coordinates ?st1" using uni by (rule unique_coordinates_remove) simp
    then have "holder st' = (holder ?st1)(k \<mapsto> e)"
      using holder_put [of ?st1 e st' t] wf wins(2) k by (simp add: wins(8) rem hash_map.wf_del)
    then show ?thesis using wins(6) hk(1) by (simp add: rem newer_def)
  qed
qed

text \<open>One arrival implements one offer, and leaves everything the next arrival needs.\<close>

lemma insert_event_offer:
  assumes inv: "mem_inv st" and uni: "unique_coordinates st" and body: "same_body e st"
    and plain: "plain_arrival e t" "untombstoned e st"
  obtains out st' where "insert_event ext e u t st = Some (out, st')" "mem_inv st'" "unique_coordinates st'"
    "holder st' = offer e (holder st)"
    "ms_tombstones st' = ms_tombstones st" "ms_addr_tombstones st' = ms_addr_tombstones st"
    "\<And>i se. map_of (ms_events st') i = Some se \<Longrightarrow> map_of (ms_events st) i = Some se \<or> se_raw se = e"
proof -
  obtain out st' where res: "insert_event ext e u t st = Some (out, st')" and inv': "mem_inv st'"
    using insert_event_ok [OF inv body] by blast
  have uni': "unique_coordinates st'" by (rule insert_event_unique [OF inv uni res])
  have wf: "hm_wf (ms_events st)" using inv by (simp add: mem_inv_def core_inv_def events_ok_def)
  note step = res [unfolded insert_event_plain [OF plain]]
  show ?thesis
  proof (cases "coordinate e")
    case None
    with step have "handle_normal_insert ext e u t st = Some (out, st')" by simp
    then show ?thesis
    proof (cases rule: handle_normal_insert_cases)
      case (dup i)
      then have "holder st' = holder st" by (intro holder_same_events) simp
      then show ?thesis using that [OF res inv' uni'] dup(3) None by (simp add: offer_def)
    next
      case (fresh i)
      have "holder st' = holder st"
        using holder_put [OF wf uni fresh(2), of st' t] None by (simp add: fresh(4))
      then have "holder st' = offer e (holder st)" by (simp add: offer_def None)
      then show ?thesis
        by (rule that [OF res inv' uni']) (auto simp: fresh(4) hash_map.get_put split: if_splits)
    qed
  next
    case (Some k)
    with step have sup: "handle_supersession ext e u t k st = Some (out, st')" by simp
    then have "holder st' = offer e (holder st)"
      using handle_supersession_holder [OF inv uni body Some] by (simp add: offer_def Some)
    note goal = that [OF res inv' uni' this]
    from sup show ?thesis
      by (cases rule: handle_supersession_cases)
         (rule goal; auto simp: hash_map.get_put hash_map.get_del split: if_splits)+
  qed
qed


section \<open>Batches of arrivals\<close>

type_synonym arrival = "raw_event \<times> relay_url \<times> u64"

definition insert_all :: "ext \<Rightarrow> arrival list \<Rightarrow> mem_state \<Rightarrow> mem_state option" where
  "insert_all ext arrivals st = try_fold (\<lambda>(e, u, t) s. map_option snd (insert_event ext e u t s)) arrivals st"

lemma insert_all_offers:
  assumes "mem_inv st" "unique_coordinates st" "ms_tombstones st = []" "ms_addr_tombstones st = []"
    and "\<And>e u t. (e, u, t) \<in> set arrivals \<Longrightarrow> plain_arrival e t"
    and "\<And>e f. e \<in> fst ` set arrivals \<union> E \<Longrightarrow> f \<in> fst ` set arrivals \<union> E \<Longrightarrow> ev_id e = ev_id f \<Longrightarrow> e = f"
    and "\<And>i se. map_of (ms_events st) i = Some se \<Longrightarrow> se_raw se \<in> E"
  shows "\<exists>st'. insert_all ext arrivals st = Some st' \<and> mem_inv st' \<and>
    holder st' = fold offer (map fst arrivals) (holder st)"
  using assms
proof (induction arrivals arbitrary: st E)
  case Nil
  then show ?case by (simp add: insert_all_def)
next
  case (Cons a arrivals)
  obtain e u t where a: "a = (e, u, t)" by (cases a)
  have "same_body e st"
    unfolding same_body_def
  proof (intro allI impI)
    fix se
    assume se: "map_of (ms_events st) (ev_id e) = Some se"
    then have "ev_id (se_raw se) = ev_id e"
      using Cons.prems(1) by (auto simp: mem_inv_def core_inv_def events_ok_def)
    then show "se_raw se = e" using Cons.prems(6) [of "se_raw se" e] Cons.prems(7) [OF se] by (simp add: a)
  qed
  moreover have "plain_arrival e t" using Cons.prems(5) [of e u t] by (simp add: a)
  moreover have "untombstoned e st"
    using Cons.prems(3,4) by (simp add: untombstoned_def addr_tombstone_for_def split: option.splits)
  ultimately obtain out st1 where st1: "insert_event ext e u t st = Some (out, st1)" "mem_inv st1"
      "unique_coordinates st1" "holder st1 = offer e (holder st)" "ms_tombstones st1 = []"
      "ms_addr_tombstones st1 = []"
      "\<And>i se. map_of (ms_events st1) i = Some se \<Longrightarrow> map_of (ms_events st) i = Some se \<or> se_raw se = e"
    using insert_event_offer [OF Cons.prems(1,2), of e t ext u] Cons.prems(3,4) by metis
  have "\<exists>st'. insert_all ext arrivals st1 = Some st' \<and> mem_inv st' \<and>
      holder st' = fold offer (map fst arrivals) (holder st1)"
  proof (rule Cons.IH [OF st1(2,3,5,6), of "insert e E"])
    show "plain_arrival e' t'" if "(e', u', t') \<in> set arrivals" for e' u' t'
      using Cons.prems(5) [of e' u' t'] that by simp
    show "e' = f" if "e' \<in> fst ` set arrivals \<union> insert e E" "f \<in> fst ` set arrivals \<union> insert e E" "ev_id e' = ev_id f" for e' f
      using Cons.prems(6) [of e' f] that by (simp add: a)
    show "se_raw se \<in> insert e E" if "map_of (ms_events st1) i = Some se" for i se
      using st1(7) [OF that] Cons.prems(7) by auto
  qed
  then show ?case using st1(1,4) by (simp add: insert_all_def a)
qed

text \<open>The newest version at a coordinate among a set of events: \<open>created_at\<close> first, the smaller id
  on a tie.\<close>

definition is_newest :: "supersession_key \<Rightarrow> raw_event set \<Rightarrow> raw_event \<Rightarrow> bool" where
  "is_newest k E r \<longleftrightarrow> r \<in> E \<and> coordinate r = Some k \<and>
     (\<forall>e\<in>E. coordinate e = Some k \<longrightarrow> e = r \<or> incoming_wins r e)"

lemma incoming_wins_trans: "incoming_wins a b \<Longrightarrow> incoming_wins b c \<Longrightarrow> incoming_wins a c"
  unfolding incoming_wins_def by (elim disjE conjE) (auto intro: less_trans)

lemma incoming_wins_asym: "incoming_wins a b \<Longrightarrow> \<not> incoming_wins b a"
  unfolding incoming_wins_def by (auto dest: order.strict_trans)

lemma incoming_wins_total: "ev_id a \<noteq> ev_id b \<Longrightarrow> incoming_wins a b \<or> incoming_wins b a"
  unfolding incoming_wins_def by (metis linorder_neqE linorder_less_linear)

lemma is_newest_bound:
  assumes "is_newest k E r" and "e \<in> E" and "coordinate e = Some k"
  shows "ev_created_at e < ev_created_at r \<or> (ev_created_at e = ev_created_at r \<and> ev_id r \<le> ev_id e)"
proof -
  have "e = r \<or> incoming_wins r e" using assms by (simp add: is_newest_def)
  then show ?thesis
  proof
    assume "incoming_wins r e"
    then show ?thesis unfolding incoming_wins_def by (elim disjE conjE) simp_all
  qed simp
qed

lemma is_newest_unique: "is_newest k E r \<Longrightarrow> is_newest k E r' \<Longrightarrow> r = r'"
  unfolding is_newest_def using incoming_wins_asym by blast

lemma fold_offer_newest:
  assumes "inj_on ev_id (set es)"
  shows "case fold offer es Map.empty k of
      None \<Rightarrow> \<forall>e\<in>set es. coordinate e \<noteq> Some k
    | Some r \<Rightarrow> is_newest k (set es) r"
  using assms
proof (induction es rule: rev_induct)
  case Nil
  then show ?case by simp
next
  case (snoc e es)
  let ?m = "fold offer es Map.empty"
  have IH: "case ?m k of None \<Rightarrow> \<forall>e\<in>set es. coordinate e \<noteq> Some k | Some r \<Rightarrow> is_newest k (set es) r"
    using snoc.IH snoc.prems by (simp add: inj_on_insert)
  show ?case
  proof (cases "coordinate e = Some k")
    case False
    then have "fold offer (es @ [e]) Map.empty k = ?m k" by (auto simp: offer_def split: option.splits)
    then show ?thesis using IH False by (auto simp: is_newest_def split: option.splits)
  next
    case True
    then have fold: "fold offer (es @ [e]) Map.empty k = Some (newer e (?m k))" by (simp add: offer_def)
    show ?thesis
    proof (cases "?m k")
      case None
      then show ?thesis using fold IH True by (auto simp: newer_def is_newest_def)
    next
      case (Some r)
      with IH have r: "is_newest k (set es) r" by simp
      have eq: "e = r" if "ev_id e = ev_id r"
        using snoc.prems that r by (auto simp: is_newest_def inj_on_def)
      show ?thesis
      proof (cases "incoming_wins e r")
        case wins: True
        have "e' = e \<or> incoming_wins e e'" if "e' \<in> set es" "coordinate e' = Some k" for e'
          using r that wins incoming_wins_trans by (auto simp: is_newest_def)
        then show ?thesis using fold Some wins True by (auto simp: newer_def is_newest_def)
      next
        case False
        then have "e = r \<or> incoming_wins r e" using eq incoming_wins_total by blast
        then show ?thesis using fold Some False r by (auto simp: newer_def is_newest_def)
      qed
    qed
  qed
qed

lemma unique_coordinates_new: "unique_coordinates mem_state_new"
  by (simp add: unique_coordinates_def mem_state_new_def)

lemma insert_all_newest:
  assumes "\<forall>(e, u, t) \<in> set arrivals. plain_arrival e t"
    and inj: "inj_on ev_id (fst ` set arrivals)"
  shows "\<exists>st. insert_all ext arrivals mem_state_new = Some st \<and> mem_inv st \<and>
    (\<forall>k. case holder st k of
        None \<Rightarrow> \<forall>e \<in> fst ` set arrivals. coordinate e \<noteq> Some k
      | Some r \<Rightarrow> is_newest k (fst ` set arrivals) r)"
proof -
  obtain st where st: "insert_all ext arrivals mem_state_new = Some st" "mem_inv st"
      "holder st = fold offer (map fst arrivals) (holder mem_state_new)"
  proof (atomize_elim, rule insert_all_offers [OF mem_inv_new unique_coordinates_new, where E = "{}"])
    show "plain_arrival e t" if "(e, u, t) \<in> set arrivals" for e u t using assms(1) that by blast
    show "e = f" if "e \<in> fst ` set arrivals \<union> {}" "f \<in> fst ` set arrivals \<union> {}" "ev_id e = ev_id f" for e f
      using inj_onD [OF inj that(3)] that(1,2) by simp
  qed (simp_all add: mem_state_new_def)
  have "holder mem_state_new = Map.empty" by (simp add: holder_def mem_state_new_def fun_eq_iff)
  with st(3) have "case holder st k of None \<Rightarrow> \<forall>e \<in> fst ` set arrivals. coordinate e \<noteq> Some k
      | Some r \<Rightarrow> is_newest k (fst ` set arrivals) r" for k
    using fold_offer_newest [of "map fst arrivals" k] inj by (simp split: option.splits)
  then show ?thesis using st(1,2) by blast
qed

lemma holder_newest:
  assumes "case holder st k of None \<Rightarrow> \<forall>e \<in> E. coordinate e \<noteq> Some k | Some r \<Rightarrow> is_newest k E r"
  shows "holder st k = Some r \<longleftrightarrow> is_newest k E r"
  using assms by (cases "holder st k") (auto simp: is_newest_def intro: is_newest_unique [unfolded is_newest_def])

lemma insert_all_holder:
  assumes "\<forall>(e, u, t) \<in> set arrivals. plain_arrival e t" and "inj_on ev_id (fst ` set arrivals)"
  obtains st where "insert_all ext arrivals mem_state_new = Some st"
    "\<And>k r. holder st k = Some r \<longleftrightarrow> is_newest k (fst ` set arrivals) r"
proof -
  obtain st where st: "insert_all ext arrivals mem_state_new = Some st"
      "\<And>k. case holder st k of None \<Rightarrow> \<forall>e \<in> fst ` set arrivals. coordinate e \<noteq> Some k
        | Some r \<Rightarrow> is_newest k (fst ` set arrivals) r"
    using insert_all_newest [OF assms, of ext] by blast
  then show ?thesis using that holder_newest [OF st(2)] by blast
qed

text \<open>C3. Newest wins, whatever the order of arrival. Take any sequence of arrivals at a new store in
  which every event is well formed and not ephemeral, none is a deletion (kind 5), none has expired on
  arrival, addressable events carry a \<open>d\<close> tag, and equal ids mean equal events. Afterwards the version held at a coordinate is the one of the events that
  arrived for it whose \<open>created_at\<close> is the greatest, the one with the smallest id among those that share it; and a
  coordinate holds nothing exactly when nothing arrived for it.\<close>

theorem newest_version_wins:
  assumes "\<forall>(e, u, t) \<in> set arrivals. plain_arrival e t" and "inj_on ev_id (fst ` set arrivals)"
  shows "\<exists>st. insert_all ext arrivals mem_state_new = Some st \<and>
    (\<forall>k. case holder st k of
        None \<Rightarrow> \<forall>e \<in> fst ` set arrivals. coordinate e \<noteq> Some k
      | Some r \<Rightarrow> r \<in> fst ` set arrivals \<and> coordinate r = Some k \<and>
          (\<forall>e \<in> fst ` set arrivals. coordinate e = Some k \<longrightarrow>
             ev_created_at e < ev_created_at r \<or> (ev_created_at e = ev_created_at r \<and> ev_id r \<le> ev_id e)))"
proof -
  let ?E = "fst ` set arrivals"
  obtain st where st: "insert_all ext arrivals mem_state_new = Some st"
      "\<And>k. case holder st k of None \<Rightarrow> \<forall>e \<in> ?E. coordinate e \<noteq> Some k | Some r \<Rightarrow> is_newest k ?E r"
    using insert_all_newest [OF assms, of ext] by blast
  have "case holder st k of
      None \<Rightarrow> \<forall>e \<in> ?E. coordinate e \<noteq> Some k
    | Some r \<Rightarrow> r \<in> ?E \<and> coordinate r = Some k \<and> (\<forall>e \<in> ?E. coordinate e = Some k \<longrightarrow>
        ev_created_at e < ev_created_at r \<or> (ev_created_at e = ev_created_at r \<and> ev_id r \<le> ev_id e))" for k
  proof (cases "holder st k")
    case (Some r)
    then have new: "is_newest k ?E r" using st(2) [of k] by simp
    then have "r \<in> ?E \<and> coordinate r = Some k" by (simp add: is_newest_def)
    with is_newest_bound [OF new] show ?thesis unfolding Some option.case by blast
  qed (use st(2) [of k] in simp)
  then show ?thesis using st(1) by blast
qed

text \<open>C2. Replicas converge. Take two new stores and one set of well-formed events, none of them
  ephemeral, a deletion (kind 5) or expired when it arrives, the addressable ones with a \<open>d\<close> tag, and with equal
  ids only for equal events. However each store receives them (in its own order, with its own repetitions, from its
  own relays and at its own times), both hold the same version at every coordinate.\<close>

theorem replicas_converge:
  assumes "\<forall>(e, u, t) \<in> set xs \<union> set ys. plain_arrival e t"
    and "fst ` set xs = fst ` set ys" and "inj_on ev_id (fst ` set xs)"
  shows "\<exists>a b. insert_all ext xs mem_state_new = Some a \<and> insert_all ext ys mem_state_new = Some b \<and>
    holder a = holder b"
proof -
  have px: "\<forall>(e, u, t) \<in> set xs. plain_arrival e t" and py: "\<forall>(e, u, t) \<in> set ys. plain_arrival e t"
    using assms(1) by blast+
  have py': "inj_on ev_id (fst ` set ys)" using assms(2,3) by simp
  obtain a where a: "insert_all ext xs mem_state_new = Some a"
      "\<And>k r. holder a k = Some r \<longleftrightarrow> is_newest k (fst ` set xs) r"
    by (rule insert_all_holder [OF px assms(3), of ext]) (rule that)
  obtain b where b: "insert_all ext ys mem_state_new = Some b"
      "\<And>k r. holder b k = Some r \<longleftrightarrow> is_newest k (fst ` set xs) r"
    by (rule insert_all_holder [OF py py', of ext, folded assms(2)]) (rule that)
  have "holder a k = holder b k" for k
    using a(2) b(2) by (cases "holder a k"; cases "holder b k") (metis option.distinct(1) option.inject)+
  then show ?thesis using a(1) b(1) by blast
qed

section \<open>Instances\<close>

definition demo_ext :: ext where
  "demo_ext = \<lparr>ex_text = demo_env, ex_kind_is_addressable = (\<lambda>k. is_addressable k),
     ex_kind_is_replaceable = (\<lambda>k. is_replaceable k)\<rparr>"

definition demo_old :: raw_event where
  "demo_old = example_event (CHR ''1'') (CHR ''a'') 100 0 [] ''old''"

definition demo_new :: raw_event where
  "demo_new = example_event (CHR ''2'') (CHR ''a'') 200 0 [] ''new''"

lemma hex_chunks_replicate:
  "hex_chunks (replicate (2 * Suc n) b) =
     map_option (\<lambda>h. replicate (Suc n) (push_bit 4 h OR h)) (hex_nibble b)"
  by (induction n) (auto simp: numeral_2_eq_2 split: option.splits bind_splits)

lemma hex_to_bytes32_hex64:
  "hex_to_bytes32 (hex64 c) = map_option (\<lambda>h. replicate 32 (push_bit 4 h OR h)) (hex_nibble (of_char c))"
  using hex_chunks_replicate [of 31 "of_char c"] by (simp add: hex_to_bytes32_def hex64_def as_bytes_def)

lemma storable_example:
  "hex_nibble (of_char i) \<noteq> None \<Longrightarrow> hex_nibble (of_char a) \<noteq> None \<Longrightarrow> \<not> is_ephemeral k \<Longrightarrow>
     storable (example_event i a t k tags c)"
  by (simp add: storable_def is_structurally_valid_def ev_is_ephemeral_def example_event_def hex_to_bytes32_hex64)

lemma demo_plain_arrival [simp]: "plain_arrival demo_old t" "plain_arrival demo_new t"
proof -
  have "storable demo_old" "storable demo_new"
    unfolding demo_old_def demo_new_def by (rule storable_example; code_simp)+
  then show "plain_arrival demo_old t" "plain_arrival demo_new t"
    by (simp_all add: plain_arrival_def demo_old_def demo_new_def example_event_def is_param_replaceable_def
        is_addressable_def expiration_def find_tag_def)
qed

theorem newest_version_wins_witness:
  "\<exists>st. insert_all demo_ext [(demo_new, ''wss://a'', 5), (demo_old, ''wss://b'', 6)] mem_state_new = Some st \<and>
    holder st (hex64 (CHR ''a''), 0, None) = Some demo_new \<and> ev_created_at demo_old < ev_created_at demo_new"
proof -
  define arrivals :: "arrival list" where "arrivals = [(demo_new, ''wss://a'', 5), (demo_old, ''wss://b'', 6)]"
  define k where "k = (hex64 (CHR ''a''), 0::nat, None :: string option)"
  have at: "coordinate demo_new = Some k" "coordinate demo_old = Some k"
      "ev_created_at demo_old < ev_created_at demo_new" "ev_id demo_new \<noteq> ev_id demo_old"
    unfolding k_def by code_simp+
  have events: "fst ` set arrivals = {demo_new, demo_old}" by (simp add: arrivals_def)
  have "\<forall>(e, u, t) \<in> set arrivals. plain_arrival e t" by (simp add: arrivals_def)
  moreover have "inj_on ev_id (fst ` set arrivals)" using at(4) by (simp add: events inj_on_def)
  ultimately obtain st where st: "insert_all demo_ext arrivals mem_state_new = Some st"
    and wins: "case holder st k of
        None \<Rightarrow> \<forall>e \<in> {demo_new, demo_old}. coordinate e \<noteq> Some k
      | Some r \<Rightarrow> r \<in> {demo_new, demo_old} \<and> coordinate r = Some k \<and>
          (\<forall>e \<in> {demo_new, demo_old}. coordinate e = Some k \<longrightarrow>
             ev_created_at e < ev_created_at r \<or> (ev_created_at e = ev_created_at r \<and> ev_id r \<le> ev_id e))"
    using newest_version_wins [of arrivals demo_ext] unfolding events by blast
  have "holder st k = Some demo_new" using wins at(1-3) by (cases "holder st k") auto
  then show ?thesis using st at(3) unfolding arrivals_def k_def by blast
qed

theorem replicas_converge_witness:
  "\<exists>a b. insert_all demo_ext [(demo_new, ''wss://a'', 5), (demo_old, ''wss://b'', 6)] mem_state_new = Some a \<and>
    insert_all demo_ext [(demo_old, ''wss://c'', 1), (demo_new, ''wss://b'', 2), (demo_old, ''wss://a'', 9)] mem_state_new = Some b \<and>
    holder a = holder b"
proof -
  let ?xs = "[(demo_new, ''wss://a'', 5), (demo_old, ''wss://b'', 6)]"
  let ?ys = "[(demo_old, ''wss://c'', 1), (demo_new, ''wss://b'', 2), (demo_old, ''wss://a'', 9)]"
  have "\<forall>(e, u, t) \<in> set ?xs. plain_arrival e t" by simp
  moreover have "\<forall>(e, u, t) \<in> set ?ys. plain_arrival e t" by simp
  ultimately have plain: "\<forall>(e, u, t) \<in> set ?xs \<union> set ?ys. plain_arrival e t" by blast
  have "ev_id demo_new \<noteq> ev_id demo_old" by code_simp
  then have "inj_on ev_id (fst ` set [(demo_new, ''wss://a'', 5::nat), (demo_old, ''wss://b'', 6)])"
    by (simp add: inj_on_def)
  then show ?thesis by (intro replicas_converge [OF plain]) auto
qed

text \<open>A store with one note, and deletions of it by its author and by somebody else.\<close>

definition demo_note :: raw_event where
  "demo_note = example_event (CHR ''3'') (CHR ''a'') 100 1 [] ''note''"

definition demo_deletion :: "char \<Rightarrow> raw_event" where
  "demo_deletion author = example_event (CHR ''4'') author 150 5 [[''e'', hex64 (CHR ''3'')]] ''bye''"

definition demo_store :: mem_state where
  "demo_store =
     (case insert_event demo_ext demo_note ''wss://a'' 7 mem_state_new of
        Some (_, st) \<Rightarrow> st
      | None \<Rightarrow> mem_state_new)"

lemma demo_note_plain: "plain_arrival demo_note t" "coordinate demo_note = None"
proof -
  have "storable demo_note" unfolding demo_note_def by (rule storable_example; code_simp)
  then show "plain_arrival demo_note t" "coordinate demo_note = None"
    by (simp_all add: plain_arrival_def demo_note_def example_event_def is_param_replaceable_def coordinate_def
        ev_is_replaceable_def is_replaceable_def is_addressable_def expiration_def find_tag_def)
qed

lemma demo_store_facts:
  "mem_inv demo_store" "tomb_disjoint demo_store" "ms_tombstones demo_store = []"
  "ms_events demo_store = [(hex64 (CHR ''3''), \<lparr>se_raw = demo_note, se_received_at_ms = 7\<rparr>)]"
proof -
  have un: "untombstoned demo_note mem_state_new"
    by (simp add: untombstoned_def addr_tombstone_for_def mem_state_new_def split: option.splits)
  have "same_body demo_note mem_state_new" by (simp add: same_body_def mem_state_new_def)
  from insert_event_ok [OF mem_inv_new this, of demo_ext "''wss://a''" 7]
  obtain out st where st: "insert_event demo_ext demo_note ''wss://a'' 7 mem_state_new = Some (out, st)" "mem_inv st"
    by blast
  then have demo: "demo_store = st" by (simp add: demo_store_def)
  from st(1) have "handle_normal_insert demo_ext demo_note ''wss://a'' 7 mem_state_new = Some (out, st)"
    by (simp add: insert_event_plain [OF demo_note_plain(1) un] demo_note_plain(2))
  then have "ms_events st = [(hex64 (CHR ''3''), \<lparr>se_raw = demo_note, se_received_at_ms = 7\<rparr>)] \<and> ms_tombstones st = []"
    by (cases rule: handle_normal_insert_cases)
       (simp_all add: mem_state_new_def demo_note_def example_event_def)
  then show "mem_inv demo_store" "tomb_disjoint demo_store" "ms_tombstones demo_store = []"
    "ms_events demo_store = [(hex64 (CHR ''3''), \<lparr>se_raw = demo_note, se_received_at_ms = 7\<rparr>)]"
    using st(2) by (simp_all add: demo tomb_disjoint_def)
qed

lemma demo_deletion_fields:
  "ev_kind (demo_deletion a) = 5" "ev_pubkey (demo_deletion a) = hex64 a" "ev_id (demo_deletion a) = hex64 (CHR ''4'')"
  "e_tags (demo_deletion a) = [hex64 (CHR ''3'')]" "expiration (demo_deletion a) = None"
  by (simp_all add: demo_deletion_def example_event_def e_tags_def tag_values_def expiration_def find_tag_def)

lemma hex64_inject [simp]: "hex64 a = hex64 b \<longleftrightarrow> a = b"
  by (simp add: hex64_def replicate_eq_replicate)

text \<open>A new, unexpired deletion whose id carries no tombstone is always accepted.\<close>

lemma kind5_accepted:
  assumes inv: "mem_inv st" and e: "storable e" "ev_kind e = 5" "expiration e = None"
    and new: "ev_id e \<notin> hm_keys (ms_events st)" "map_of (ms_tombstones st) (ev_id e) = None"
  shows "\<exists>i n st'. insert_event ext e u t st = Some (Inserted i n, st')"
proof -
  have "addr_tombstone_for e st = None"
    using kind5_regular e(2) by (simp add: addr_tombstone_for_def is_param_replaceable_def)
  moreover have "is_structurally_valid e" "\<not> ev_is_ephemeral e" using e(1) by (simp_all add: storable_def)
  ultimately have eq: "insert_event ext e u t st = handle_kind5_insert ext e u t st"
    using e new storable_id [OF e(1)] by (auto simp: insert_event_def insert_dispatch_def)
  have "same_body e st" using new(1) by (simp add: same_body_def hm_keys_map_of)
  from insert_event_ok [OF inv this, of ext u t] obtain out st' where
    "handle_kind5_insert ext e u t st = Some (out, st')" by (auto simp: eq)
  note res = this
  from res show ?thesis using res eq new(1) by (cases rule: handle_kind5_insert_cases) auto
qed

lemma demo_deletion_accepted:
  assumes "hex_nibble (of_char a) \<noteq> None"
  shows "\<exists>i n st'. insert_event demo_ext (demo_deletion a) ''wss://b'' 9 demo_store = Some (Inserted i n, st')"
proof (rule kind5_accepted [OF demo_store_facts(1)])
  have "hex_nibble (of_char (CHR ''4'')) \<noteq> None" by code_simp
  then show "storable (demo_deletion a)"
    unfolding demo_deletion_def using assms by (intro storable_example) (simp_all add: kind5_regular)
qed (simp_all add: demo_deletion_fields demo_store_facts hm_keys_def)

theorem kind5_spares_foreign_events_witness:
  "\<exists>out st. insert_event demo_ext (demo_deletion (CHR ''b'')) ''wss://b'' 9 demo_store = Some (out, st) \<and>
    map_of (ms_events st) (hex64 (CHR ''3'')) = Some \<lparr>se_raw = demo_note, se_received_at_ms = 7\<rparr>"
proof -
  have "hex_nibble (of_char (CHR ''b'')) \<noteq> None" by code_simp
  from demo_deletion_accepted [OF this] obtain i n st where
    res: "insert_event demo_ext (demo_deletion (CHR ''b'')) ''wss://b'' 9 demo_store = Some (Inserted i n, st)" by blast
  have "ev_pubkey demo_note = hex64 (CHR ''a'')" by (simp add: demo_note_def example_event_def)
  then have "map_of (ms_events st) (hex64 (CHR ''3'')) = Some \<lparr>se_raw = demo_note, se_received_at_ms = 7\<rparr>"
    by (intro kind5_spares_foreign_events [OF demo_store_facts(1) _ res])
       (simp_all add: demo_deletion_fields demo_store_facts(4))
  with res show ?thesis by blast
qed

theorem kind5_deletes_own_event_witness:
  "\<exists>i n st out. insert_event demo_ext (demo_deletion (CHR ''a'')) ''wss://b'' 9 demo_store = Some (Inserted i n, st) \<and>
    map_of (ms_events st) (hex64 (CHR ''3'')) = None \<and>
    insert_event demo_ext demo_note ''wss://c'' 11 st = Some (out, st)"
proof -
  have "hex_nibble (of_char (CHR ''a'')) \<noteq> None" by code_simp
  from demo_deletion_accepted [OF this] obtain i n st where
    res: "insert_event demo_ext (demo_deletion (CHR ''a'')) ''wss://b'' 9 demo_store = Some (Inserted i n, st)" by blast
  have lower: "ascii_lower (hex64 (CHR ''a'')) = hex64 (CHR ''a'')" by code_simp
  have "ev_pubkey demo_note = hex64 (CHR ''a'')" by (simp add: demo_note_def example_event_def)
  then have "map_of (ms_events st) (hex64 (CHR ''3'')) = None \<and>
      (\<exists>out. insert_event demo_ext (se_raw \<lparr>se_raw = demo_note, se_received_at_ms = 7\<rparr>) ''wss://c'' 11 st = Some (out, st))"
    by (intro kind5_deletes_own_event [OF demo_store_facts(1,2) _ _ _ _ _ _ res])
       (simp_all add: demo_deletion_fields demo_store_facts(4) lower hm_keys_def)
  with res show ?thesis by auto
qed

end
