(* ===== verification/Store_Query.thy ===== *)
theory Store_Query
  imports Store_Converge
begin

text \<open>
  Reading the in-memory store: \<open>src/crates/nmp-store/src/mem/query.rs\<close>, \<open>mem/query_tags.rs\<close> and
  the default dispatch of \<open>events_query_dispatch.rs\<close>. A scan filters all events, sorts them newest
  first and truncates; \<open>query_visit\<close> streams the same answer to a visitor and has a fast path for
  \<open>limit = 1\<close>.

  The visitor closure is a function on its captured state that also says whether it breaks. The
  iteration order of the hash map is the order of the association list; the theorems show that
  the answers do not depend on it.

  The lemmas show that the streaming path and the scans give the same answers, that an answer
  consists of the newest matching events, and that an accepted event can be read back.
\<close>

section \<open>Lossy UTF-8 decoding\<close>

text \<open>\<open>String::from_utf8_lossy\<close>: each maximal ill-formed prefix becomes U+FFFD.\<close>

definition REPLACEMENT :: string where
  "REPLACEMENT = [CHR 0xEF, CHR 0xBF, CHR 0xBD]"

definition second_ok :: "char \<Rightarrow> char \<Rightarrow> bool" where
  "second_ok a b \<longleftrightarrow>
     (if a = CHR 0xE0 then in_range CHR 0xA0 CHR 0xBF b
      else if a = CHR 0xED then in_range CHR 0x80 CHR 0x9F b
      else if a = CHR 0xF0 then in_range CHR 0x90 CHR 0xBF b
      else if a = CHR 0xF4 then in_range CHR 0x80 CHR 0x8F b
      else is_cont b)"

function from_utf8_lossy :: "string \<Rightarrow> string" where
  "from_utf8_lossy s =
     (case s of
        [] \<Rightarrow> []
      | a # r \<Rightarrow>
          if a \<le> CHR 0x7F then a # from_utf8_lossy r
          else if in_range CHR 0xC2 CHR 0xDF a then
            (case r of
               b # r1 \<Rightarrow> if is_cont b then a # b # from_utf8_lossy r1 else REPLACEMENT @ from_utf8_lossy r
             | [] \<Rightarrow> REPLACEMENT)
          else if in_range CHR 0xE0 CHR 0xEF a then
            (case r of
               b # r1 \<Rightarrow>
                 if second_ok a b then
                   (case r1 of
                      c # r2 \<Rightarrow> if is_cont c then a # b # c # from_utf8_lossy r2 else REPLACEMENT @ from_utf8_lossy r1
                    | [] \<Rightarrow> REPLACEMENT)
                 else REPLACEMENT @ from_utf8_lossy r
             | [] \<Rightarrow> REPLACEMENT)
          else if in_range CHR 0xF0 CHR 0xF4 a then
            (case r of
               b # r1 \<Rightarrow>
                 if second_ok a b then
                   (case r1 of
                      c # r2 \<Rightarrow>
                        if is_cont c then
                          (case r2 of
                             d # r3 \<Rightarrow> if is_cont d then a # b # c # d # from_utf8_lossy r3 else REPLACEMENT @ from_utf8_lossy r2
                           | [] \<Rightarrow> REPLACEMENT)
                        else REPLACEMENT @ from_utf8_lossy r1
                    | [] \<Rightarrow> REPLACEMENT)
                 else REPLACEMENT @ from_utf8_lossy r
             | [] \<Rightarrow> REPLACEMENT)
          else REPLACEMENT @ from_utf8_lossy r)"
  by pat_completeness auto
termination by (relation "measure length") auto

declare from_utf8_lossy.simps [simp del]

section \<open>Point reads\<close>

definition get_by_id :: "event_id \<Rightarrow> mem_state \<Rightarrow> stored_event option \<times> mem_state" where
  "get_by_id eid st =
     (let hex = bytes_to_hex eid;
          result = map_of (ms_events st) hex
      in (result, if result \<noteq> None then access_stamp hex st else st))"

definition peek_by_id :: "event_id \<Rightarrow> mem_state \<Rightarrow> stored_event option" where
  "peek_by_id eid st = map_of (ms_events st) (bytes_to_hex eid)"

section \<open>Scans\<close>

text \<open>The comparator of \<open>sort_by\<close>: newest first, then by ascending id.\<close>

definition newest_key :: "stored_event \<Rightarrow> int \<times> string" where
  "newest_key ev = (- int (ev_created_at (se_raw ev)), ev_id (se_raw ev))"

definition newest_first :: "stored_event list \<Rightarrow> stored_event list" where
  "newest_first evs = sort_key newest_key evs"

definition stored_values :: "mem_state \<Rightarrow> stored_event list" where
  "stored_values st = map snd (ms_events st)"

definition in_time :: "u64 option \<Rightarrow> u64 option \<Rightarrow> stored_event \<Rightarrow> bool" where
  "in_time since until ev \<longleftrightarrow>
     (case since of None \<Rightarrow> True | Some s \<Rightarrow> ev_created_at (se_raw ev) \<ge> s) \<and>
     (case until of None \<Rightarrow> True | Some u \<Rightarrow> ev_created_at (se_raw ev) \<le> u)"

definition has_dtag :: "string \<Rightarrow> stored_event \<Rightarrow> bool" where
  "has_dtag d_str ev =
     (case d_tag (se_raw ev) of Some d \<Rightarrow> from_utf8_lossy d = d_str | None \<Rightarrow> False)"

definition scan_by_author_kind ::
  "mem_state \<Rightarrow> pub_key \<Rightarrow> u32 list \<Rightarrow> u64 option \<Rightarrow> u64 option \<Rightarrow> usize \<Rightarrow> stored_event list" where
  "scan_by_author_kind st author kinds since until limit =
     (let author_hex = bytes_to_hex author in
      take limit (newest_first
        (filter (\<lambda>ev. ev_pubkey (se_raw ev) = author_hex \<and> ev_kind (se_raw ev) \<in> set kinds \<and> in_time since until ev)
          (stored_values st))))"

definition scan_by_authors_kind ::
  "mem_state \<Rightarrow> pub_key list \<Rightarrow> u32 list \<Rightarrow> u64 option \<Rightarrow> u64 option \<Rightarrow> usize \<Rightarrow> stored_event list" where
  "scan_by_authors_kind st authors kinds since until limit =
     (let author_hexes = map bytes_to_hex authors in
      take limit (newest_first
        (filter (\<lambda>ev. ev_pubkey (se_raw ev) \<in> set author_hexes \<and> ev_kind (se_raw ev) \<in> set kinds \<and> in_time since until ev)
          (stored_values st))))"

definition get_param_replaceable :: "mem_state \<Rightarrow> pub_key \<Rightarrow> u32 \<Rightarrow> string \<Rightarrow> stored_event option" where
  "get_param_replaceable st pubkey kind d_tag_bytes =
     (let pubkey_hex = bytes_to_hex pubkey;
          d_str = from_utf8_lossy d_tag_bytes
      in max_by (\<lambda>a b. not_newer (se_raw a) (se_raw b))
           (filter (\<lambda>ev. ev_pubkey (se_raw ev) = pubkey_hex \<and> ev_kind (se_raw ev) = kind \<and> has_dtag d_str ev)
             (stored_values st)))"

definition scan_by_kind_dtag ::
  "mem_state \<Rightarrow> u32 \<Rightarrow> string \<Rightarrow> u64 option \<Rightarrow> u64 option \<Rightarrow> usize \<Rightarrow> stored_event list" where
  "scan_by_kind_dtag st kind d_tag_bytes since until limit =
     (let d_str = from_utf8_lossy d_tag_bytes in
      take limit (newest_first
        (filter (\<lambda>ev. ev_kind (se_raw ev) = kind \<and> has_dtag d_str ev \<and> in_time since until ev) (stored_values st))))"

definition scan_by_kind_time ::
  "mem_state \<Rightarrow> u32 list \<Rightarrow> u64 option \<Rightarrow> u64 option \<Rightarrow> usize \<Rightarrow> stored_event list" where
  "scan_by_kind_time st kinds since until limit =
     take limit (newest_first
       (filter (\<lambda>ev. (kinds = [] \<or> ev_kind (se_raw ev) \<in> set kinds) \<and> in_time since until ev) (stored_values st)))"

definition event_matches_tag_query ::
  "stored_event \<Rightarrow> pub_key list \<Rightarrow> u32 list \<Rightarrow> (char \<times> string list) list \<Rightarrow> u64 option \<Rightarrow> u64 option \<Rightarrow> bool" where
  "event_matches_tag_query ev authors kinds tags since until =
     (if tags = [] \<or> (\<exists>(_, vs) \<in> set tags. vs = []) then False
      else if authors \<noteq> [] \<and> \<not> (\<exists>a \<in> set authors. bytes_to_hex a = ev_pubkey (se_raw ev)) then False
      else if kinds \<noteq> [] \<and> ev_kind (se_raw ev) \<notin> set kinds then False
      else if (case since of Some s \<Rightarrow> ev_created_at (se_raw ev) < s | None \<Rightarrow> False) then False
      else if (case until of Some u \<Rightarrow> ev_created_at (se_raw ev) > u | None \<Rightarrow> False) then False
      else
        \<forall>(tag, vs) \<in> set tags.
          \<exists>row \<in> set (ev_tags (se_raw ev)).
            get_nth 0 row = Some [tag] \<and> (case get_nth 1 row of Some v \<Rightarrow> v \<in> set vs | None \<Rightarrow> False))"

definition scan_by_tags ::
  "mem_state \<Rightarrow> pub_key list \<Rightarrow> u32 list \<Rightarrow> (char \<times> string list) list \<Rightarrow> u64 option \<Rightarrow> u64 option \<Rightarrow> usize \<Rightarrow>
   stored_event list" where
  "scan_by_tags st authors kinds tags since until limit =
     take limit (newest_first
       (filter (\<lambda>ev. event_matches_tag_query ev authors kinds tags since until) (stored_values st)))"

definition query_matches :: "stored_event \<Rightarrow> store_query \<Rightarrow> bool" where
  "query_matches ev query =
     (case query of
        AuthorKind author kinds since until \<Rightarrow>
          ev_pubkey (se_raw ev) = bytes_to_hex author \<and> ev_kind (se_raw ev) \<in> set kinds \<and> in_time since until ev
      | AuthorsKind authors kinds since until \<Rightarrow>
          (\<exists>a \<in> set authors. bytes_to_hex a = ev_pubkey (se_raw ev)) \<and>
          ev_kind (se_raw ev) \<in> set kinds \<and> in_time since until ev
      | KindTime kinds since until \<Rightarrow>
          (kinds = [] \<or> ev_kind (se_raw ev) \<in> set kinds) \<and> in_time since until ev
      | KindDtag kind dt since until \<Rightarrow>
          (let want = from_utf8_lossy dt in
           ev_kind (se_raw ev) = kind \<and> has_dtag want ev \<and> in_time since until ev)
      | Tags authors kinds tags since until \<Rightarrow>
          event_matches_tag_query ev authors kinds tags since until)"

section \<open>Streaming\<close>

type_synonym 'v visitor = "stored_event \<Rightarrow> 'v \<Rightarrow> 'v \<times> bool"

text \<open>The loop over the answer: the visitor's state, until it breaks.\<close>

fun visit_loop :: "'v visitor \<Rightarrow> stored_event list \<Rightarrow> 'v \<Rightarrow> 'v" where
  "visit_loop visitor [] v = v"
| "visit_loop visitor (ev # evs) v =
     (let (v', brk) = visitor ev v in if brk then v' else visit_loop visitor evs v')"

definition query_visit :: "mem_state \<Rightarrow> store_query \<Rightarrow> usize \<Rightarrow> 'v visitor \<Rightarrow> 'v \<Rightarrow> 'v" where
  "query_visit st query limit visitor v =
     (if limit = 0 then v
      else if limit = 1 then
        (case max_by (\<lambda>a b. not_newer (se_raw a) (se_raw b))
                (filter (\<lambda>ev. query_matches ev query) (stored_values st)) of
           Some ev \<Rightarrow> fst (visitor ev v)
         | None \<Rightarrow> v)
      else
        visit_loop visitor
          (take limit (newest_first (filter (\<lambda>ev. query_matches ev query) (stored_values st)))) v)"

text \<open>The trait's default: dispatch to the scan of the query's index.\<close>

definition dispatch_scan :: "mem_state \<Rightarrow> store_query \<Rightarrow> usize \<Rightarrow> stored_event list" where
  "dispatch_scan st query limit =
     (case query of
        AuthorKind author kinds since until \<Rightarrow> scan_by_author_kind st author kinds since until limit
      | AuthorsKind authors kinds since until \<Rightarrow> scan_by_authors_kind st authors kinds since until limit
      | KindTime kinds since until \<Rightarrow> scan_by_kind_time st kinds since until limit
      | KindDtag kind dt since until \<Rightarrow> scan_by_kind_dtag st kind dt since until limit
      | Tags authors kinds tags since until \<Rightarrow> scan_by_tags st authors kinds tags since until limit)"

definition query_visit_default :: "mem_state \<Rightarrow> store_query \<Rightarrow> usize \<Rightarrow> 'v visitor \<Rightarrow> 'v \<Rightarrow> 'v" where
  "query_visit_default st query limit visitor v = visit_loop visitor (dispatch_scan st query limit) v"

section \<open>Other reads\<close>

definition scan_expiring_before :: "mem_state \<Rightarrow> u64 \<Rightarrow> usize \<Rightarrow> stored_event list" where
  "scan_expiring_before st unix_seconds limit =
     map snd (take limit (sort_key fst
       (List.map_filter
         (\<lambda>ev. case expiration (se_raw ev) of
                 Some ex \<Rightarrow> if ex < unix_seconds then Some (ex, ev) else None
               | None \<Rightarrow> None)
         (stored_values st))))"

definition tombstones_for :: "mem_state \<Rightarrow> event_id \<Rightarrow> tombstone_row list" where
  "tombstones_for st target =
     (case map_of (ms_tombstones st) (bytes_to_hex target) of Some row \<Rightarrow> [row] | None \<Rightarrow> [])"

definition list_tombstones :: "mem_state \<Rightarrow> tombstone_row list" where
  "list_tombstones st = map snd (ms_tombstones st)"

definition provenance_for :: "mem_state \<Rightarrow> event_id \<Rightarrow> provenance_entry list" where
  "provenance_for st eid = unwrap_or [] (map_of (ms_provenance st) (bytes_to_hex eid))"

section \<open>Newest first\<close>

text \<open>A well-formed string starts with one character, which the decoder copies.\<close>

lemma valid_utf8_cases:
  assumes "valid_utf8 s" and "s \<noteq> []"
  obtains (one) a r where "s = a # r" "a \<le> CHR 0x7F" "valid_utf8 r"
  | (two) a b r where "s = a # b # r" "\<not> a \<le> CHR 0x7F" "in_range CHR 0xC2 CHR 0xDF a" "is_cont b" "valid_utf8 r"
  | (three) a b c r where "s = a # b # c # r" "\<not> a \<le> CHR 0x7F" "\<not> in_range CHR 0xC2 CHR 0xDF a"
      "in_range CHR 0xE0 CHR 0xEF a" "second_ok a b" "is_cont c" "valid_utf8 r"
  | (four) a b c d r where "s = a # b # c # d # r" "\<not> a \<le> CHR 0x7F" "\<not> in_range CHR 0xC2 CHR 0xDF a"
      "\<not> in_range CHR 0xE0 CHR 0xEF a" "in_range CHR 0xF0 CHR 0xF4 a" "second_ok a b" "is_cont c" "is_cont d" "valid_utf8 r"
proof -
  obtain a r where s: "s = a # r" using assms(2) by (cases s) auto
  note v = assms(1) [unfolded s valid_utf8.simps [of "a # r"] list.case]
  have ne: "in_range CHR 0xE0 CHR 0xEF a \<Longrightarrow> a \<noteq> CHR 0xF0 \<and> a \<noteq> CHR 0xF4"
    "in_range CHR 0xF0 CHR 0xF4 a \<Longrightarrow> a \<noteq> CHR 0xE0 \<and> a \<noteq> CHR 0xED"
    by (auto simp: in_range_def)
  show ?thesis
  proof (cases "a \<le> CHR 0x7F")
    case True
    then show ?thesis using v s one by simp
  next
    case n1: False
    show ?thesis
    proof (cases "in_range CHR 0xC2 CHR 0xDF a")
      case True
      then show ?thesis using v s n1 two [of a _ _] by (auto split: list.splits)
    next
      case n2: False
      show ?thesis
      proof (cases "in_range CHR 0xE0 CHR 0xEF a")
        case True
        then obtain b c r' where "r = b # c # r'" "second_ok a b" "is_cont c" "valid_utf8 r'"
          using v n1 n2 ne(1) by (auto simp: second_ok_def split: list.splits)
        then show ?thesis using three [OF _ n1 n2 True] s by simp
      next
        case n3: False
        then have f: "in_range CHR 0xF0 CHR 0xF4 a" using v n1 n2 by (simp split: if_splits)
        then obtain b c d r' where "r = b # c # d # r'" "second_ok a b" "is_cont c" "is_cont d" "valid_utf8 r'"
          using v n1 n2 n3 ne(2) by (auto simp: second_ok_def split: list.splits)
        then show ?thesis using four [OF _ n1 n2 n3 f] s by simp
      qed
    qed
  qed
qed

lemma from_utf8_lossy_valid: "valid_utf8 s \<Longrightarrow> from_utf8_lossy s = s"
proof (induction s rule: length_induct)
  case (1 s)
  show ?case
  proof (cases "s = []")
    case True
    then show ?thesis by (simp add: from_utf8_lossy.simps)
  next
    case False
    from "1.prems" False show ?thesis
    proof (cases rule: valid_utf8_cases)
      case (one a r)
      then show ?thesis using 1 by (simp add: from_utf8_lossy.simps [of "a # r"])
    next
      case (two a b r)
      then show ?thesis using 1 by (simp add: from_utf8_lossy.simps [of "a # b # r"])
    next
      case (three a b c r)
      then show ?thesis using 1 by (simp add: from_utf8_lossy.simps [of "a # b # c # r"])
    next
      case (four a b c d r)
      then show ?thesis using 1 by (simp add: from_utf8_lossy.simps [of "a # b # c # d # r"])
    qed
  qed
qed

text \<open>The stored events are distinct and told apart by their sort key.\<close>

lemma stored_values_keys:
  assumes "mem_inv st"
  shows "map (ev_id \<circ> se_raw) (stored_values st) = map fst (ms_events st)"
proof -
  have wf: "hm_wf (ms_events st)" and ok: "\<And>i se. map_of (ms_events st) i = Some se \<Longrightarrow> ev_id (se_raw se) = i"
    using assms by (auto simp: mem_inv_def core_inv_def events_ok_def)
  have "ev_id (se_raw se) = i" if "(i, se) \<in> set (ms_events st)" for i se
    using ok hm_mem_iff [OF wf] that by blast
  then show ?thesis by (auto simp: stored_values_def)
qed

lemma stored_values_inj:
  assumes "mem_inv st"
  shows "inj_on newest_key (set (stored_values st))" "distinct (stored_values st)"
proof -
  have d: "distinct (map (ev_id \<circ> se_raw) (stored_values st))"
    using assms by (simp add: stored_values_keys mem_inv_def core_inv_def events_ok_def)
  then have "inj_on (ev_id \<circ> se_raw) (set (stored_values st))" by (simp add: distinct_map)
  then show "inj_on newest_key (set (stored_values st))" by (auto simp: inj_on_def newest_key_def)
  show "distinct (stored_values st)" using d by (simp add: distinct_map)
qed

lemma mem_stored_values:
  assumes "mem_inv st"
  shows "se \<in> set (stored_values st) \<longleftrightarrow> map_of (ms_events st) (ev_id (se_raw se)) = Some se"
proof -
  have wf: "hm_wf (ms_events st)" and ok: "\<And>i se. map_of (ms_events st) i = Some se \<Longrightarrow> ev_id (se_raw se) = i"
    using assms by (auto simp: mem_inv_def core_inv_def events_ok_def)
  show ?thesis
  proof
    assume "se \<in> set (stored_values st)"
    then obtain i where "(i, se) \<in> set (ms_events st)" by (auto simp: stored_values_def)
    then have i: "map_of (ms_events st) i = Some se" using hm_mem_iff [OF wf] by blast
    with ok [OF this] show "map_of (ms_events st) (ev_id (se_raw se)) = Some se" by simp
  next
    assume "map_of (ms_events st) (ev_id (se_raw se)) = Some se"
    then have "(ev_id (se_raw se), se) \<in> set (ms_events st)" using hm_mem_iff [OF wf] by blast
    then show "se \<in> set (stored_values st)" by (force simp: stored_values_def)
  qed
qed

lemma newest_first_props [simp]:
  "set (newest_first evs) = set evs" "length (newest_first evs) = length evs"
  "distinct (newest_first evs) = distinct evs" "sorted (map newest_key (newest_first evs))"
  by (simp_all add: newest_first_def)

lemma newest_first_Nil [simp]: "newest_first evs = [] \<longleftrightarrow> evs = []" "newest_first [] = []"
  by (metis newest_first_props(2) length_0_conv) (simp add: newest_first_def)

lemma not_newer_key: "not_newer (se_raw a) (se_raw b) \<longleftrightarrow> newest_key b \<le> newest_key a"
  by (auto simp: not_newer_def newest_key_def less_eq_prod_def)

lemma sorted_takeD:
  assumes "sorted (map f xs)" and "x \<in> set (take n xs)" and "y \<in> set xs" and "y \<notin> set (take n xs)"
  shows "f x \<le> f y"
proof -
  have "y \<in> set (drop n xs)" using assms(3,4) by (metis append_take_drop_id set_append UnE)
  moreover have "sorted (map f (take n xs @ drop n xs))" using assms(1) by simp
  ultimately show ?thesis using assms(2) unfolding map_append sorted_append by auto
qed

text \<open>The fast path of \<open>limit = 1\<close> finds the head of the sorted answer.\<close>

lemma max_by_newest:
  assumes inj: "inj_on newest_key (set evs)"
  shows "max_by (\<lambda>a b. not_newer (se_raw a) (se_raw b)) evs =
    (case newest_first evs of [] \<Rightarrow> None | ev # _ \<Rightarrow> Some ev)"
proof (cases "newest_first evs")
  case Nil
  then show ?thesis by simp
next
  case (Cons x xs)
  let ?le = "\<lambda>a b. not_newer (se_raw a) (se_raw b)"
  have x: "x \<in> set evs" using newest_first_props(1) [of evs] Cons by auto
  have evs: "evs \<noteq> []" using Cons newest_first_Nil(1) [of evs] by auto
  then obtain m where m: "max_by ?le evs = Some m" by (cases "max_by ?le evs") auto
  have "newest_key x \<le> newest_key m"
    using newest_first_props(4) [of evs] newest_first_props(1) [of evs] max_by_mem [OF m]
    by (auto simp: Cons)
  moreover have "?le x m"
    by (rule max_by_ge [OF _ _ m x]) (auto simp: not_newer_key)
  ultimately have "newest_key m = newest_key x" by (simp add: not_newer_key)
  then have "m = x" using inj max_by_mem [OF m] x by (auto dest: inj_onD)
  then show ?thesis using m Cons by simp
qed

section \<open>The answers\<close>

lemma dispatch_scan_matches:
  "dispatch_scan st query limit =
     take limit (newest_first (filter (\<lambda>ev. query_matches ev query) (stored_values st)))"
proof (cases query)
  case (AuthorKind author kinds since until)
  show ?thesis unfolding AuthorKind by (simp add: dispatch_scan_def query_matches_def scan_by_author_kind_def)
next
  case (AuthorsKind authors kinds since until)
  have eq: "ev_pubkey (se_raw ev) \<in> set (map bytes_to_hex authors) \<longleftrightarrow>
      (\<exists>a \<in> set authors. bytes_to_hex a = ev_pubkey (se_raw ev))" for ev
    by (simp only: set_map image_iff eq_commute [of "ev_pubkey (se_raw ev)"])
  show ?thesis
    unfolding AuthorsKind dispatch_scan_def query_matches_def scan_by_authors_kind_def Let_def store_query.case eq ..
next
  case (KindTime kinds since until)
  show ?thesis unfolding KindTime by (simp add: dispatch_scan_def query_matches_def scan_by_kind_time_def)
next
  case (KindDtag kind dt since until)
  show ?thesis unfolding KindDtag by (simp add: dispatch_scan_def query_matches_def scan_by_kind_dtag_def)
next
  case (Tags authors kinds tags since until)
  show ?thesis unfolding Tags by (simp add: dispatch_scan_def query_matches_def scan_by_tags_def)
qed

text \<open>C8. The streaming query and the trait's default dispatch agree: for every query, limit and
  visitor, the override of the in-memory backend, with its shortcuts for limits 0 and 1, leaves the
  visitor in the same state as visiting the scan of the query's index.\<close>

theorem query_visit_matches_scans:
  assumes "mem_inv st"
  shows "query_visit st query limit visitor v = query_visit_default st query limit visitor v"
proof -
  let ?evs = "filter (\<lambda>ev. query_matches ev query) (stored_values st)"
  have inj: "inj_on newest_key (set ?evs)"
    using stored_values_inj(1) [OF assms] by (rule inj_on_subset) auto
  show ?thesis
    unfolding query_visit_default_def dispatch_scan_matches query_visit_def max_by_newest [OF inj]
    by (cases "newest_first ?evs") (auto simp: take_Cons' Let_def split: prod.splits)
qed

text \<open>C7. A query answers with the newest matching events: everything a scan returns is stored and
  matches, without repetition, newest first and at most \<open>limit\<close> of them; an event that matches and
  is left out is older than every event returned, and is left out only when the limit is reached.\<close>

theorem query_answer_exact:
  assumes "mem_inv st" and "res = dispatch_scan st query limit"
  shows "distinct res \<and> sorted (map newest_key res) \<and> length res \<le> limit \<and>
    (\<forall>ev \<in> set res. map_of (ms_events st) (ev_id (se_raw ev)) = Some ev \<and> query_matches ev query) \<and>
    (\<forall>i ev. map_of (ms_events st) i = Some ev \<longrightarrow> query_matches ev query \<longrightarrow> ev \<notin> set res \<longrightarrow>
       length res = limit \<and> (\<forall>r \<in> set res. newest_key r < newest_key ev))"
proof -
  let ?evs = "filter (\<lambda>ev. query_matches ev query) (stored_values st)"
  let ?srt = "newest_first ?evs"
  have res: "res = take limit ?srt" using assms(2) by (simp add: dispatch_scan_matches)
  have d: "distinct ?srt" using stored_values_inj(2) [OF assms(1)] by simp
  have sub: "set res \<subseteq> set ?evs" unfolding res using set_take_subset [of limit ?srt] by simp
  have left: "length res = limit \<and> (\<forall>r \<in> set res. newest_key r < newest_key ev)"
    if st: "map_of (ms_events st) i = Some ev" and "query_matches ev query" and out: "ev \<notin> set res" for i ev
  proof -
    have "ev_id (se_raw ev) = i" using assms(1) st by (auto simp: mem_inv_def core_inv_def events_ok_def)
    then have "ev \<in> set (stored_values st)" using mem_stored_values [OF assms(1), of ev] st by blast
    then have ev: "ev \<in> set ?srt" using that(2) by simp
    then have "\<not> length ?srt \<le> limit" using out by (auto simp: res)
    moreover have "newest_key r < newest_key ev" if "r \<in> set res" for r
    proof -
      have "newest_key r \<le> newest_key ev"
        using sorted_takeD [of newest_key ?srt r limit ev] that out ev by (simp add: res)
      moreover have "r \<in> set (stored_values st)" using that sub by auto
      then have "newest_key r \<noteq> newest_key ev"
        using stored_values_inj(1) [OF assms(1)] \<open>ev \<in> set (stored_values st)\<close> that out by (auto dest: inj_onD)
      ultimately show ?thesis by simp
    qed
    ultimately show ?thesis by (simp add: res)
  qed
  have "distinct res" "sorted (map newest_key res)" "length res \<le> limit"
    using d by (simp_all add: res take_map [symmetric] sorted_wrt_take)
  moreover have "\<forall>ev \<in> set res. map_of (ms_events st) (ev_id (se_raw ev)) = Some ev \<and> query_matches ev query"
    using sub mem_stored_values [OF assms(1)] by auto
  ultimately show ?thesis using left by blast
qed

section \<open>Reading back what was written\<close>

text \<open>What an outcome says about the store: the state before, the state after and the event.\<close>

definition outcome_ok :: "raw_event \<Rightarrow> u64 \<Rightarrow> mem_state \<Rightarrow> insert_outcome \<Rightarrow> mem_state \<Rightarrow> bool" where
  "outcome_ok e t st out st' \<longleftrightarrow>
     (case out of
        Inserted i n \<Rightarrow> id_bytes e = Some i \<and> ev_id e \<notin> hm_keys (ms_events st) \<and>
          map_of (ms_events st') (ev_id e) = Some \<lparr>se_raw = e, se_received_at_ms = t\<rparr> \<and>
          n = sources_after (ev_id e) st'
      | Duplicate i n \<Rightarrow> id_bytes e = Some i \<and> ev_id e \<in> hm_keys (ms_events st) \<and>
          ms_events st' = ms_events st \<and> n = sources_after (ev_id e) st'
      | Replaced i r \<Rightarrow> id_bytes e = Some i \<and> ev_id e \<notin> hm_keys (ms_events st) \<and>
          map_of (ms_events st') (ev_id e) = Some \<lparr>se_raw = e, se_received_at_ms = t\<rparr> \<and>
          (\<exists>h se. hex_to_bytes32 h = Some r \<and> map_of (ms_events st) h = Some se \<and>
             incoming_wins e (se_raw se) \<and> map_of (ms_events st') h = None)
      | Superseded i r \<Rightarrow> id_bytes e = Some i \<and> ms_events st' = ms_events st \<and>
          (\<exists>h se. hex_to_bytes32 h = Some r \<and> map_of (ms_events st) h = Some se \<and> \<not> incoming_wins e (se_raw se))
      | _ \<Rightarrow> ms_events st' = ms_events st \<and> ms_ingest_log st' = ms_ingest_log st \<and> ms_provenance st' = ms_provenance st)"

lemma outcome_ok_handlers:
  "handle_supersession ext e u t k st = Some (out, st') \<Longrightarrow> outcome_ok e t st out st'"
  "handle_normal_insert ext e u t st = Some (out, st') \<Longrightarrow> outcome_ok e t st out st'"
  "handle_kind5_insert ext e u t st = Some (out, st') \<Longrightarrow> outcome_ok e t st out st'"
proof -
  assume "handle_supersession ext e u t k st = Some (out, st')"
  then show "outcome_ok e t st out st'"
  proof (cases rule: handle_supersession_cases)
    case (wins i h se r)
    then have "h \<noteq> ev_id e" by (auto simp: hm_keys_map_of)
    then show ?thesis using wins by (auto simp: outcome_ok_def hash_map.get_put hash_map.get_del intro!: exI [of _ h])
  qed (auto simp: outcome_ok_def hash_map.get_put sources_after_def)
next
  assume "handle_normal_insert ext e u t st = Some (out, st')"
  then show "outcome_ok e t st out st'"
    by (cases rule: handle_normal_insert_cases) (auto simp: outcome_ok_def hash_map.get_put sources_after_def)
next
  assume "handle_kind5_insert ext e u t st = Some (out, st')"
  then show "outcome_ok e t st out st'"
    by (cases rule: handle_kind5_insert_cases) (auto simp: outcome_ok_def hash_map.get_put sources_after_def)
qed

lemma insert_event_outcome:
  assumes "mem_inv st" and "same_body e st"
  shows "\<exists>out st'. insert_event ext e u t st = Some (out, st') \<and> mem_inv st' \<and> outcome_ok e t st out st'"
proof -
  obtain out st' where res: "insert_event ext e u t st = Some (out, st')" "mem_inv st'"
    using insert_event_ok [OF assms, of ext u t] by blast
  from res(1) have "outcome_ok e t st out st'"
  proof (cases rule: insert_event_cases)
    case early
    then show ?thesis by (cases out) (auto simp: outcome_ok_def)
  next
    case (dispatch st0)
    from dispatch(2) have "outcome_ok e t st0 out st'"
      unfolding insert_dispatch_def by (auto split: if_splits intro: outcome_ok_handlers)
    then show ?thesis using dispatch(3) by (auto simp: outcome_ok_def split: insert_outcome.splits)
  qed
  with res show ?thesis by blast
qed

text \<open>C6. Inserting never fails and its outcome tells the truth: in a store in the invariant an
  insertion returns an outcome; an inserted or replacing event is stored under its id with its
  arrival time, the replaced one was older and is gone, a duplicate and every refusal leave the
  stored events as they were.\<close>

theorem insert_outcome_truthful:
  assumes "mem_inv st" and "same_body e st"
  shows "\<exists>out st'. insert_event ext e u t st = Some (out, st') \<and> mem_inv st' \<and> outcome_ok e t st out st'"
  using insert_event_outcome [OF assms] .

text \<open>Read your writes: an event that was inserted, replaced an older version or was already
  there is what a read by its id returns next, and the read only marks it as recently used.\<close>

theorem insert_then_get:
  assumes "mem_inv st" and "same_body e st" and "ascii_lower (ev_id e) = ev_id e"
    and "insert_event ext e u t st = Some (out, st')"
    and "out \<in> {Inserted i n, Duplicate i n, Replaced i r}"
  shows "\<exists>se. get_by_id i st' = (Some se, access_stamp (ev_id e) st') \<and> se_raw se = e"
proof -
  have ok: "outcome_ok e t st out st'"
    using insert_event_outcome [OF assms(1,2), of ext u t] assms(4) by auto
  then have "id_bytes e = Some i" using assms(5) by (auto simp: outcome_ok_def)
  then have hex: "bytes_to_hex i = ev_id e"
    using hex_to_bytes32_inverse [of "ev_id e" i] assms(3) by (simp add: id_bytes_def)
  have "\<exists>se. map_of (ms_events st') (ev_id e) = Some se \<and> se_raw se = e"
    using ok assms(2,5) by (auto simp: outcome_ok_def same_body_def hm_keys_map_of)
  then show ?thesis by (auto simp: get_by_id_def hex Let_def)
qed

text \<open>A read by id changes the recency order only, and puts the event at its end.\<close>

lemma mem_inv_access_stamp:
  assumes "mem_inv st" and "i \<in> hm_keys (ms_events st)"
  shows "mem_inv (access_stamp i st)"
proof -
  have "access_inv (ms_events st) (ms_access_index st) (ms_access_seq st)"
    using assms(1) by (simp add: mem_inv_def core_inv_def)
  then have "access_inv (ms_events st) (hm_insert i (ms_access_seq st + 1) (ms_access_index st)) (ms_access_seq st + 1)"
    using assms(2) by (fastforce simp: access_inv_def hash_map.wf_put hash_map.get_put split: if_splits)
  then show ?thesis
    using assms(1) by (simp add: mem_inv_def core_inv_def log_inv_def access_stamp_def Let_def)
qed

lemma get_by_id_inv: "mem_inv st \<Longrightarrow> mem_inv (snd (get_by_id i st))"
  by (auto simp: get_by_id_def Let_def hm_keys_map_of intro: mem_inv_access_stamp)

text \<open>The newest addressable event: a lookup by coordinate returns the version the store holds
  there.\<close>

theorem get_param_replaceable_holder:
  assumes "mem_inv st" and "unique_coordinates st" and "is_addressable k"
    and "\<forall>ev \<in> set (stored_values st). \<forall>d'. d_tag (se_raw ev) = Some d' \<longrightarrow> valid_utf8 d'" and "valid_utf8 d"
  shows "map_option se_raw (get_param_replaceable st pk k d) = holder st (bytes_to_hex pk, k, Some d)"
proof -
  have wf: "hm_wf (ms_events st)" using assms(1) by (simp add: mem_inv_def core_inv_def events_ok_def)
  let ?c = "(bytes_to_hex pk, k, Some d)"
  have nr: "\<not> is_replaceable k" using assms(3) replaceable_not_addressable by blast
  let ?evs = "filter (\<lambda>ev. ev_pubkey (se_raw ev) = bytes_to_hex pk \<and> ev_kind (se_raw ev) = k \<and> has_dtag d ev) (stored_values st)"
  have coord: "ev_pubkey (se_raw ev) = bytes_to_hex pk \<and> ev_kind (se_raw ev) = k \<and> has_dtag d ev \<longleftrightarrow>
      coordinate (se_raw ev) = Some ?c" if "ev \<in> set (stored_values st)" for ev
    using that assms(3,4) nr from_utf8_lossy_valid
    by (auto simp: coordinate_def has_dtag_def ev_is_replaceable_def is_param_replaceable_def split: option.splits if_splits)
  have get: "get_param_replaceable st pk k d = max_by (\<lambda>a b. not_newer (se_raw a) (se_raw b)) ?evs"
    by (simp add: get_param_replaceable_def from_utf8_lossy_valid [OF assms(5)])
  show ?thesis
  proof (cases "get_param_replaceable st pk k d")
    case None
    then have "?evs = []" by (simp add: get)
    then have none: "coordinate (se_raw ev) \<noteq> Some ?c" if "ev \<in> set (stored_values st)" for ev
      using coord [OF that] that by (auto simp: filter_empty_conv)
    have "holder st ?c = None"
      unfolding holder_None [OF wf assms(2)]
    proof (intro allI impI)
      fix i se
      assume se: "map_of (ms_events st) i = Some se"
      then have "ev_id (se_raw se) = i" using assms(1) by (auto simp: mem_inv_def core_inv_def events_ok_def)
      with se show "coordinate (se_raw se) \<noteq> Some ?c" using none mem_stored_values [OF assms(1), of se] by blast
    qed
    then show ?thesis using None by simp
  next
    case (Some ev)
    then have "ev \<in> set ?evs" unfolding get by (rule max_by_mem)
    then have ev: "ev \<in> set (stored_values st)" "coordinate (se_raw ev) = Some ?c" using coord by auto
    have "holder st ?c = Some (se_raw ev)"
      unfolding holder_eq_Some [OF wf assms(2)] using ev mem_stored_values [OF assms(1)] by blast
    then show ?thesis using Some by simp
  qed
qed

section \<open>Instances\<close>

lemma demo_store_values: "stored_values demo_store = [\<lparr>se_raw = demo_note, se_received_at_ms = 7\<rparr>]"
  by (simp add: stored_values_def demo_store_facts)

theorem query_visit_matches_scans_witness:
  "query_visit demo_store (KindTime [1] None None) 1 (\<lambda>ev v. (ev_content (se_raw ev) # v, False)) [] = [''note''] \<and>
   query_visit_default demo_store (KindTime [1] None None) 1 (\<lambda>ev v. (ev_content (se_raw ev) # v, False)) [] = [''note'']"
proof -
  have "query_visit demo_store (KindTime [1] None None) 1 (\<lambda>ev v. (ev_content (se_raw ev) # v, False)) [] = [''note'']"
    by (simp add: query_visit_def demo_store_values query_matches_def in_time_def demo_note_def example_event_def)
  then show ?thesis using query_visit_matches_scans [OF demo_store_facts(1)] by metis
qed

theorem query_answer_exact_witness:
  "\<lparr>se_raw = demo_note, se_received_at_ms = 7\<rparr> \<in> set (dispatch_scan demo_store (KindTime [1] None None) 5)"
proof -
  have len: "length (dispatch_scan demo_store (KindTime [1] None None) 5) \<noteq> 5"
    by (simp add: dispatch_scan_matches demo_store_values)
  have "query_matches \<lparr>se_raw = demo_note, se_received_at_ms = 7\<rparr> (KindTime [1] None None)"
    by (simp add: query_matches_def in_time_def demo_note_def example_event_def)
  moreover have "map_of (ms_events demo_store) (hex64 (CHR ''3'')) = Some \<lparr>se_raw = demo_note, se_received_at_ms = 7\<rparr>"
    by (simp add: demo_store_facts)
  ultimately show ?thesis
    using query_answer_exact [OF demo_store_facts(1) refl, of "KindTime [1] None None" 5] len by blast
qed

lemma demo_note_id: "ev_id demo_note = hex64 (CHR ''3'')"
  by (simp add: demo_note_def example_event_def)

lemma demo_same_body: "same_body demo_note demo_store" "same_body demo_note mem_state_new"
  by (simp_all add: same_body_def demo_store_facts demo_note_id mem_state_new_def)

theorem insert_outcome_truthful_witness:
  "\<exists>out st. insert_event demo_ext demo_note ''wss://b'' 9 demo_store = Some (out, st) \<and> mem_inv st \<and>
     outcome_ok demo_note 9 demo_store out st"
  by (rule insert_outcome_truthful [OF demo_store_facts(1) demo_same_body(1)])

theorem insert_then_get_witness:
  "\<exists>out st i n se. insert_event demo_ext demo_note ''wss://b'' 9 demo_store = Some (out, st) \<and> out = Duplicate i n \<and>
     fst (get_by_id i st) = Some se \<and> se_raw se = demo_note"
proof -
  have un: "untombstoned demo_note demo_store"
    using demo_note_plain(2) by (simp add: untombstoned_def demo_store_facts addr_tombstone_for_def is_param_replaceable_def demo_note_def example_event_def is_addressable_def)
  obtain out st where res: "insert_event demo_ext demo_note ''wss://b'' 9 demo_store = Some (out, st)"
    using insert_event_ok [OF demo_store_facts(1) demo_same_body(1), of demo_ext "''wss://b''" 9] by blast
  then have "handle_normal_insert demo_ext demo_note ''wss://b'' 9 demo_store = Some (out, st)"
    by (simp add: insert_event_plain [OF demo_note_plain(1) un] demo_note_plain(2))
  then obtain i n where out: "out = Duplicate i n"
    by (cases rule: handle_normal_insert_cases) (auto simp: demo_note_id demo_store_facts(4) hm_keys_def)
  have "ascii_lower (ev_id demo_note) = ev_id demo_note" by code_simp
  from insert_then_get [OF demo_store_facts(1) demo_same_body(1) this res, of i n] out res
  show ?thesis by fastforce
qed

definition demo_article :: raw_event where
  "demo_article = example_event (CHR ''5'') (CHR ''a'') 100 30023 [[''d'', ''intro'']] ''text''"

theorem get_param_replaceable_holder_witness:
  "\<exists>out st. insert_event demo_ext demo_article ''wss://a'' 7 mem_state_new = Some (out, st) \<and>
     map_option se_raw (get_param_replaceable st (replicate 32 0xAA) 30023 ''intro'') = Some demo_article"
proof -
  have "storable demo_article" unfolding demo_article_def by (rule storable_example; code_simp)
  then have plain: "plain_arrival demo_article 7"
    by (simp add: plain_arrival_def demo_article_def example_event_def expiration_def d_tag_def find_tag_def)
  have un: "untombstoned demo_article mem_state_new"
    by (simp add: untombstoned_def addr_tombstone_for_def mem_state_new_def split: option.splits)
  have body: "same_body demo_article mem_state_new" by (simp add: same_body_def mem_state_new_def)
  obtain out st where st: "insert_event demo_ext demo_article ''wss://a'' 7 mem_state_new = Some (out, st)"
      "mem_inv st" "unique_coordinates st" "holder st = offer demo_article (holder mem_state_new)"
      "\<And>i se. map_of (ms_events st) i = Some se \<Longrightarrow> map_of (ms_events mem_state_new) i = Some se \<or> se_raw se = demo_article"
    using insert_event_offer [OF mem_inv_new unique_coordinates_new body plain un, of demo_ext "''wss://a''"] by metis
  have hex: "bytes_to_hex (replicate 32 0xAA) = hex64 (CHR ''a'')" by code_simp
  have coord: "coordinate demo_article = Some (hex64 (CHR ''a''), 30023, Some ''intro'')"
    by (simp add: coordinate_def demo_article_def example_event_def ev_is_replaceable_def is_replaceable_def
        is_param_replaceable_def is_addressable_def d_tag_def find_tag_def)
  have "valid_utf8 d'" if "ev \<in> set (stored_values st)" "d_tag (se_raw ev) = Some d'" for ev d'
  proof -
    have "map_of (ms_events st) (ev_id (se_raw ev)) = Some ev" using that(1) mem_stored_values [OF st(2)] by blast
    then have "se_raw ev = demo_article" using st(5) by (fastforce simp: mem_state_new_def)
    then have "d' = ''intro''" using that(2) by (simp add: demo_article_def example_event_def d_tag_def find_tag_def)
    moreover have "valid_utf8 ''intro''" by code_simp
    ultimately show ?thesis by simp
  qed
  moreover have "valid_utf8 ''intro''" by code_simp
  moreover have "is_addressable 30023" by (simp add: is_addressable_def)
  ultimately have "map_option se_raw (get_param_replaceable st (replicate 32 0xAA) 30023 ''intro'') =
      holder st (bytes_to_hex (replicate 32 0xAA), 30023, Some ''intro'')"
    by (intro get_param_replaceable_holder [OF st(2,3)]) blast+
  also have "\<dots> = Some demo_article"
    unfolding st(4) hex by (simp add: offer_def coord newer_def holder_def mem_state_new_def)
  finally show ?thesis using st(1) by blast
qed

end
