(* ===== verification/Store_GC.thy ===== *)
theory Store_GC
  imports Store_Query
begin

text \<open>
  Garbage collection of the in-memory store: \<open>src/crates/nmp-store/src/mem/gc.rs\<close>, with the
  coverage ledger operations of \<open>mem/store_impl.rs\<close>. A pass reaps expired events, evicts the least
  recently used unpinned events above the ceiling, lowers the coverage rows that the eviction made
  dishonest, and purges old tombstones.

  The wall clock is an argument: \<open>clock n\<close> is the \<open>n\<close>-th reading of \<open>start.elapsed()\<close> in
  milliseconds, as a \<open>u32\<close>, so a pass may be cut short after any event. The iteration order of the
  hash maps is that of the association lists; the candidates are sorted by distinct access numbers.

  The lemmas show that a pass never fails and keeps the invariant, removes only expired events and
  unpinned ones in least-recently-used order, reaches the ceiling when time, budget and pins allow it,
  keeps tombstones for their retention period and never leaves a coverage row that claims an
  evicted event.
\<close>

section \<open>Coverage ledger\<close>

definition record_coverage :: "string \<Rightarrow> string \<Rightarrow> u64 \<Rightarrow> mem_state \<Rightarrow> mem_state" where
  "record_coverage filter_hash relay covered_through st =
     (let key = (filter_hash, relay);
          existing = unwrap_or 0 (map_of (ms_coverage st) key)
      in if covered_through > existing
         then st\<lparr>ms_coverage := hm_insert key covered_through (ms_coverage st)\<rparr>
         else st)"

definition get_coverage :: "string \<Rightarrow> string \<Rightarrow> mem_state \<Rightarrow> u64 option" where
  "get_coverage filter_hash relay st = map_of (ms_coverage st) (filter_hash, relay)"

definition coverage_rows_for_filter_hash :: "string \<Rightarrow> mem_state \<Rightarrow> (string \<times> u64) list" where
  "coverage_rows_for_filter_hash filter_hash st =
     map (\<lambda>((_, relay), v). (relay, v)) (filter (\<lambda>((fh, _), _). fh = filter_hash) (ms_coverage st))"

definition coverage_max_for_filter_hash :: "string \<Rightarrow> mem_state \<Rightarrow> u64 option" where
  "coverage_max_for_filter_hash filter_hash st =
     max_by (\<le>) (map snd (filter (\<lambda>((fh, _), _). fh = filter_hash) (ms_coverage st)))"

definition lower_coverage_row :: "coverage_guard \<times> u64 option \<Rightarrow> mem_state \<Rightarrow> mem_state" where
  "lower_coverage_row gm st =
     (case gm of
        (_, None) \<Rightarrow> st
      | (guard, Some oldest_evicted) \<Rightarrow>
          (let key = (cg_filter_hash guard, cg_relay guard);
               new_bound = oldest_evicted - 1
           in case map_of (ms_coverage st) key of
                Some existing \<Rightarrow>
                  if existing > new_bound then
                    if new_bound = 0 then st\<lparr>ms_coverage := hm_remove key (ms_coverage st)\<rparr>
                    else st\<lparr>ms_coverage := hm_insert key new_bound (ms_coverage st)\<rparr>
                  else st
              | None \<Rightarrow> st))"

definition lower_coverage_rows :: "coverage_guard list \<Rightarrow> u64 option list \<Rightarrow> mem_state \<Rightarrow> mem_state" where
  "lower_coverage_rows guards mins st = fold lower_coverage_row (zip guards mins) st"

section \<open>Phase 1: expired events\<close>

definition expired_at :: "u64 \<Rightarrow> stored_event \<Rightarrow> bool" where
  "expired_at now_secs ev =
     (case expiration (se_raw ev) of Some ex \<Rightarrow> ex \<le> now_secs | None \<Rightarrow> False)"

definition expiry_row :: "event_id \<Rightarrow> u64 \<Rightarrow> tombstone_row" where
  "expiry_row target_id now_secs =
     \<lparr>tb_target_id = target_id, tb_kind5_event_id = None, tb_deleter_pubkey = None,
      tb_deleted_at = now_secs, tb_sources = [], tb_origin = NIP40Expiry\<rparr>"

definition reap_one :: "u64 \<Rightarrow> string \<Rightarrow> gc_report \<Rightarrow> mem_state \<Rightarrow> (gc_report \<times> mem_state) option" where
  "reap_one now_secs id_hex report st =
     (case map_of (ms_events st) id_hex of
        None \<Rightarrow> Some (report, st)
      | Some ev \<Rightarrow>
          do { let st = remove_event_rows id_hex st;
               target_id \<leftarrow> id_bytes (se_raw ev);
               let st = st\<lparr>ms_tombstones := hm_insert id_hex (expiry_row target_id now_secs) (ms_tombstones st)\<rparr>;
               let st = emit_deleted target_id target_id Nip40Expiry (wrapping_mul_u64 now_secs 1000) st;
               Some (report\<lparr>gr_expired_reaped := gr_expired_reaped report + 1\<rparr>, st) })"

text \<open>The loops return whether the time ran out, and the number of clock readings so far.\<close>

fun reap_loop ::
  "(nat \<Rightarrow> bool) \<Rightarrow> u64 \<Rightarrow> string list \<Rightarrow> nat \<Rightarrow> gc_report \<Rightarrow> mem_state \<Rightarrow>
   (bool \<times> nat \<times> gc_report \<times> mem_state) option" where
  "reap_loop timed_out now_secs [] n report st = Some (False, n, report, st)"
| "reap_loop timed_out now_secs (id_hex # ids) n report st =
     do { (report, st) \<leftarrow> reap_one now_secs id_hex report st;
          if timed_out n then Some (True, Suc n, report, st)
          else reap_loop timed_out now_secs ids (Suc n) report st }"

definition expired_ids :: "gc_budget \<Rightarrow> u64 \<Rightarrow> mem_state \<Rightarrow> string list" where
  "expired_ids budget now_secs st =
     take (gb_max_events_per_step budget)
       (map fst (filter (\<lambda>(_, ev). expired_at now_secs ev) (ms_events st)))"

section \<open>Phase 2: least recently used events\<close>

definition guard_hit :: "coverage_guard \<Rightarrow> string \<Rightarrow> raw_event \<Rightarrow> bool" where
  "guard_hit guard id_hex raw \<longleftrightarrow>
     ev_created_at raw \<le> cg_covered_through guard \<and>
     cg_matches guard id_hex (ev_pubkey raw) (ev_kind raw) (ev_created_at raw) (ev_tags raw)"

definition note_evicted :: "coverage_guard list \<Rightarrow> string \<Rightarrow> raw_event \<Rightarrow> u64 option list \<Rightarrow> u64 option list" where
  "note_evicted guards id_hex raw mins =
     map (\<lambda>(guard, slot).
            if guard_hit guard id_hex raw
            then Some (case slot of None \<Rightarrow> ev_created_at raw | Some m \<Rightarrow> min m (ev_created_at raw))
            else slot)
       (zip guards mins)"

definition evict_one ::
  "coverage_guard list \<Rightarrow> string \<Rightarrow> u64 option list \<times> gc_report \<times> mem_state \<Rightarrow> u64 option list \<times> gc_report \<times> mem_state" where
  "evict_one guards id_hex ms =
     (let (mins, report, st) = ms in
      case map_of (ms_events st) id_hex of
        None \<Rightarrow> (mins, report, st)
      | Some ev \<Rightarrow>
          (note_evicted guards id_hex (se_raw ev) mins,
           report\<lparr>gr_lru_evicted := gr_lru_evicted report + 1\<rparr>,
           remove_event_rows id_hex st))"

fun evict_loop ::
  "(nat \<Rightarrow> bool) \<Rightarrow> coverage_guard list \<Rightarrow> string list \<Rightarrow> nat \<Rightarrow> u64 option list \<times> gc_report \<times> mem_state \<Rightarrow>
   bool \<times> nat \<times> u64 option list \<times> gc_report \<times> mem_state" where
  "evict_loop timed_out guards [] n ms = (False, n, ms)"
| "evict_loop timed_out guards (id_hex # ids) n ms =
     (let ms = evict_one guards id_hex ms in
      if timed_out n then (True, Suc n, ms)
      else evict_loop timed_out guards ids (Suc n) ms)"

definition eviction_candidates :: "event_id list \<Rightarrow> mem_state \<Rightarrow> string list" where
  "eviction_candidates pins st =
     (let pinned = set (map bytes_to_hex pins) in
      map snd (sort_key fst (map (\<lambda>(hex, seq). (seq, hex))
        (filter (\<lambda>(hex, _). hex \<notin> pinned) (ms_access_index st)))))"

definition eviction_count :: "gc_budget \<Rightarrow> mem_state \<Rightarrow> usize" where
  "eviction_count budget st =
     min (length (ms_events st) - gb_max_total_events budget) (gb_max_events_per_step budget)"

definition gc_evict ::
  "(nat \<Rightarrow> bool) \<Rightarrow> gc_budget \<Rightarrow> event_id list \<Rightarrow> coverage_guard list \<Rightarrow> nat \<Rightarrow> gc_report \<Rightarrow> mem_state \<Rightarrow>
   bool \<times> nat \<times> gc_report \<times> mem_state" where
  "gc_evict timed_out budget pins guards n report st =
     (if length (ms_events st) > gb_max_total_events budget then
        let (stopped, n, mins, report, st) =
          evict_loop timed_out guards (take (eviction_count budget st) (eviction_candidates pins st)) n
            (replicate (length guards) None, report, st)
        in (stopped, n, report, lower_coverage_rows guards mins st)
      else (False, n, report, st))"

section \<open>Phase 3: tombstones\<close>

definition stale :: "u64 \<Rightarrow> tombstone_row \<Rightarrow> bool" where
  "stale now_secs t \<longleftrightarrow> now_secs - tb_deleted_at t > TOMBSTONE_MAX_AGE_SECS"

definition stale_keys :: "u64 \<Rightarrow> (string \<times> tombstone_row) list \<Rightarrow> string list" where
  "stale_keys now_secs m = map fst (filter (\<lambda>(_, t). stale now_secs t) m)"

definition gc_purge :: "u64 \<Rightarrow> gc_report \<Rightarrow> mem_state \<Rightarrow> gc_report \<times> mem_state" where
  "gc_purge now_secs report st =
     (let stale_tombstones = stale_keys now_secs (ms_tombstones st);
          report = report\<lparr>gr_tombstones_purged := length stale_tombstones\<rparr>;
          st = st\<lparr>ms_tombstones := fold hm_remove stale_tombstones (ms_tombstones st)\<rparr>;
          stale_addr = stale_keys now_secs (ms_addr_tombstones st);
          report = report\<lparr>gr_addr_tombstones_purged := length stale_addr\<rparr>;
          st = st\<lparr>ms_addr_tombstones := fold hm_remove stale_addr (ms_addr_tombstones st)\<rparr>
      in (report, st))"

section \<open>A pass\<close>

definition gc_report_default :: gc_report where
  "gc_report_default =
     \<lparr>gr_expired_reaped = 0, gr_lru_evicted = 0, gr_tombstones_purged = 0, gr_addr_tombstones_purged = 0,
      gr_duration_ms = 0\<rparr>"

definition finish :: "(nat \<Rightarrow> u32) \<Rightarrow> nat \<Rightarrow> gc_report \<Rightarrow> gc_report" where
  "finish clock n report = report\<lparr>gr_duration_ms := clock n\<rparr>"

definition gc_step_with_pins ::
  "(nat \<Rightarrow> u32) \<Rightarrow> gc_budget \<Rightarrow> u64 \<Rightarrow> event_id list \<Rightarrow> coverage_guard list \<Rightarrow> mem_state \<Rightarrow>
   (gc_report \<times> mem_state) option" where
  "gc_step_with_pins clock budget now_secs pins guards st =
     (let timed_out = (\<lambda>n. clock n \<ge> gb_max_duration_ms budget) in
      do { (stopped, n, report, st) \<leftarrow>
             reap_loop timed_out now_secs (expired_ids budget now_secs st) 0 gc_report_default st;
           if stopped then Some (finish clock n report, st)
           else
             let (stopped, n, report, st) = gc_evict timed_out budget pins guards n report st in
             if stopped then Some (finish clock n report, st)
             else
               let (report, st) = gc_purge now_secs report st
               in Some (finish clock n report, st) })"

section \<open>What a removal changes\<close>

text \<open>\<open>st'\<close> is \<open>st\<close> without the events \<open>ids\<close>, as far as events, recency and coverage go.\<close>

definition without :: "string set \<Rightarrow> mem_state \<Rightarrow> mem_state \<Rightarrow> bool" where
  "without ids st st' \<longleftrightarrow>
     (\<forall>i. map_of (ms_events st') i = (if i \<in> ids then None else map_of (ms_events st) i)) \<and>
     (\<forall>i. map_of (ms_access_index st') i = (if i \<in> ids then None else map_of (ms_access_index st) i))"

lemma without_refl: "without {} st st"
  by (simp add: without_def)

lemma without_trans: "without A st st1 \<Longrightarrow> without B st1 st2 \<Longrightarrow> without (A \<union> B) st st2"
  by (auto simp: without_def)

lemma without_remove: "without {i} st (remove_event_rows i st)"
  by (simp add: without_def remove_event_rows_def Let_def access_remove_def hash_map.get_del)

lemma without_same:
  "without A st st1 \<Longrightarrow> ms_events st2 = ms_events st1 \<Longrightarrow> ms_access_index st2 = ms_access_index st1 \<Longrightarrow> without A st st2"
  by (simp add: without_def)

lemma without_absent: "map_of (ms_events st) i = None \<Longrightarrow> mem_inv st \<Longrightarrow> without {i} st st"
  using hm_keys_map_of [of i "ms_events st"] hm_keys_map_of [of i "ms_access_index st"]
  by (auto simp: without_def mem_inv_def core_inv_def access_inv_def)

section \<open>Reaping\<close>

definition reap_effect :: "u64 \<Rightarrow> string list \<Rightarrow> mem_state \<Rightarrow> mem_state \<Rightarrow> bool" where
  "reap_effect now ids st st' \<longleftrightarrow>
     mem_inv st' \<and> without (set ids) st st' \<and>
     ms_coverage st' = ms_coverage st \<and> ms_addr_tombstones st' = ms_addr_tombstones st \<and>
     (\<forall>j. map_of (ms_tombstones st') j =
        (if j \<in> set ids then map_option (\<lambda>t. expiry_row t now) (hex_to_bytes32 j) else map_of (ms_tombstones st) j))"

lemma reap_effect_refl: "mem_inv st \<Longrightarrow> reap_effect now [] st st"
  by (simp add: reap_effect_def without_refl)

lemma reap_effect_Cons:
  assumes "reap_effect now [i] st st1" and "reap_effect now ids st1 st2"
  shows "reap_effect now (i # ids) st st2"
proof -
  have "without ({i} \<union> set ids) st st2"
    using without_trans [of "{i}" st st1 "set ids" st2] assms by (simp add: reap_effect_def)
  then show ?thesis using assms by (auto simp: reap_effect_def)
qed

lemma reap_one_ok:
  assumes "mem_inv st" and "i \<in> hm_keys (ms_events st)"
  shows "\<exists>st'. reap_one now i report st = Some (report\<lparr>gr_expired_reaped := gr_expired_reaped report + 1\<rparr>, st') \<and>
    reap_effect now [i] st st'"
proof -
  obtain ev where Some: "map_of (ms_events st) i = Some ev" using assms(2) by (auto simp: hm_keys_map_of)
  have ev: "ev_id (se_raw ev) = i" "storable (se_raw ev)"
    using assms Some by (auto simp: mem_inv_def core_inv_def events_ok_def)
  then obtain t where t: "id_bytes (se_raw ev) = Some t" "hex_to_bytes32 i = Some t"
    using storable_id [OF ev(2)] by auto
  define st1 where "st1 = (remove_event_rows i st)\<lparr>ms_tombstones := hm_insert i (expiry_row t now) (ms_tombstones st)\<rparr>"
  define st' where "st' = emit_deleted t t Nip40Expiry (wrapping_mul_u64 now 1000) st1"
  have "core_inv (remove_event_rows i st)" using assms by (simp add: mem_inv_def core_inv_remove)
  then have "core_inv st1"
    unfolding st1_def using assms by (intro core_inv_tombstones) (simp_all add: mem_inv_def core_inv_def hash_map.wf_put)
  then have "mem_inv st'" using assms by (simp add: st'_def st1_def mem_inv_def log_inv_emit)
  moreover have "without {i} st st'" by (rule without_same [OF without_remove]) (simp_all add: st'_def st1_def)
  ultimately have "reap_effect now [i] st st'"
    by (simp add: reap_effect_def st'_def st1_def t(2) hash_map.get_put)
  moreover have "reap_one now i report st = Some (report\<lparr>gr_expired_reaped := gr_expired_reaped report + 1\<rparr>, st')"
    by (simp add: reap_one_def Some t(1) Let_def st'_def st1_def)
  ultimately show ?thesis by blast
qed

lemma reap_loop_ok:
  assumes "mem_inv st" and "distinct ids" and "set ids \<subseteq> hm_keys (ms_events st)"
  shows "\<exists>reaped rest stopped n' st'. ids = reaped @ rest \<and> (\<not> stopped \<longrightarrow> rest = []) \<and>
    reap_loop timed_out now ids n report st =
      Some (stopped, n', report\<lparr>gr_expired_reaped := gr_expired_reaped report + length reaped\<rparr>, st') \<and>
    reap_effect now reaped st st' \<and> (stopped \<longrightarrow> (\<exists>k. timed_out k))"
  using assms
proof (induction ids arbitrary: n report st)
  case Nil
  show ?case
    using reap_effect_refl [OF Nil.prems(1)]
    by (intro exI [of _ "[]"] exI [of _ False] exI [of _ n] exI [of _ st]) simp
next
  case (Cons i ids)
  let ?report1 = "report\<lparr>gr_expired_reaped := gr_expired_reaped report + 1\<rparr>"
  obtain st1 where one: "reap_one now i report st = Some (?report1, st1)" "reap_effect now [i] st st1"
    using reap_one_ok [OF Cons.prems(1), of i now report] Cons.prems(3) by (meson list.set_intros(1) subsetD)
  show ?case
  proof (cases "timed_out n")
    case True
    then show ?thesis
      using one by (intro exI [of _ "[i]"] exI [of _ ids] exI [of _ True] exI [of _ "Suc n"] exI [of _ st1]) auto
  next
    case False
    have "set ids \<subseteq> hm_keys (ms_events st1)"
      using Cons.prems(2,3) one(2) by (auto simp: hm_keys_map_of without_def reap_effect_def)
    moreover have "mem_inv st1" "distinct ids" using one(2) Cons.prems(2) by (simp_all add: reap_effect_def)
    ultimately obtain reaped rest stopped n' st' where rest: "ids = reaped @ rest" "\<not> stopped \<longrightarrow> rest = []"
        "reap_loop timed_out now ids (Suc n) ?report1 st1 =
           Some (stopped, n', ?report1\<lparr>gr_expired_reaped := gr_expired_reaped ?report1 + length reaped\<rparr>, st')"
        "reap_effect now reaped st1 st'" "stopped \<longrightarrow> (\<exists>k. timed_out k)"
      using Cons.IH [of st1 "Suc n" ?report1] by blast
    have "reap_effect now (i # reaped) st st'" using one(2) rest(4) by (rule reap_effect_Cons)
    then show ?thesis
      using one(1) rest False
      by (intro exI [of _ "i # reaped"] exI [of _ rest] exI [of _ stopped] exI [of _ n'] exI [of _ st']) simp
  qed
qed

lemma expired_ids_keys:
  assumes "mem_inv st"
  shows "distinct (expired_ids budget now st)" "set (expired_ids budget now st) \<subseteq> hm_keys (ms_events st)"
    "i \<in> set (expired_ids budget now st) \<Longrightarrow> \<exists>se. map_of (ms_events st) i = Some se \<and> expired_at now se"
    "length (expired_ids budget now st) \<le> gb_max_events_per_step budget"
proof -
  have wf: "hm_wf (ms_events st)" using assms by (simp add: mem_inv_def core_inv_def events_ok_def)
  let ?xs = "map fst (filter (\<lambda>(_, ev). expired_at now ev) (ms_events st))"
  show "distinct (expired_ids budget now st)" using wf by (simp add: expired_ids_def distinct_map_filter)
  show "length (expired_ids budget now st) \<le> gb_max_events_per_step budget" by (simp add: expired_ids_def)
  have sub: "set (expired_ids budget now st) \<subseteq> set ?xs" unfolding expired_ids_def by (rule set_take_subset)
  then show "set (expired_ids budget now st) \<subseteq> hm_keys (ms_events st)" by (auto simp: hm_keys_def)
  show "\<exists>se. map_of (ms_events st) i = Some se \<and> expired_at now se" if "i \<in> set (expired_ids budget now st)"
  proof -
    have "i \<in> set ?xs" using sub that by blast
    then show ?thesis using hm_mem_iff [OF wf] by auto
  qed
qed

section \<open>Evicting\<close>

definition evict_effect :: "string list \<Rightarrow> mem_state \<Rightarrow> mem_state \<Rightarrow> bool" where
  "evict_effect ids st st' \<longleftrightarrow>
     mem_inv st' \<and> without (set ids) st st' \<and> ms_coverage st' = ms_coverage st \<and>
     ms_tombstones st' = ms_tombstones st \<and> ms_addr_tombstones st' = ms_addr_tombstones st"

lemma evict_effect_refl: "mem_inv st \<Longrightarrow> evict_effect [] st st"
  by (simp add: evict_effect_def without_refl)

lemma evict_effect_Cons:
  assumes "evict_effect [i] st st1" and "evict_effect ids st1 st2"
  shows "evict_effect (i # ids) st st2"
  using without_trans [of "{i}" st st1 "set ids" st2] assms by (simp add: evict_effect_def)

lemma evict_effect_remove: "mem_inv st \<Longrightarrow> evict_effect [i] st (remove_event_rows i st)"
  using without_remove by (simp add: evict_effect_def mem_inv_def core_inv_remove log_inv_def)

text \<open>A slot is at or below the time of every evicted event its guard matched.\<close>

definition slot_le :: "u64 option \<Rightarrow> u64 \<Rightarrow> bool" where
  "slot_le slot t \<longleftrightarrow> (\<exists>m. slot = Some m \<and> m \<le> t)"

definition noted :: "coverage_guard list \<Rightarrow> string list \<Rightarrow> mem_state \<Rightarrow> u64 option list \<Rightarrow> bool" where
  "noted guards ids st mins \<longleftrightarrow> length mins = length guards \<and>
     (\<forall>(guard, slot) \<in> set (zip guards mins). \<forall>i \<in> set ids. \<forall>se.
        map_of (ms_events st) i = Some se \<longrightarrow> guard_hit guard i (se_raw se) \<longrightarrow> slot_le slot (ev_created_at (se_raw se)))"

lemma note_evicted_slots:
  assumes "length mins = length guards" and "(guard, slot') \<in> set (zip guards (note_evicted guards i raw mins))"
  obtains slot where "(guard, slot) \<in> set (zip guards mins)"
    "\<And>t. slot_le slot t \<Longrightarrow> slot_le slot' t" "guard_hit guard i raw \<Longrightarrow> slot_le slot' (ev_created_at raw)"
proof -
  obtain k where k: "k < length guards" "guard = guards ! k" "slot' = note_evicted guards i raw mins ! k"
    using assms(2) by (auto simp: set_zip)
  have "(guard, mins ! k) \<in> set (zip guards mins)" using k assms(1) by (auto simp: set_zip)
  moreover have "slot_le slot' t" if "slot_le (mins ! k) t" for t
    using that k assms(1) by (auto simp: slot_le_def note_evicted_def split: option.splits)
  moreover have "slot_le slot' (ev_created_at raw)" if "guard_hit guard i raw"
    using that k assms(1) by (auto simp: slot_le_def note_evicted_def split: option.splits)
  ultimately show ?thesis by (rule that)
qed

lemma length_note_evicted [simp]: "length mins = length guards \<Longrightarrow> length (note_evicted guards i raw mins) = length guards"
  by (simp add: note_evicted_def)

text \<open>What is noted for the events \<open>done\<close> stays noted while more events are evicted.\<close>

lemma evict_loop_ok:
  assumes "mem_inv st" and "distinct ids" and "set ids \<subseteq> hm_keys (ms_events st)"
    and "noted guards old st0 mins" and "\<And>i. i \<in> set ids \<Longrightarrow> map_of (ms_events st0) i = map_of (ms_events st) i"
  shows "\<exists>evicted rest stopped n' mins' st'. ids = evicted @ rest \<and> (\<not> stopped \<longrightarrow> rest = []) \<and>
    evict_loop timed_out guards ids n (mins, report, st) =
      (stopped, n', mins', report\<lparr>gr_lru_evicted := gr_lru_evicted report + length evicted\<rparr>, st') \<and>
    evict_effect evicted st st' \<and> noted guards (old @ evicted) st0 mins' \<and> (stopped \<longrightarrow> (\<exists>k. timed_out k))"
  using assms
proof (induction ids arbitrary: n report st mins old)
  case Nil
  show ?case
    using evict_effect_refl [OF Nil.prems(1)] Nil.prems(4)
    by (intro exI [of _ "[]"] exI [of _ False] exI [of _ n] exI [of _ mins] exI [of _ st]) simp
next
  case (Cons i ids)
  obtain ev where ev: "map_of (ms_events st) i = Some ev" using Cons.prems(3) by (auto simp: hm_keys_map_of)
  let ?mins1 = "note_evicted guards i (se_raw ev) mins" and ?st1 = "remove_event_rows i st"
  let ?report1 = "report\<lparr>gr_lru_evicted := gr_lru_evicted report + 1\<rparr>"
  have one: "evict_one guards i (mins, report, st) = (?mins1, ?report1, ?st1)" by (simp add: evict_one_def ev)
  have eff: "evict_effect [i] st ?st1" using Cons.prems(1) by (rule evict_effect_remove)
  have len: "length mins = length guards" using Cons.prems(4) by (simp add: noted_def)
  have noted1: "noted guards (old @ [i]) st0 ?mins1"
    unfolding noted_def
  proof (intro conjI ballI allI impI, simp add: len, clarify)
    fix guard slot' j se
    assume mem: "(guard, slot') \<in> set (zip guards ?mins1)" and j: "j \<in> set (old @ [i])"
      and se: "map_of (ms_events st0) j = Some se" and hit: "guard_hit guard j (se_raw se)"
    from len mem obtain slot where slot: "(guard, slot) \<in> set (zip guards mins)"
        "\<And>t. slot_le slot t \<Longrightarrow> slot_le slot' t" "guard_hit guard i (se_raw ev) \<Longrightarrow> slot_le slot' (ev_created_at (se_raw ev))"
      by (rule note_evicted_slots) blast
    show "slot_le slot' (ev_created_at (se_raw se))"
    proof (cases "j = i")
      case True
      then have "se = ev" using se ev Cons.prems(5) [of i] by simp
      then show ?thesis using slot(3) hit True by simp
    next
      case False
      then have "j \<in> set old" using j by simp
      then show ?thesis using Cons.prems(4) slot(1,2) se hit by (fastforce simp: noted_def)
    qed
  qed
  show ?case
  proof (cases "timed_out n")
    case True
    then show ?thesis
      using one eff noted1
      by (intro exI [of _ "[i]"] exI [of _ ids] exI [of _ True] exI [of _ "Suc n"] exI [of _ ?mins1] exI [of _ ?st1]) auto
  next
    case False
    have "set ids \<subseteq> hm_keys (ms_events ?st1)" using Cons.prems(2,3) by auto
    moreover have "mem_inv ?st1" "distinct ids" using eff Cons.prems(2) by (simp_all add: evict_effect_def)
    moreover have "map_of (ms_events st0) j = map_of (ms_events ?st1) j" if "j \<in> set ids" for j
      using Cons.prems(2) Cons.prems(5) [of j] that by (auto simp: hash_map.get_del)
    ultimately obtain evicted rest stopped n' mins' st' where rest: "ids = evicted @ rest" "\<not> stopped \<longrightarrow> rest = []"
        "evict_loop timed_out guards ids (Suc n) (?mins1, ?report1, ?st1) =
          (stopped, n', mins', ?report1\<lparr>gr_lru_evicted := gr_lru_evicted ?report1 + length evicted\<rparr>, st')"
        "evict_effect evicted ?st1 st'" "noted guards ((old @ [i]) @ evicted) st0 mins'" "stopped \<longrightarrow> (\<exists>k. timed_out k)"
      using Cons.IH [of ?st1 "old @ [i]" ?mins1 "Suc n" ?report1] noted1 by blast
    have "evict_effect (i # evicted) st st'" using eff rest(4) by (rule evict_effect_Cons)
    then show ?thesis
      using one rest False
      by (intro exI [of _ "i # evicted"] exI [of _ rest] exI [of _ stopped] exI [of _ n'] exI [of _ mins'] exI [of _ st']) simp
  qed
qed

text \<open>The candidates: the unpinned events, least recently used first.\<close>

lemma sorted_take_less:
  assumes "sorted (map f xs)" and "inj_on f (set xs)" and "x \<in> set (take n xs)" and "y \<in> set xs" and "y \<notin> set (take n xs)"
  shows "f x < f y"
proof -
  have "f x \<le> f y" using sorted_takeD [OF assms(1,3,4,5)] .
  moreover have "x \<noteq> y" "x \<in> set xs" using assms(3,5) set_take_subset [of n xs] by auto
  ultimately show ?thesis using assms(2,4) by (auto simp: order_less_le dest: inj_onD)
qed

lemma eviction_candidates_ok:
  assumes "mem_inv st"
  shows "distinct (eviction_candidates pins st)"
    "set (eviction_candidates pins st) = hm_keys (ms_events st) - set (map bytes_to_hex pins)"
    "sorted (map (\<lambda>i. the (map_of (ms_access_index st) i)) (eviction_candidates pins st))"
    "inj_on (\<lambda>i. the (map_of (ms_access_index st) i)) (hm_keys (ms_events st))"
proof -
  have acc: "hm_wf (ms_access_index st)" "hm_keys (ms_access_index st) = hm_keys (ms_events st)"
      "\<And>i j n. map_of (ms_access_index st) i = Some n \<Longrightarrow> map_of (ms_access_index st) j = Some n \<Longrightarrow> i = j"
    using assms by (auto simp: mem_inv_def core_inv_def access_inv_def)
  let ?un = "filter (\<lambda>(hex, _). hex \<notin> set (map bytes_to_hex pins)) (ms_access_index st)"
  let ?srt = "sort_key fst (map (\<lambda>(hex, seq). (seq, hex)) ?un)"
  have c: "eviction_candidates pins st = map snd ?srt" by (simp add: eviction_candidates_def Let_def)
  have "distinct (map fst ?un)" using acc(1) by (rule distinct_map_filter)
  then have "distinct (map snd (map (\<lambda>(hex, seq). (seq, hex)) ?un))" by (simp add: comp_def split_def)
  then have "distinct (map snd ?srt)" by (simp only: distinct_map distinct_sort set_sort)
  then show "distinct (eviction_candidates pins st)" by (simp add: c)
  have "set (eviction_candidates pins st) = hm_keys (ms_access_index st) - set (map bytes_to_hex pins)"
    by (force simp: c hm_keys_def image_iff)
  then show "set (eviction_candidates pins st) = hm_keys (ms_events st) - set (map bytes_to_hex pins)"
    by (simp add: acc(2))
  have "the (map_of (ms_access_index st) i) = seq" if "(seq, i) \<in> set ?srt" for i seq
    using that hm_mem_iff [OF acc(1), of i seq] by auto
  then have "map (\<lambda>i. the (map_of (ms_access_index st) i)) (map snd ?srt) = map fst ?srt"
    by (auto simp del: set_sort)
  then show "sorted (map (\<lambda>i. the (map_of (ms_access_index st) i)) (eviction_candidates pins st))"
    by (simp only: c sorted_sort_key)
  show "inj_on (\<lambda>i. the (map_of (ms_access_index st) i)) (hm_keys (ms_events st))"
    using acc(3) by (auto simp: inj_on_def acc(2) [symmetric] hm_keys_map_of)
qed

section \<open>Lowering coverage\<close>

definition coverage_pos :: "mem_state \<Rightarrow> bool" where
  "coverage_pos st \<longleftrightarrow> (\<forall>k v. map_of (ms_coverage st) k = Some v \<longrightarrow> 0 < v)"

text \<open>Rows only go down.\<close>

definition coverage_below :: "mem_state \<Rightarrow> mem_state \<Rightarrow> bool" where
  "coverage_below st st' \<longleftrightarrow>
     (\<forall>k v'. map_of (ms_coverage st') k = Some v' \<longrightarrow> (\<exists>v. map_of (ms_coverage st) k = Some v \<and> v' \<le> v))"

lemma lower_coverage_row_cases:
  obtains (same) "lower_coverage_row gm st = st"
    "\<And>m v. snd gm = Some m \<Longrightarrow> map_of (ms_coverage st) (cg_filter_hash (fst gm), cg_relay (fst gm)) = Some v \<Longrightarrow> v \<le> m - 1"
  | (gone) m where "snd gm = Some m" "m - 1 = 0"
    "lower_coverage_row gm st = st\<lparr>ms_coverage := hm_remove (cg_filter_hash (fst gm), cg_relay (fst gm)) (ms_coverage st)\<rparr>"
  | (lower) m v where "snd gm = Some m" "m - 1 \<noteq> 0" "m - 1 < v"
    "map_of (ms_coverage st) (cg_filter_hash (fst gm), cg_relay (fst gm)) = Some v"
    "lower_coverage_row gm st = st\<lparr>ms_coverage := hm_insert (cg_filter_hash (fst gm), cg_relay (fst gm)) (m - 1) (ms_coverage st)\<rparr>"
proof (cases "snd gm")
  case None
  then show ?thesis by (intro same) (simp_all add: lower_coverage_row_def split_def)
next
  case (Some m)
  then obtain guard where gm: "gm = (guard, Some m)" by (cases gm) simp
  let ?key = "(cg_filter_hash guard, cg_relay guard)"
  note defs = gm lower_coverage_row_def Let_def
  show ?thesis
  proof (cases "map_of (ms_coverage st) ?key")
    case None
    then show ?thesis by (intro same) (simp_all add: defs)
  next
    case row: (Some v)
    show ?thesis
    proof (cases "m - 1 < v")
      case False
      then show ?thesis using row Some by (intro same) (simp_all add: defs)
    next
      case True
      then show ?thesis
        using row Some by (cases "m - 1 = 0") (auto simp: defs intro: gone lower)
    qed
  qed
qed

lemma lower_coverage_row_ok:
  assumes "hm_wf (ms_coverage st)" and "coverage_pos st"
  shows "\<exists>c. lower_coverage_row gm st = st\<lparr>ms_coverage := c\<rparr> \<and> hm_wf c"
    "coverage_pos (lower_coverage_row gm st)" "coverage_below st (lower_coverage_row gm st)"
    "\<And>m v. snd gm = Some m \<Longrightarrow>
       map_of (ms_coverage (lower_coverage_row gm st)) (cg_filter_hash (fst gm), cg_relay (fst gm)) = Some v \<Longrightarrow> v < m"
proof -
  have pos: "\<And>k v. map_of (ms_coverage st) k = Some v \<Longrightarrow> 0 < v"
    using assms(2) unfolding coverage_pos_def by blast
  show "\<exists>c. lower_coverage_row gm st = st\<lparr>ms_coverage := c\<rparr> \<and> hm_wf c"
    using assms(1) by (cases rule: lower_coverage_row_cases [of gm st])
      (auto simp: hash_map.wf_put hash_map.wf_del intro: exI [of _ "ms_coverage st"])
  show "coverage_pos (lower_coverage_row gm st)"
    using pos by (cases rule: lower_coverage_row_cases [of gm st])
      (auto simp: coverage_pos_def hash_map.get_put hash_map.get_del split: if_splits)
  show "coverage_below st (lower_coverage_row gm st)"
    by (cases rule: lower_coverage_row_cases [of gm st])
      (auto simp: coverage_below_def hash_map.get_put hash_map.get_del split: if_splits)
  show "v < m" if "snd gm = Some m"
    "map_of (ms_coverage (lower_coverage_row gm st)) (cg_filter_hash (fst gm), cg_relay (fst gm)) = Some v" for m v
    using that pos
    by (cases rule: lower_coverage_row_cases [of gm st])
       (fastforce simp: hash_map.get_put hash_map.get_del split: if_splits)+
qed

lemma coverage_below_refl: "coverage_below st st"
  by (auto simp: coverage_below_def)

lemma coverage_below_trans: "coverage_below a b \<Longrightarrow> coverage_below b c \<Longrightarrow> coverage_below a c"
  unfolding coverage_below_def by (meson le_trans)

lemma lower_coverage_rows_ok:
  assumes "hm_wf (ms_coverage st)" and "coverage_pos st" and "st' = fold lower_coverage_row gms st"
  shows "(\<exists>c. st' = st\<lparr>ms_coverage := c\<rparr> \<and> hm_wf c) \<and> coverage_pos st' \<and> coverage_below st st' \<and>
    (\<forall>gm \<in> set gms. \<forall>m v. snd gm = Some m \<longrightarrow>
       map_of (ms_coverage st') (cg_filter_hash (fst gm), cg_relay (fst gm)) = Some v \<longrightarrow> v < m)"
  using assms
proof (induction gms arbitrary: st)
  case Nil
  then show ?case using coverage_below_refl by (auto intro: exI [of _ "ms_coverage st"])
next
  case (Cons gm gms)
  let ?st1 = "lower_coverage_row gm st"
  note row = lower_coverage_row_ok [OF Cons.prems(1,2), of gm]
  obtain c where c: "?st1 = st\<lparr>ms_coverage := c\<rparr>" "hm_wf c" using row(1) by blast
  have IH: "(\<exists>c'. st' = ?st1\<lparr>ms_coverage := c'\<rparr> \<and> hm_wf c') \<and> coverage_pos st' \<and> coverage_below ?st1 st' \<and>
    (\<forall>gm \<in> set gms. \<forall>m v. snd gm = Some m \<longrightarrow>
       map_of (ms_coverage st') (cg_filter_hash (fst gm), cg_relay (fst gm)) = Some v \<longrightarrow> v < m)"
    using Cons.prems(3) c row(2) by (intro Cons.IH) simp_all
  have first: "v < m" if m: "snd gm = Some m"
    and v: "map_of (ms_coverage st') (cg_filter_hash (fst gm), cg_relay (fst gm)) = Some v" for m v
  proof -
    obtain v1 where "map_of (ms_coverage ?st1) (cg_filter_hash (fst gm), cg_relay (fst gm)) = Some v1" "v \<le> v1"
      using IH v unfolding coverage_below_def by blast
    with row(4) [OF m] show ?thesis by fastforce
  qed
  have "\<exists>c'. st' = st\<lparr>ms_coverage := c'\<rparr> \<and> hm_wf c'" using IH c(1) by auto
  moreover have "coverage_below st st'" using coverage_below_trans [OF row(3)] IH by blast
  ultimately show ?case using IH first by auto
qed

section \<open>The eviction phase\<close>

definition recency :: "mem_state \<Rightarrow> string \<Rightarrow> u64" where
  "recency st i = the (map_of (ms_access_index st) i)"

text \<open>Only unpinned events go, the least recently used first.\<close>

definition lru_evicted :: "event_id list \<Rightarrow> mem_state \<Rightarrow> string list \<Rightarrow> bool" where
  "lru_evicted pins st evicted \<longleftrightarrow>
     distinct evicted \<and> set evicted \<subseteq> hm_keys (ms_events st) - set (map bytes_to_hex pins) \<and>
     (\<forall>i \<in> set evicted. \<forall>j \<in> hm_keys (ms_events st) - set evicted - set (map bytes_to_hex pins). recency st i < recency st j)"

text \<open>No row claims an evicted event that its guard matched.\<close>

definition honest :: "coverage_guard list \<Rightarrow> mem_state \<Rightarrow> string list \<Rightarrow> mem_state \<Rightarrow> bool" where
  "honest guards st evicted st' \<longleftrightarrow>
     (\<forall>guard \<in> set guards. \<forall>i \<in> set evicted. \<forall>se v. map_of (ms_events st) i = Some se \<longrightarrow> guard_hit guard i (se_raw se) \<longrightarrow>
        map_of (ms_coverage st') (cg_filter_hash guard, cg_relay guard) = Some v \<longrightarrow> v < ev_created_at (se_raw se))"

lemma mem_inv_coverage: "mem_inv st \<Longrightarrow> hm_wf c \<Longrightarrow> mem_inv (st\<lparr>ms_coverage := c\<rparr>)"
  by (simp add: mem_inv_def core_inv_def log_inv_def)

lemma lru_evicted_take:
  assumes inv: "mem_inv st" and ids: "take k (eviction_candidates pins st) = evicted @ rest"
  shows "lru_evicted pins st evicted"
proof -
  note cand = eviction_candidates_ok(1-3) [OF inv, of pins] eviction_candidates_ok(4) [OF inv]
  have ev: "evicted = take (length evicted) (eviction_candidates pins st)"
  proof -
    have "evicted = take (length evicted) (take k (eviction_candidates pins st))" by (simp add: ids)
    moreover have "length evicted \<le> k" using arg_cong [OF ids, of length] by simp
    ultimately show ?thesis by (simp add: min_absorb1)
  qed
  have inj: "inj_on (\<lambda>i. the (map_of (ms_access_index st) i)) (set (eviction_candidates pins st))"
    using cand(4) by (rule inj_on_subset) (auto simp: cand(2))
  have "recency st i < recency st j" if "i \<in> set evicted" "j \<in> hm_keys (ms_events st) - set evicted - set (map bytes_to_hex pins)" for i j
    unfolding recency_def using that ev cand(2)
    by (intro sorted_take_less [OF cand(3) inj, of i "length evicted" j]) auto
  moreover have "distinct evicted" "set evicted \<subseteq> set (eviction_candidates pins st)"
    using cand(1) set_take_subset [of "length evicted" "eviction_candidates pins st"] ev
    by (metis distinct_take, metis)
  ultimately show ?thesis by (auto simp: lru_evicted_def cand(2))
qed

lemma gc_evict_ok:
  assumes inv: "mem_inv st" and pos: "coverage_pos st"
  obtains stopped n' evicted st' where
    "gc_evict timed_out budget pins guards n report st =
       (stopped, n', report\<lparr>gr_lru_evicted := gr_lru_evicted report + length evicted\<rparr>, st')"
    "mem_inv st'" "without (set evicted) st st'" "coverage_pos st'" "coverage_below st st'"
    "ms_tombstones st' = ms_tombstones st" "ms_addr_tombstones st' = ms_addr_tombstones st"
    "lru_evicted pins st evicted" "honest guards st evicted st'"
    "length evicted \<le> gb_max_events_per_step budget" "stopped \<longrightarrow> (\<exists>k. timed_out k)"
    "length evicted \<le> length (ms_events st) - gb_max_total_events budget"
    "\<not> stopped \<longrightarrow> length (ms_events st) - length evicted \<le> gb_max_total_events budget \<or>
       length evicted = gb_max_events_per_step budget \<or>
       hm_keys (ms_events st) - set evicted \<subseteq> set (map bytes_to_hex pins)"
proof (cases "length (ms_events st) > gb_max_total_events budget")
  case False
  then show ?thesis
    using that [of False n "[]" st] assms without_refl coverage_below_refl by (simp add: gc_evict_def lru_evicted_def honest_def)
next
  case True
  let ?cand = "eviction_candidates pins st" and ?k = "eviction_count budget st"
  note cand = eviction_candidates_ok(1-3) [OF inv, of pins] eviction_candidates_ok(4) [OF inv]
  have "noted guards [] st (replicate (length guards) None)" by (simp add: noted_def)
  moreover have "set (take ?k ?cand) \<subseteq> hm_keys (ms_events st)" using cand(2) set_take_subset [of ?k ?cand] by auto
  moreover have "distinct (take ?k ?cand)" using cand(1) by simp
  ultimately obtain evicted rest stopped n' mins st1 where ev: "take ?k ?cand = evicted @ rest" "\<not> stopped \<longrightarrow> rest = []"
      "evict_loop timed_out guards (take ?k ?cand) n (replicate (length guards) None, report, st) =
        (stopped, n', mins, report\<lparr>gr_lru_evicted := gr_lru_evicted report + length evicted\<rparr>, st1)"
      "evict_effect evicted st st1" "noted guards ([] @ evicted) st mins" "stopped \<longrightarrow> (\<exists>k. timed_out k)"
    using evict_loop_ok [OF inv, of "take ?k ?cand" guards "[]" st "replicate (length guards) None" timed_out n report] by blast
  define st' where "st' = lower_coverage_rows guards mins st1"
  have st1: "mem_inv st1" "without (set evicted) st st1" "ms_coverage st1 = ms_coverage st"
      "ms_tombstones st1 = ms_tombstones st" "ms_addr_tombstones st1 = ms_addr_tombstones st"
    using ev(4) by (simp_all add: evict_effect_def)
  have wf1: "hm_wf (ms_coverage st1)" "coverage_pos st1"
    using st1(1,3) pos by (simp_all add: mem_inv_def core_inv_def coverage_pos_def)
  note low = lower_coverage_rows_ok [OF wf1 st'_def [unfolded lower_coverage_rows_def]]
  then obtain c where c: "st' = st1\<lparr>ms_coverage := c\<rparr>" "hm_wf c" by blast
  have honest: "honest guards st evicted st'"
    unfolding honest_def
  proof (intro ballI allI impI)
    fix guard i se v
    assume g: "guard \<in> set guards" and i: "i \<in> set evicted" "map_of (ms_events st) i = Some se" "guard_hit guard i (se_raw se)"
      and v: "map_of (ms_coverage st') (cg_filter_hash guard, cg_relay guard) = Some v"
    have "length mins = length guards" using ev(5) by (simp add: noted_def)
    then obtain slot where slot: "(guard, slot) \<in> set (zip guards mins)"
      using g by (metis in_set_impl_in_set_zip1 in_set_zipE)
    then obtain m where "slot = Some m" "m \<le> ev_created_at (se_raw se)"
      using ev(5) i by (fastforce simp: noted_def slot_le_def)
    moreover then have "v < m" using low slot v by fastforce
    ultimately show "v < ev_created_at (se_raw se)" by simp
  qed
  have len: "length evicted \<le> ?k" using arg_cong [OF ev(1), of length] by simp
  show ?thesis
  proof (rule that [of stopped n' evicted st'])
    show "gc_evict timed_out budget pins guards n report st =
        (stopped, n', report\<lparr>gr_lru_evicted := gr_lru_evicted report + length evicted\<rparr>, st')"
      using True by (simp add: gc_evict_def ev(3) st'_def)
    show "mem_inv st'" unfolding c(1) using st1(1) c(2) by (rule mem_inv_coverage)
    show "without (set evicted) st st'" using st1(2) by (rule without_same) (simp_all add: c(1))
    show "coverage_below st st'" using low st1(3) by (simp add: coverage_below_def)
    show "lru_evicted pins st evicted" using inv ev(1) by (rule lru_evicted_take)
    show "coverage_pos st'" using low by blast
    show "ms_tombstones st' = ms_tombstones st" "ms_addr_tombstones st' = ms_addr_tombstones st" using st1 c(1) by simp_all
    show "length evicted \<le> gb_max_events_per_step budget" "length evicted \<le> length (ms_events st) - gb_max_total_events budget"
      using len by (simp_all add: eviction_count_def)
    show "\<not> stopped \<longrightarrow> length (ms_events st) - length evicted \<le> gb_max_total_events budget \<or>
       length evicted = gb_max_events_per_step budget \<or>
       hm_keys (ms_events st) - set evicted \<subseteq> set (map bytes_to_hex pins)"
    proof
      assume "\<not> stopped"
      then have e: "evicted = take ?k ?cand" using ev(1,2) by simp
      show "length (ms_events st) - length evicted \<le> gb_max_total_events budget \<or>
         length evicted = gb_max_events_per_step budget \<or>
         hm_keys (ms_events st) - set evicted \<subseteq> set (map bytes_to_hex pins)"
      proof (cases "length ?cand \<le> ?k")
        case True
        then have "set evicted = set ?cand" by (simp add: e)
        then show ?thesis using cand(2) by auto
      next
        case False
        then have "length evicted = ?k" by (simp add: e)
        then show ?thesis by (auto simp: eviction_count_def min_def split: if_splits)
      qed
    qed
  qed (rule honest, rule ev(6))
qed

section \<open>The purge\<close>

lemma map_of_fold_remove: "map_of (fold hm_remove ks m) i = (if i \<in> set ks then None else map_of m i)"
  by (induction ks arbitrary: m) (auto simp: hash_map.get_del)

lemma wf_fold_remove: "hm_wf m \<Longrightarrow> hm_wf (fold hm_remove ks m)"
  by (induction ks arbitrary: m) (auto simp: hash_map.wf_del)

lemma purged_get:
  assumes "hm_wf m"
  shows "map_of (fold hm_remove (stale_keys now m) m) i =
    (case map_of m i of Some r \<Rightarrow> if stale now r then None else Some r | None \<Rightarrow> None)"
proof -
  have "i \<in> set (stale_keys now m) \<longleftrightarrow> (\<exists>r. map_of m i = Some r \<and> stale now r)"
    using hm_mem_iff [OF assms, of i] by (force simp: stale_keys_def)
  then show ?thesis by (auto simp: map_of_fold_remove split: option.splits)
qed

lemma gc_purge_ok:
  assumes inv: "mem_inv st" and res: "gc_purge now report st = (report', st')"
  shows "mem_inv st'" "ms_events st' = ms_events st" "ms_access_index st' = ms_access_index st"
    "ms_coverage st' = ms_coverage st"
    "map_of (ms_tombstones st') i =
       (case map_of (ms_tombstones st) i of Some r \<Rightarrow> if stale now r then None else Some r | None \<Rightarrow> None)"
    "gr_expired_reaped report' = gr_expired_reaped report" "gr_lru_evicted report' = gr_lru_evicted report"
proof -
  have wf: "hm_wf (ms_tombstones st)" "hm_wf (ms_addr_tombstones st)" using inv by (simp_all add: mem_inv_def core_inv_def)
  have st': "st' = st\<lparr>ms_tombstones := fold hm_remove (stale_keys now (ms_tombstones st)) (ms_tombstones st),
      ms_addr_tombstones := fold hm_remove (stale_keys now (ms_addr_tombstones st)) (ms_addr_tombstones st)\<rparr>"
    using res by (simp add: gc_purge_def Let_def)
  show "mem_inv st'"
    using inv wf by (simp add: st' mem_inv_def core_inv_def log_inv_def wf_fold_remove)
  show "map_of (ms_tombstones st') i =
       (case map_of (ms_tombstones st) i of Some r \<Rightarrow> if stale now r then None else Some r | None \<Rightarrow> None)"
    using purged_get [OF wf(1)] by (simp add: st')
  show "gr_expired_reaped report' = gr_expired_reaped report" "gr_lru_evicted report' = gr_lru_evicted report"
    using res by (auto simp: gc_purge_def Let_def)
  show "ms_events st' = ms_events st" "ms_access_index st' = ms_access_index st" "ms_coverage st' = ms_coverage st"
    by (simp_all add: st')
qed

section \<open>The whole pass\<close>

text \<open>What a pass does, for the events it \<open>reaped\<close> and the events it \<open>evicted\<close>.\<close>

definition gc_effect ::
  "gc_budget \<Rightarrow> u64 \<Rightarrow> event_id list \<Rightarrow> coverage_guard list \<Rightarrow> mem_state \<Rightarrow> string list \<Rightarrow> string list \<Rightarrow> mem_state \<Rightarrow> bool" where
  "gc_effect budget now pins guards st reaped evicted st' \<longleftrightarrow>
     mem_inv st' \<and> coverage_pos st' \<and> coverage_below st st' \<and>
     without (set reaped \<union> set evicted) st st' \<and>
     set reaped \<subseteq> set (expired_ids budget now st) \<and> distinct reaped \<and> set reaped \<inter> set evicted = {} \<and>
     (\<exists>st1. without (set reaped) st st1 \<and> mem_inv st1 \<and> lru_evicted pins st1 evicted \<and> honest guards st1 evicted st') \<and>
     length evicted \<le> length (ms_events st) - length reaped - gb_max_total_events budget \<and>
     (evicted \<noteq> [] \<longrightarrow> reaped = expired_ids budget now st) \<and> length evicted \<le> gb_max_events_per_step budget \<and>
     (\<forall>i \<in> set reaped. map_of (ms_tombstones st') i = map_option (\<lambda>t. expiry_row t now) (hex_to_bytes32 i)) \<and>
     (\<forall>i r. i \<notin> set reaped \<longrightarrow> map_of (ms_tombstones st) i = Some r \<longrightarrow> \<not> stale now r \<longrightarrow> map_of (ms_tombstones st') i = Some r) \<and>
     (\<forall>i. i \<notin> set reaped \<longrightarrow> map_of (ms_tombstones st) i = None \<longrightarrow> map_of (ms_tombstones st') i = None)"

lemma expiry_fresh: "\<not> stale now (expiry_row t now)"
  by (simp add: stale_def expiry_row_def)

lemma without_keys: "without A st st' \<Longrightarrow> hm_keys (ms_events st') = hm_keys (ms_events st) - A"
  by (intro set_eqI) (simp add: hm_keys_map_of without_def)

lemma length_without:
  assumes "mem_inv st" and "mem_inv st'" and "without (set ids) st st'" and "distinct ids" and "set ids \<subseteq> hm_keys (ms_events st)"
  shows "length (ms_events st') = length (ms_events st) - length ids"
proof -
  have wf: "hm_wf (ms_events st)" "hm_wf (ms_events st')" using assms(1,2) by (simp_all add: mem_inv_def core_inv_def events_ok_def)
  have card: "hm_wf m \<Longrightarrow> length m = card (hm_keys m)" for m :: "(string \<times> stored_event) list"
    using distinct_card [of "map fst m"] by (simp add: hm_keys_def)
  have "hm_keys (ms_events st') = hm_keys (ms_events st) - set ids"
    using without_keys [OF assms(3)] .
  then show ?thesis
    using wf assms(4,5) by (simp add: card card_Diff_subset distinct_card)
qed

lemma finish_fields [simp]:
  "gr_expired_reaped (finish clock n report) = gr_expired_reaped report" "gr_lru_evicted (finish clock n report) = gr_lru_evicted report"
  "gr_expired_reaped gc_report_default = 0" "gr_lru_evicted gc_report_default = 0"
  by (simp_all add: finish_def gc_report_default_def)

lemma gc_step_ok:
  assumes inv: "mem_inv st" and pos: "coverage_pos st"
  obtains report st' reaped evicted where
    "gc_step_with_pins clock budget now pins guards st = Some (report, st')"
    "gc_effect budget now pins guards st reaped evicted st'"
    "gr_expired_reaped report = length reaped" "gr_lru_evicted report = length evicted"
    "(\<forall>n. clock n < gb_max_duration_ms budget) \<longrightarrow>
       reaped = expired_ids budget now st \<and>
       (length (ms_events st') \<le> gb_max_total_events budget \<or> length evicted = gb_max_events_per_step budget \<or>
        hm_keys (ms_events st') \<subseteq> set (map bytes_to_hex pins))"
proof -
  let ?timed = "\<lambda>n. clock n \<ge> gb_max_duration_ms budget" and ?exp = "expired_ids budget now st"
  note exp = expired_ids_keys [OF inv]
  obtain reaped rest stopped n1 st1 where r: "?exp = reaped @ rest" "\<not> stopped \<longrightarrow> rest = []"
      "reap_loop ?timed now ?exp 0 gc_report_default st =
        Some (stopped, n1, gc_report_default\<lparr>gr_expired_reaped := gr_expired_reaped gc_report_default + length reaped\<rparr>, st1)"
      "reap_effect now reaped st st1" "stopped \<longrightarrow> (\<exists>k. ?timed k)"
    using reap_loop_ok [where ids = ?exp and timed_out = ?timed and now = now and n = 0 and report = gc_report_default,
        OF inv exp(1,2)] by blast
  have st1: "mem_inv st1" "without (set reaped) st st1" "ms_coverage st1 = ms_coverage st"
      "\<And>j. map_of (ms_tombstones st1) j =
        (if j \<in> set reaped then map_option (\<lambda>t. expiry_row t now) (hex_to_bytes32 j) else map_of (ms_tombstones st) j)"
    using r(4) by (simp_all add: reap_effect_def)
  have pos1: "coverage_pos st1" "coverage_below st st1" using pos st1(3) coverage_below_refl by (simp_all add: coverage_pos_def coverage_below_def)
  have reaped: "set reaped \<subseteq> set ?exp" "distinct reaped" using r(1) exp(1) by (metis Un_upper1 set_append, metis distinct_append)
  define report1 where "report1 = gc_report_default\<lparr>gr_expired_reaped := gr_expired_reaped gc_report_default + length reaped\<rparr>"
  have report1: "gr_expired_reaped report1 = length reaped" "gr_lru_evicted report1 = 0" by (simp_all add: report1_def)
  note step = gc_step_with_pins_def Let_def r(3) [folded report1_def] report1
  show ?thesis
  proof (cases stopped)
    case True
    then obtain k where k: "\<not> clock k < gb_max_duration_ms budget" using r(5) by (meson leD)
    have "gc_effect budget now pins guards st reaped [] st1"
      using st1 pos1 reaped by (auto simp: gc_effect_def lru_evicted_def honest_def)
    then show ?thesis using True k
      by (intro that [of "finish clock n1 report1" st1 reaped "[]"]) (auto simp: step finish_fields)
  next
    case False
    obtain stopped2 n2 evicted st2 where e:
      "gc_evict ?timed budget pins guards n1 report1 st1 =
         (stopped2, n2, report1\<lparr>gr_lru_evicted := gr_lru_evicted report1 + length evicted\<rparr>, st2)"
      "mem_inv st2" "without (set evicted) st1 st2" "coverage_pos st2" "coverage_below st1 st2"
      "ms_tombstones st2 = ms_tombstones st1" "ms_addr_tombstones st2 = ms_addr_tombstones st1"
      "lru_evicted pins st1 evicted" "honest guards st1 evicted st2"
      "length evicted \<le> gb_max_events_per_step budget" "stopped2 \<longrightarrow> (\<exists>k. ?timed k)"
      "length evicted \<le> length (ms_events st1) - gb_max_total_events budget"
      "\<not> stopped2 \<longrightarrow> length (ms_events st1) - length evicted \<le> gb_max_total_events budget \<or>
         length evicted = gb_max_events_per_step budget \<or>
         hm_keys (ms_events st1) - set evicted \<subseteq> set (map bytes_to_hex pins)"
      by (rule gc_evict_ok [OF st1(1) pos1(1)])
    define report2 where "report2 = report1\<lparr>gr_lru_evicted := gr_lru_evicted report1 + length evicted\<rparr>"
    have report2: "gr_expired_reaped report2 = length reaped" "gr_lru_evicted report2 = length evicted"
      by (simp_all add: report2_def report1)
    note evict = e(1) [folded report2_def] report2
    have disj: "set reaped \<inter> set evicted = {}"
      using e(8) without_keys [OF st1(2)] by (auto simp: lru_evicted_def)
    have "length (ms_events st1) = length (ms_events st) - length reaped"
      using reaped exp(2) by (intro length_without [OF inv st1(1,2)]) auto
    with e(12) have over: "length evicted \<le> length (ms_events st) - length reaped - gb_max_total_events budget" by simp
    have eff2: "gc_effect budget now pins guards st reaped evicted st2"
      unfolding gc_effect_def
      using e st1 reaped disj over r(1,2) False without_trans [OF st1(2) e(3)] coverage_below_trans [OF pos1(2) e(5)] by auto
    show ?thesis
    proof (cases stopped2)
      case True
      then obtain k where k: "\<not> clock k < gb_max_duration_ms budget" using e(11) by (meson leD)
      show ?thesis using True False k eff2
        by (intro that [of "finish clock n2 report2" st2 reaped evicted]) (auto simp: step evict finish_fields)
    next
      case False2: False
      obtain report3 st3 where p: "gc_purge now report2 st2 = (report3, st3)" by (cases "gc_purge now report2 st2")
      note purge = gc_purge_ok [OF e(2) p]
      have without3: "without (set evicted) st1 st3" using e(3) purge(2,3) by (rule without_same)
      have "gc_effect budget now pins guards st reaped evicted st3"
        using eff2 e purge st1(4) expiry_fresh without_trans [OF st1(2) without3]
        by (auto simp: gc_effect_def coverage_pos_def coverage_below_def honest_def split: option.splits)
      moreover have "length (ms_events st3) = length (ms_events st1) - length evicted"
        using e(8) by (intro length_without [OF st1(1) purge(1) without3]) (auto simp: lru_evicted_def)
      moreover have "hm_keys (ms_events st3) = hm_keys (ms_events st1) - set evicted"
        using without_keys [OF without3] .
      ultimately show ?thesis
        using False False2 e(13) r(1,2) purge(6,7)
        by (intro that [of "finish clock n2 report3" st3 reaped evicted])
           (auto simp: step evict p finish_fields)
    qed
  qed
qed

section \<open>Guarantees of a pass\<close>

text \<open>An event that a pass removed was reaped, hence expired, or evicted.\<close>

lemma gc_effect_removed:
  assumes "gc_effect budget now pins guards st reaped evicted st'"
    and "mem_inv st" and "map_of (ms_events st) i = Some se" and "map_of (ms_events st') i = None"
  shows "i \<in> set reaped \<and> expired_at now se \<or> i \<in> set evicted \<and> i \<notin> set reaped"
proof -
  have "i \<in> set reaped \<union> set evicted"
    using assms(1,3,4) by (auto simp: gc_effect_def without_def split: if_splits)
  moreover have "expired_at now se" if "i \<in> set reaped"
    using expired_ids_keys(3) [OF assms(2), of i budget now] assms(1,3) that by (auto simp: gc_effect_def)
  ultimately show ?thesis by blast
qed

lemma gc_effect_evicted:
  assumes "gc_effect budget now pins guards st reaped evicted st'" and "i \<in> set evicted"
  shows "i \<notin> set (map bytes_to_hex pins)"
    "j \<in> hm_keys (ms_events st') \<Longrightarrow> j \<notin> set (map bytes_to_hex pins) \<Longrightarrow> recency st i < recency st j"
proof -
  obtain st1 where st1: "without (set reaped) st st1" "lru_evicted pins st1 evicted"
    using assms(1) by (auto simp: gc_effect_def)
  show "i \<notin> set (map bytes_to_hex pins)" using st1(2) assms(2) by (auto simp: lru_evicted_def)
  show "recency st i < recency st j" if "j \<in> hm_keys (ms_events st')" "j \<notin> set (map bytes_to_hex pins)"
  proof -
    have "without (set reaped \<union> set evicted) st st'" "set reaped \<inter> set evicted = {}"
      using assms(1) by (simp_all add: gc_effect_def)
    then have j: "j \<in> hm_keys (ms_events st1) - set evicted" "j \<notin> set reaped" "i \<notin> set reaped"
      using that(1) assms(2) without_keys [OF st1(1)] without_keys [of "set reaped \<union> set evicted" st st'] by auto
    then have "recency st1 i < recency st1 j" using st1(2) assms(2) that(2) by (auto simp: lru_evicted_def)
    then show ?thesis using st1(1) j by (simp add: recency_def without_def)
  qed
qed

text \<open>C9. A collection pass always completes, keeps the store's invariant and touches neither
  pinned nor live events beyond its right: it adds nothing, and every event that disappears was
  expired or was not in the pin set.\<close>

theorem gc_respects_pins:
  assumes "mem_inv st" and "coverage_pos st"
  shows "\<exists>report st'. gc_step_with_pins clock budget now pins guards st = Some (report, st') \<and> mem_inv st' \<and>
    map_of (ms_events st') \<subseteq>\<^sub>m map_of (ms_events st) \<and>
    (\<forall>i se. map_of (ms_events st) i = Some se \<longrightarrow> map_of (ms_events st') i = None \<longrightarrow>
       expired_at now se \<or> i \<notin> set (map bytes_to_hex pins))"
proof -
  obtain report st' reaped evicted where gc: "gc_step_with_pins clock budget now pins guards st = Some (report, st')"
      "gc_effect budget now pins guards st reaped evicted st'"
    using gc_step_ok [OF assms, of clock budget now pins guards] by metis
  have "map_of (ms_events st') \<subseteq>\<^sub>m map_of (ms_events st)"
    using gc(2) by (auto simp: gc_effect_def without_def map_le_def split: if_splits)
  moreover have "expired_at now se \<or> i \<notin> set (map bytes_to_hex pins)"
    if "map_of (ms_events st) i = Some se" "map_of (ms_events st') i = None" for i se
    using gc_effect_removed [OF gc(2) assms(1) that] gc_effect_evicted(1) [OF gc(2)] by blast
  ultimately show ?thesis using gc by (auto simp: gc_effect_def)
qed

text \<open>Eviction is least-recently-used: an unexpired event that a pass removed was read or
  written longer ago than every unpinned event the pass kept.\<close>

theorem gc_evicts_least_recent:
  assumes "mem_inv st" and "coverage_pos st"
    and "gc_step_with_pins clock budget now pins guards st = Some (report, st')"
    and "map_of (ms_events st) i = Some se" and "map_of (ms_events st') i = None" and "\<not> expired_at now se"
    and "map_of (ms_events st') j = Some se'" and "j \<notin> set (map bytes_to_hex pins)"
  shows "recency st i < recency st j"
proof -
  obtain reaped evicted where gc: "gc_effect budget now pins guards st reaped evicted st'"
    using gc_step_ok [OF assms(1,2), of clock budget now pins guards] assms(3) by (metis option.inject prod.inject)
  have "i \<in> set evicted" using gc_effect_removed [OF gc assms(1,4,5)] assms(6) by blast
  then show ?thesis using gc_effect_evicted(2) [OF gc] assms(7,8) by (simp add: hm_keys_map_of)
qed


text \<open>Expired events are gone for good, and deletions are remembered: an expired event that a
  pass reaps leaves an expiry tombstone, so inserting it again changes nothing; and a tombstone no
  older than the retention period survives the pass.\<close>

theorem gc_tombstones:
  assumes "mem_inv st" and "coverage_pos st"
    and "gc_step_with_pins clock budget now pins guards st = Some (report, st')"
  shows "(\<forall>i \<in> set (expired_ids budget now st). \<forall>se. map_of (ms_events st) i = Some se \<longrightarrow> map_of (ms_events st') i = None \<longrightarrow>
       (\<exists>out. insert_event ext (se_raw se) u t st' = Some (out, st'))) \<and>
    (\<forall>i r. map_of (ms_tombstones st) i = Some r \<longrightarrow> now - tb_deleted_at r \<le> TOMBSTONE_MAX_AGE_SECS \<longrightarrow>
       map_of (ms_tombstones st') i \<noteq> None)"
proof -
  obtain reaped evicted where gc: "gc_effect budget now pins guards st reaped evicted st'"
    using gc_step_ok [OF assms(1,2), of clock budget now pins guards] assms(3) by (metis option.inject prod.inject)
  have tomb: "\<exists>t. hex_to_bytes32 i = Some t \<and> map_of (ms_tombstones st') i = Some (expiry_row t now)" if "i \<in> set reaped" for i
  proof -
    have "i \<in> hm_keys (ms_events st)"
      using gc that expired_ids_keys(2) [OF assms(1), of budget now] by (auto simp: gc_effect_def)
    then obtain t where "hex_to_bytes32 i = Some t"
      using events_ok_key assms(1) by (auto simp: mem_inv_def core_inv_def)
    then show ?thesis using gc that by (auto simp: gc_effect_def)
  qed
  have "\<exists>out. insert_event ext (se_raw se) u t st' = Some (out, st')"
    if i: "map_of (ms_events st) i = Some se" "map_of (ms_events st') i = None" "i \<in> set (expired_ids budget now st)" for i se
  proof -
    have "i \<in> set reaped"
      using gc_effect_removed [OF gc assms(1) i(1,2)] gc i(3) by (cases evicted) (auto simp: gc_effect_def)
    then obtain b where b: "hex_to_bytes32 i = Some b" "map_of (ms_tombstones st') i = Some (expiry_row b now)"
      using tomb by blast
    have "ev_id (se_raw se) = i" using assms(1) i(1) by (auto simp: mem_inv_def core_inv_def events_ok_def)
    then show ?thesis
      using b by (auto simp: insert_event_def id_bytes_def expiry_row_def tombstone_applies_def)
  qed
  moreover have "map_of (ms_tombstones st') i \<noteq> None"
    if "map_of (ms_tombstones st) i = Some r" "now - tb_deleted_at r \<le> TOMBSTONE_MAX_AGE_SECS" for i r
    using gc that tomb [of i] by (cases "i \<in> set reaped") (auto simp: gc_effect_def stale_def)
  ultimately show ?thesis by blast
qed

text \<open>The events past their NIP-40 expiry.\<close>

definition expired_set :: "u64 \<Rightarrow> mem_state \<Rightarrow> string set" where
  "expired_set now st = {i. \<exists>se ex. map_of (ms_events st) i = Some se \<and> expiration (se_raw se) = Some ex \<and> ex \<le> now}"

lemma expired_ids_set:
  assumes "mem_inv st"
  shows "set (expired_ids budget now st) \<subseteq> expired_set now st"
    "length (expired_ids budget now st) = min (gb_max_events_per_step budget) (card (expired_set now st))"
proof -
  have wf: "hm_wf (ms_events st)" using assms by (simp add: mem_inv_def core_inv_def events_ok_def)
  let ?xs = "map fst (filter (\<lambda>(_, ev). expired_at now ev) (ms_events st))"
  have "expired_at now se \<longleftrightarrow> (\<exists>ex. expiration (se_raw se) = Some ex \<and> ex \<le> now)" for se
    by (auto simp: expired_at_def split: option.splits)
  moreover have "i \<in> set ?xs \<longleftrightarrow> (\<exists>se. (i, se) \<in> set (ms_events st) \<and> expired_at now se)" for i
    by (auto simp: image_iff split_def)
  ultimately have set: "set ?xs = expired_set now st"
    unfolding expired_set_def hm_mem_iff [OF wf] by blast
  show "set (expired_ids budget now st) \<subseteq> expired_set now st"
    unfolding set [symmetric] expired_ids_def by (rule set_take_subset)
  have "distinct ?xs" using wf by (simp add: distinct_map_filter)
  then have "length ?xs = card (expired_set now st)" unfolding set [symmetric] by (metis distinct_card)
  then show "length (expired_ids budget now st) = min (gb_max_events_per_step budget) (card (expired_set now st))"
    by (simp add: expired_ids_def min.commute)
qed

text \<open>C11. What a pass does that is not cut short by its time budget, on any store in the invariant. It
  removes expired events, all of them or as many as the step budget allows; then, from what is left, it
  evicts unpinned events that were used less recently than every unpinned event that stays, no more than
  the step budget and never below the ceiling; nothing else goes. Afterwards the store is within its ceiling, or the
  pass has evicted its full step budget, or only pinned events are left.\<close>

theorem gc_progress:
  assumes "mem_inv st" and "coverage_pos st" and "\<forall>n. clock n < gb_max_duration_ms budget"
  shows "\<exists>report st' reaped evicted. gc_step_with_pins clock budget now pins guards st = Some (report, st') \<and>
    (\<forall>i. map_of (ms_events st') i = (if i \<in> reaped \<union> evicted then None else map_of (ms_events st) i)) \<and>
    reaped \<subseteq> expired_set now st \<and> gr_expired_reaped report = card reaped \<and>
    card reaped = min (gb_max_events_per_step budget) (card (expired_set now st)) \<and>
    evicted \<subseteq> hm_keys (ms_events st) - reaped - set (map bytes_to_hex pins) \<and> gr_lru_evicted report = card evicted \<and>
    card evicted \<le> gb_max_events_per_step budget \<and>
    card evicted \<le> length (ms_events st) - card reaped - gb_max_total_events budget \<and>
    (\<forall>i \<in> evicted. \<forall>j \<in> hm_keys (ms_events st') - set (map bytes_to_hex pins). recency st i < recency st j) \<and>
    (length (ms_events st') \<le> gb_max_total_events budget \<or> card evicted = gb_max_events_per_step budget \<or>
     hm_keys (ms_events st') \<subseteq> set (map bytes_to_hex pins))"
proof -
  obtain report st' reaped evicted where gc: "gc_step_with_pins clock budget now pins guards st = Some (report, st')"
      "gc_effect budget now pins guards st reaped evicted st'"
      "gr_expired_reaped report = length reaped" "gr_lru_evicted report = length evicted"
      "(\<forall>n. clock n < gb_max_duration_ms budget) \<longrightarrow> reaped = expired_ids budget now st \<and>
       (length (ms_events st') \<le> gb_max_total_events budget \<or> length evicted = gb_max_events_per_step budget \<or>
        hm_keys (ms_events st') \<subseteq> set (map bytes_to_hex pins))"
    by (rule gc_step_ok [OF assms(1,2)])
  have reaped: "reaped = expired_ids budget now st" using gc(5) assms(3) by blast
  have eff: "without (set reaped \<union> set evicted) st st'" "distinct reaped"
      "length evicted \<le> length (ms_events st) - length reaped - gb_max_total_events budget"
      "length evicted \<le> gb_max_events_per_step budget"
    using gc(2) by (simp_all add: gc_effect_def)
  obtain st1 where st1: "without (set reaped) st st1" "lru_evicted pins st1 evicted"
    using gc(2) unfolding gc_effect_def by blast
  have keys: "hm_keys (ms_events st1) = hm_keys (ms_events st) - set reaped"
      "hm_keys (ms_events st') = hm_keys (ms_events st) - set reaped - set evicted"
    using without_keys [OF st1(1)] without_keys [OF eff(1)] by auto
  have "recency st1 i = recency st i" if "i \<notin> set reaped" for i
    using st1(1) that by (simp add: recency_def without_def)
  note recent = this
  have lru: "distinct evicted" "set evicted \<subseteq> hm_keys (ms_events st) - set reaped - set (map bytes_to_hex pins)"
      "\<forall>i \<in> set evicted. \<forall>j \<in> hm_keys (ms_events st') - set (map bytes_to_hex pins). recency st1 i < recency st1 j"
    using st1(2) unfolding lru_evicted_def keys by auto
  have older: "\<forall>i \<in> set evicted. \<forall>j \<in> hm_keys (ms_events st') - set (map bytes_to_hex pins). recency st i < recency st j"
  proof (intro ballI)
    fix i j
    assume i: "i \<in> set evicted" and j: "j \<in> hm_keys (ms_events st') - set (map bytes_to_hex pins)"
    then have "i \<notin> set reaped" "j \<notin> set reaped" using lru(2) unfolding keys by auto
    then show "recency st i < recency st j" using lru(3) i j recent by metis
  qed
  have card: "card (set reaped) = length reaped" "card (set evicted) = length evicted"
    using eff(2) lru(1) by (simp_all add: distinct_card)
  have gone: "\<forall>i. map_of (ms_events st') i = (if i \<in> set reaped \<union> set evicted then None else map_of (ms_events st) i)"
    using eff(1) by (simp add: without_def)
  have exp: "set reaped \<subseteq> expired_set now st"
      "card (set reaped) = min (gb_max_events_per_step budget) (card (expired_set now st))"
    using expired_ids_set [OF assms(1), of budget now] card(1) by (simp_all add: reaped)
  have left: "length (ms_events st') \<le> gb_max_total_events budget \<or> card (set evicted) = gb_max_events_per_step budget \<or>
      hm_keys (ms_events st') \<subseteq> set (map bytes_to_hex pins)"
    using gc(5) assms(3) by (simp add: card)
  show ?thesis
    by (rule exI [of _ report], rule exI [of _ st'], rule exI [of _ "set reaped"], rule exI [of _ "set evicted"], intro conjI)
       (rule gc(1) gone exp gc(3,4) [folded card] lru(2) eff(3,4) [folded card] older left)+
qed

section \<open>Recording coverage\<close>

text \<open>The coverage ledger is a running maximum per filter and relay: recording a bound raises the
  row to it when it is higher, leaves it otherwise, never creates an empty row and touches no other
  row; and the maximum reported for a filter is the largest of its rows.\<close>

theorem record_coverage_max:
  "get_coverage fh relay (record_coverage fh relay c st) =
     (case get_coverage fh relay st of
        Some v \<Rightarrow> Some (max v c)
      | None \<Rightarrow> if c = 0 then None else Some c) \<and>
   ((fh', relay') \<noteq> (fh, relay) \<longrightarrow> get_coverage fh' relay' (record_coverage fh relay c st) = get_coverage fh' relay' st) \<and>
   (case coverage_max_for_filter_hash fh st of
      None \<Rightarrow> coverage_rows_for_filter_hash fh st = []
    | Some m \<Rightarrow> m \<in> snd ` set (coverage_rows_for_filter_hash fh st) \<and>
        (\<forall>(_, v) \<in> set (coverage_rows_for_filter_hash fh st). v \<le> m))"
proof -
  let ?rows = "filter (\<lambda>((f, _), _). f = fh) (ms_coverage st)"
  have snd: "map snd ?rows = map snd (coverage_rows_for_filter_hash fh st)"
    by (simp add: coverage_rows_for_filter_hash_def split_def comp_def)
  have "case max_by (\<le>) vs of None \<Rightarrow> vs = [] | Some m \<Rightarrow> m \<in> set vs \<and> (\<forall>v \<in> set vs. v \<le> m)" for vs :: "nat list"
  proof (cases "max_by (\<le>) vs")
    case (Some m)
    have "v \<le> m" if "v \<in> set vs" for v
      by (rule max_by_ge [where le = "(\<le>)", OF _ _ Some that]) auto
    then show ?thesis using max_by_mem [OF Some] Some by auto
  qed simp
  from this [of "map snd ?rows"] have "case coverage_max_for_filter_hash fh st of
      None \<Rightarrow> coverage_rows_for_filter_hash fh st = []
    | Some m \<Rightarrow> m \<in> snd ` set (coverage_rows_for_filter_hash fh st) \<and>
        (\<forall>(_, v) \<in> set (coverage_rows_for_filter_hash fh st). v \<le> m)"
    unfolding coverage_max_for_filter_hash_def snd by (auto split: option.splits)
  moreover have "get_coverage fh relay (record_coverage fh relay c st) =
     (case get_coverage fh relay st of Some v \<Rightarrow> Some (max v c) | None \<Rightarrow> if c = 0 then None else Some c)"
    by (auto simp: get_coverage_def record_coverage_def Let_def hash_map.get_put unwrap_or_def max_def split: option.splits)
  moreover have "(fh', relay') \<noteq> (fh, relay) \<longrightarrow> get_coverage fh' relay' (record_coverage fh relay c st) = get_coverage fh' relay' st"
    by (auto simp: get_coverage_def record_coverage_def Let_def hash_map.get_put)
  ultimately show ?thesis by blast
qed

lemma record_coverage_pos: "coverage_pos st \<Longrightarrow> coverage_pos (record_coverage fh relay c st)"
  by (auto simp: coverage_pos_def record_coverage_def Let_def hash_map.get_put split: if_splits)

lemma record_coverage_inv:
  assumes "mem_inv st"
  shows "mem_inv (record_coverage fh relay c st)"
proof -
  have "hm_wf (hm_insert (fh, relay) c (ms_coverage st))"
    using assms by (simp add: mem_inv_def core_inv_def hash_map.wf_put)
  then show ?thesis using assms mem_inv_coverage by (simp add: record_coverage_def Let_def)
qed

section \<open>Instances\<close>

text \<open>A ceiling of zero events over the store with one note, and a row that covers the note.\<close>

definition demo_budget :: gc_budget where
  "demo_budget = \<lparr>gb_max_events_per_step = 10, gb_max_duration_ms = 50, gb_max_total_events = 0\<rparr>"

definition demo_guard :: coverage_guard where
  "demo_guard = \<lparr>cg_filter_hash = ''f'', cg_relay = ''wss://a'', cg_covered_through = 150, cg_matches = (\<lambda>_ _ _ _ _. True)\<rparr>"

definition demo_covered :: mem_state where
  "demo_covered = demo_store\<lparr>ms_coverage := [((''f'', ''wss://a''), 150)]\<rparr>"

lemma demo_covered_facts:
  "mem_inv demo_covered" "coverage_pos demo_covered"
  "ms_events demo_covered = [(hex64 (CHR ''3''), \<lparr>se_raw = demo_note, se_received_at_ms = 7\<rparr>)]"
proof -
  show "mem_inv demo_covered"
    unfolding demo_covered_def using demo_store_facts(1) by (rule mem_inv_coverage) simp
qed (simp_all add: demo_covered_def demo_store_facts(4) coverage_pos_def)

lemma demo_note_unexpired: "\<not> expired_at now \<lparr>se_raw = demo_note, se_received_at_ms = t\<rparr>"
  by (simp add: expired_at_def demo_note_def example_event_def expiration_def find_tag_def)

lemma demo_hex: "bytes_to_hex (replicate 32 0x33) = hex64 (CHR ''3'')"
  by code_simp

theorem gc_respects_pins_witness:
  "\<exists>report st. gc_step_with_pins (\<lambda>_. 0) demo_budget 1000 [replicate 32 0x33] [demo_guard] demo_covered = Some (report, st) \<and>
     map_of (ms_events st) (hex64 (CHR ''3'')) \<noteq> None"
proof -
  from gc_respects_pins [OF demo_covered_facts(1,2), of "\<lambda>_. 0" demo_budget 1000 "[replicate 32 0x33]" "[demo_guard]"]
  obtain report st where st: "gc_step_with_pins (\<lambda>_. 0) demo_budget 1000 [replicate 32 0x33] [demo_guard] demo_covered = Some (report, st)"
      "\<forall>i se. map_of (ms_events demo_covered) i = Some se \<longrightarrow> map_of (ms_events st) i = None \<longrightarrow>
         expired_at 1000 se \<or> i \<notin> set (map bytes_to_hex [replicate 32 0x33])" by blast
  have "map_of (ms_events demo_covered) (hex64 (CHR ''3'')) = Some \<lparr>se_raw = demo_note, se_received_at_ms = 7\<rparr>"
    by (simp add: demo_covered_facts(3))
  then have "map_of (ms_events st) (hex64 (CHR ''3'')) \<noteq> None"
    using st(2) demo_note_unexpired by (fastforce simp: demo_hex)
  with st(1) show ?thesis by blast
qed



theorem gc_progress_witness:
  "\<exists>report st. gc_step_with_pins (\<lambda>_. 0) demo_budget 1000 [] [demo_guard] demo_covered = Some (report, st) \<and>
     (gr_lru_evicted report = 10 \<or> ms_events st = [])"
  using gc_progress [OF demo_covered_facts(1,2), of "\<lambda>_. 0" demo_budget 1000 "[]" "[demo_guard]"]
  by (auto simp: demo_budget_def hm_keys_def)

text \<open>A store with a second, more recent event, under a ceiling of one.\<close>

lemma regular_insert:
  assumes "mem_inv st" "plain_arrival e t" "untombstoned e st" "coordinate e = None" "ev_id e \<notin> hm_keys (ms_events st)"
  obtains out st' where "insert_event ext e u t st = Some (out, st')" "mem_inv st'"
    "ms_events st' = hm_insert (ev_id e) \<lparr>se_raw = e, se_received_at_ms = t\<rparr> (ms_events st)"
    "ms_tombstones st' = ms_tombstones st" "ms_coverage st' = ms_coverage st"
    "ms_access_index st' = hm_insert (ev_id e) (ms_access_seq st + 1) (ms_access_index st)"
proof -
  have "same_body e st" using assms(5) by (simp add: same_body_def hm_keys_map_of)
  then obtain out st' where res: "insert_event ext e u t st = Some (out, st')" "mem_inv st'"
    using insert_event_ok [OF assms(1)] by blast
  then have "handle_normal_insert ext e u t st = Some (out, st')"
    by (simp add: insert_event_plain [OF assms(2,3)] assms(4))
  then show ?thesis
  proof (cases rule: handle_normal_insert_cases)
    case (dup i)
    then show ?thesis using assms(5) by simp
  next
    case (fresh i)
    then show ?thesis
      by (intro that [OF res]) (simp_all add: stored_state_def put_event_def access_stamp_def Let_def)
  qed
qed

lemma example_plain:
  assumes "storable (example_event i a s 1 tags c)" and "find_tag ''expiration'' (example_event i a s 1 tags c) = None"
  shows "plain_arrival (example_event i a s 1 tags c) t" "coordinate (example_event i a s 1 tags c) = None"
    "\<not> expired_at now \<lparr>se_raw = example_event i a s 1 tags c, se_received_at_ms = t\<rparr>"
  using assms
  by (simp_all add: plain_arrival_def coordinate_def example_event_def is_param_replaceable_def ev_is_replaceable_def
      is_replaceable_def is_addressable_def expiration_def expired_at_def)

definition demo_reply :: raw_event where
  "demo_reply = example_event (CHR ''7'') (CHR ''b'') 300 1 [] ''reply''"

theorem gc_evicts_least_recent_witness:
  "\<exists>st report st' i j. mem_inv st \<and>
     gc_step_with_pins (\<lambda>_. 0) (demo_budget\<lparr>gb_max_total_events := 1\<rparr>) 1000 [] [] st = Some (report, st') \<and>
     map_of (ms_events st) i \<noteq> None \<and> map_of (ms_events st') i = None \<and> map_of (ms_events st') j \<noteq> None \<and>
     recency st i < recency st j"
proof -
  let ?b = "demo_budget\<lparr>gb_max_total_events := 1\<rparr>"
  have "storable demo_reply" unfolding demo_reply_def by (rule storable_example; code_simp)
  moreover have "find_tag ''expiration'' demo_reply = None" by (simp add: demo_reply_def example_event_def find_tag_def)
  ultimately have reply: "plain_arrival demo_reply 9" "coordinate demo_reply = None"
      "\<not> expired_at 1000 \<lparr>se_raw = demo_reply, se_received_at_ms = 9\<rparr>"
    unfolding demo_reply_def by (rule example_plain; assumption)+
  have un: "untombstoned demo_reply demo_covered"
    using reply(2) by (simp add: untombstoned_def demo_covered_def demo_store_facts addr_tombstone_for_def demo_reply_def
        example_event_def is_param_replaceable_def is_addressable_def)
  have new: "ev_id demo_reply \<notin> hm_keys (ms_events demo_covered)"
    by (simp add: demo_covered_facts(3) hm_keys_def demo_reply_def example_event_def)
  obtain out st where st: "insert_event demo_ext demo_reply ''wss://a'' 9 demo_covered = Some (out, st)" "mem_inv st"
      "ms_events st = hm_insert (ev_id demo_reply) \<lparr>se_raw = demo_reply, se_received_at_ms = 9\<rparr> (ms_events demo_covered)"
      "ms_tombstones st = ms_tombstones demo_covered" "ms_coverage st = ms_coverage demo_covered"
      "ms_access_index st = hm_insert (ev_id demo_reply) (ms_access_seq demo_covered + 1) (ms_access_index demo_covered)"
    by (rule regular_insert [OF demo_covered_facts(1) reply(1) un reply(2) new])
  have id: "ev_id demo_reply = hex64 (CHR ''7'')" by (simp add: demo_reply_def example_event_def)
  have evs: "ms_events st = [(hex64 (CHR ''3''), \<lparr>se_raw = demo_note, se_received_at_ms = 7\<rparr>),
      (hex64 (CHR ''7''), \<lparr>se_raw = demo_reply, se_received_at_ms = 9\<rparr>)]"
    by (simp add: st(3) demo_covered_facts(3) id)
  have pos: "coverage_pos st" using demo_covered_facts(2) st(5) by (simp add: coverage_pos_def)
  obtain report st' reaped evicted where gc: "gc_step_with_pins (\<lambda>_. 0) ?b 1000 [] [] st = Some (report, st')"
      "gc_effect ?b 1000 [] [] st reaped evicted st'" "gr_expired_reaped report = length reaped" "gr_lru_evicted report = length evicted"
      "(\<forall>n::nat. (0::nat) < gb_max_duration_ms ?b) \<longrightarrow> reaped = expired_ids ?b 1000 st \<and>
       (length (ms_events st') \<le> gb_max_total_events ?b \<or> length evicted = gb_max_events_per_step ?b \<or>
        hm_keys (ms_events st') \<subseteq> set (map bytes_to_hex []))"
    by (rule gc_step_ok [OF st(2) pos])
  have "expired_ids ?b 1000 st = []" using reply(3) demo_note_unexpired by (simp add: expired_ids_def evs)
  then have r: "reaped = []" using gc(5) by (simp add: demo_budget_def)
  have ev1: "length evicted \<le> 1" using gc(2) by (simp add: gc_effect_def r evs demo_budget_def)
  have without: "without (set evicted) st st'" using gc(2) by (simp add: gc_effect_def r)
  obtain st1 where "lru_evicted [] st1 evicted" "without {} st st1" using gc(2) by (auto simp: gc_effect_def r)
  then have ev2: "distinct evicted" "set evicted \<subseteq> hm_keys (ms_events st)"
    using without_keys [of "{}" st st1] by (auto simp: lru_evicted_def)
  have "length (ms_events st') = 2 - length evicted"
    using length_without [OF st(2) _ without ev2] gc(2) by (simp add: gc_effect_def evs)
  then have len: "length evicted = 1" using ev1 gc(5) by (auto simp: demo_budget_def hm_keys_def)
  then obtain i where i: "evicted = [i]" by (auto simp: length_Suc_conv)
  define j where "j = (if i = hex64 (CHR ''3'') then hex64 (CHR ''7'') else hex64 (CHR ''3''))"
  have i2: "i = hex64 (CHR ''3'') \<or> i = hex64 (CHR ''7'')" using ev2(2) i by (auto simp: evs hm_keys_def)
  obtain se where se: "map_of (ms_events st) i = Some se" "\<not> expired_at 1000 se"
    using i2 reply(3) demo_note_unexpired by (auto simp: evs)
  obtain se' where se': "map_of (ms_events st') j = Some se'"
    using without i2 by (auto simp: without_def i j_def evs)
  have "map_of (ms_events st') i = None" using without by (simp add: without_def i)
  moreover from gc_evicts_least_recent [OF st(2) pos gc(1) se(1) this se(2) se'] have "recency st i < recency st j" by simp
  ultimately show ?thesis using st(2) gc(1) se(1) se' by blast
qed

definition demo_fading :: raw_event where
  "demo_fading = example_event (CHR ''6'') (CHR ''a'') 100 1 [[''expiration'', ''500'']] ''soon gone''"

theorem gc_tombstones_witness:
  "\<exists>st report st' out. insert_event demo_ext demo_fading ''wss://a'' 7 mem_state_new = Some (out, st) \<and>
     gc_step_with_pins (\<lambda>_. 0) demo_budget 1000 [] [] st = Some (report, st') \<and>
     (\<exists>out'. insert_event demo_ext demo_fading ''wss://b'' 8 st' = Some (out', st'))"
proof -
  have "storable demo_fading" unfolding demo_fading_def by (rule storable_example; code_simp)
  moreover have ex: "expiration demo_fading = Some 500" by code_simp
  ultimately have fade: "plain_arrival demo_fading 7" "coordinate demo_fading = None"
    by (simp_all add: plain_arrival_def coordinate_def is_param_replaceable_def ev_is_replaceable_def
      is_replaceable_def is_addressable_def) (simp_all add: demo_fading_def example_event_def)
  have un: "untombstoned demo_fading mem_state_new"
    by (simp add: untombstoned_def addr_tombstone_for_def mem_state_new_def split: option.splits)
  have new: "ev_id demo_fading \<notin> hm_keys (ms_events mem_state_new)" by (simp add: mem_state_new_def)
  obtain out st where st: "insert_event demo_ext demo_fading ''wss://a'' 7 mem_state_new = Some (out, st)" "mem_inv st"
      "ms_events st = hm_insert (ev_id demo_fading) \<lparr>se_raw = demo_fading, se_received_at_ms = 7\<rparr> (ms_events mem_state_new)"
      "ms_tombstones st = ms_tombstones mem_state_new" "ms_coverage st = ms_coverage mem_state_new"
      "ms_access_index st = hm_insert (ev_id demo_fading) (ms_access_seq mem_state_new + 1) (ms_access_index mem_state_new)"
    by (rule regular_insert [OF mem_inv_new fade(1) un fade(2) new])
  have pos: "coverage_pos st" using st(5) by (simp add: coverage_pos_def mem_state_new_def)
  have evs: "ms_events st = [(ev_id demo_fading, \<lparr>se_raw = demo_fading, se_received_at_ms = 7\<rparr>)]"
    by (simp add: st(3) mem_state_new_def)
  have exp: "expired_ids demo_budget 1000 st = [ev_id demo_fading]"
    by (simp add: expired_ids_def evs expired_at_def ex demo_budget_def)
  obtain report st' reaped evicted where gc: "gc_step_with_pins (\<lambda>_. 0) demo_budget 1000 [] [] st = Some (report, st')"
      "gc_effect demo_budget 1000 [] [] st reaped evicted st'" "gr_expired_reaped report = length reaped" "gr_lru_evicted report = length evicted"
      "(\<forall>n::nat. (0::nat) < gb_max_duration_ms demo_budget) \<longrightarrow> reaped = expired_ids demo_budget 1000 st \<and>
       (length (ms_events st') \<le> gb_max_total_events demo_budget \<or> length evicted = gb_max_events_per_step demo_budget \<or>
        hm_keys (ms_events st') \<subseteq> set (map bytes_to_hex []))"
    by (rule gc_step_ok [OF st(2) pos])
  have "reaped = [ev_id demo_fading]" using gc(5) exp by (simp add: demo_budget_def)
  then have gone: "map_of (ms_events st') (ev_id demo_fading) = None" using gc(2) by (simp add: gc_effect_def without_def)
  have "\<exists>out'. insert_event demo_ext (se_raw \<lparr>se_raw = demo_fading, se_received_at_ms = 7\<rparr>) ''wss://b'' 8 st' = Some (out', st')"
    using gc_tombstones [OF st(2) pos gc(1), of demo_ext "''wss://b''" 8] gone by (simp add: exp evs)
  then show ?thesis using st(1) gc(1) by auto
qed

theorem record_coverage_max_witness:
  "get_coverage ''g'' ''r'' (record_coverage ''f'' ''r'' 5 (record_coverage ''g'' ''r'' 7 mem_state_new)) = Some 7 \<and>
   get_coverage ''f'' ''r'' (record_coverage ''f'' ''r'' 5 (record_coverage ''f'' ''r'' 7 mem_state_new)) = Some 7"
proof -
  have "get_coverage ''g'' ''r'' (record_coverage ''g'' ''r'' 7 mem_state_new) = Some 7"
    "get_coverage ''f'' ''r'' (record_coverage ''f'' ''r'' 7 mem_state_new) = Some 7"
    by (simp_all add: get_coverage_def record_coverage_def mem_state_new_def hash_map.get_put unwrap_or_def)
  then show ?thesis
    using record_coverage_max [of "''f''" "''r''" 5 "record_coverage ''g'' ''r'' 7 mem_state_new" "''g''" "''r''"]
      record_coverage_max [of "''f''" "''r''" 5 "record_coverage ''f'' ''r'' 7 mem_state_new"]
    by simp
qed

end
