(* ===== verification/Store_Domain.thy ===== *)
theory Store_Domain
  imports Store_Query
begin

text \<open>
  The module-private key/value namespaces of the store:
  \<open>src/crates/nmp-store/src/mem/domain.rs\<close>, \<open>domain_handle.rs\<close> (the in-memory variant) and
  \<open>domain_migration.rs\<close>. A handle shares its namespace's map with the store, so it is modelled by
  the namespace it was opened for, and its operations update that map in the state. The
  application function of a migration is an argument: it turns the staged writes into staged
  writes, or fails with a reason.

  The lemmas show the map laws of a handle, that a handle never reaches another namespace, and
  what a migration run does on every branch: refused on a newer schema, idle at the target, otherwise the
  due migrations in order up to the first failure, which leaves the version alone.
\<close>

section \<open>Handles\<close>

definition domain_rows :: "mem_state \<Rightarrow> string \<Rightarrow> (bytes \<times> bytes) list" where
  "domain_rows st namespace = unwrap_or [] (map_of (ms_domain_data st) namespace)"

definition domain_open :: "string \<Rightarrow> mem_state \<Rightarrow> string \<times> mem_state" where
  "domain_open namespace st =
     (namespace, st\<lparr>ms_domain_data := hm_entry [] namespace (\<lambda>data. data) (ms_domain_data st)\<rparr>)"

definition domain_put :: "string \<Rightarrow> bytes \<Rightarrow> bytes \<Rightarrow> mem_state \<Rightarrow> mem_state" where
  "domain_put handle key value st =
     st\<lparr>ms_domain_data := hm_entry [] handle (hm_insert key value) (ms_domain_data st)\<rparr>"

definition domain_get :: "string \<Rightarrow> bytes \<Rightarrow> mem_state \<Rightarrow> bytes option" where
  "domain_get handle key st = map_of (domain_rows st handle) key"

definition domain_delete :: "string \<Rightarrow> bytes \<Rightarrow> mem_state \<Rightarrow> bool \<times> mem_state" where
  "domain_delete handle key st =
     (map_of (domain_rows st handle) key \<noteq> None,
      st\<lparr>ms_domain_data := hm_entry [] handle (hm_remove key) (ms_domain_data st)\<rparr>)"

definition starts_with :: "bytes \<Rightarrow> bytes \<Rightarrow> bool" where
  "starts_with prefix key \<longleftrightarrow> take (length prefix) key = prefix"

definition domain_scan_prefix :: "string \<Rightarrow> bytes \<Rightarrow> mem_state \<Rightarrow> (bytes \<times> bytes) list" where
  "domain_scan_prefix handle prefix st = filter (\<lambda>(k, _). starts_with prefix k) (domain_rows st handle)"

section \<open>Migrations\<close>

type_synonym migration_tx = "(bytes \<times> bytes) list"

definition tx_put :: "bytes \<Rightarrow> bytes \<Rightarrow> migration_tx \<Rightarrow> migration_tx" where
  "tx_put key value tx = tx @ [(key, value)]"

definition tx_writes :: "migration_tx \<Rightarrow> (bytes \<times> bytes) list" where
  "tx_writes tx = tx"

record domain_migration =
  dm_from_version :: u32
  dm_to_version :: u32
  dm_apply :: "migration_tx \<Rightarrow> string + migration_tx"

definition flush_writes :: "string \<Rightarrow> (bytes \<times> bytes) list \<Rightarrow> mem_state \<Rightarrow> mem_state" where
  "flush_writes namespace writes st = fold (\<lambda>(k, v). domain_put namespace k v) writes st"

fun apply_migrations ::
  "string \<Rightarrow> u32 \<Rightarrow> u32 \<Rightarrow> domain_migration list \<Rightarrow> mem_state \<Rightarrow> (store_error + unit) \<times> mem_state" where
  "apply_migrations namespace current target_version [] st = (Inr (), st)"
| "apply_migrations namespace current target_version (m # ms) st =
     (if dm_from_version m < current \<or> dm_from_version m \<ge> target_version
      then apply_migrations namespace current target_version ms st
      else
        case dm_apply m [] of
          Inl reason \<Rightarrow> (Inl (MigrationFailed namespace (dm_from_version m) (dm_to_version m) reason), st)
        | Inr tx \<Rightarrow> apply_migrations namespace current target_version ms (flush_writes namespace (tx_writes tx) st))"

definition run_migrations ::
  "string \<Rightarrow> u32 \<Rightarrow> domain_migration list \<Rightarrow> mem_state \<Rightarrow> (store_error + unit) \<times> mem_state" where
  "run_migrations namespace target_version migrations st =
     (let current = unwrap_or 0 (map_of (ms_domain_versions st) namespace) in
      if current > target_version then (Inl (SchemaTooNew namespace current target_version), st)
      else if current = target_version then (Inr (), st)
      else
        let st = snd (domain_open namespace st) in
        case apply_migrations namespace current target_version migrations st of
          (Inl err, st) \<Rightarrow> (Inl err, st)
        | (Inr _, st) \<Rightarrow>
            (Inr (), st\<lparr>ms_domain_versions := hm_insert namespace target_version (ms_domain_versions st)\<rparr>))"

section \<open>A handle is a map of its own\<close>

text \<open>The contract of a key/value handle: map laws on its own keys.\<close>

locale kv_handle =
  fixes get :: "'k \<Rightarrow> 's \<Rightarrow> 'v option"
    and put :: "'k \<Rightarrow> 'v \<Rightarrow> 's \<Rightarrow> 's"
    and del :: "'k \<Rightarrow> 's \<Rightarrow> 's"
  assumes get_put: "get k (put k' v s) = (if k = k' then Some v else get k s)"
    and get_del: "get k (del k' s) = (if k = k' then None else get k s)"
begin

lemma get_puts: "get k (fold (\<lambda>(a, v). put a v) kvs s) = (case map_of (rev kvs) k of Some v \<Rightarrow> Some v | None \<Rightarrow> get k s)"
proof (induction kvs arbitrary: s)
  case (Cons kv kvs)
  obtain a v where kv: "kv = (a, v)" by (cases kv)
  show ?case using Cons.IH [of "put a v s"] by (auto simp: kv get_put map_add_def split: option.splits)
qed simp

lemma put_overwrites: "get k (put k v (put k w s)) = Some v"
  by (simp add: get_put)

end

lemma domain_rows_entry: "domain_rows (st\<lparr>ms_domain_data := hm_entry [] ns f (ms_domain_data st)\<rparr>) ns' =
  (if ns' = ns then f (domain_rows st ns) else domain_rows st ns')"
  by (simp add: domain_rows_def hm_get_entry unwrap_or_def)

interpretation domain: kv_handle "domain_get ns" "domain_put ns" "\<lambda>k st. snd (domain_delete ns k st)" for ns
  by unfold_locales
     (simp_all add: domain_get_def domain_put_def domain_delete_def domain_rows_entry hash_map.get_put hash_map.get_del)

lemma domain_rows_frame:
  "ns' \<noteq> ns \<Longrightarrow> domain_rows (domain_put ns k v st) ns' = domain_rows st ns'"
  "ns' \<noteq> ns \<Longrightarrow> domain_rows (snd (domain_delete ns k st)) ns' = domain_rows st ns'"
  "domain_rows (snd (domain_open ns st)) ns' = domain_rows st ns'"
  by (auto simp: domain_put_def domain_delete_def domain_open_def domain_rows_entry)

lemma domain_rows_flush: "ns' \<noteq> ns \<Longrightarrow> domain_rows (flush_writes ns kvs st) ns' = domain_rows st ns'"
  unfolding flush_writes_def
  by (induction kvs arbitrary: st) (auto simp: domain_rows_frame)

text \<open>Handles read back what they wrote: a put is what the next get of the key returns, a delete
  says whether the key was there and removes it, other keys keep their values, and a prefix scan
  returns exactly the rows whose key starts with the prefix.\<close>

theorem domain_handle_laws:
  "domain_get ns k' (domain_put ns k v st) = (if k' = k then Some v else domain_get ns k' st) \<and>
   fst (domain_delete ns k st) = (domain_get ns k st \<noteq> None) \<and>
   domain_get ns k' (snd (domain_delete ns k st)) = (if k' = k then None else domain_get ns k' st) \<and>
   set (domain_scan_prefix ns p st) = {(a, b) \<in> set (domain_rows st ns). \<exists>r. a = p @ r}"
proof -
  have "starts_with p a \<longleftrightarrow> (\<exists>r. a = p @ r)" for a
    unfolding starts_with_def by (metis append_eq_conv_conj append_take_drop_id)
  then have "set (domain_scan_prefix ns p st) = {(a, b) \<in> set (domain_rows st ns). \<exists>r. a = p @ r}"
    by (auto simp: domain_scan_prefix_def)
  then show ?thesis by (simp add: domain.get_put domain.get_del) (simp add: domain_delete_def domain_get_def)
qed

text \<open>Namespaces are isolated: no write, delete or migration in one namespace is visible in
  another.\<close>

theorem domain_isolation:
  assumes "ns' \<noteq> ns"
  shows "domain_get ns' k' (domain_put ns k v st) = domain_get ns' k' st \<and>
    domain_get ns' k' (snd (domain_delete ns k st)) = domain_get ns' k' st \<and>
    domain_get ns' k' (snd (domain_open ns st)) = domain_get ns' k' st \<and>
    domain_get ns' k' (snd (run_migrations ns target ms st)) = domain_get ns' k' st"
proof -
  have mig: "domain_rows (snd (apply_migrations ns c t ms s)) ns' = domain_rows s ns'" for c t s
    using assms by (induction ms arbitrary: s) (auto simp: domain_rows_flush split: sum.splits)
  have versions: "domain_rows (s\<lparr>ms_domain_versions := x\<rparr>) ns' = domain_rows s ns'" for s x by (simp add: domain_rows_def)
  have "domain_rows (snd (run_migrations ns target ms st)) ns' = domain_rows st ns'"
    using mig [of "unwrap_or 0 (map_of (ms_domain_versions st) ns)" target "snd (domain_open ns st)"]
    by (auto simp: run_migrations_def Let_def domain_rows_frame versions split: prod.splits sum.splits)
  then show ?thesis using assms by (simp add: domain_get_def domain_rows_frame)
qed

section \<open>Migrations run once\<close>

lemma apply_migrations_versions:
  "ms_domain_versions (snd (apply_migrations ns c t ms st)) = ms_domain_versions st"
proof -
  have flush: "ms_domain_versions (flush_writes ns kvs s) = ms_domain_versions s" for kvs s
    unfolding flush_writes_def by (induction kvs arbitrary: s) (auto simp: domain_put_def)
  show ?thesis by (induction ms arbitrary: st) (auto simp: flush split: sum.splits)
qed

text \<open>The migrations a run has to apply, and the rows they write.\<close>

definition due_migrations :: "u32 \<Rightarrow> u32 \<Rightarrow> domain_migration list \<Rightarrow> domain_migration list" where
  "due_migrations current target ms = filter (\<lambda>m. current \<le> dm_from_version m \<and> dm_from_version m < target) ms"

definition staged_rows :: "domain_migration list \<Rightarrow> (bytes \<times> bytes) list" where
  "staged_rows ms = concat (map (\<lambda>m. case dm_apply m [] of Inr tx \<Rightarrow> tx_writes tx | Inl _ \<Rightarrow> []) ms)"

definition rows_after :: "(bytes \<times> bytes) list \<Rightarrow> string \<Rightarrow> mem_state \<Rightarrow> bytes \<rightharpoonup> bytes" where
  "rows_after writes ns st k = (case map_of (rev writes) k of Some v \<Rightarrow> Some v | None \<Rightarrow> domain_get ns k st)"

lemma get_flush: "(\<lambda>k. domain_get ns k (flush_writes ns kvs st)) = rows_after kvs ns st"
  unfolding flush_writes_def by (rule ext) (simp add: rows_after_def domain.get_puts)

lemma rows_after_append: "rows_after (a @ b) ns st = rows_after b ns (flush_writes ns a st)"
  by (rule ext) (auto simp: rows_after_def fun_cong [OF get_flush] map_add_def split: option.splits)

lemma rows_after_Nil [simp]: "rows_after [] ns st = (\<lambda>k. domain_get ns k st)"
  by (simp add: rows_after_def fun_eq_iff)

lemma due_Cons [simp]:
  "due_migrations c t [] = []"
  "due_migrations c t (m # ms) =
     (if dm_from_version m < c \<or> dm_from_version m \<ge> t then due_migrations c t ms else m # due_migrations c t ms)"
  by (auto simp: due_migrations_def)

lemma staged_rows_simps [simp]:
  "staged_rows [] = []"
  "dm_apply m [] = Inr tx \<Longrightarrow> staged_rows (m # ms) = tx_writes tx @ staged_rows ms"
  by (simp_all add: staged_rows_def)

text \<open>A pass applies the due migrations in order up to the first that fails.\<close>

lemma apply_migrations_effect:
  assumes "apply_migrations ns c t ms st = (res, st')"
  shows "case res of
      Inr _ \<Rightarrow> list_all (\<lambda>m. \<not> isl (dm_apply m [])) (due_migrations c t ms) \<and>
        (\<lambda>k. domain_get ns k st') = rows_after (staged_rows (due_migrations c t ms)) ns st
    | Inl err \<Rightarrow> \<exists>done m todo reason. due_migrations c t ms = done @ m # todo \<and>
        list_all (\<lambda>m. \<not> isl (dm_apply m [])) done \<and> dm_apply m [] = Inl reason \<and>
        err = MigrationFailed ns (dm_from_version m) (dm_to_version m) reason \<and>
        (\<lambda>k. domain_get ns k st') = rows_after (staged_rows done) ns st"
  using assms
proof (induction ms arbitrary: st)
  case Nil
  then show ?case by auto
next
  case (Cons m ms)
  show ?case
  proof (cases "dm_from_version m < c \<or> dm_from_version m \<ge> t")
    case True
    then have "apply_migrations ns c t ms st = (res, st')" using Cons.prems by auto
    from Cons.IH [OF this] show ?thesis using True by (cases res) auto
  next
    case due: False
    show ?thesis
    proof (cases "dm_apply m []")
      case (Inl reason)
      then have "res = Inl (MigrationFailed ns (dm_from_version m) (dm_to_version m) reason)" "st' = st"
        using Cons.prems due by simp_all
      then show ?thesis using due Inl by (auto intro!: exI [of _ "[]"])
    next
      case (Inr tx)
      have "apply_migrations ns c t ms (flush_writes ns (tx_writes tx) st) = (res, st')"
        using Cons.prems due Inr by simp
      from Cons.IH [OF this] show ?thesis
      proof (cases res)
        case (Inl err)
        with Cons.IH [OF \<open>apply_migrations ns c t ms (flush_writes ns (tx_writes tx) st) = (res, st')\<close>]
        obtain "done" m' todo reason where
          "due_migrations c t ms = done @ m' # todo" "list_all (\<lambda>m. \<not> isl (dm_apply m [])) done"
          "dm_apply m' [] = Inl reason" "err = MigrationFailed ns (dm_from_version m') (dm_to_version m') reason"
          "(\<lambda>k. domain_get ns k st') = rows_after (staged_rows done) ns (flush_writes ns (tx_writes tx) st)"
          by auto
        then show ?thesis
          using due Inr Inl by (auto intro!: exI [of _ "m # done"] simp: rows_after_append)
      qed (use due Inr in \<open>auto simp: rows_after_append fun_eq_iff\<close>)
    qed
  qed
qed

text \<open>C13. Migrations, on every branch. A store at a newer version than the target is refused with both
  versions named, and one at the target is done: neither changes anything. An older one applies the
  migrations whose starting version lies between the recorded version and the target, in the order
  given. When all of them succeed, the rows they staged are written, the recorded version of this
  namespace alone becomes the target, and a further run to the target does nothing; when one fails, the run reports
  that one, keeps the rows of those before it and leaves the recorded versions as they were.\<close>

theorem run_migrations_versioned:
  assumes "run_migrations ns target ms st = (res, st')"
    and "v = unwrap_or 0 (map_of (ms_domain_versions st) ns)"
  shows "(v > target \<longrightarrow> res = Inl (SchemaTooNew ns v target) \<and> st' = st) \<and>
    (v = target \<longrightarrow> res = Inr () \<and> st' = st) \<and>
    (v < target \<longrightarrow> (case res of
        Inr _ \<Rightarrow> map_of (ms_domain_versions st') = (map_of (ms_domain_versions st))(ns \<mapsto> target) \<and>
          list_all (\<lambda>m. \<not> isl (dm_apply m [])) (due_migrations v target ms) \<and>
          (\<lambda>k. domain_get ns k st') = rows_after (staged_rows (due_migrations v target ms)) ns st
      | Inl err \<Rightarrow> ms_domain_versions st' = ms_domain_versions st \<and>
          (\<exists>done m todo reason. due_migrations v target ms = done @ m # todo \<and>
             list_all (\<lambda>m. \<not> isl (dm_apply m [])) done \<and> dm_apply m [] = Inl reason \<and>
             err = MigrationFailed ns (dm_from_version m) (dm_to_version m) reason \<and>
             (\<lambda>k. domain_get ns k st') = rows_after (staged_rows done) ns st))) \<and>
    (res = Inr () \<longrightarrow> run_migrations ns target ms' st' = (Inr (), st'))"
proof (cases "v < target")
  case False
  then show ?thesis using assms by (auto simp: run_migrations_def Let_def split: if_splits)
next
  case True
  let ?st0 = "snd (domain_open ns st)"
  obtain r st1 where r: "apply_migrations ns v target ms ?st0 = (r, st1)" by (cases "apply_migrations ns v target ms ?st0")
  have "domain_get ns k ?st0 = domain_get ns k st" for k by (simp add: domain_get_def domain_rows_frame)
  then have opened: "rows_after kvs ns ?st0 = rows_after kvs ns st" "ms_domain_versions ?st0 = ms_domain_versions st" for kvs
    unfolding rows_after_def by presburger (simp add: domain_open_def)
  have versions: "ms_domain_versions st1 = ms_domain_versions st"
    using apply_migrations_versions [of ns v target ms ?st0] by (simp add: r opened)
  have get: "domain_get ns k (st1\<lparr>ms_domain_versions := x\<rparr>) = domain_get ns k st1" for k x
    by (simp add: domain_get_def domain_rows_def)
  show ?thesis
  proof (cases r)
    case (Inl err)
    then have "res = Inl err" "st' = st1" using assms True r by (simp_all add: run_migrations_def Let_def)
    then show ?thesis using True apply_migrations_effect [OF r] by (simp add: Inl versions opened)
  next
    case (Inr u)
    then have "res = Inr ()" "st' = st1\<lparr>ms_domain_versions := hm_insert ns target (ms_domain_versions st)\<rparr>"
      using assms True r versions by (simp_all add: run_migrations_def Let_def)
    moreover from this have "run_migrations ns target ms' st' = (Inr (), st')"
      by (simp add: run_migrations_def Let_def hash_map.get_put unwrap_or_def)
    ultimately show ?thesis
      using True apply_migrations_effect [OF r] by (simp add: Inr opened get hash_map.get_put fun_eq_iff)
  qed
qed

section \<open>Instances\<close>

definition demo_migration :: domain_migration where
  "demo_migration = \<lparr>dm_from_version = 0, dm_to_version = 1, dm_apply = (\<lambda>tx. Inr (tx_put [1] [2] tx))\<rparr>"

theorem run_migrations_versioned_witness:
  "\<exists>st. run_migrations ''drafts'' 1 [demo_migration] mem_state_new = (Inr (), st) \<and>
     map_of (ms_domain_versions st) ''drafts'' = Some 1 \<and> domain_get ''drafts'' [1] st = Some [2] \<and>
     run_migrations ''drafts'' 1 [] st = (Inr (), st) \<and>
     run_migrations ''drafts'' 0 [] st = (Inl (SchemaTooNew ''drafts'' 1 0), st)"
proof -
  have "fst (run_migrations ''drafts'' 1 [demo_migration] mem_state_new) = Inr ()" by code_simp
  then obtain st where st: "run_migrations ''drafts'' 1 [demo_migration] mem_state_new = (Inr (), st)"
    by (metis prod.collapse)
  have v0: "0 = unwrap_or 0 (map_of (ms_domain_versions mem_state_new) ''drafts'')" by code_simp
  from run_migrations_versioned [OF st v0, of "[]"]
  have run: "map_of (ms_domain_versions st) = (map_of (ms_domain_versions mem_state_new))(''drafts'' \<mapsto> 1)"
      "(\<lambda>k. domain_get ''drafts'' k st) = rows_after [([1], [2])] ''drafts'' mem_state_new"
      "run_migrations ''drafts'' 1 [] st = (Inr (), st)"
    by (simp_all add: demo_migration_def staged_rows_def tx_put_def tx_writes_def)
  obtain res st' where old: "run_migrations ''drafts'' 0 [] st = (res, st')" by (cases "run_migrations ''drafts'' 0 [] st")
  have "1 = unwrap_or 0 (map_of (ms_domain_versions st) ''drafts'')" by (simp add: run(1) unwrap_or_def)
  from run_migrations_versioned [OF old this, of "[]"] have "res = Inl (SchemaTooNew ''drafts'' 1 0) \<and> st' = st" by simp
  then show ?thesis using st run old fun_cong [OF run(2), of "[1]"] by (simp add: rows_after_def)
qed

theorem domain_isolation_witness:
  "domain_get ''settings'' [1] (snd (run_migrations ''drafts'' 1 [demo_migration] mem_state_new)) =
     domain_get ''settings'' [1] mem_state_new"
  using domain_isolation [of "''settings''" "''drafts''"] by simp

end
