(* ===== verification/Store_Machine.thy ===== *)
theory Store_Machine
  imports Store_GC Store_Domain
begin

text \<open>
  The in-memory store as a state machine: the remaining operations of its \<open>EventStore\<close>
  implementation (\<open>src/crates/nmp-store/src/mem/store_impl.rs\<close>), the step relation of all the
  operations that change the state, and what holds in every reachable state. Every operation runs
  under the store's mutex, so the interleavings of concurrent callers are exactly the sequences of
  steps.

  Two premises of the insertion step say what the signature check of the caller guarantees: an id
  determines the event (it is its hash), and hence an event cannot name its own id in a tag.
\<close>

section \<open>Remaining operations\<close>

definition get_check_again_after :: "replaceable_key \<Rightarrow> mem_state \<Rightarrow> u64 option" where
  "get_check_again_after key st = map_of (ms_replaceable_freshness st) key"

definition set_check_again_after :: "replaceable_key \<Rightarrow> u64 \<Rightarrow> mem_state \<Rightarrow> mem_state" where
  "set_check_again_after key ts_ms st =
     st\<lparr>ms_replaceable_freshness := hm_insert key ts_ms (ms_replaceable_freshness st)\<rparr>"

definition install_search_index_specs :: "compiled_index_spec list \<Rightarrow> mem_state \<Rightarrow> mem_state" where
  "install_search_index_specs specs st = st\<lparr>ms_fts := fts_install specs (ms_fts st)\<rparr>"

definition cache_search_scopes :: "mem_state \<Rightarrow> (search_scope_id \<times> u32 list) list" where
  "cache_search_scopes st = fts_cache_scopes (ms_fts st)"

definition hot_set_hint :: "event_id list \<Rightarrow> mem_state \<Rightarrow> mem_state" where
  "hot_set_hint ids st = st"

section \<open>Steps\<close>

inductive store_step :: "ext \<Rightarrow> mem_state \<Rightarrow> mem_state \<Rightarrow> bool" for ext where
  insert: "insert_event ext e u t st = Some (out, st') \<Longrightarrow> same_body e st \<Longrightarrow> ev_id e \<notin> set (e_tags e) \<Longrightarrow>
    store_step ext st st'"
| delete: "store_step ext st (snd (delete_by_filter f st))"
| read: "store_step ext st (snd (get_by_id i st))"
| hint: "store_step ext st (hot_set_hint ids st)"
| collect: "gc_step_with_pins clock budget now pins guards st = Some (report, st') \<Longrightarrow> store_step ext st st'"
| cover: "store_step ext st (record_coverage fh relay c st)"
| freshness: "store_step ext st (set_check_again_after key ts st)"
| install: "store_step ext st (install_search_index_specs specs st)"
| claims: "store_step ext st (replace_log_retention_claims cs st)"
| open_ns: "store_step ext st (snd (domain_open ns st))"
| put: "store_step ext st (domain_put ns k v st)"
| remove: "store_step ext st (snd (domain_delete ns k st))"
| migrate: "store_step ext st (snd (run_migrations ns target ms st))"

inductive_cases store_stepE: "store_step ext st st'"

inductive store_reachable :: "ext \<Rightarrow> mem_state \<Rightarrow> bool" for ext where
  start: "store_reachable ext mem_state_new"
| step: "store_reachable ext st \<Longrightarrow> store_step ext st st' \<Longrightarrow> store_reachable ext st'"

definition store_ok :: "mem_state \<Rightarrow> bool" where
  "store_ok st \<longleftrightarrow> mem_inv st \<and> unique_coordinates st \<and> tomb_disjoint st \<and> coverage_pos st"

section \<open>Every step keeps the invariant\<close>

text \<open>Operations that touch neither events nor tombstones nor coverage.\<close>

lemma store_ok_frame:
  assumes "store_ok st" and "mem_inv st'" and "ms_events st' = ms_events st"
    and "ms_tombstones st' = ms_tombstones st" and "ms_coverage st' = ms_coverage st"
  shows "store_ok st'"
  using assms unfolding store_ok_def unique_coordinates_def tomb_disjoint_def coverage_pos_def by metis

lemma mem_inv_untouched:
  assumes "mem_inv st"
  shows "mem_inv (st\<lparr>ms_replaceable_freshness := x\<rparr>)" "mem_inv (st\<lparr>ms_retention_claims := cs\<rparr>)"
    "mem_inv (st\<lparr>ms_domain_data := d\<rparr>)" "mem_inv (st\<lparr>ms_domain_versions := v\<rparr>)"
  using assms by (simp_all add: mem_inv_def core_inv_def log_inv_def)

lemma store_ok_untouched:
  assumes "store_ok st"
  shows "store_ok (st\<lparr>ms_replaceable_freshness := x\<rparr>)" "store_ok (st\<lparr>ms_retention_claims := cs\<rparr>)"
    "store_ok (st\<lparr>ms_domain_data := d\<rparr>)"
proof -
  have inv: "mem_inv st" using assms by (simp add: store_ok_def)
  show "store_ok (st\<lparr>ms_replaceable_freshness := x\<rparr>)" "store_ok (st\<lparr>ms_retention_claims := cs\<rparr>)"
    "store_ok (st\<lparr>ms_domain_data := d\<rparr>)"
    by (rule store_ok_frame [OF assms]; simp add: mem_inv_untouched [OF inv])+
qed

lemma mem_inv_install: "mem_inv st \<Longrightarrow> mem_inv (install_search_index_specs specs st)"
  using fts_inv_install fts_docs_install
  by (simp add: install_search_index_specs_def mem_inv_def core_inv_def ftsx_inv_def log_inv_def)

lemma migrations_frame:
  "ms_events (snd (run_migrations ns target ms st)) = ms_events st \<and>
   ms_tombstones (snd (run_migrations ns target ms st)) = ms_tombstones st \<and>
   ms_coverage (snd (run_migrations ns target ms st)) = ms_coverage st \<and>
   (mem_inv st \<longrightarrow> mem_inv (snd (run_migrations ns target ms st)))"
proof -
  let ?same = "\<lambda>a b. ms_events b = ms_events a \<and> ms_tombstones b = ms_tombstones a \<and> ms_coverage b = ms_coverage a \<and>
    (mem_inv a \<longrightarrow> mem_inv b)"
  have put: "?same s (domain_put ns k v s)" for k v s by (simp add: domain_put_def mem_inv_untouched)
  have flush: "?same s (flush_writes ns kvs s)" for kvs s
    unfolding flush_writes_def
  proof (induction kvs arbitrary: s)
    case (Cons kv kvs)
    obtain k v where kv: "kv = (k, v)" by (cases kv)
    show ?case using Cons.IH [of "domain_put ns k v s"] put [where s = s and k = k and v = v] by (simp add: kv)
  qed simp
  have applied: "?same s (snd (apply_migrations ns c t ms s))" for c t s
  proof (induction ms arbitrary: s)
    case (Cons m ms)
    show ?case
    proof (cases "dm_apply m []")
      case (Inl r)
      then show ?thesis using Cons.IH [of s] by simp
    next
      case (Inr tx)
      then show ?thesis
        using Cons.IH [of s] Cons.IH [of "flush_writes ns (tx_writes tx) s"] flush [where s = s and kvs = "tx_writes tx"] by simp
    qed
  qed simp
  have open_ns: "?same st (snd (domain_open ns st))" by (simp add: domain_open_def mem_inv_untouched)
  show ?thesis
    using applied [of "unwrap_or 0 (map_of (ms_domain_versions st) ns)" target "snd (domain_open ns st)"] open_ns
    by (auto simp: run_migrations_def Let_def mem_inv_untouched split: prod.splits sum.splits)
qed

lemma store_ok_delete: "store_ok st \<Longrightarrow> store_ok (snd (delete_by_filter f st))"
proof -
  assume ok: "store_ok st"
  let ?st' = "snd (delete_by_filter f st)"
  have le: "map_of (ms_events ?st') \<subseteq>\<^sub>m map_of (ms_events st)"
    by (auto simp: delete_by_filter_def Let_def map_of_fold_delete_one map_le_def split: if_splits)
  have one: "ms_tombstones (delete_one b i s) = ms_tombstones s" "ms_coverage (delete_one b i s) = ms_coverage s" for b i s
    by (simp_all add: delete_one_def Let_def split: option.splits)
  have "ms_tombstones (fold (delete_one b) ids s) = ms_tombstones s \<and> ms_coverage (fold (delete_one b) ids s) = ms_coverage s" for b ids s
    by (induction ids arbitrary: s) (auto simp: one)
  then have same: "ms_tombstones ?st' = ms_tombstones st" "ms_coverage ?st' = ms_coverage st"
    by (simp_all add: delete_by_filter_def Let_def)
  have "hm_keys (ms_events ?st') \<subseteq> hm_keys (ms_events st)"
    using map_le_implies_dom_le [OF le] by (auto simp: hm_keys_map_of)
  then show ?thesis
    using ok same delete_by_filter_ok unique_coordinates_subset [OF _ le]
    by (auto simp: store_ok_def tomb_disjoint_def coverage_pos_def)
qed

lemma store_ok_gc:
  assumes ok: "store_ok st" and gc: "gc_step_with_pins clock budget now pins guards st = Some (report, st')"
  shows "store_ok st'"
proof -
  have inv: "mem_inv st" "coverage_pos st" using ok by (simp_all add: store_ok_def)
  obtain reaped evicted where eff: "gc_effect budget now pins guards st reaped evicted st'"
    using gc_step_ok [OF inv, of clock budget now pins guards] gc by (metis option.inject prod.inject)
  have w: "without (set reaped \<union> set evicted) st st'" using eff by (simp add: gc_effect_def)
  have "map_of (ms_events st') \<subseteq>\<^sub>m map_of (ms_events st)"
    using w by (auto simp: without_def map_le_def split: if_splits)
  then have "unique_coordinates st'" using ok unique_coordinates_subset unfolding store_ok_def by blast
  moreover have "tomb_disjoint st'"
    unfolding tomb_disjoint_def without_keys [OF w]
  proof (intro equals0I)
    fix i
    assume "i \<in> (hm_keys (ms_events st) - (set reaped \<union> set evicted)) \<inter> hm_keys (ms_tombstones st')"
    then have "i \<in> hm_keys (ms_events st)" "i \<notin> set reaped" "map_of (ms_tombstones st') i \<noteq> None"
      by (auto simp: hm_keys_map_of)
    moreover then have "map_of (ms_tombstones st) i = None"
      using ok tomb_disjointD by (auto simp: store_ok_def hm_keys_map_of)
    ultimately show False using eff by (auto simp: gc_effect_def)
  qed
  ultimately show ?thesis using eff by (simp add: store_ok_def gc_effect_def)
qed

lemma insert_dispatch_coverage:
  assumes "insert_dispatch ext e u t st = Some (out, st')"
  shows "ms_coverage st' = ms_coverage st"
proof -
  consider "handle_kind5_insert ext e u t st = Some (out, st')"
    | k where "handle_supersession ext e u t k st = Some (out, st')"
    | "handle_normal_insert ext e u t st = Some (out, st')"
    using assms by (auto simp: insert_dispatch_def split: if_splits)
  then show ?thesis
  proof cases
    case 1
    then show ?thesis
    proof (cases rule: handle_kind5_insert_cases)
      case (new i st1 st2)
      have target: "ms_coverage s' = ms_coverage s" if "kind5_delete_target e u i h j s = Some s'" for h j s s'
        using that by (auto simp: kind5_delete_target_def Let_def bind_eq_Some_conv)
      have e_tag: "ms_coverage s' = ms_coverage s" if "kind5_e_tag e u i h s = Some s'" for h s s'
        using that by (cases rule: kind5_e_tag_cases) (auto dest: target)
      have a_del: "ms_coverage s' = ms_coverage s" if "kind5_a_delete e u i h s = Some s'" for h s s'
        using that by (cases rule: kind5_a_delete_cases) (auto dest: target)
      have a_tag: "ms_coverage s' = ms_coverage s" if a: "kind5_a_tag ext e u i h s = Some s'" for h s s'
        using a
      proof (cases rule: kind5_a_tag_cases)
        case (own kstr k d s1 row)
        have "ms_coverage s1 = ms_coverage s"
          by (rule try_fold_partial [where P = "\<lambda>x. ms_coverage x = ms_coverage s", OF own(3)]) (auto dest: a_del)
        then show ?thesis by (simp add: own(4))
      qed simp
      have "ms_coverage st1 = ms_coverage st"
        by (rule try_fold_partial [where P = "\<lambda>x. ms_coverage x = ms_coverage st", OF new(3)]) (auto dest: e_tag)
      then have "ms_coverage st2 = ms_coverage st"
        by (rule try_fold_partial [where P = "\<lambda>x. ms_coverage x = ms_coverage st", OF new(4)]) (auto dest: a_tag)
      then show ?thesis by (simp add: new(6))
    qed simp
  next
    case 2
    then show ?thesis by (cases rule: handle_supersession_cases) (simp_all add: stored_state_def)
  next
    case 3
    then show ?thesis by (cases rule: handle_normal_insert_cases) (simp_all add: stored_state_def)
  qed
qed

lemma insert_event_coverage:
  assumes "insert_event ext e u t st = Some (out, st')"
  shows "ms_coverage st' = ms_coverage st"
proof (cases "storable e \<and> \<not> (case expiration e of Some ex \<Rightarrow> ex \<le> t div 1000 | None \<Rightarrow> False)")
  case False
  then show ?thesis using assms by (auto simp: insert_event_def storable_def bind_eq_Some_conv split: if_splits)
next
  case True
  then have v: "is_structurally_valid e" "\<not> ev_is_ephemeral e" by (simp_all add: storable_def)
  let ?st0 = "case map_of (ms_tombstones st) (ev_id e) of
      Some tomb \<Rightarrow> st\<lparr>ms_tombstones := hm_remove (ev_id e) (ms_tombstones st)\<rparr> | None \<Rightarrow> st"
  have "st' = st \<or> st' = ?st0 \<or> insert_dispatch ext e u t ?st0 = Some (out, st')"
  proof (cases "map_of (ms_tombstones st) (ev_id e)")
    case None
    then show ?thesis using assms True v by (auto simp: insert_event_def bind_eq_Some_conv split: option.splits)
  next
    case (Some tomb)
    then show ?thesis using assms True v by (auto simp: insert_event_def bind_eq_Some_conv Let_def split: option.splits if_splits)
  qed
  moreover have "ms_coverage ?st0 = ms_coverage st" by (simp split: option.splits)
  ultimately show ?thesis using insert_dispatch_coverage [of ext e u t ?st0 out st'] by (elim disjE) simp_all
qed

lemma store_ok_insert:
  assumes ok: "store_ok st" and res: "insert_event ext e u t st = Some (out, st')"
    and body: "same_body e st" and self: "ev_id e \<notin> set (e_tags e)"
  shows "store_ok st'"
proof -
  have inv: "mem_inv st" using ok by (simp add: store_ok_def)
  have "mem_inv st'" using insert_event_ok [OF inv body, of ext u t] res by auto
  moreover have "ms_coverage st' = ms_coverage st" by (rule insert_event_coverage [OF res])
  ultimately show ?thesis
    using ok insert_event_unique [OF inv _ res] insert_event_disjoint [OF _ self res]
    by (simp add: store_ok_def coverage_pos_def)
qed


lemma store_ok_step: "store_step ext st st' \<Longrightarrow> store_ok st \<Longrightarrow> store_ok st'"
proof (induction rule: store_step.induct)
  case (insert e u t st out st')
  then show ?case using store_ok_insert by blast
next
  case (delete st f)
  then show ?case by (rule store_ok_delete)
next
  case (read st i)
  have "mem_inv (snd (get_by_id i st))" using read get_by_id_inv by (simp add: store_ok_def)
  then show ?case by (rule store_ok_frame [OF read]) (simp_all add: get_by_id_def Let_def)
next
  case (collect clock budget now pins guards st report st')
  then show ?case using store_ok_gc by blast
next
  case (cover st fh relay c)
  let ?st' = "record_coverage fh relay c st"
  have same: "ms_events ?st' = ms_events st" "ms_tombstones ?st' = ms_tombstones st"
    by (simp_all add: record_coverage_def Let_def)
  have "unique_coordinates ?st'" using cover unique_coordinates_subset [of st ?st'] by (simp add: store_ok_def same)
  then show ?case
    using cover record_coverage_inv record_coverage_pos by (simp add: store_ok_def tomb_disjoint_def same)
next
  case (install st specs)
  then have "mem_inv (install_search_index_specs specs st)" using mem_inv_install by (simp add: store_ok_def)
  then show ?case by (rule store_ok_frame [OF install]) (simp_all add: install_search_index_specs_def)
next
  case (migrate st ns target ms)
  then have "mem_inv (snd (run_migrations ns target ms st))" using migrations_frame by (simp add: store_ok_def)
  then show ?case by (rule store_ok_frame [OF migrate]) (simp_all add: migrations_frame)
qed (simp_all add: hot_set_hint_def set_check_again_after_def replace_log_retention_claims_def domain_open_def
       domain_put_def domain_delete_def store_ok_untouched)

lemma store_ok_new: "store_ok mem_state_new"
  using mem_inv_new unique_coordinates_new by (simp add: store_ok_def tomb_disjoint_def coverage_pos_def mem_state_new_def)

lemma store_reachable_ok: "store_reachable ext st \<Longrightarrow> store_ok st"
  by (induction rule: store_reachable.induct) (auto intro: store_ok_new store_ok_step)

text \<open>C1. In every reachable state of the store all its maps agree: the invariant that ties the
  events to their provenance, recency, relay and search indexes and to the log holds, each coordinate
  holds one version, no stored event is tombstoned and no coverage row is empty.\<close>

theorem store_reachable_invariant:
  assumes "store_reachable ext st"
  shows "mem_inv st \<and> unique_coordinates st \<and> tomb_disjoint st \<and> coverage_pos st"
  using store_reachable_ok [OF assms] by (simp add: store_ok_def)

text \<open>C12. The store cannot panic: in every reachable state, inserting any event from any relay and
  collecting with any budget, clock, pins and guards both return.\<close>

theorem store_never_panics:
  assumes "store_reachable ext st" and "same_body e st"
  shows "insert_event ext e u t st \<noteq> None \<and> gc_step_with_pins clock budget now pins guards st \<noteq> None"
proof -
  have inv: "mem_inv st" "coverage_pos st" using store_reachable_ok [OF assms(1)] by (simp_all add: store_ok_def)
  have "insert_event ext e u t st \<noteq> None" using insert_event_ok [OF inv(1) assms(2), of ext u t] by auto
  moreover have "gc_step_with_pins clock budget now pins guards st \<noteq> None"
    using gc_step_ok [OF inv, of clock budget now pins guards] by (metis option.distinct(1))
  ultimately show ?thesis by blast
qed

text \<open>What the relay indexes show of a reachable store is true and private: every event listed
  for a relay is stored, every relay in the provenance of an event lists it, and the kinds reported
  for a relay are kinds of stored events, never a kind whose provenance is private.\<close>

theorem relay_indexes_sound:
  assumes "store_reachable ext st"
  shows "(\<forall>d \<in> set (list_seen_on st u). \<exists>i \<in> hm_keys (ms_events st). hex_to_event_id i = Some d) \<and>
    (\<forall>i es d. map_of (ms_provenance st) i = Some es \<longrightarrow> u \<in> set (prov_urls es) \<longrightarrow> hex_to_event_id i = Some d \<longrightarrow>
       d \<in> set (list_seen_on st u)) \<and>
    (\<forall>k \<in> set (relay_kind_coverage st u). \<not> is_relay_provenance_private k \<and> relay_kind_count st u k > 0 \<and>
       (\<exists>i se. map_of (ms_events st) i = Some se \<and> ev_kind (se_raw se) = k))"
proof -
  have "mem_inv st" using store_reachable_ok [OF assms] by (simp add: store_ok_def)
  then have ridx: "ridx_inv (ms_events st) (ms_provenance st) (ms_relay_index st)"
    and rk: "rkind_inv (ms_events st) (ms_provenance st) (ms_relay_kind st)" by (simp_all add: mem_inv_def core_inv_def)
  have seen: "i \<in> hm_keys (ms_events st)" if "map_of (ms_relay_index st) u = Some ids" "i \<in> set ids" for i ids
    using ridx that by (fastforce simp: ridx_inv_def bucket_rows_def)
  have set_map_filter: "set (List.map_filter f xs) = {y. \<exists>x \<in> set xs. f x = Some y}" for f :: "string \<Rightarrow> event_id option" and xs
    by (force simp: map_filter_def)
  have "\<forall>d \<in> set (list_seen_on st u). \<exists>i \<in> hm_keys (ms_events st). hex_to_event_id i = Some d"
  proof (cases "map_of (ms_relay_index st) u")
    case (Some ids)
    then show ?thesis using seen [OF Some] by (auto simp: list_seen_on_def set_map_filter)
  qed (simp add: list_seen_on_def)
  moreover have "d \<in> set (list_seen_on st u)"
    if "map_of (ms_provenance st) i = Some es" "u \<in> set (prov_urls es)" "hex_to_event_id i = Some d" for i es d
  proof -
    have "u \<in> bucket_rows (ms_relay_index st) i" using ridx that(1,2) unfolding ridx_inv_def by blast
    then obtain ids where "map_of (ms_relay_index st) u = Some ids" "i \<in> set ids" by (auto simp: bucket_rows_def)
    then show ?thesis using that(3) by (auto simp: list_seen_on_def set_map_filter)
  qed
  moreover have "\<not> is_relay_provenance_private k \<and> relay_kind_count st u k > 0 \<and>
       (\<exists>i se. map_of (ms_events st) i = Some se \<and> ev_kind (se_raw se) = k)"
    if k: "k \<in> set (relay_kind_coverage st u)" for k
  proof -
    obtain kinds where kinds: "map_of (ms_relay_kind st) u = Some kinds" "k \<in> fst ` set kinds" "\<not> is_relay_provenance_private k"
      using k by (cases "map_of (ms_relay_kind st) u") (force simp: relay_kind_coverage_def)+
    then have "buckets_wf kinds" using rk unfolding rkind_inv_def kinds_wf_def by blast
    moreover obtain ids where ids: "map_of kinds k = Some ids"
      using kinds(2) hm_keys_map_of [of k kinds] by (auto simp: hm_keys_def)
    ultimately have "ids \<noteq> []" by (auto simp: buckets_wf_def)
    then obtain i where "i \<in> set ids" by fastforce
    then have "(u, k) \<in> kind_rows (ms_relay_kind st) i" using kinds(1) ids by (auto simp: kind_rows_def bucket_rows_def)
    then have "\<exists>se. map_of (ms_events st) i = Some se \<and> ev_kind (se_raw se) = k" using rk unfolding rkind_inv_def by blast
    then show ?thesis
      using kinds ids \<open>ids \<noteq> []\<close> by (auto simp: relay_kind_count_def unwrap_or_def)
  qed
  ultimately show ?thesis by blast
qed

section \<open>Instances\<close>

lemma demo_store_reachable: "store_reachable demo_ext demo_store"
proof -
  obtain out st where st: "insert_event demo_ext demo_note ''wss://a'' 7 mem_state_new = Some (out, st)"
    using insert_event_ok [OF mem_inv_new demo_same_body(2), of demo_ext "''wss://a''" 7] by blast
  have "e_tags demo_note = []" by (simp add: e_tags_def tag_values_def demo_note_def example_event_def)
  then have "store_step demo_ext mem_state_new st" using store_step.insert [OF st demo_same_body(2)] by simp
  moreover have "demo_store = st" using st by (simp add: demo_store_def)
  ultimately show ?thesis using store_reachable.step [OF store_reachable.start] by simp
qed

theorem store_reachable_invariant_witness:
  "mem_inv demo_store \<and> unique_coordinates demo_store \<and> tomb_disjoint demo_store \<and> coverage_pos demo_store"
  by (rule store_reachable_invariant [OF demo_store_reachable])

theorem store_never_panics_witness:
  "insert_event demo_ext demo_note ''wss://b'' 9 demo_store \<noteq> None \<and>
   gc_step_with_pins (\<lambda>_. 0) demo_budget 1000 [] [demo_guard] demo_store \<noteq> None"
  by (rule store_never_panics [OF demo_store_reachable demo_same_body(1)])

theorem relay_indexes_sound_witness:
  "set (list_seen_on demo_store ''wss://a'') \<subseteq> {d. \<exists>i \<in> hm_keys (ms_events demo_store). hex_to_event_id i = Some d}"
  using relay_indexes_sound [OF demo_store_reachable] by blast

end
