(* ===== verification/Planner_Interest.thy ===== *)
theory Planner_Interest
  imports NMP_Strings Relay_Url
begin

text \<open>
  The vocabulary of the subscription planner (\<open>nmp-planner/src/interest.rs\<close> and its submodules):
  address coordinates, the normalised filter \<open>InterestShape\<close>, the logical interest with its scope,
  lifecycle and relay hints, the reading of a filter out of JSON and the match of an event against a
  filter.

  A \<open>BTreeSet\<close> field is an ascending list and a \<open>BTreeMap\<close> field an association list with ascending
  keys; \<open>shape_wf\<close> states what their types guarantee. The JSON reader of \<open>serde_json\<close> is a
  parameter; its \<open>Value\<close> is \<open>json\<close>, with an object's entries in the order it iterates over them.
\<close>

type_synonym pubkey = string
type_synonym relay = string

section \<open>Address coordinates\<close>

datatype naddr_coord = NaddrCoord (nc_pubkey: pubkey) (nc_kind: u32) (nc_d_tag: string)

text \<open>The derived order is lexicographic in the fields.\<close>

definition coord_key :: "naddr_coord \<Rightarrow> pubkey \<times> u32 \<times> string" where
  "coord_key c = (nc_pubkey c, nc_kind c, nc_d_tag c)"

lemma coord_key_inject [simp]: "coord_key a = coord_key b \<longleftrightarrow> a = b"
  by (cases a; cases b) (simp add: coord_key_def)

instantiation naddr_coord :: linorder
begin

definition less_eq_naddr_coord :: "naddr_coord \<Rightarrow> naddr_coord \<Rightarrow> bool" where
  "a \<le> b \<longleftrightarrow> coord_key a \<le> coord_key b"

definition less_naddr_coord :: "naddr_coord \<Rightarrow> naddr_coord \<Rightarrow> bool" where
  "a < b \<longleftrightarrow> coord_key a < coord_key b"

instance
  by standard (auto simp: less_eq_naddr_coord_def less_naddr_coord_def intro: le_neq_trans)

end

section \<open>Interests\<close>

datatype p_tag_routing = Nip65ReadRelays | Nip17DmRelays

definition plan_hash_tag :: "p_tag_routing \<Rightarrow> byte" where
  "plan_hash_tag r = (case r of Nip65ReadRelays \<Rightarrow> 0 | Nip17DmRelays \<Rightarrow> 1)"

record interest_shape =
  sh_authors :: "pubkey list"
  sh_kinds :: "u32 list"
  sh_tags :: "(string \<times> string list) list"
  sh_since :: "u64 option"
  sh_until :: "u64 option"
  sh_limit :: "u32 option"
  sh_search :: "string option"
  sh_event_ids :: "string list"
  sh_addresses :: "naddr_coord list"
  sh_relay_pin :: "relay option"
  sh_p_tag_routing :: p_tag_routing

definition shape_default :: interest_shape where
  "shape_default = \<lparr>sh_authors = [], sh_kinds = [], sh_tags = [], sh_since = None, sh_until = None, sh_limit = None,
     sh_search = None, sh_event_ids = [], sh_addresses = [], sh_relay_pin = None, sh_p_tag_routing = Nip65ReadRelays\<rparr>"

definition shape_wf :: "interest_shape \<Rightarrow> bool" where
  "shape_wf s \<longleftrightarrow> bs_wf (sh_authors s) \<and> bs_wf (sh_kinds s) \<and> bs_wf (sh_event_ids s) \<and> bs_wf (sh_addresses s) \<and>
     bm_wf (sh_tags s) \<and> (\<forall>(k, vs) \<in> set (sh_tags s). bs_wf vs)"

datatype interest_id = InterestId (iid: u64)

datatype interest_lifecycle = Tailing | OneShot

datatype interest_scope = ActiveAccount | Account string | Global

datatype hint_source = EventTag string string nat | UserConfiguredHint | ProvenanceHint string

record relay_hint =
  rh_url :: relay
  rh_source :: hint_source

record logical_interest =
  li_id :: interest_id
  li_scope :: interest_scope
  li_shape :: interest_shape
  li_hints :: "relay_hint list"
  li_lifecycle :: interest_lifecycle
  li_is_indexer_discovery :: bool

definition logical_default :: logical_interest where
  "logical_default = \<lparr>li_id = InterestId 0, li_scope = Global, li_shape = shape_default, li_hints = [],
     li_lifecycle = OneShot, li_is_indexer_discovery = False\<rparr>"

definition timeline_for :: "pubkey list \<Rightarrow> u32 list \<Rightarrow> interest_shape" where
  "timeline_for authors kinds = shape_default\<lparr>sh_authors := authors, sh_kinds := kinds\<rparr>"

definition profile_for :: "pubkey \<Rightarrow> interest_shape" where
  "profile_for pubkey = shape_default\<lparr>sh_authors := bs_of_list [pubkey], sh_kinds := bs_of_list [0, 3, 10002], sh_limit := Some 3\<rparr>"

section \<open>Search strings\<close>

text \<open>\<open>chars().take(n).collect()\<close> on the UTF-8 bytes: a character is a leading byte and its
  continuation bytes.\<close>

definition continuation :: "char \<Rightarrow> bool" where
  "continuation c \<longleftrightarrow> 128 \<le> (of_char c :: nat) \<and> (of_char c :: nat) < 192"

fun take_chars :: "nat \<Rightarrow> string \<Rightarrow> string" where
  "take_chars 0 s = []"
| "take_chars (Suc n) [] = []"
| "take_chars (Suc n) (c # s) = c # takeWhile continuation s @ take_chars n (dropWhile continuation s)"

definition MAX_SEARCH_QUERY_CHARS :: usize where
  "MAX_SEARCH_QUERY_CHARS = 256"

definition bounded_search_query :: "string \<Rightarrow> string option" where
  "bounded_search_query value =
     (let trimmed = trim value in
      if trimmed = [] then None else Some (take_chars MAX_SEARCH_QUERY_CHARS trimmed))"

section \<open>Filters as JSON\<close>

datatype json =
    JNull
  | JBool bool
  | JU64 u64
  | JNumber string
  | JString string
  | JArray "json list"
  | JObject "(string \<times> json) list"

definition as_u64 :: "json \<Rightarrow> u64 option" where
  "as_u64 v = (case v of JU64 n \<Rightarrow> Some n | _ \<Rightarrow> None)"

definition as_str :: "json \<Rightarrow> string option" where
  "as_str v = (case v of JString s \<Rightarrow> Some s | _ \<Rightarrow> None)"

definition as_array :: "json \<Rightarrow> json list option" where
  "as_array v = (case v of JArray vs \<Rightarrow> Some vs | _ \<Rightarrow> None)"

definition as_object :: "json \<Rightarrow> (string \<times> json) list option" where
  "as_object v = (case v of JObject kvs \<Rightarrow> Some kvs | _ \<Rightarrow> None)"

text \<open>\<open>if let Some(arr) = val.as_array() { for x in arr.iter().filter_map(g) { ... } }\<close>.\<close>

definition array_items :: "(json \<Rightarrow> 'a option) \<Rightarrow> json \<Rightarrow> 'a list" where
  "array_items g val = (case as_array val of Some arr \<Rightarrow> List.map_filter g arr | None \<Rightarrow> [])"

definition parse_coord :: "string \<Rightarrow> naddr_coord option" where
  "parse_coord coord_str =
     (case splitn 3 CHR '':'' coord_str of
        [kind_str, pubkey, d_tag] \<Rightarrow> map_option (\<lambda>kind. NaddrCoord pubkey kind d_tag) (parse_u32 kind_str)
      | _ \<Rightarrow> None)"

definition single_char :: "string \<Rightarrow> bool" where
  "single_char s \<longleftrightarrow> s \<noteq> [] \<and> take_chars 1 s = s"

definition strip_prefix_char :: "char \<Rightarrow> string \<Rightarrow> string option" where
  "strip_prefix_char c s = (case s of [] \<Rightarrow> None | x # r \<Rightarrow> if x = c then Some r else None)"

definition filter_tag_key :: "string \<Rightarrow> json \<Rightarrow> interest_shape \<Rightarrow> interest_shape" where
  "filter_tag_key other val shape =
     (case strip_prefix_char CHR ''#'' other of
        Some letter \<Rightarrow>
          if single_char letter then
            (case as_array val of
               Some arr \<Rightarrow>
                 shape\<lparr>sh_tags := bm_entry [] letter (\<lambda>entry. bs_extend entry (List.map_filter as_str arr)) (sh_tags shape)\<rparr>
             | None \<Rightarrow> shape)
          else shape
      | None \<Rightarrow> shape)"

definition filter_key :: "string \<times> json \<Rightarrow> interest_shape \<Rightarrow> interest_shape" where
  "filter_key kv shape =
     (let (key, val) = kv in
      if key = ''kinds'' then
        shape\<lparr>sh_kinds := bs_extend (sh_kinds shape) (map (\<lambda>k. k mod 4294967296) (array_items as_u64 val))\<rparr>
      else if key = ''authors'' then
        shape\<lparr>sh_authors := bs_extend (sh_authors shape) (array_items as_str val)\<rparr>
      else if key = ''ids'' then
        shape\<lparr>sh_event_ids := bs_extend (sh_event_ids shape) (array_items as_str val)\<rparr>
      else if key = ''since'' then
        (case as_u64 val of Some n \<Rightarrow> shape\<lparr>sh_since := Some n\<rparr> | None \<Rightarrow> shape)
      else if key = ''until'' then
        (case as_u64 val of Some n \<Rightarrow> shape\<lparr>sh_until := Some n\<rparr> | None \<Rightarrow> shape)
      else if key = ''limit'' then
        (case as_u64 val of Some n \<Rightarrow> shape\<lparr>sh_limit := Some (n mod 4294967296)\<rparr> | None \<Rightarrow> shape)
      else if key = ''search'' then
        (case as_str val of Some s \<Rightarrow> shape\<lparr>sh_search := bounded_search_query s\<rparr> | None \<Rightarrow> shape)
      else if key = ''#a'' then
        shape\<lparr>sh_addresses := bs_extend (sh_addresses shape) (List.map_filter parse_coord (array_items as_str val))\<rparr>
      else filter_tag_key key val shape)"

definition shape_of_object :: "(string \<times> json) list \<Rightarrow> interest_shape" where
  "shape_of_object obj = fold filter_key obj shape_default"

definition from_filter_json :: "(string \<Rightarrow> json option) \<Rightarrow> string \<Rightarrow> interest_shape option" where
  "from_filter_json parse json =
     do { value \<leftarrow> parse json;
          obj \<leftarrow> as_object value;
          Some (shape_of_object obj) }"

section \<open>Matching\<close>

definition address_coord_matches :: "naddr_coord \<Rightarrow> pubkey \<Rightarrow> u32 \<Rightarrow> string list list \<Rightarrow> bool" where
  "address_coord_matches coord author kind tags \<longleftrightarrow>
     \<not> (kind \<noteq> nc_kind coord \<or> author \<noteq> nc_pubkey coord) \<and>
     (let d_tag_value = do { row \<leftarrow> find (\<lambda>row. get_nth 0 row = Some ''d'') tags; get_nth 1 row } in
      if nc_d_tag coord = [] then (case d_tag_value of None \<Rightarrow> True | Some v \<Rightarrow> v = [])
      else (case d_tag_value of None \<Rightarrow> False | Some v \<Rightarrow> v = nc_d_tag coord))"

text \<open>One dimension of the generic tag query.\<close>

definition tag_satisfied :: "string list list \<Rightarrow> string \<times> string list \<Rightarrow> bool" where
  "tag_satisfied tags kw =
     (let (tag_key, wanted) = kw in
      wanted = [] \<or> length tag_key \<noteq> 1 \<or>
      (\<exists>row \<in> set tags. get_nth 0 row = Some tag_key \<and> (case get_nth 1 row of Some v \<Rightarrow> v \<in> set wanted | None \<Rightarrow> False)))"

definition matches_event :: "interest_shape \<Rightarrow> pubkey \<Rightarrow> u32 \<Rightarrow> u64 \<Rightarrow> string list list \<Rightarrow> bool" where
  "matches_event s author kind created_at tags =
     (if sh_authors s \<noteq> [] \<and> author \<notin> set (sh_authors s) then False
      else if sh_kinds s \<noteq> [] \<and> kind \<notin> set (sh_kinds s) then False
      else if (case sh_since s of Some since \<Rightarrow> created_at < since | None \<Rightarrow> False) then False
      else if (case sh_until s of Some until \<Rightarrow> created_at > until | None \<Rightarrow> False) then False
      else if sh_addresses s \<noteq> [] \<and> \<not> (\<exists>coord \<in> set (sh_addresses s). address_coord_matches coord author kind tags) then False
      else list_all (tag_satisfied tags) (sh_tags s))"

definition matches_event_with_id :: "interest_shape \<Rightarrow> string \<Rightarrow> pubkey \<Rightarrow> u32 \<Rightarrow> u64 \<Rightarrow> string list list \<Rightarrow> bool" where
  "matches_event_with_id s event_id author kind created_at tags =
     (if sh_event_ids s \<noteq> [] \<and> event_id \<notin> set (sh_event_ids s) then False
      else matches_event s author kind created_at tags)"

section \<open>A filter is read canonically\<close>

lemma shape_eqI:
  assumes "shape_wf s" "shape_wf t" "set (sh_authors s) = set (sh_authors t)" "set (sh_kinds s) = set (sh_kinds t)"
    "map_of (sh_tags s) = map_of (sh_tags t)" "sh_since s = sh_since t" "sh_until s = sh_until t" "sh_limit s = sh_limit t"
    "sh_search s = sh_search t" "set (sh_event_ids s) = set (sh_event_ids t)" "set (sh_addresses s) = set (sh_addresses t)"
    "sh_relay_pin s = sh_relay_pin t" "sh_p_tag_routing s = sh_p_tag_routing t"
  shows "s = (t :: interest_shape)"
proof -
  have "sh_tags s = sh_tags t"
    using assms(1,2,5) by (auto simp: shape_wf_def intro!: bm_eqI)
  then show ?thesis using assms by (auto simp: shape_wf_def bs_eq_iff intro!: interest_shape.equality)
qed

lemma strip_prefix_char_simps [simp]:
  "strip_prefix_char c [] = None" "strip_prefix_char c (x # r) = (if x = c then Some r else None)"
  "strip_prefix_char c s = Some r \<longleftrightarrow> s = c # r"
  by (cases s; auto simp: strip_prefix_char_def)+

text \<open>What each key contributes to each field.\<close>

definition tag_letter :: "string \<Rightarrow> string option" where
  "tag_letter key =
     (case strip_prefix_char CHR ''#'' key of
        Some letter \<Rightarrow> if single_char letter \<and> letter \<noteq> ''a'' then Some letter else None
      | None \<Rightarrow> None)"

lemma tag_letter_Some [simp]: "tag_letter key = Some l \<longleftrightarrow> key = CHR ''#'' # l \<and> single_char l \<and> l \<noteq> ''a''"
  by (auto simp: tag_letter_def split: option.splits)

lemma filter_key_sets:
  "set (sh_kinds (filter_key (k, v) s)) =
     set (sh_kinds s) \<union> (if k = ''kinds'' then (\<lambda>n. n mod 4294967296) ` set (array_items as_u64 v) else {})"
  "set (sh_authors (filter_key (k, v) s)) = set (sh_authors s) \<union> (if k = ''authors'' then set (array_items as_str v) else {})"
  "set (sh_event_ids (filter_key (k, v) s)) = set (sh_event_ids s) \<union> (if k = ''ids'' then set (array_items as_str v) else {})"
  "set (sh_addresses (filter_key (k, v) s)) =
     set (sh_addresses s) \<union> (if k = ''#a'' then set (List.map_filter parse_coord (array_items as_str v)) else {})"
  by (auto simp: filter_key_def filter_tag_key_def split: option.splits)

lemma filter_key_scalars:
  "sh_since (filter_key (k, v) s) = (if k = ''since'' \<and> as_u64 v \<noteq> None then as_u64 v else sh_since s)"
  "sh_until (filter_key (k, v) s) = (if k = ''until'' \<and> as_u64 v \<noteq> None then as_u64 v else sh_until s)"
  "sh_limit (filter_key (k, v) s) =
     (if k = ''limit'' \<and> as_u64 v \<noteq> None then map_option (\<lambda>n. n mod 4294967296) (as_u64 v) else sh_limit s)"
  "sh_search (filter_key (k, v) s) =
     (if k = ''search'' \<and> as_str v \<noteq> None then bounded_search_query (the (as_str v)) else sh_search s)"
  "sh_relay_pin (filter_key (k, v) s) = sh_relay_pin s"
  "sh_p_tag_routing (filter_key (k, v) s) = sh_p_tag_routing s"
  by (auto simp: filter_key_def filter_tag_key_def split: option.splits)

lemma filter_key_tags:
  "map_of (sh_tags (filter_key (k, v) s)) l =
     (if tag_letter k = Some l \<and> as_array v \<noteq> None
      then Some (bs_extend (unwrap_or [] (map_of (sh_tags s) l)) (array_items as_str v))
      else map_of (sh_tags s) l)"
  by (auto simp: filter_key_def filter_tag_key_def bm_get_entry array_items_def split: option.splits)

lemma shape_wf_filter_key:
  assumes "shape_wf s"
  shows "shape_wf (filter_key (k, v) s)"
proof -
  have tags: "bm_wf (bm_entry [] l (\<lambda>e. bs_extend e xs) (sh_tags s)) \<and>
      (\<forall>(k, vs) \<in> set (bm_entry [] l (\<lambda>e. bs_extend e xs) (sh_tags s)). bs_wf vs)" for l xs
  proof -
    have wf: "bm_wf (bm_entry [] l (\<lambda>e. bs_extend e xs) (sh_tags s))"
      using assms by (simp add: shape_wf_def bm_wf_entry)
    have old: "bs_wf vs" if "map_of (sh_tags s) a = Some vs" for a vs
      using map_of_SomeD [OF that] assms by (auto simp: shape_wf_def)
    have "bs_wf vs" if "(a, vs) \<in> set (bm_entry [] l (\<lambda>e. bs_extend e xs) (sh_tags s))" for a vs
    proof -
      have "map_of (bm_entry [] l (\<lambda>e. bs_extend e xs) (sh_tags s)) a = Some vs"
        using that hm_mem_iff [OF bm_wf_distinct [OF wf]] by blast
      then show ?thesis
        using old by (auto simp: bm_get_entry unwrap_or_def bs_wf_extend split: if_splits option.splits)
    qed
    with wf show ?thesis by blast
  qed
  show ?thesis
    using assms tags
    by (auto simp: filter_key_def filter_tag_key_def shape_wf_def bs_wf_extend split: option.splits)
qed

lemma shape_wf_of_object: "shape_wf s \<Longrightarrow> shape_wf (fold filter_key obj s)"
  by (induction obj arbitrary: s) (auto simp: shape_wf_filter_key)

lemma shape_wf_default [simp]: "shape_wf shape_default"
  by (simp add: shape_wf_def shape_default_def)

text \<open>A field of the folded shape is a function of the object as a map.\<close>

definition entry :: "(string \<times> json) list \<Rightarrow> string \<Rightarrow> (json \<Rightarrow> 'a) \<Rightarrow> 'a \<Rightarrow> 'a" where
  "entry obj k f d = (case map_of obj k of Some v \<Rightarrow> f v | None \<Rightarrow> d)"

lemma entry_Cons:
  "entry ((k', v) # obj) k f d = (if k' = k then f v else entry obj k f d)"
  by (simp add: entry_def)

lemma entry_absent: "k \<notin> fst ` set obj \<Longrightarrow> entry obj k f d = d"
  by (simp add: entry_def map_of_eq_None_iff [THEN iffD2])

lemma fold_set_field:
  assumes "\<And>k v s. F (filter_key (k, v) s) = F s \<union> (if k = key then g v else {})" and "hm_wf obj"
  shows "F (fold filter_key obj s) = F s \<union> entry obj key g {}"
  using assms(2)
proof (induction obj arbitrary: s)
  case (Cons kv obj)
  then show ?case
    by (cases kv) (auto simp: assms(1) entry_Cons entry_absent)
qed (simp add: entry_def)

lemma fold_scalar_field:
  assumes step: "\<And>k v s. F (filter_key (k, v) s) = (if k = key \<and> P v then g v else F s)" and "hm_wf obj"
  shows "F (fold filter_key obj s) = entry obj key (\<lambda>v. if P v then g v else F s) (F s)"
  using assms(2)
proof (induction obj arbitrary: s)
  case (Cons kv obj)
  obtain k v where kv: "kv = (k, v)" by (cases kv)
  show ?case
  proof (cases "k = key")
    case True
    then show ?thesis using Cons.IH [of "filter_key (k, v) s"] Cons.prems by (simp add: kv step entry_Cons entry_absent)
  next
    case False
    then have same: "F (filter_key (k, v) s) = F s" by (simp add: step)
    show ?thesis using False Cons.IH [of "filter_key (k, v) s", unfolded same] Cons.prems by (simp add: kv entry_Cons)
  qed
qed (simp add: entry_def)

lemma fold_filter_key_sets:
  assumes "hm_wf obj"
  shows "set (sh_kinds (fold filter_key obj s)) =
      set (sh_kinds s) \<union> entry obj ''kinds'' (\<lambda>v. (\<lambda>n. n mod 4294967296) ` set (array_items as_u64 v)) {}"
    "set (sh_authors (fold filter_key obj s)) = set (sh_authors s) \<union> entry obj ''authors'' (\<lambda>v. set (array_items as_str v)) {}"
    "set (sh_event_ids (fold filter_key obj s)) = set (sh_event_ids s) \<union> entry obj ''ids'' (\<lambda>v. set (array_items as_str v)) {}"
    "set (sh_addresses (fold filter_key obj s)) =
      set (sh_addresses s) \<union> entry obj ''#a'' (\<lambda>v. set (List.map_filter parse_coord (array_items as_str v))) {}"
  by (rule fold_set_field [OF filter_key_sets(1) assms] fold_set_field [OF filter_key_sets(2) assms]
      fold_set_field [OF filter_key_sets(3) assms] fold_set_field [OF filter_key_sets(4) assms])+

lemma fold_filter_key_scalars:
  assumes "hm_wf obj"
  shows "sh_since (fold filter_key obj s) = entry obj ''since'' (\<lambda>v. if as_u64 v \<noteq> None then as_u64 v else sh_since s) (sh_since s)"
    "sh_until (fold filter_key obj s) = entry obj ''until'' (\<lambda>v. if as_u64 v \<noteq> None then as_u64 v else sh_until s) (sh_until s)"
    "sh_limit (fold filter_key obj s) =
       entry obj ''limit'' (\<lambda>v. if as_u64 v \<noteq> None then map_option (\<lambda>n. n mod 4294967296) (as_u64 v) else sh_limit s) (sh_limit s)"
    "sh_search (fold filter_key obj s) =
       entry obj ''search'' (\<lambda>v. if as_str v \<noteq> None then bounded_search_query (the (as_str v)) else sh_search s) (sh_search s)"
    "sh_relay_pin (fold filter_key obj s) = sh_relay_pin s"
    "sh_p_tag_routing (fold filter_key obj s) = sh_p_tag_routing s"
proof -
  show "sh_relay_pin (fold filter_key obj s) = sh_relay_pin s" "sh_p_tag_routing (fold filter_key obj s) = sh_p_tag_routing s"
    by (induction obj arbitrary: s; force simp: filter_key_scalars)+
qed (rule fold_scalar_field [OF filter_key_scalars(1) assms] fold_scalar_field [OF filter_key_scalars(2) assms]
    fold_scalar_field [OF filter_key_scalars(3) assms] fold_scalar_field [OF filter_key_scalars(4) assms])+

lemma fold_filter_key_tags:
  assumes "hm_wf obj"
  shows "map_of (sh_tags (fold filter_key obj s)) l =
    (if single_char l \<and> l \<noteq> ''a''
     then entry obj (CHR ''#'' # l)
       (\<lambda>v. if as_array v \<noteq> None then Some (bs_extend (unwrap_or [] (map_of (sh_tags s) l)) (array_items as_str v))
            else map_of (sh_tags s) l) (map_of (sh_tags s) l)
     else map_of (sh_tags s) l)"
  using assms
proof (induction obj arbitrary: s)
  case (Cons kv obj)
  obtain k v where kv: "kv = (k, v)" by (cases kv)
  show ?case
  proof (cases "k = CHR ''#'' # l")
    case True
    then show ?thesis
      using Cons.IH [of "filter_key (k, v) s"] Cons.prems by (auto simp: kv filter_key_tags entry_Cons entry_absent)
  next
    case False
    then have same: "map_of (sh_tags (filter_key (k, v) s)) l = map_of (sh_tags s) l" by (simp add: filter_key_tags)
    show ?thesis
      using False Cons.IH [of "filter_key (k, v) s", unfolded same] Cons.prems by (simp add: kv entry_Cons)
  qed
qed (simp add: entry_def)

text \<open>The same array in another order, or with repeated elements, is the same constraint.\<close>

definition same_items :: "json \<Rightarrow> json \<Rightarrow> bool" where
  "same_items v w \<longleftrightarrow> v = w \<or> (\<exists>vs ws. v = JArray vs \<and> w = JArray ws \<and> set vs = set ws)"

definition same_object :: "(string \<times> json) list \<Rightarrow> (string \<times> json) list \<Rightarrow> bool" where
  "same_object obj obj' \<longleftrightarrow> hm_wf obj \<and> hm_wf obj' \<and>
     (\<forall>k. rel_option same_items (map_of obj k) (map_of obj' k))"

lemma entry_same:
  assumes "same_object obj obj'" and "\<And>v w. same_items v w \<Longrightarrow> f v = f w"
  shows "entry obj k f d = entry obj' k f d"
  using assms by (auto simp: same_object_def entry_def option.rel_sel split: option.splits elim!: allE [of _ k])

lemma shape_of_same_object:
  assumes "same_object obj obj'"
  shows "shape_of_object obj = shape_of_object obj'"
proof -
  have wf: "hm_wf obj" "hm_wf obj'" using assms by (simp_all add: same_object_def)
  have same: "bs_extend [] xs = bs_extend [] ys" if "set xs = set ys" for xs ys :: "string list"
    using that by (simp add: bs_eq_iff bs_wf_extend)
  note e = entry_same [OF assms] and items = same_items_def array_items_def as_array_def as_u64_def as_str_def set_map_filter_iff
  have tags: "map_of (sh_tags (fold filter_key obj shape_default)) l = map_of (sh_tags (fold filter_key obj' shape_default)) l" for l
    unfolding fold_filter_key_tags [OF wf(1)] fold_filter_key_tags [OF wf(2)]
    by (auto simp: shape_default_def items intro!: e same)
  show ?thesis
    unfolding shape_of_object_def
  proof (rule shape_eqI)
    show "map_of (sh_tags (fold filter_key obj shape_default)) = map_of (sh_tags (fold filter_key obj' shape_default))"
      using tags by auto
  qed (unfold fold_filter_key_sets [OF wf(1)] fold_filter_key_sets [OF wf(2)]
      fold_filter_key_scalars [OF wf(1)] fold_filter_key_scalars [OF wf(2)],
      (rule shape_wf_of_object | rule refl | rule arg_cong [of _ _ "\<lambda>x. _ \<union> x"] | rule e | force simp: items)+)
qed

text \<open>C25. A filter is read canonically: two JSON objects with the same keys, in any order, whose arrays
  hold the same elements, in any order and however often, are read as the same shape, and every field
  of that shape is a sorted set without duplicates. So equal filters get equal registry keys.\<close>

theorem filter_json_canonical:
  assumes "parse a = Some (JObject obj)" and "parse b = Some (JObject obj')" and "same_object obj obj'"
  shows "from_filter_json parse a = from_filter_json parse b \<and>
    (\<exists>shape. from_filter_json parse a = Some shape \<and> shape_wf shape)"
  using assms shape_of_same_object [OF assms(3)] shape_wf_of_object [OF shape_wf_default, of obj]
  by (auto simp: from_filter_json_def as_object_def shape_of_object_def)

definition demo_parse :: "string \<Rightarrow> json option" where
  "demo_parse s =
     (if s = ''x'' then Some (JObject [(''kinds'', JArray [JU64 1, JU64 6]), (''#t'', JArray [JString ''nostr''])])
      else if s = ''y'' then Some (JObject [(''#t'', JArray [JString ''nostr'']), (''kinds'', JArray [JU64 6, JU64 1, JU64 6])])
      else None)"

theorem filter_json_canonical_witness: "from_filter_json demo_parse ''x'' = from_filter_json demo_parse ''y''"
proof -
  have "same_object [(''kinds'', JArray [JU64 1, JU64 6]), (''#t'', JArray [JString ''nostr''])]
      [(''#t'', JArray [JString ''nostr'']), (''kinds'', JArray [JU64 6, JU64 1, JU64 6])]"
    by (auto simp: same_object_def same_items_def)
  then show ?thesis
    using filter_json_canonical [of demo_parse "''x''" "[(''kinds'', JArray [JU64 1, JU64 6]), (''#t'', JArray [JString ''nostr''])]"
        "''y''" "[(''#t'', JArray [JString ''nostr'']), (''kinds'', JArray [JU64 6, JU64 1, JU64 6])]"]
    by (simp add: demo_parse_def)
qed

section \<open>Coordinates read back\<close>

text \<open>The documented wire form \<open>kind:pubkey:d-tag\<close>.\<close>

definition show_coord :: "naddr_coord \<Rightarrow> string" where
  "show_coord c = show_nat (nc_kind c) @ '':'' @ nc_pubkey c @ '':'' @ nc_d_tag c"

lemma parse_show_coord:
  assumes "CHR '':'' \<notin> set (nc_pubkey c)" "nc_kind c < 4294967296"
  shows "parse_coord (show_coord c) = Some c"
proof -
  have "CHR '':'' \<notin> set (show_nat (nc_kind c))" by (rule nondigit_notin_show_nat) code_simp
  then have "splitn (Suc (Suc (Suc 0))) CHR '':'' (show_coord c) = [show_nat (nc_kind c), nc_pubkey c, nc_d_tag c]"
    using assms(1) by (simp add: show_coord_def split_once_append)
  then have "splitn 3 CHR '':'' (show_coord c) = [show_nat (nc_kind c), nc_pubkey c, nc_d_tag c]"
    by (simp only: numeral_3_eq_3)
  moreover have "parse_u32 (show_nat (nc_kind c)) = Some (nc_kind c)"
    unfolding parse_u32_def by (rule parse_uint_show) (simp add: assms(2))
  ultimately show ?thesis by (simp add: parse_coord_def)
qed

text \<open>Address filters survive the wire: a \<open>#a\<close> filter that lists coordinates in their wire form is
  read back as exactly those coordinates, also when a \<open>d\<close> tag contains colons or is empty.\<close>

theorem address_filter_roundtrip:
  assumes "\<forall>c \<in> set cs. CHR '':'' \<notin> set (nc_pubkey c) \<and> nc_kind c < 4294967296"
  shows "sh_addresses (shape_of_object [(''#a'', JArray (map (\<lambda>c. JString (show_coord c)) cs))]) = bs_of_list cs"
proof -
  have "List.map_filter parse_coord (map show_coord cs) = cs"
    using assms by (induction cs) (auto simp: List.map_filter_simps parse_show_coord)
  moreover have "List.map_filter as_str (map (\<lambda>c. JString (show_coord c)) cs) = map show_coord cs"
    by (induction cs) (auto simp: List.map_filter_simps as_str_def)
  ultimately show ?thesis
    by (simp add: shape_of_object_def filter_key_def shape_default_def array_items_def as_array_def bs_of_list_def)
qed

theorem address_filter_roundtrip_witness:
  "sh_addresses (shape_of_object [(''#a'', JArray [JString (show_coord (NaddrCoord ''ab'' 30023 ''x:y''))])]) =
     [NaddrCoord ''ab'' 30023 ''x:y'']"
  using address_filter_roundtrip [of "[NaddrCoord ''ab'' 30023 ''x:y'']"]
  by (simp add: bs_of_list_def bs_extend_def insort_insert_key_def)

end
