(* ===== verification/Subs_Registry.thy ===== *)
theory Subs_Registry
  imports Planner_Interest
begin

text \<open>
  The registry of logical interests (\<open>nmp-core/src/subs/registry.rs\<close>, identities of
  \<open>subs/sub_key.rs\<close>, write policies of \<open>kernel/cache_serve/mod.rs\<close>).

  A slot is keyed by scope and key and is shared by owners; it holds one interest. The contract a
  reader of the registry relies on is an ownership relation: who is attached to what. The last part
  proves that the slots implement it.
\<close>

section \<open>Identities\<close>

datatype sub_key = SubKey (sk: u64)

datatype sub_owner_key = SubOwnerKey (ok: u64)

datatype sub_scope = AccountScope pubkey | GlobalScope

definition scope_rank :: "sub_scope \<Rightarrow> nat \<times> string" where
  "scope_rank s = (case s of AccountScope pk \<Rightarrow> (0, pk) | GlobalScope \<Rightarrow> (1, []))"

lemma scope_rank_inject [simp]: "scope_rank s = scope_rank t \<longleftrightarrow> s = t"
  by (cases s; cases t) (simp_all add: scope_rank_def)

lemma sk_inject [simp]: "sk a = sk b \<longleftrightarrow> a = b"
  by (cases a; cases b) simp

lemma ok_inject [simp]: "ok a = ok b \<longleftrightarrow> a = b"
  by (cases a; cases b) simp

text \<open>The derived orders.\<close>

instantiation sub_key :: linorder
begin

definition less_eq_sub_key :: "sub_key \<Rightarrow> sub_key \<Rightarrow> bool" where
  "a \<le> b \<longleftrightarrow> sk a \<le> sk b"

definition less_sub_key :: "sub_key \<Rightarrow> sub_key \<Rightarrow> bool" where
  "a < b \<longleftrightarrow> sk a < sk b"

instance
  by standard (auto simp: less_eq_sub_key_def less_sub_key_def simp flip: sk_inject)

end

instantiation sub_owner_key :: linorder
begin

definition less_eq_sub_owner_key :: "sub_owner_key \<Rightarrow> sub_owner_key \<Rightarrow> bool" where
  "a \<le> b \<longleftrightarrow> ok a \<le> ok b"

definition less_sub_owner_key :: "sub_owner_key \<Rightarrow> sub_owner_key \<Rightarrow> bool" where
  "a < b \<longleftrightarrow> ok a < ok b"

instance
  by standard (auto simp: less_eq_sub_owner_key_def less_sub_owner_key_def simp flip: ok_inject)

end

instantiation sub_scope :: linorder
begin

definition less_eq_sub_scope :: "sub_scope \<Rightarrow> sub_scope \<Rightarrow> bool" where
  "a \<le> b \<longleftrightarrow> scope_rank a \<le> scope_rank b"

definition less_sub_scope :: "sub_scope \<Rightarrow> sub_scope \<Rightarrow> bool" where
  "a < b \<longleftrightarrow> scope_rank a < scope_rank b"

instance
  by standard (auto simp: less_eq_sub_scope_def less_sub_scope_def simp flip: scope_rank_inject)

end

record sub_identity =
  si_owner :: sub_owner_key
  si_key :: sub_key
  si_scope :: sub_scope

definition sub_identity_new :: "sub_owner_key \<Rightarrow> sub_key \<Rightarrow> sub_scope \<Rightarrow> sub_identity" where
  "sub_identity_new owner key scope = \<lparr>si_owner = owner, si_key = key, si_scope = scope\<rparr>"

definition shared :: "sub_identity \<Rightarrow> sub_scope \<times> sub_key" where
  "shared i = (si_scope i, si_key i)"

section \<open>The registry\<close>

record slot =
  sl_interest :: logical_interest
  sl_owners :: "sub_owner_key list"

type_synonym interest_registry = "((sub_scope \<times> sub_key) \<times> slot) list"

definition plan_relevant_change :: "logical_interest \<Rightarrow> logical_interest \<Rightarrow> bool" where
  "plan_relevant_change stored incoming \<longleftrightarrow>
     li_shape stored \<noteq> li_shape incoming \<or> li_lifecycle stored \<noteq> li_lifecycle incoming \<or>
     li_hints stored \<noteq> li_hints incoming \<or>
     li_is_indexer_discovery stored \<noteq> li_is_indexer_discovery incoming"

datatype interest_write = EnsureAbsent | Replace

record registration_outcome =
  ro_newly_installed :: bool
  ro_changed :: bool

definition registry_apply ::
  "interest_write \<Rightarrow> sub_identity \<Rightarrow> logical_interest \<Rightarrow> interest_registry \<Rightarrow> registration_outcome \<times> interest_registry" where
  "registry_apply policy identity interest slots =
     (let installed = (\<lparr>ro_newly_installed = True, ro_changed = True\<rparr>,
            bm_insert (shared identity) \<lparr>sl_interest = interest, sl_owners = [si_owner identity]\<rparr> slots) in
      case policy of
        EnsureAbsent \<Rightarrow>
          (case map_of slots (shared identity) of
             Some s \<Rightarrow> (\<lparr>ro_newly_installed = False, ro_changed = False\<rparr>,
               bm_insert (shared identity) (s\<lparr>sl_owners := bs_insert (si_owner identity) (sl_owners s)\<rparr>) slots)
           | None \<Rightarrow> installed)
      | Replace \<Rightarrow>
          (case map_of slots (shared identity) of
             Some s \<Rightarrow> (\<lparr>ro_newly_installed = False, ro_changed = plan_relevant_change (sl_interest s) interest\<rparr>,
               bm_insert (shared identity)
                 \<lparr>sl_interest = interest, sl_owners = bs_insert (si_owner identity) (sl_owners s)\<rparr> slots)
           | None \<Rightarrow> installed))"

definition drop_owner :: "sub_identity \<Rightarrow> interest_registry \<Rightarrow> bool \<times> interest_registry" where
  "drop_owner identity slots =
     (case map_of slots (shared identity) of
        None \<Rightarrow> (False, slots)
      | Some s \<Rightarrow>
          let owners = bs_remove (si_owner identity) (sl_owners s) in
          if owners = [] then (True, hm_remove (shared identity) slots)
          else (False, bm_insert (shared identity) (s\<lparr>sl_owners := owners\<rparr>) slots))"

definition iter_active :: "interest_registry \<Rightarrow> logical_interest list" where
  "iter_active slots = map (\<lambda>(_, s). sl_interest s) slots"

definition iter_active_with_keys :: "interest_registry \<Rightarrow> (sub_key \<times> logical_interest) list" where
  "iter_active_with_keys slots = map (\<lambda>((_, key), s). (key, sl_interest s)) slots"

definition owner_count :: "interest_registry \<Rightarrow> sub_scope \<Rightarrow> sub_key \<Rightarrow> nat" where
  "owner_count slots scope key = (case map_of slots (scope, key) of None \<Rightarrow> 0 | Some s \<Rightarrow> length (sl_owners s))"

instantiation interest_id :: linorder
begin

definition less_eq_interest_id :: "interest_id \<Rightarrow> interest_id \<Rightarrow> bool" where
  "a \<le> b \<longleftrightarrow> iid a \<le> iid b"

definition less_interest_id :: "interest_id \<Rightarrow> interest_id \<Rightarrow> bool" where
  "a < b \<longleftrightarrow> iid a < iid b"

instance
proof
  fix a b :: interest_id
  show "a \<le> b \<Longrightarrow> b \<le> a \<Longrightarrow> a = b" by (cases a; cases b) (simp add: less_eq_interest_id_def)
qed (auto simp: less_eq_interest_id_def less_interest_id_def)

end

text \<open>The counters are \<open>usize\<close> and saturate.\<close>

definition saturating_add_usize :: "usize \<Rightarrow> usize \<Rightarrow> usize" where
  "saturating_add_usize a b = min u64_max (a + b)"

definition owner_counts_by_interest_id :: "interest_registry \<Rightarrow> (interest_id \<times> usize) list" where
  "owner_counts_by_interest_id slots =
     fold (\<lambda>(_, s). bm_entry 0 (li_id (sl_interest s)) (\<lambda>count. saturating_add_usize count (length (sl_owners s)))) slots []"

section \<open>The contract\<close>

text \<open>Who is attached to a key, and which interest the key stands for.\<close>

type_synonym ownership = "(sub_scope \<times> sub_key \<Rightarrow> sub_owner_key set) \<times> (sub_scope \<times> sub_key \<Rightarrow> logical_interest option)"

datatype registry_op = Register interest_write sub_identity logical_interest | Unregister sub_identity

fun spec_step :: "registry_op \<Rightarrow> ownership \<Rightarrow> ownership" where
  "spec_step (Register policy i interest) (own, ints) =
     (own(shared i := insert (si_owner i) (own (shared i))),
      if policy = Replace \<or> own (shared i) = {} then ints(shared i \<mapsto> interest) else ints)"
| "spec_step (Unregister i) (own, ints) =
     (own(shared i := own (shared i) - {si_owner i}),
      if own (shared i) \<subseteq> {si_owner i} then ints(shared i := None) else ints)"

fun registry_step :: "registry_op \<Rightarrow> interest_registry \<Rightarrow> interest_registry" where
  "registry_step (Register policy i interest) slots = snd (registry_apply policy i interest slots)"
| "registry_step (Unregister i) slots = snd (drop_owner i slots)"

definition owners_at :: "interest_registry \<Rightarrow> sub_scope \<times> sub_key \<Rightarrow> sub_owner_key set" where
  "owners_at slots k = (case map_of slots k of None \<Rightarrow> {} | Some s \<Rightarrow> set (sl_owners s))"

definition ownership_of :: "interest_registry \<Rightarrow> ownership" where
  "ownership_of slots = (owners_at slots, \<lambda>k. map_option sl_interest (map_of slots k))"

definition registry_wf :: "interest_registry \<Rightarrow> bool" where
  "registry_wf slots \<longleftrightarrow> bm_wf slots \<and> (\<forall>k s. map_of slots k = Some s \<longrightarrow> bs_wf (sl_owners s) \<and> sl_owners s \<noteq> [])"

lemma registry_wf_Nil [simp]: "registry_wf []"
  by (simp add: registry_wf_def)

lemma registry_wf_put:
  "registry_wf slots \<Longrightarrow> bs_wf (sl_owners s) \<Longrightarrow> sl_owners s \<noteq> [] \<Longrightarrow> registry_wf (bm_insert k s slots)"
  by (auto simp: registry_wf_def bm_wf_insert map_of_bm_insert)

lemma registry_wf_del: "registry_wf slots \<Longrightarrow> registry_wf (hm_remove k slots)"
  by (auto simp: registry_wf_def bm_wf_remove hash_map.get_del split: if_splits)

lemma registry_wf_slot: "registry_wf slots \<Longrightarrow> map_of slots k = Some s \<Longrightarrow> bs_wf (sl_owners s) \<and> sl_owners s \<noteq> []"
  unfolding registry_wf_def by blast

lemma insort_insert_not_Nil [simp]: "bs_insert x xs \<noteq> []"
  by (metis empty_iff insertI1 list.set(1) set_bs_insert)

lemma registry_step_wf: "registry_wf slots \<Longrightarrow> registry_wf (registry_step op slots)"
proof (cases op)
  case (Register policy i interest)
  assume "registry_wf slots"
  then show ?thesis
    using registry_wf_slot [of slots "shared i"]
    by (cases policy; cases "map_of slots (shared i)")
      (auto simp: Register registry_apply_def Let_def bs_wf_insert intro!: registry_wf_put)
next
  case (Unregister i)
  assume "registry_wf slots"
  then show ?thesis
    using registry_wf_slot [of slots "shared i"]
    by (cases "map_of slots (shared i)")
      (auto simp: Unregister drop_owner_def Let_def bs_wf_remove intro!: registry_wf_put registry_wf_del)
qed

lemma owners_at_Nil [simp]: "owners_at [] = (\<lambda>_. {})"
  by (simp add: owners_at_def fun_eq_iff)

lemma owners_at_put [simp]: "owners_at (bm_insert k s slots) = (owners_at slots)(k := set (sl_owners s))"
  by (auto simp: owners_at_def map_of_bm_insert fun_eq_iff)

lemma owners_at_del [simp]: "owners_at (hm_remove k slots) = (owners_at slots)(k := {})"
  by (auto simp: owners_at_def hash_map.get_del fun_eq_iff)

lemma owners_at_empty: "registry_wf slots \<Longrightarrow> owners_at slots k = {} \<longleftrightarrow> map_of slots k = None"
  using registry_wf_slot [of slots k] by (auto simp: owners_at_def split: option.splits)

lemma registry_step_spec:
  assumes "registry_wf slots"
  shows "ownership_of (registry_step op slots) = spec_step op (ownership_of slots)"
proof (cases op)
  case (Register policy i interest)
  show ?thesis
  proof (cases "map_of slots (shared i)")
    case None
    then show ?thesis using owners_at_empty [OF assms, of "shared i"]
      by (cases policy) (auto simp: Register registry_apply_def ownership_of_def Let_def map_of_bm_insert fun_eq_iff)
  next
    case (Some s)
    moreover have "owners_at slots (shared i) = set (sl_owners s)" by (simp add: owners_at_def Some)
    moreover have "sl_owners s \<noteq> []" using assms Some by (simp add: registry_wf_slot)
    ultimately show ?thesis
      by (cases policy) (auto simp: Register registry_apply_def ownership_of_def Let_def map_of_bm_insert fun_eq_iff)
  qed
next
  case (Unregister i)
  show ?thesis
  proof (cases "map_of slots (shared i)")
    case None
    then have "owners_at slots (shared i) = {}" by (simp add: owners_at_def)
    with None show ?thesis by (auto simp: Unregister drop_owner_def ownership_of_def fun_eq_iff)
  next
    case (Some s)
    then have at: "owners_at slots (shared i) = set (sl_owners s)" by (simp add: owners_at_def)
    have "bs_remove (si_owner i) (sl_owners s) = [] \<longleftrightarrow> set (sl_owners s) \<subseteq> {si_owner i}"
      by (metis Diff_eq_empty_iff set_bs_remove set_empty)
    then show ?thesis
      by (auto simp: Unregister Some at drop_owner_def ownership_of_def Let_def map_of_bm_insert hash_map.get_del fun_eq_iff)
  qed
qed

lemma registry_run:
  "registry_wf slots \<Longrightarrow>
     registry_wf (fold registry_step ops slots) \<and>
     ownership_of (fold registry_step ops slots) = fold spec_step ops (ownership_of slots)"
  by (induction ops arbitrary: slots) (auto simp: registry_step_wf registry_step_spec)

lemma registry_keys:
  assumes "registry_wf slots"
  shows "map fst slots = sorted_list_of_set {k. owners_at slots k \<noteq> {}}"
proof -
  have "{k. owners_at slots k \<noteq> {}} = set (map fst slots)"
    using owners_at_empty [OF assms] by (auto simp: map_of_eq_None_iff)
  moreover have "bm_wf slots" using assms by (simp add: registry_wf_def)
  ultimately show ?thesis
    using sorted_list_of_set.idem_if_sorted_distinct [of "map fst slots"] by (simp add: strict_sorted_iff)
qed

lemma registry_active:
  assumes "registry_wf slots"
  shows "iter_active slots = map (\<lambda>k. the (map_option sl_interest (map_of slots k))) (map fst slots)"
proof -
  have wf: "hm_wf slots" using assms by (simp add: registry_wf_def bm_wf_distinct)
  show ?thesis
    unfolding iter_active_def map_map comp_def by (rule map_cong) (auto simp: hm_mem_iff [OF wf])
qed

text \<open>C29. The registry implements the ownership relation, whatever sequence of registrations and
  releases built it: a slot is live exactly while an owner is attached, it keeps the interest of its
  first registration until one with \<open>Replace\<close> comes, the planner sees one interest per live key in key
  order, and the outcomes reported to callers say which owner was first and which was last.\<close>

theorem registry_tracks_ownership:
  "let slots = fold registry_step ops []; spec = fold spec_step ops (\<lambda>_. {}, \<lambda>_. None) in
    ownership_of slots = spec \<and>
    map fst slots = sorted_list_of_set {k. fst spec k \<noteq> {}} \<and>
    iter_active slots = map (\<lambda>k. the (snd spec k)) (sorted_list_of_set {k. fst spec k \<noteq> {}}) \<and>
    owner_count slots (si_scope i) (si_key i) = card (fst spec (shared i)) \<and>
    ro_newly_installed (fst (registry_apply policy i interest slots)) = (fst spec (shared i) = {}) \<and>
    fst (drop_owner i slots) = (fst spec (shared i) = {si_owner i})"
proof -
  define slots where "slots = fold registry_step ops []"
  define spec where "spec = fold spec_step ops (\<lambda>_. {}, \<lambda>_. None)"
  have wf: "registry_wf slots" and spec: "spec = ownership_of slots"
    using registry_run [of "[]" ops] by (simp_all add: slots_def spec_def ownership_of_def)
  have own: "fst spec = owners_at slots" "snd spec = (\<lambda>k. map_option sl_interest (map_of slots k))"
    by (simp_all add: spec ownership_of_def)
  have count: "owner_count slots (si_scope i) (si_key i) = card (owners_at slots (shared i))"
    using registry_wf_slot [OF wf, of "shared i"]
    by (auto simp: owner_count_def owners_at_def shared_def length_bs_card split: option.splits)
  have outcome: "ro_newly_installed (fst (registry_apply policy i interest slots)) = (owners_at slots (shared i) = {})"
    by (cases policy) (auto simp: registry_apply_def Let_def owners_at_empty [OF wf] split: option.splits)
  have dropped: "fst (drop_owner i slots) = (owners_at slots (shared i) = {si_owner i})"
  proof (cases "map_of slots (shared i)")
    case None
    then show ?thesis by (simp add: drop_owner_def owners_at_def)
  next
    case (Some s)
    have "bs_remove (si_owner i) (sl_owners s) = [] \<longleftrightarrow> set (sl_owners s) \<subseteq> {si_owner i}"
      by (metis Diff_eq_empty_iff set_bs_remove set_empty)
    moreover have "sl_owners s \<noteq> []" using registry_wf_slot [OF wf Some] by simp
    ultimately show ?thesis by (auto simp: drop_owner_def owners_at_def Some Let_def subset_singleton_iff)
  qed
  show ?thesis
    using registry_keys [OF wf] registry_active [OF wf] count outcome dropped
    unfolding slots_def [symmetric] spec_def [symmetric] Let_def by (simp add: own flip: spec)
qed

text \<open>Two owners share a slot: the first keeps its filter against the second, which is left alone when
  the first goes.\<close>

definition demo_identity :: "u64 \<Rightarrow> sub_identity" where
  "demo_identity n = sub_identity_new (SubOwnerKey n) (SubKey 7) GlobalScope"

lemma registry_shared_slot:
  "let one = logical_default; two = logical_default\<lparr>li_id := InterestId 2\<rparr>;
       ops = [Register EnsureAbsent (demo_identity 1) one, Register EnsureAbsent (demo_identity 2) two,
              Unregister (demo_identity 1)] in
   iter_active (fold registry_step ops []) = [one] \<and> owner_count (fold registry_step ops []) GlobalScope (SubKey 7) = 1"
  by code_simp

end
