(* ===== verification/Planner_Lattice.thy ===== *)
theory Planner_Lattice
  imports Planner_Interest
begin

text \<open>
  The merge lattice of the planner (\<open>nmp-planner/src/lattice\<close>): the rules that decide whether two
  filters bound for one relay may be sent as one, and the merged filter. The theorems say when the
  merged filter asks for at least what the two asked for, that merging does not depend on the order of
  its arguments, and which bounds it keeps.
\<close>

section \<open>The rules\<close>

definition DEFAULT_VALUE_LIMIT :: usize where
  "DEFAULT_VALUE_LIMIT = 1000"

definition rule1_kinds :: "interest_shape \<Rightarrow> interest_shape \<Rightarrow> u32 list option" where
  "rule1_kinds a b =
     (if sh_kinds a = [] \<or> sh_kinds b = [] then Some []
      else if sh_kinds a = sh_kinds b then Some (sh_kinds a)
      else None)"

text \<open>The loop over the dimensions of \<open>a\<close>.\<close>

fun rule2_loop ::
  "(string \<times> string list) list \<Rightarrow> (string \<times> string list) list \<Rightarrow> usize \<Rightarrow>
   (string \<times> string list) list \<Rightarrow> (string \<times> string list) list option" where
  "rule2_loop [] b_tags limit merged = Some merged"
| "rule2_loop ((key, av) # a_tags) b_tags limit merged =
     do { bv \<leftarrow> map_of b_tags key;
          let union = bs_union av bv;
          if length union > limit then None
          else rule2_loop a_tags b_tags limit (bm_insert key union merged) }"

definition rule2_tags :: "interest_shape \<Rightarrow> interest_shape \<Rightarrow> usize \<Rightarrow> (string \<times> string list) list option" where
  "rule2_tags a b limit =
     (if map fst (sh_tags a) \<noteq> map fst (sh_tags b) then None
      else rule2_loop (sh_tags a) (sh_tags b) limit [])"

definition rule3_since :: "interest_shape \<Rightarrow> interest_shape \<Rightarrow> u64 option option" where
  "rule3_since a b =
     (case (sh_since a, sh_since b) of
        (None, None) \<Rightarrow> Some None
      | (Some sa, Some sb) \<Rightarrow> Some (Some (min sa sb))
      | _ \<Rightarrow> None)"

definition rule4_until :: "interest_shape \<Rightarrow> interest_shape \<Rightarrow> u64 option option" where
  "rule4_until a b =
     (case (sh_until a, sh_until b) of
        (None, None) \<Rightarrow> Some None
      | (Some ua, Some ub) \<Rightarrow> Some (Some (max ua ub))
      | _ \<Rightarrow> None)"

definition rule5_limit :: "interest_shape \<Rightarrow> interest_shape \<Rightarrow> bool" where
  "rule5_limit a b \<longleftrightarrow> sh_limit a = None \<and> sh_limit b = None"

definition rule6_lifecycle :: "interest_lifecycle \<Rightarrow> interest_lifecycle \<Rightarrow> bool" where
  "rule6_lifecycle a b \<longleftrightarrow> a = b"

definition rule7_event_ids :: "interest_shape \<Rightarrow> interest_shape \<Rightarrow> usize \<Rightarrow> string list option" where
  "rule7_event_ids a b limit =
     (let union = bs_union (sh_event_ids a) (sh_event_ids b) in
      if length union > limit then None else Some union)"

definition rule8_addresses :: "interest_shape \<Rightarrow> interest_shape \<Rightarrow> usize \<Rightarrow> naddr_coord list option" where
  "rule8_addresses a b limit =
     (let union = bs_union (sh_addresses a) (sh_addresses b) in
      if length union > limit then None else Some union)"

definition rule9_relay_pin :: "interest_shape \<Rightarrow> interest_shape \<Rightarrow> bool" where
  "rule9_relay_pin a b \<longleftrightarrow> sh_relay_pin a = sh_relay_pin b"

definition rule10_search :: "interest_shape \<Rightarrow> interest_shape \<Rightarrow> bool" where
  "rule10_search a b \<longleftrightarrow> sh_search a = sh_search b"

section \<open>The merge\<close>

datatype merge_outcome = Merged interest_shape | Refused

definition or_refused :: "'a option \<Rightarrow> ('a \<Rightarrow> merge_outcome) \<Rightarrow> merge_outcome" where
  "or_refused r f = (case r of Some x \<Rightarrow> f x | None \<Rightarrow> Refused)"

definition lattice_merge ::
  "interest_shape \<Rightarrow> interest_shape \<Rightarrow> interest_lifecycle \<Rightarrow> interest_lifecycle \<Rightarrow> merge_outcome" where
  "lattice_merge a b lifecycle_a lifecycle_b =
     (if \<not> rule6_lifecycle lifecycle_a lifecycle_b then Refused
      else if \<not> rule9_relay_pin a b then Refused
      else if \<not> rule10_search a b then Refused
      else if sh_p_tag_routing a \<noteq> sh_p_tag_routing b then Refused
      else
        or_refused (rule1_kinds a b) (\<lambda>merged_kinds.
        or_refused (rule2_tags a b DEFAULT_VALUE_LIMIT) (\<lambda>merged_tags.
        or_refused (rule3_since a b) (\<lambda>merged_since.
        or_refused (rule4_until a b) (\<lambda>merged_until.
          if \<not> rule5_limit a b then Refused
          else
            or_refused (rule7_event_ids a b DEFAULT_VALUE_LIMIT) (\<lambda>merged_event_ids.
            or_refused (rule8_addresses a b DEFAULT_VALUE_LIMIT) (\<lambda>merged_addresses.
              Merged \<lparr>sh_authors = bs_union (sh_authors a) (sh_authors b), sh_kinds = merged_kinds,
                sh_tags = merged_tags, sh_since = merged_since, sh_until = merged_until, sh_limit = None,
                sh_search = sh_search a, sh_event_ids = merged_event_ids, sh_addresses = merged_addresses,
                sh_relay_pin = sh_relay_pin a, sh_p_tag_routing = sh_p_tag_routing a\<rparr>)))))))"

section \<open>The tag rule as a pointwise union\<close>

lemma or_refused_Merged: "or_refused r f = Merged c \<longleftrightarrow> (\<exists>x. r = Some x \<and> f x = Merged c)"
  by (simp add: or_refused_def split: option.splits)

definition union_tags :: "(string \<times> string list) list \<Rightarrow> (string \<times> string list) list \<Rightarrow> (string \<times> string list) list" where
  "union_tags a b = map (\<lambda>(k, av). (k, bs_union av (unwrap_or [] (map_of b k)))) a"

lemma union_tags_simps [simp]:
  "union_tags [] b = []"
  "union_tags ((k, av) # a) b = (k, bs_union av (unwrap_or [] (map_of b k))) # union_tags a b"
  by (simp_all add: union_tags_def)

lemma rule2_loop_result:
  assumes "bm_wf (merged @ a)" and "fst ` set a \<subseteq> fst ` set b"
  shows "rule2_loop a b limit merged =
    (if \<forall>(k, vs) \<in> set (union_tags a b). length vs \<le> limit then Some (merged @ union_tags a b) else None)"
  using assms
proof (induction a arbitrary: merged)
  case (Cons kv a)
  obtain k av where kv: "kv = (k, av)" by (cases kv)
  from Cons.prems obtain bv where bv: "map_of b k = Some bv"
    by (metis kv fst_conv image_subset_iff list.set_intros(1) map_of_eq_None_iff option.exhaust)
  have append: "bm_insert k x merged = merged @ [(k, x)]" for x
    using Cons.prems by (intro bm_insert_append) (auto simp: kv hm_keys_def sorted_wrt_append)
  have "bm_wf ((merged @ [(k, bs_union av bv)]) @ a)" using Cons.prems by (simp add: kv)
  from Cons.IH [OF this] Cons.prems(2) show ?case
    by (simp add: kv bv append Let_def)
qed simp

lemma rule2_tags_result:
  assumes "shape_wf a"
  shows "rule2_tags a b limit = Some t \<longleftrightarrow>
    map fst (sh_tags a) = map fst (sh_tags b) \<and> t = union_tags (sh_tags a) (sh_tags b) \<and>
    (\<forall>(k, vs) \<in> set t. length vs \<le> limit)"
proof (cases "map fst (sh_tags a) = map fst (sh_tags b)")
  case True
  then have "fst ` set (sh_tags a) \<subseteq> fst ` set (sh_tags b)" by (metis list.set_map order_refl)
  from rule2_loop_result [where merged = "[]", OF _ this, of limit] assms True show ?thesis
    by (auto simp: rule2_tags_def shape_wf_def)
qed (simp add: rule2_tags_def)

lemma union_tags_keys [simp]: "map fst (union_tags a b) = map fst a"
  by (simp add: union_tags_def comp_def split_def)

lemma map_of_union_tags:
  "map_of (union_tags a b) k = map_option (\<lambda>av. bs_union av (unwrap_or [] (map_of b k))) (map_of a k)"
  by (induction a) (auto simp: union_tags_def)

text \<open>The merged shape, spelled out.\<close>

definition merged_shape :: "interest_shape \<Rightarrow> interest_shape \<Rightarrow> interest_shape" where
  "merged_shape a b = \<lparr>sh_authors = bs_union (sh_authors a) (sh_authors b),
     sh_kinds = (if sh_kinds a = [] \<or> sh_kinds b = [] then [] else sh_kinds a),
     sh_tags = union_tags (sh_tags a) (sh_tags b),
     sh_since = (if sh_since a = None then None else Some (min (the (sh_since a)) (the (sh_since b)))),
     sh_until = (if sh_until a = None then None else Some (max (the (sh_until a)) (the (sh_until b)))),
     sh_limit = None, sh_search = sh_search a,
     sh_event_ids = bs_union (sh_event_ids a) (sh_event_ids b), sh_addresses = bs_union (sh_addresses a) (sh_addresses b),
     sh_relay_pin = sh_relay_pin a, sh_p_tag_routing = sh_p_tag_routing a\<rparr>"

definition mergeable :: "interest_shape \<Rightarrow> interest_shape \<Rightarrow> bool" where
  "mergeable a b \<longleftrightarrow> sh_relay_pin a = sh_relay_pin b \<and> sh_search a = sh_search b \<and> sh_p_tag_routing a = sh_p_tag_routing b \<and>
     (sh_kinds a = [] \<or> sh_kinds b = [] \<or> sh_kinds a = sh_kinds b) \<and>
     map fst (sh_tags a) = map fst (sh_tags b) \<and>
     (\<forall>(k, vs) \<in> set (union_tags (sh_tags a) (sh_tags b)). length vs \<le> DEFAULT_VALUE_LIMIT) \<and>
     (sh_since a = None \<longleftrightarrow> sh_since b = None) \<and> (sh_until a = None \<longleftrightarrow> sh_until b = None) \<and>
     sh_limit a = None \<and> sh_limit b = None \<and>
     length (bs_union (sh_event_ids a) (sh_event_ids b)) \<le> DEFAULT_VALUE_LIMIT \<and>
     length (bs_union (sh_addresses a) (sh_addresses b)) \<le> DEFAULT_VALUE_LIMIT"

lemma lattice_merge_eq:
  assumes "shape_wf a"
  shows "lattice_merge a b la lb = (if la = lb \<and> mergeable a b then Merged (merged_shape a b) else Refused)"
proof (cases "rule2_tags a b DEFAULT_VALUE_LIMIT")
  case None
  then have "\<not> mergeable a b" using rule2_tags_result [OF assms, of b DEFAULT_VALUE_LIMIT] by (auto simp: mergeable_def)
  moreover have "lattice_merge a b la lb = Refused"
    by (simp add: lattice_merge_def None or_refused_def split: option.splits)
  ultimately show ?thesis by simp
next
  case (Some t)
  have t: "map fst (sh_tags a) = map fst (sh_tags b)" "t = union_tags (sh_tags a) (sh_tags b)"
      "\<forall>(k, vs) \<in> set t. length vs \<le> DEFAULT_VALUE_LIMIT"
    using Some rule2_tags_result [OF assms] by blast+
  show ?thesis
    using t by (auto simp: lattice_merge_def Some or_refused_def mergeable_def merged_shape_def rule6_lifecycle_def
        rule9_relay_pin_def rule10_search_def rule1_kinds_def rule3_since_def rule4_until_def rule5_limit_def
        rule7_event_ids_def rule8_addresses_def Let_def split: option.splits)
qed

section \<open>What a merge keeps\<close>

text \<open>A dimension that is a wildcard on one side only is where a union narrows instead of widening.\<close>

definition wildcards_agree :: "interest_shape \<Rightarrow> interest_shape \<Rightarrow> bool" where
  "wildcards_agree a b \<longleftrightarrow> (sh_authors a = [] \<longleftrightarrow> sh_authors b = []) \<and> (sh_event_ids a = [] \<longleftrightarrow> sh_event_ids b = []) \<and>
     (sh_addresses a = [] \<longleftrightarrow> sh_addresses b = []) \<and>
     list_all (\<lambda>(k, vs). vs = [] \<longleftrightarrow> map_of (sh_tags b) k = Some []) (sh_tags a)"

lemma bs_union_Nil [simp]: "bs_union xs ys = [] \<longleftrightarrow> xs = [] \<and> ys = []"
  by (metis Un_empty set_bs_union set_empty)

lemma bs_union_commute: "bs_wf xs \<Longrightarrow> bs_wf ys \<Longrightarrow> bs_union xs ys = bs_union ys xs"
  by (simp add: bs_eq_iff bs_wf_union Un_commute)

lemma tag_satisfied_mono:
  assumes "tag_satisfied tags (k, vs)" "set vs \<subseteq> set ws" "vs = [] \<Longrightarrow> ws = []"
  shows "tag_satisfied tags (k, ws)"
  using assms by (fastforce simp: tag_satisfied_def split: option.splits)

lemma tags_wf_value: "shape_wf s \<Longrightarrow> map_of (sh_tags s) k = Some vs \<Longrightarrow> bs_wf vs"
  by (auto simp: shape_wf_def dest!: map_of_SomeD)

lemma union_tags_covers:
  assumes "bm_wf ta" "map fst ta = map fst tb" "list_all (\<lambda>(k, vs). vs = [] \<longleftrightarrow> map_of tb k = Some []) ta"
    and "list_all (tag_satisfied tags) ta \<or> list_all (tag_satisfied tags) tb"
  shows "list_all (tag_satisfied tags) (union_tags ta tb)"
proof -
  have "tag_satisfied tags (k, vs)" if "(k, vs) \<in> set (union_tags ta tb)" for k vs
  proof -
    have wfu: "hm_wf (union_tags ta tb)" "hm_wf ta" "hm_wf tb" using assms(1,2) bm_wf_distinct [of ta] by simp_all
    from that obtain av where av: "map_of ta k = Some av" "vs = bs_union av (unwrap_or [] (map_of tb k))"
      using hm_mem_iff [OF wfu(1)] by (auto simp: map_of_union_tags)
    have "k \<in> fst ` set tb" using av(1) assms(2) by (metis list.set_map map_of_eq_None_iff option.distinct(1))
    then obtain bv where bv: "map_of tb k = Some bv" by (metis map_of_eq_None_iff option.exhaust)
    have mem: "(k, av) \<in> set ta" "(k, bv) \<in> set tb" using av bv map_of_SomeD by fast+
    then have "av = [] \<longleftrightarrow> bv = []" using assms(3) bv by (auto simp: list_all_iff)
    moreover have "tag_satisfied tags (k, av) \<or> tag_satisfied tags (k, bv)" using assms(4) mem by (auto simp: list_all_iff)
    ultimately show ?thesis
      unfolding av(2) bv by (auto elim!: tag_satisfied_mono)
  qed
  then show ?thesis by (auto simp: list_all_iff)
qed

text \<open>The match, one conjunct per dimension.\<close>

definition shape_admits :: "interest_shape \<Rightarrow> string \<Rightarrow> pubkey \<Rightarrow> u32 \<Rightarrow> u64 \<Rightarrow> string list list \<Rightarrow> bool" where
  "shape_admits s i author kind t tags \<longleftrightarrow>
     (sh_event_ids s \<noteq> [] \<longrightarrow> i \<in> set (sh_event_ids s)) \<and> (sh_authors s \<noteq> [] \<longrightarrow> author \<in> set (sh_authors s)) \<and>
     (sh_kinds s \<noteq> [] \<longrightarrow> kind \<in> set (sh_kinds s)) \<and>
     (\<forall>x. sh_since s = Some x \<longrightarrow> x \<le> t) \<and> (\<forall>x. sh_until s = Some x \<longrightarrow> t \<le> x) \<and>
     (sh_addresses s \<noteq> [] \<longrightarrow> (\<exists>coord \<in> set (sh_addresses s). address_coord_matches coord author kind tags)) \<and>
     list_all (tag_satisfied tags) (sh_tags s)"

lemma matches_admits: "matches_event_with_id s i author kind t tags \<longleftrightarrow> shape_admits s i author kind t tags"
  by (cases "sh_since s"; cases "sh_until s")
    (auto simp: matches_event_with_id_def matches_event_def shape_admits_def)

text \<open>C24. Merging loses nothing: where the two filters leave the same dimensions open, every event that
  one of them asks for is asked for by the merged filter.\<close>

theorem merge_covers:
  assumes "lattice_merge a b la lb = Merged c" and "shape_wf a" and "wildcards_agree a b"
    and "matches_event_with_id a i author kind t tags \<or> matches_event_with_id b i author kind t tags"
  shows "matches_event_with_id c i author kind t tags"
proof -
  have m: "mergeable a b" "c = merged_shape a b"
    using assms(1) by (auto simp: lattice_merge_eq [OF assms(2)] split: if_splits)
  have f: "map fst (sh_tags a) = map fst (sh_tags b)" "sh_kinds a = [] \<or> sh_kinds b = [] \<or> sh_kinds a = sh_kinds b"
      "sh_since a = None \<longleftrightarrow> sh_since b = None" "sh_until a = None \<longleftrightarrow> sh_until b = None"
    using m(1) unfolding mergeable_def by argo+
  have w: "sh_authors a = [] \<longleftrightarrow> sh_authors b = []" "sh_event_ids a = [] \<longleftrightarrow> sh_event_ids b = []"
      "sh_addresses a = [] \<longleftrightarrow> sh_addresses b = []" "list_all (\<lambda>(k, vs). vs = [] \<longleftrightarrow> map_of (sh_tags b) k = Some []) (sh_tags a)"
    using assms(3) unfolding wildcards_agree_def by argo+
  have either: "shape_admits a i author kind t tags \<or> shape_admits b i author kind t tags"
    using assms(4) by (simp add: matches_admits)
  then have "list_all (tag_satisfied tags) (sh_tags a) \<or> list_all (tag_satisfied tags) (sh_tags b)"
    unfolding shape_admits_def by blast
  then have "list_all (tag_satisfied tags) (sh_tags c)"
    using assms(2) union_tags_covers [OF _ f(1) w(4)] by (simp add: m(2) merged_shape_def shape_wf_def)
  moreover have "sh_event_ids c \<noteq> [] \<longrightarrow> i \<in> set (sh_event_ids c)" "sh_authors c \<noteq> [] \<longrightarrow> author \<in> set (sh_authors c)"
    "sh_addresses c \<noteq> [] \<longrightarrow> (\<exists>coord \<in> set (sh_addresses c). address_coord_matches coord author kind tags)"
    using either w(1,2,3) unfolding shape_admits_def m(2) merged_shape_def by auto
  moreover have "sh_kinds c \<noteq> [] \<longrightarrow> kind \<in> set (sh_kinds c)"
    using either f(2) unfolding shape_admits_def m(2) merged_shape_def by auto
  moreover have "\<forall>s. sh_since c = Some s \<longrightarrow> s \<le> t" "\<forall>u. sh_until c = Some u \<longrightarrow> t \<le> u"
    using either f(3,4) unfolding shape_admits_def m(2) merged_shape_def by (auto simp: min_le_iff_disj le_max_iff_disj)
  ultimately show ?thesis by (simp add: matches_admits shape_admits_def)
qed

text \<open>Without that condition it may lose events: merging \<open>any author\<close> with one author asks for that
  author only.\<close>

lemma merge_wildcard_loses:
  "lattice_merge shape_default (shape_default\<lparr>sh_authors := [''x'']\<rparr>) Tailing Tailing =
     Merged (shape_default\<lparr>sh_authors := [''x'']\<rparr>)"
  "matches_event_with_id shape_default ''i'' ''y'' 1 0 []"
  "\<not> matches_event_with_id (shape_default\<lparr>sh_authors := [''x'']\<rparr>) ''i'' ''y'' 1 0 []"
  by (simp_all add: lattice_merge_eq mergeable_def merged_shape_def shape_default_def bs_union_def bs_extend_def
      insort_insert_key_def matches_event_with_id_def matches_event_def DEFAULT_VALUE_LIMIT_def shape_wf_def)

lemma shape_wf_merged:
  assumes "shape_wf a" "shape_wf b"
  shows "shape_wf (merged_shape a b)"
proof -
  have "bs_wf vs" if "(k, vs) \<in> set (union_tags (sh_tags a) (sh_tags b))" for k vs
    using that assms by (auto simp: union_tags_def shape_wf_def bs_wf_union)
  then show ?thesis using assms by (auto simp: shape_wf_def merged_shape_def bs_wf_union)
qed

lemma union_tags_commute:
  assumes "shape_wf a" "shape_wf b" "map fst (sh_tags a) = map fst (sh_tags b)"
  shows "union_tags (sh_tags a) (sh_tags b) = union_tags (sh_tags b) (sh_tags a)"
proof (rule bm_eqI)
  show "map_of (union_tags (sh_tags a) (sh_tags b)) = map_of (union_tags (sh_tags b) (sh_tags a))"
  proof
    fix k
    have "map_of (sh_tags a) k = None \<longleftrightarrow> map_of (sh_tags b) k = None"
      using assms(3) by (metis list.set_map map_of_eq_None_iff)
    then show "map_of (union_tags (sh_tags a) (sh_tags b)) k = map_of (union_tags (sh_tags b) (sh_tags a)) k"
      using tags_wf_value [OF assms(1), of k] tags_wf_value [OF assms(2), of k]
      by (cases "map_of (sh_tags a) k"; cases "map_of (sh_tags b) k") (auto simp: map_of_union_tags bs_union_commute)
  qed
qed (insert assms, auto simp: shape_wf_def)

lemma mergeable_commute:
  assumes "shape_wf a" "shape_wf b"
  shows "mergeable a b \<longleftrightarrow> mergeable b a"
    and "mergeable a b \<Longrightarrow> merged_shape a b = merged_shape b a"
proof -
  have wf: "bs_wf (sh_event_ids s)" "bs_wf (sh_addresses s)" "bs_wf (sh_authors s)" if "shape_wf s" for s
    using that by (auto simp: shape_wf_def)
  note swap = bs_union_commute [OF wf(1) wf(1), OF assms] bs_union_commute [OF wf(2) wf(2), OF assms]
    bs_union_commute [OF wf(3) wf(3), OF assms]
  show "mergeable a b \<longleftrightarrow> mergeable b a"
    unfolding mergeable_def swap using union_tags_commute [OF assms] by auto
  show "merged_shape a b = merged_shape b a" if "mergeable a b"
    unfolding merged_shape_def swap using that union_tags_commute [OF assms] by (auto simp: mergeable_def min.commute max.commute)
qed

text \<open>Merging does not depend on the order of its arguments, and what it builds stays within the
  caps a relay accepts: sorted sets without duplicates, at most 1000 event ids, addresses and values
  per tag, and never a filter with a result limit.\<close>

theorem merge_commutes_bounded:
  assumes "shape_wf a" and "shape_wf b"
  shows "lattice_merge a b la lb = lattice_merge b a lb la \<and>
    (case lattice_merge a b la lb of
       Refused \<Rightarrow> True
     | Merged c \<Rightarrow> shape_wf c \<and> length (sh_event_ids c) \<le> 1000 \<and> length (sh_addresses c) \<le> 1000 \<and>
         list_all (\<lambda>(_, vs). length vs \<le> 1000) (sh_tags c) \<and>
         sh_limit a = None \<and> sh_limit b = None \<and> sh_limit c = None)"
proof -
  have sym: "lattice_merge a b la lb = lattice_merge b a lb la"
    using mergeable_commute [OF assms] by (auto simp: lattice_merge_eq assms)
  have caps: "length (sh_event_ids (merged_shape a b)) \<le> 1000 \<and> length (sh_addresses (merged_shape a b)) \<le> 1000 \<and>
      list_all (\<lambda>(_, vs). length vs \<le> 1000) (sh_tags (merged_shape a b)) \<and>
      sh_limit a = None \<and> sh_limit b = None \<and> sh_limit (merged_shape a b) = None" if "mergeable a b"
    using that by (auto simp: mergeable_def merged_shape_def DEFAULT_VALUE_LIMIT_def list_all_iff)
  show ?thesis
  proof (cases "la = lb \<and> mergeable a b")
    case True
    then have m: "lattice_merge a b la lb = Merged (merged_shape a b)" by (simp add: lattice_merge_eq assms(1))
    show ?thesis unfolding sym [symmetric] m using caps True shape_wf_merged [OF assms] by simp
  next
    case False
    then have m: "lattice_merge a b la lb = Refused" by (simp add: lattice_merge_eq assms(1))
    show ?thesis unfolding sym [symmetric] m by simp
  qed
qed

definition demo_shape :: "pubkey \<Rightarrow> interest_shape" where
  "demo_shape p = shape_default\<lparr>sh_authors := [p], sh_kinds := [1], sh_tags := [(''t'', [''nostr''])]\<rparr>"

lemma demo_shape_wf: "shape_wf (demo_shape p)"
  by (simp add: shape_wf_def demo_shape_def shape_default_def)

theorem merge_covers_witness:
  "\<exists>c. lattice_merge (demo_shape ''x'') (demo_shape ''y'') Tailing Tailing = Merged c \<and>
     matches_event_with_id c ''i'' ''y'' 1 5 [[''t'', ''nostr'']]"
proof -
  have "mergeable (demo_shape ''x'') (demo_shape ''y'')"
    by (simp add: mergeable_def demo_shape_def shape_default_def bs_union_def bs_extend_def insort_insert_key_def DEFAULT_VALUE_LIMIT_def)
  then have m: "lattice_merge (demo_shape ''x'') (demo_shape ''y'') Tailing Tailing = Merged (merged_shape (demo_shape ''x'') (demo_shape ''y''))"
    by (simp add: lattice_merge_eq demo_shape_wf)
  have "wildcards_agree (demo_shape ''x'') (demo_shape ''y'')" "matches_event_with_id (demo_shape ''y'') ''i'' ''y'' 1 5 [[''t'', ''nostr'']]"
    by (simp_all add: wildcards_agree_def demo_shape_def shape_default_def matches_event_with_id_def matches_event_def tag_satisfied_def)
  with merge_covers [OF m demo_shape_wf] m show ?thesis by blast
qed

theorem merge_commutes_bounded_witness:
  "lattice_merge (demo_shape ''x'') (demo_shape ''y'') Tailing Tailing = lattice_merge (demo_shape ''y'') (demo_shape ''x'') Tailing Tailing"
  using merge_commutes_bounded [OF demo_shape_wf demo_shape_wf] by blast

end
