(* ===== verification/Planner_Plan.thy ===== *)
theory Planner_Plan
  imports Planner_Interest
begin

text \<open>
  The output vocabulary of the planner (\<open>nmp-planner/src/plan.rs\<close>), the mailbox caches it reads
  (\<open>compiler/mailbox.rs\<close>) and the stable hashing of filters (\<open>stable_hash.rs\<close>).

  The JSON text of a shape (\<open>serde_json::to_string\<close>) is the parameter \<open>to_json\<close>; the hash itself is
  FNV-1a on 64-bit words.
\<close>

unbundle bit_operations_syntax

section \<open>Routing lanes and their provenance\<close>

datatype user_configured_category = AccountRead | AccountWrite | Indexer | AppRelay | Debug | Bootstrap | ActivePin

datatype routing_source = Nip65 | Nip17DmRelay | Hint | Provenance | UserConfigured user_configured_category

datatype hint_origin = HintEventTag string | HintProvenance string | HintUserConfigured

text \<open>The derived orders: by constructor, then by field.\<close>

definition category_rank :: "user_configured_category \<Rightarrow> nat" where
  "category_rank c = (case c of AccountRead \<Rightarrow> 0 | AccountWrite \<Rightarrow> 1 | Indexer \<Rightarrow> 2 | AppRelay \<Rightarrow> 3 | Debug \<Rightarrow> 4 | Bootstrap \<Rightarrow> 5 | ActivePin \<Rightarrow> 6)"

definition source_rank :: "routing_source \<Rightarrow> nat" where
  "source_rank s = (case s of Nip65 \<Rightarrow> 0 | Nip17DmRelay \<Rightarrow> 1 | Hint \<Rightarrow> 2 | Provenance \<Rightarrow> 3 | UserConfigured c \<Rightarrow> 4 + category_rank c)"

definition origin_key :: "hint_origin \<Rightarrow> nat \<times> string" where
  "origin_key h = (case h of HintEventTag i \<Rightarrow> (0, i) | HintProvenance i \<Rightarrow> (1, i) | HintUserConfigured \<Rightarrow> (2, []))"

lemma rank_inject [simp]:
  "category_rank a = category_rank b \<longleftrightarrow> a = b"
  "source_rank s = source_rank t \<longleftrightarrow> s = t"
  "origin_key g = origin_key h \<longleftrightarrow> g = h"
proof -
  show cat: "category_rank a = category_rank b \<longleftrightarrow> a = b" for a b
    by (cases a; cases b) (simp_all add: category_rank_def)
  show "source_rank s = source_rank t \<longleftrightarrow> s = t"
    by (cases s; cases t) (simp_all add: source_rank_def cat)
  show "origin_key g = origin_key h \<longleftrightarrow> g = h"
    by (cases g; cases h) (simp_all add: origin_key_def)
qed

instantiation user_configured_category :: linorder
begin

definition less_eq_user_configured_category :: "user_configured_category \<Rightarrow> user_configured_category \<Rightarrow> bool" where
  "a \<le> b \<longleftrightarrow> category_rank a \<le> category_rank b"

definition less_user_configured_category :: "user_configured_category \<Rightarrow> user_configured_category \<Rightarrow> bool" where
  "a < b \<longleftrightarrow> category_rank a < category_rank b"

instance
  by standard (auto simp: less_eq_user_configured_category_def less_user_configured_category_def
      simp flip: rank_inject(1))

end

instantiation routing_source :: linorder
begin

definition less_eq_routing_source :: "routing_source \<Rightarrow> routing_source \<Rightarrow> bool" where
  "a \<le> b \<longleftrightarrow> source_rank a \<le> source_rank b"

definition less_routing_source :: "routing_source \<Rightarrow> routing_source \<Rightarrow> bool" where
  "a < b \<longleftrightarrow> source_rank a < source_rank b"

instance
  by standard (auto simp: less_eq_routing_source_def less_routing_source_def simp flip: rank_inject(2))

end

instantiation hint_origin :: linorder
begin

definition less_eq_hint_origin :: "hint_origin \<Rightarrow> hint_origin \<Rightarrow> bool" where
  "a \<le> b \<longleftrightarrow> origin_key a \<le> origin_key b"

definition less_hint_origin :: "hint_origin \<Rightarrow> hint_origin \<Rightarrow> bool" where
  "a < b \<longleftrightarrow> origin_key a < origin_key b"

instance
  by standard (auto simp: less_eq_hint_origin_def less_hint_origin_def intro: le_neq_trans)

end

record interest_attribution =
  ia_interest_id :: interest_id
  ia_kinds :: "u32 list"
  ia_authors :: "pubkey list"

record relay_attribution =
  ra_user_configured :: "user_configured_category list"
  ra_outbox_authors :: "pubkey list"
  ra_hints :: "hint_origin list"
  ra_interests :: "interest_attribution list"

definition attribution_default :: relay_attribution where
  "attribution_default = \<lparr>ra_user_configured = [], ra_outbox_authors = [], ra_hints = [], ra_interests = []\<rparr>"

section \<open>Plans\<close>

record sub_shape =
  ss_shape :: interest_shape
  ss_originating_interests :: "interest_id list"
  ss_canonical_filter_hash :: string

record relay_plan =
  rp_relay_url :: relay
  rp_role_tags :: "routing_source list"
  rp_sub_shapes :: "sub_shape list"
  rp_attribution :: relay_attribution

record compiled_plan =
  cp_plan_id :: string
  cp_per_relay :: "(relay \<times> relay_plan) list"
  cp_unroutable_authors :: "pubkey list"

definition empty_plan :: "string \<Rightarrow> compiled_plan" where
  "empty_plan plan_id = \<lparr>cp_plan_id = plan_id, cp_per_relay = [], cp_unroutable_authors = []\<rparr>"

datatype planner_error = EmptyInterestSet | InvalidShape string | HashingFailed string

section \<open>Hashing\<close>

definition FNV_OFFSET :: "64 word" where
  "FNV_OFFSET = 0xcbf29ce484222325"

definition FNV_PRIME :: "64 word" where
  "FNV_PRIME = 0x100000001b3"

definition hash_write :: "bytes \<Rightarrow> 64 word \<Rightarrow> 64 word" where
  "hash_write bs h = fold (\<lambda>b h. (h XOR ucast b) * FNV_PRIME) bs h"

definition str_bytes :: "string \<Rightarrow> bytes" where
  "str_bytes s = map of_char s"

text \<open>\<open>str::hash\<close>: the bytes and a terminator.\<close>

definition hash_str :: "string \<Rightarrow> 64 word \<Rightarrow> 64 word" where
  "hash_str s h = hash_write [0xff] (hash_write (str_bytes s) h)"

text \<open>\<open>stable_hash64\<close> of a tuple of strings.\<close>

definition stable_hash64 :: "string list \<Rightarrow> 64 word" where
  "stable_hash64 parts = fold hash_str parts FNV_OFFSET"

text \<open>\<open>format!("{:016x}", w)\<close>.\<close>

definition hex16 :: "64 word \<Rightarrow> string" where
  "hex16 w = map (\<lambda>i. ''0123456789abcdef'' ! unat (drop_bit (4 * (15 - i)) w AND 15)) [0..<16]"

definition canonical_filter_hash :: "(interest_shape \<Rightarrow> string option) \<Rightarrow> interest_shape \<Rightarrow> string" where
  "canonical_filter_hash to_json shape =
     hex16 (case to_json shape of
              None \<Rightarrow> stable_hash64 [''canonical-filter-invalid-json'']
            | Some json \<Rightarrow> stable_hash64 [''canonical-filter'', json])"

definition recompute_hash :: "(interest_shape \<Rightarrow> string option) \<Rightarrow> sub_shape \<Rightarrow> sub_shape" where
  "recompute_hash to_json s = s\<lparr>ss_canonical_filter_hash := canonical_filter_hash to_json (ss_shape s)\<rparr>"

section \<open>Mailboxes\<close>

record mailbox_snapshot =
  mb_write_relays :: "relay list"
  mb_read_relays :: "relay list"
  mb_both_relays :: "relay list"

definition outbox_relays :: "mailbox_snapshot \<Rightarrow> relay list" where
  "outbox_relays s = mb_write_relays s @ mb_both_relays s"

definition inbox_relays :: "mailbox_snapshot \<Rightarrow> relay list" where
  "inbox_relays s = mb_read_relays s @ mb_both_relays s"

definition has_inbox_relays :: "mailbox_snapshot \<Rightarrow> bool" where
  "has_inbox_relays s \<longleftrightarrow> mb_read_relays s \<noteq> [] \<or> mb_both_relays s \<noteq> []"

text \<open>What the planner reads of a cache: the trait object as a record of its methods. A probe request
  is an output of the planner and is collected there.\<close>

record mailbox_cache =
  mc_get :: "pubkey \<Rightarrow> mailbox_snapshot option"
  mc_dm_inbox_relays :: "pubkey \<Rightarrow> relay list option"
  mc_snapshot_all :: "(pubkey \<times> mailbox_snapshot) list"
  mc_generation :: u64

definition empty_mailbox_cache :: mailbox_cache where
  "empty_mailbox_cache = \<lparr>mc_get = (\<lambda>_. None), mc_dm_inbox_relays = (\<lambda>_. None), mc_snapshot_all = [], mc_generation = 0\<rparr>"

record in_memory_mailbox_cache =
  im_data :: "(pubkey \<times> mailbox_snapshot) list"
  im_dm_data :: "(pubkey \<times> relay list) list"
  im_generation :: u64

definition im_new :: in_memory_mailbox_cache where
  "im_new = \<lparr>im_data = [], im_dm_data = [], im_generation = 0\<rparr>"

definition saturating_inc :: "u64 \<Rightarrow> u64" where
  "saturating_inc n = min u64_max (n + 1)"

definition im_put :: "pubkey \<Rightarrow> mailbox_snapshot \<Rightarrow> in_memory_mailbox_cache \<Rightarrow> in_memory_mailbox_cache" where
  "im_put pubkey snapshot c =
     c\<lparr>im_data := hm_insert pubkey snapshot (im_data c), im_generation := saturating_inc (im_generation c)\<rparr>"

definition im_put_dm_relays :: "pubkey \<Rightarrow> relay list \<Rightarrow> in_memory_mailbox_cache \<Rightarrow> in_memory_mailbox_cache" where
  "im_put_dm_relays pubkey relays c =
     c\<lparr>im_dm_data := (if relays = [] then hm_remove pubkey (im_dm_data c) else hm_insert pubkey relays (im_dm_data c)),
       im_generation := saturating_inc (im_generation c)\<rparr>"

definition im_get :: "in_memory_mailbox_cache \<Rightarrow> pubkey \<Rightarrow> mailbox_snapshot option" where
  "im_get c pubkey = map_of (im_data c) pubkey"

definition im_dm_inbox_relays :: "in_memory_mailbox_cache \<Rightarrow> pubkey \<Rightarrow> relay list option" where
  "im_dm_inbox_relays c pubkey =
     (case map_of (im_dm_data c) pubkey of Some relays \<Rightarrow> if relays \<noteq> [] then Some relays else None | None \<Rightarrow> None)"

definition im_snapshot_all :: "in_memory_mailbox_cache \<Rightarrow> (pubkey \<times> mailbox_snapshot) list" where
  "im_snapshot_all c = im_data c"

definition as_mailbox_cache :: "in_memory_mailbox_cache \<Rightarrow> mailbox_cache" where
  "as_mailbox_cache c = \<lparr>mc_get = im_get c, mc_dm_inbox_relays = im_dm_inbox_relays c,
     mc_snapshot_all = im_snapshot_all c, mc_generation = im_generation c\<rparr>"

text \<open>The contract of a cache whose entries are put: the last snapshot put for a key is the one read,
  other keys keep theirs, a direct-message list is only ever read non-empty, and the generation
  counter moves with every put until it saturates.\<close>

locale mailbox_store =
  fixes get :: "'c \<Rightarrow> pubkey \<Rightarrow> mailbox_snapshot option"
    and dm :: "'c \<Rightarrow> pubkey \<Rightarrow> relay list option"
    and gen :: "'c \<Rightarrow> u64"
    and put :: "pubkey \<Rightarrow> mailbox_snapshot \<Rightarrow> 'c \<Rightarrow> 'c"
    and put_dm :: "pubkey \<Rightarrow> relay list \<Rightarrow> 'c \<Rightarrow> 'c"
  assumes get_put: "get (put p s c) = (get c)(p \<mapsto> s)"
    and get_put_dm: "get (put_dm p rs c) = get c"
    and dm_put: "dm (put p s c) = dm c"
    and dm_put_dm: "dm (put_dm p rs c) = (dm c)(p := if rs = [] then None else Some rs)"
    and dm_nonempty: "dm c p = Some rs \<Longrightarrow> rs \<noteq> []"
    and gen_put: "gen c < u64_max \<Longrightarrow> gen (put p s c) = gen c + 1"
    and gen_put_dm: "gen c < u64_max \<Longrightarrow> gen (put_dm p rs c) = gen c + 1"
begin

text \<open>Withdrawing a direct-message list leaves nothing to route to.\<close>

lemma dm_withdrawn: "dm (put_dm p [] (put_dm p rs c)) p = None"
  by (simp add: dm_put_dm)

lemma put_unrelated: "q \<noteq> p \<Longrightarrow> get (put p s c) q = get c q \<and> dm (put p s c) q = dm c q"
  by (simp add: get_put dm_put)

end

interpretation in_memory: mailbox_store im_get im_dm_inbox_relays im_generation im_put im_put_dm_relays
  by unfold_locales
    (auto simp: im_get_def im_put_def im_put_dm_relays_def im_dm_inbox_relays_def saturating_inc_def fun_eq_iff
      hash_map.get_put hash_map.get_del split: option.splits if_splits)

end
