(* ===== verification/Planner_Partition.thy ===== *)
theory Planner_Partition
  imports Planner_Plan
begin

text \<open>
  Stages 1 and 2 of the subscription compiler (\<open>nmp-planner/src/compiler/partition\<close>): one logical
  interest becomes entries per relay. Case E is the hard pin, A the authors' outboxes, B the
  addresses' outboxes, C the tagged keys' inboxes, D everything else.

  The accumulators the source threads through the cases are one record: the entries per relay, the
  authors nothing could be routed for, and the probes asked of the mailbox cache, in order.
\<close>

section \<open>Entries\<close>

record relay_entry =
  re_base_shape :: interest_shape
  re_authors :: "pubkey list"
  re_addresses :: "naddr_coord list"
  re_lifecycle :: interest_lifecycle
  re_sources :: "routing_source list"
  re_interest_id :: interest_id
  re_attribution :: relay_attribution

definition into_shape ::
  "relay_entry \<Rightarrow> interest_shape \<times> interest_lifecycle \<times> routing_source list \<times> interest_id \<times> relay_attribution" where
  "into_shape e =
     ((re_base_shape e)\<lparr>sh_authors := re_authors e, sh_addresses := re_addresses e\<rparr>,
      re_lifecycle e, re_sources e, re_interest_id e, re_attribution e)"

record routing =
  rt_entries :: "(relay \<times> relay_entry list) list"
  rt_unroutable :: "pubkey list"
  rt_probes :: "pubkey list"

definition routing_new :: routing where
  "routing_new = \<lparr>rt_entries = [], rt_unroutable = [], rt_probes = []\<rparr>"

definition push_entry :: "relay \<Rightarrow> relay_entry \<Rightarrow> routing \<Rightarrow> routing" where
  "push_entry url e r = r\<lparr>rt_entries := bm_entry [] url (\<lambda>es. es @ [e]) (rt_entries r)\<rparr>"

definition request_probe :: "pubkey \<Rightarrow> routing \<Rightarrow> routing" where
  "request_probe pk r = r\<lparr>rt_probes := rt_probes r @ [pk]\<rparr>"

definition mark_unroutable :: "pubkey \<Rightarrow> routing \<Rightarrow> routing" where
  "mark_unroutable pk r = r\<lparr>rt_unroutable := bs_insert pk (rt_unroutable r)\<rparr>"

definition mark_routable :: "pubkey \<Rightarrow> routing \<Rightarrow> routing" where
  "mark_routable pk r = r\<lparr>rt_unroutable := bs_remove pk (rt_unroutable r)\<rparr>"

text \<open>A loop \<open>for relay in relays { touch(per_relay.entry(relay).or_default()); landed = true; }\<close>.\<close>

definition land :: "'e \<Rightarrow> ('e \<Rightarrow> 'e) \<Rightarrow> relay list \<Rightarrow> (relay \<times> 'e) list \<times> bool \<Rightarrow> (relay \<times> 'e) list \<times> bool" where
  "land d touch relays s = fold (\<lambda>relay (per_relay, landed). (bm_entry d relay touch per_relay, True)) relays s"

text \<open>The closing loop \<open>for (relay_url, entry) in per_relay { push }\<close>.\<close>

definition emit_entries :: "('e \<Rightarrow> relay_entry) \<Rightarrow> (relay \<times> 'e) list \<Rightarrow> routing \<Rightarrow> routing" where
  "emit_entries mk per_relay r = fold (\<lambda>(url, e). push_entry url (mk e)) per_relay r"

section \<open>Hints\<close>

definition hint_origin_for :: "relay_hint \<Rightarrow> hint_origin" where
  "hint_origin_for hint =
     (case rh_source hint of
        EventTag event_id _ _ \<Rightarrow> HintEventTag event_id
      | ProvenanceHint event_id \<Rightarrow> HintProvenance event_id
      | UserConfiguredHint \<Rightarrow> HintUserConfigured)"

definition routing_source_for_hint :: "hint_source \<Rightarrow> routing_source" where
  "routing_source_for_hint source =
     (case source of
        EventTag _ _ _ \<Rightarrow> Hint
      | ProvenanceHint _ \<Rightarrow> Provenance
      | UserConfiguredHint \<Rightarrow> UserConfigured Debug)"

definition route_for_hint :: "relay_hint \<Rightarrow> (relay \<times> routing_source) option" where
  "route_for_hint hint =
     do { url \<leftarrow> canonicalize (rh_url hint);
          Some (url, routing_source_for_hint (rh_source hint)) }"

section \<open>Inbox routing\<close>

definition inbox_targets :: "mailbox_cache \<Rightarrow> p_tag_routing \<Rightarrow> pubkey \<Rightarrow> (relay list \<times> routing_source) option" where
  "inbox_targets cache mode tagged_pk =
     (case mode of
        Nip65ReadRelays \<Rightarrow>
          (case mc_get cache tagged_pk of
             Some snapshot \<Rightarrow> if has_inbox_relays snapshot then Some (inbox_relays snapshot, Nip65) else None
           | None \<Rightarrow> None)
      | Nip17DmRelays \<Rightarrow>
          (case mc_dm_inbox_relays cache tagged_pk of
             Some relays \<Rightarrow> if relays \<noteq> [] then Some (relays, Nip17DmRelay) else None
           | None \<Rightarrow> None))"

definition route_p_tag ::
  "pubkey list \<Rightarrow> interest_shape \<Rightarrow> interest_lifecycle \<Rightarrow> interest_id \<Rightarrow> mailbox_cache \<Rightarrow> pubkey \<Rightarrow> routing \<Rightarrow> routing" where
  "route_p_tag authors_for_inbox base_shape lifecycle interest_id cache tagged_pk r =
     (case inbox_targets cache (sh_p_tag_routing base_shape) tagged_pk of
        None \<Rightarrow> if sh_p_tag_routing base_shape = Nip65ReadRelays then request_probe tagged_pk r else r
      | Some (relays, source) \<Rightarrow>
          let per_pk_shape = base_shape\<lparr>sh_tags := bm_insert ''p'' [tagged_pk] (sh_tags base_shape)\<rparr> in
          fold (\<lambda>relay. push_entry relay
            \<lparr>re_base_shape = per_pk_shape, re_authors = authors_for_inbox, re_addresses = [], re_lifecycle = lifecycle,
             re_sources = [source], re_interest_id = interest_id, re_attribution = attribution_default\<rparr>) relays r)"

definition route_p_tags_to_inbox ::
  "pubkey list \<Rightarrow> pubkey list \<Rightarrow> interest_shape \<Rightarrow> interest_lifecycle \<Rightarrow> interest_id \<Rightarrow> mailbox_cache \<Rightarrow> routing \<Rightarrow> routing" where
  "route_p_tags_to_inbox p_tag_values authors_for_inbox base_shape lifecycle interest_id cache r =
     fold (route_p_tag authors_for_inbox base_shape lifecycle interest_id cache) p_tag_values r"

section \<open>Case A: authors\<close>

record case_a_entry =
  ca_authors :: "pubkey list"
  ca_addresses :: "naddr_coord list"
  ca_sources :: "routing_source list"
  ca_outbox_authors :: "pubkey list"
  ca_user_configured :: "user_configured_category list"
  ca_hint_origins :: "hint_origin list"

definition case_a_default :: case_a_entry where
  "case_a_default = \<lparr>ca_authors = [], ca_addresses = [], ca_sources = [], ca_outbox_authors = [],
     ca_user_configured = [], ca_hint_origins = []\<rparr>"

definition touch_outbox :: "pubkey \<Rightarrow> case_a_entry \<Rightarrow> case_a_entry" where
  "touch_outbox author e = e\<lparr>ca_authors := bs_insert author (ca_authors e), ca_sources := bs_insert Nip65 (ca_sources e),
     ca_outbox_authors := bs_insert author (ca_outbox_authors e)\<rparr>"

definition touch_configured :: "pubkey \<Rightarrow> user_configured_category \<Rightarrow> case_a_entry \<Rightarrow> case_a_entry" where
  "touch_configured author cat e = e\<lparr>ca_authors := bs_insert author (ca_authors e),
     ca_sources := bs_insert (UserConfigured cat) (ca_sources e), ca_user_configured := bs_insert cat (ca_user_configured e)\<rparr>"

definition touch_coord_outbox :: "naddr_coord \<Rightarrow> case_a_entry \<Rightarrow> case_a_entry" where
  "touch_coord_outbox coord e = e\<lparr>ca_addresses := bs_insert coord (ca_addresses e), ca_sources := bs_insert Nip65 (ca_sources e)\<rparr>"

definition touch_coord_app :: "naddr_coord \<Rightarrow> case_a_entry \<Rightarrow> case_a_entry" where
  "touch_coord_app coord e = e\<lparr>ca_addresses := bs_insert coord (ca_addresses e),
     ca_sources := bs_insert (UserConfigured AppRelay) (ca_sources e), ca_user_configured := bs_insert AppRelay (ca_user_configured e)\<rparr>"

definition touch_hint :: "interest_shape \<Rightarrow> routing_source \<Rightarrow> hint_origin \<Rightarrow> case_a_entry \<Rightarrow> case_a_entry" where
  "touch_hint shape source origin e = e\<lparr>ca_authors := bs_extend (ca_authors e) (sh_authors shape),
     ca_addresses := bs_extend (ca_addresses e) (sh_addresses shape), ca_sources := bs_insert source (ca_sources e),
     ca_hint_origins := bs_insert origin (ca_hint_origins e)\<rparr>"

text \<open>The relay sets the compiler is configured with, and the pins derived from the interests.\<close>

record relay_config =
  rc_indexer :: "relay list"
  rc_account_read :: "relay list"
  rc_app :: "relay list"
  rc_bootstrap_content :: "relay list"
  rc_bootstrap_indexer :: "relay list"
  rc_active_pinned :: "relay list"

type_synonym case_a_map = "(relay \<times> case_a_entry) list"

definition is_profile_resolution :: "logical_interest \<Rightarrow> bool" where
  "is_profile_resolution interest \<longleftrightarrow> length (sh_kinds (li_shape interest)) = 1 \<and> 0 \<in> set (sh_kinds (li_shape interest))"

definition case_a_author ::
  "logical_interest \<Rightarrow> mailbox_cache \<Rightarrow> relay_config \<Rightarrow> pubkey \<Rightarrow> case_a_map \<times> routing \<Rightarrow> case_a_map \<times> routing" where
  "case_a_author interest cache cfg author s =
     (let (per_relay, r) = s;
          (pl, r) =
            (case mc_get cache author of
               Some snapshot \<Rightarrow> (land case_a_default (touch_outbox author) (outbox_relays snapshot) (per_relay, False), r)
             | None \<Rightarrow> ((per_relay, False), request_probe author r));
          pl = land case_a_default (touch_configured author AppRelay) (rc_app cfg) pl;
          pl = (if is_profile_resolution interest
                then land case_a_default (touch_configured author ActivePin) (rc_active_pinned cfg) pl else pl);
          (per_relay, landed) = pl
      in if landed then (per_relay, r)
         else
           let (per_relay, landed) =
             (if li_is_indexer_discovery interest \<and> rc_bootstrap_indexer cfg \<noteq> []
              then land case_a_default (touch_configured author Indexer) (rc_bootstrap_indexer cfg) (per_relay, landed)
              else (per_relay, landed))
           in (per_relay, if landed then r else mark_unroutable author r))"

definition case_a_address ::
  "mailbox_cache \<Rightarrow> relay_config \<Rightarrow> naddr_coord \<Rightarrow> case_a_map \<times> routing \<Rightarrow> case_a_map \<times> routing" where
  "case_a_address cache cfg coord s =
     (let (per_relay, r) = s;
          (pl, r) =
            (case mc_get cache (nc_pubkey coord) of
               Some snapshot \<Rightarrow> (land case_a_default (touch_coord_outbox coord) (outbox_relays snapshot) (per_relay, False), r)
             | None \<Rightarrow> ((per_relay, False), request_probe (nc_pubkey coord) r));
          (per_relay, landed) = land case_a_default (touch_coord_app coord) (rc_app cfg) pl
      in (per_relay, if landed then r else mark_unroutable (nc_pubkey coord) r))"

definition case_a_hint :: "interest_shape \<Rightarrow> relay_hint \<Rightarrow> case_a_map \<times> bool \<Rightarrow> case_a_map \<times> bool" where
  "case_a_hint shape hint s =
     (case route_for_hint hint of
        None \<Rightarrow> s
      | Some (relay_url, source) \<Rightarrow>
          (bm_entry case_a_default relay_url (touch_hint shape source (hint_origin_for hint)) (fst s), True))"

definition case_a_entry_of :: "logical_interest \<Rightarrow> interest_shape \<Rightarrow> case_a_entry \<Rightarrow> relay_entry" where
  "case_a_entry_of interest base_shape e =
     \<lparr>re_base_shape = base_shape, re_authors = ca_authors e, re_addresses = ca_addresses e,
      re_lifecycle = li_lifecycle interest, re_sources = ca_sources e, re_interest_id = li_id interest,
      re_attribution = \<lparr>ra_user_configured = ca_user_configured e, ra_outbox_authors = ca_outbox_authors e,
        ra_hints = ca_hint_origins e,
        ra_interests = [\<lparr>ia_interest_id = li_id interest, ia_kinds = sh_kinds (li_shape interest), ia_authors = ca_authors e\<rparr>]\<rparr>\<rparr>"

definition case_a_route ::
  "logical_interest \<Rightarrow> pubkey list \<Rightarrow> interest_shape \<Rightarrow> mailbox_cache \<Rightarrow> relay_config \<Rightarrow> routing \<Rightarrow> routing" where
  "case_a_route interest p_tag_values base_shape cache cfg r =
     (let shape = li_shape interest;
          (per_relay, r) = fold (case_a_author interest cache cfg) (sh_authors shape) ([], r);
          (per_relay, r) = fold (case_a_address cache cfg) (sh_addresses shape) (per_relay, r);
          (per_relay, any_valid_hint) = fold (case_a_hint shape) (li_hints interest) (per_relay, False);
          r = (if any_valid_hint
               then fold (\<lambda>coord. mark_routable (nc_pubkey coord)) (sh_addresses shape) (fold mark_routable (sh_authors shape) r)
               else r);
          r = emit_entries (case_a_entry_of interest base_shape) per_relay r
      in if p_tag_values \<noteq> []
         then route_p_tags_to_inbox p_tag_values (sh_authors shape) base_shape (li_lifecycle interest) (li_id interest) cache r
         else r)"

section \<open>Case B: addresses\<close>

type_synonym case_b_entry = "naddr_coord list \<times> routing_source list"

definition touch_b :: "naddr_coord \<Rightarrow> routing_source \<Rightarrow> case_b_entry \<Rightarrow> case_b_entry" where
  "touch_b coord source e = (bs_insert coord (fst e), bs_insert source (snd e))"

definition case_b_address ::
  "mailbox_cache \<Rightarrow> relay_config \<Rightarrow> naddr_coord \<Rightarrow> (relay \<times> case_b_entry) list \<times> routing \<Rightarrow> (relay \<times> case_b_entry) list \<times> routing" where
  "case_b_address cache cfg coord s =
     (let (per_relay, r) = s;
          (pl, r) =
            (case mc_get cache (nc_pubkey coord) of
               Some snapshot \<Rightarrow> (land ([], []) (touch_b coord Nip65) (outbox_relays snapshot) (per_relay, False), r)
             | None \<Rightarrow> ((per_relay, False), request_probe (nc_pubkey coord) r));
          (per_relay, landed) = land ([], []) (touch_b coord (UserConfigured AppRelay)) (rc_app cfg) pl
      in (per_relay, if landed then r else mark_unroutable (nc_pubkey coord) r))"

definition case_b_hint ::
  "interest_shape \<Rightarrow> relay_hint \<Rightarrow> (relay \<times> case_b_entry) list \<times> bool \<Rightarrow> (relay \<times> case_b_entry) list \<times> bool" where
  "case_b_hint shape hint s =
     (case route_for_hint hint of
        None \<Rightarrow> s
      | Some (relay_url, source) \<Rightarrow>
          (bm_entry ([], []) relay_url (\<lambda>e. (bs_extend (fst e) (sh_addresses shape), bs_insert source (snd e))) (fst s), True))"

text \<open>An entry without authors and with empty attribution, as cases B, C and D push it.\<close>

definition plain_entry ::
  "logical_interest \<Rightarrow> interest_shape \<Rightarrow> naddr_coord list \<Rightarrow> routing_source list \<Rightarrow> relay_entry" where
  "plain_entry interest base_shape addresses sources =
     \<lparr>re_base_shape = base_shape, re_authors = [], re_addresses = addresses, re_lifecycle = li_lifecycle interest,
      re_sources = sources, re_interest_id = li_id interest, re_attribution = attribution_default\<rparr>"

definition case_b_route ::
  "logical_interest \<Rightarrow> interest_shape \<Rightarrow> mailbox_cache \<Rightarrow> relay_config \<Rightarrow> routing \<Rightarrow> routing" where
  "case_b_route interest base_shape cache cfg r =
     (let shape = li_shape interest;
          (per_relay, r) = fold (case_b_address cache cfg) (sh_addresses shape) ([], r);
          (per_relay, any_valid_hint) = fold (case_b_hint shape) (li_hints interest) (per_relay, False);
          r = (if any_valid_hint then fold (\<lambda>coord. mark_routable (nc_pubkey coord)) (sh_addresses shape) r else r)
      in emit_entries (\<lambda>(addrs, sources). plain_entry interest base_shape addrs sources) per_relay r)"

section \<open>Case C: tagged keys\<close>

definition case_c_route ::
  "pubkey list \<Rightarrow> interest_shape \<Rightarrow> interest_lifecycle \<Rightarrow> interest_id \<Rightarrow> mailbox_cache \<Rightarrow> routing \<Rightarrow> routing" where
  "case_c_route p_tag_values base_shape lifecycle interest_id cache r =
     route_p_tags_to_inbox p_tag_values [] base_shape lifecycle interest_id cache r"

text \<open>One configured relay set under one lane, as the bootstrap routes and case D accumulate it.\<close>

definition stack_lane ::
  "user_configured_category \<Rightarrow> relay list \<Rightarrow> (relay \<times> routing_source list) list \<Rightarrow> (relay \<times> routing_source list) list" where
  "stack_lane cat relays per_relay = fold (\<lambda>relay. bm_entry [] relay (bs_insert (UserConfigured cat))) relays per_relay"

definition route_bootstrap_content_inbox ::
  "logical_interest \<Rightarrow> pubkey list \<Rightarrow> interest_shape \<Rightarrow> relay list \<Rightarrow> routing \<Rightarrow> routing" where
  "route_bootstrap_content_inbox interest p_tag_values base_shape bootstrap_content_relays r =
     (let r = fold request_probe p_tag_values r;
          per_relay = stack_lane Bootstrap bootstrap_content_relays []
      in emit_entries (plain_entry interest base_shape []) per_relay r)"

definition every_tagged_pubkey_lacks_nip65_inbox :: "pubkey list \<Rightarrow> mailbox_cache \<Rightarrow> bool" where
  "every_tagged_pubkey_lacks_nip65_inbox p_tag_values cache =
     list_all (\<lambda>pk. case mc_get cache pk of Some snapshot \<Rightarrow> \<not> has_inbox_relays snapshot | None \<Rightarrow> True) p_tag_values"

section \<open>Case D: no author\<close>

definition case_d_hint ::
  "relay_hint \<Rightarrow> (relay \<times> routing_source list \<times> hint_origin list) list \<Rightarrow> (relay \<times> routing_source list \<times> hint_origin list) list" where
  "case_d_hint hint per_relay =
     (case route_for_hint hint of
        None \<Rightarrow> per_relay
      | Some (relay_url, source) \<Rightarrow>
          bm_entry ([], []) relay_url (\<lambda>e. (bs_insert source (fst e), bs_insert (hint_origin_for hint) (snd e))) per_relay)"

definition case_d_hint_entry ::
  "logical_interest \<Rightarrow> interest_shape \<Rightarrow> routing_source list \<times> hint_origin list \<Rightarrow> relay_entry" where
  "case_d_hint_entry interest base_shape e =
     (plain_entry interest base_shape [] (fst e))\<lparr>re_attribution := attribution_default\<lparr>ra_hints := snd e,
        ra_interests := [\<lparr>ia_interest_id = li_id interest, ia_kinds = sh_kinds (li_shape interest), ia_authors = []\<rparr>]\<rparr>\<rparr>"

definition route_hints :: "logical_interest \<Rightarrow> interest_shape \<Rightarrow> routing \<Rightarrow> routing" where
  "route_hints interest base_shape r =
     emit_entries (case_d_hint_entry interest base_shape) (fold case_d_hint (li_hints interest) []) r"

definition case_d_route :: "logical_interest \<Rightarrow> interest_shape \<Rightarrow> relay_config \<Rightarrow> routing \<Rightarrow> routing" where
  "case_d_route interest base_shape cfg r =
     (let per_relay = stack_lane AccountRead (rc_account_read cfg) [];
          per_relay = stack_lane AppRelay (rc_app cfg) per_relay;
          per_relay = (if per_relay = [] then stack_lane Indexer (rc_indexer cfg) per_relay else per_relay)
      in emit_entries (plain_entry interest base_shape []) per_relay r)"

definition route_bootstrap_content :: "logical_interest \<Rightarrow> interest_shape \<Rightarrow> relay list \<Rightarrow> routing \<Rightarrow> routing" where
  "route_bootstrap_content interest base_shape bootstrap_content_relays r =
     emit_entries (plain_entry interest base_shape []) (stack_lane Bootstrap bootstrap_content_relays []) r"

section \<open>Case E: the pin\<close>

definition case_e_route :: "logical_interest \<Rightarrow> interest_shape \<Rightarrow> relay \<Rightarrow> routing \<Rightarrow> routing" where
  "case_e_route interest base_shape pin_url r =
     push_entry pin_url
       \<lparr>re_base_shape = base_shape\<lparr>sh_relay_pin := Some pin_url\<rparr>, re_authors = sh_authors (li_shape interest),
        re_addresses = sh_addresses (li_shape interest), re_lifecycle = li_lifecycle interest,
        re_sources = [UserConfigured Debug], re_interest_id = li_id interest, re_attribution = attribution_default\<rparr> r"

section \<open>The dispatch\<close>

definition base_shape_of :: "interest_shape \<Rightarrow> interest_shape" where
  "base_shape_of shape = shape\<lparr>sh_authors := [], sh_addresses := []\<rparr>"

definition p_tag_values_of :: "interest_shape \<Rightarrow> pubkey list" where
  "p_tag_values_of shape = unwrap_or [] (map_of (sh_tags shape) ''p'')"

definition is_bootstrap_inbox_eligible :: "logical_interest \<Rightarrow> pubkey list \<Rightarrow> mailbox_cache \<Rightarrow> relay_config \<Rightarrow> bool" where
  "is_bootstrap_inbox_eligible interest p_tag_values cache cfg \<longleftrightarrow>
     li_lifecycle interest = Tailing \<and> (li_scope interest = Global \<or> li_scope interest = ActiveAccount) \<and>
     sh_p_tag_routing (li_shape interest) = Nip65ReadRelays \<and> rc_bootstrap_content cfg \<noteq> [] \<and>
     every_tagged_pubkey_lacks_nip65_inbox p_tag_values cache"

definition is_oneshot_global_event_ids_discovery :: "logical_interest \<Rightarrow> relay_config \<Rightarrow> bool" where
  "is_oneshot_global_event_ids_discovery interest cfg \<longleftrightarrow>
     li_lifecycle interest = OneShot \<and> li_scope interest = Global \<and> sh_event_ids (li_shape interest) \<noteq> [] \<and>
     rc_bootstrap_content cfg \<noteq> []"

definition partition_interest :: "mailbox_cache \<Rightarrow> relay_config \<Rightarrow> logical_interest \<Rightarrow> routing \<Rightarrow> routing" where
  "partition_interest cache cfg interest r =
     (let shape = li_shape interest;
          base_shape = base_shape_of shape
      in case sh_relay_pin shape of
           Some pin_url \<Rightarrow> case_e_route interest base_shape pin_url r
         | None \<Rightarrow>
             let p_tag_values = p_tag_values_of shape in
             if sh_authors shape \<noteq> [] then case_a_route interest p_tag_values base_shape cache cfg r
             else if sh_addresses shape \<noteq> [] then case_b_route interest base_shape cache cfg r
             else if p_tag_values \<noteq> [] then
               if is_bootstrap_inbox_eligible interest p_tag_values cache cfg
               then route_bootstrap_content_inbox interest p_tag_values base_shape (rc_bootstrap_content cfg) r
               else case_c_route p_tag_values base_shape (li_lifecycle interest) (li_id interest) cache r
             else
               let r = route_hints interest base_shape r in
               if is_oneshot_global_event_ids_discovery interest cfg
               then route_bootstrap_content interest base_shape (rc_bootstrap_content cfg) r
               else case_d_route interest base_shape cfg r)"

end
