(* ===== verification/Planner_Routing.thy ===== *)
theory Planner_Routing
  imports Planner_Partition
begin

text \<open>
  What the partition guarantees: every entry an interest adds is justified by the lane it is tagged
  with, no author of an interest is dropped silently, direct-message interests reach only the
  recipients' direct-message relays, and the result depends on no mailbox the interest does not name.
\<close>

section \<open>What a case adds\<close>

lemma set_bm_insert_subset: "set (bm_insert k v m) \<subseteq> insert (k, v) (set m)"
  by (induction k v m rule: bm_insert.induct) auto

definition entries_at :: "routing \<Rightarrow> relay \<Rightarrow> relay_entry list" where
  "entries_at r url = unwrap_or [] (map_of (rt_entries r) url)"

text \<open>The accumulated map: ascending relays, each with at least one entry.\<close>

definition rt_wf :: "routing \<Rightarrow> bool" where
  "rt_wf r \<longleftrightarrow> bm_wf (rt_entries r) \<and> list_all (\<lambda>(_, es). es \<noteq> []) (rt_entries r)"

text \<open>\<open>r'\<close> extends the entries of \<open>r\<close>, and every new entry satisfies \<open>P\<close>.\<close>

definition grows :: "(relay \<Rightarrow> relay_entry \<Rightarrow> bool) \<Rightarrow> routing \<Rightarrow> routing \<Rightarrow> bool" where
  "grows P r r' \<longleftrightarrow> (\<forall>url. \<exists>es. entries_at r' url = entries_at r url @ es \<and> list_all (P url) es) \<and>
     (rt_wf r \<longrightarrow> rt_wf r')"

lemma rt_entries_frame [simp]:
  "rt_entries (request_probe p r) = rt_entries r"
  "rt_entries (mark_unroutable p r) = rt_entries r"
  "rt_entries (mark_routable p r) = rt_entries r"
  by (simp_all add: request_probe_def mark_unroutable_def mark_routable_def)

lemma entries_at_push:
  "entries_at (push_entry url e r) url' = entries_at r url' @ (if url' = url then [e] else [])"
  by (simp add: entries_at_def push_entry_def bm_get_entry)

lemma grows_refl: "grows P r r"
  by (simp add: grows_def)

lemma grows_same: "rt_entries r' = rt_entries r \<Longrightarrow> grows P r r'"
  by (simp add: grows_def entries_at_def rt_wf_def)

lemma grows_trans:
  assumes "grows P r r'" "grows P r' r''"
  shows "grows P r r''"
proof -
  have "\<exists>es. entries_at r'' url = entries_at r url @ es \<and> list_all (P url) es" for url
  proof -
    obtain xs where "entries_at r' url = entries_at r url @ xs" "list_all (P url) xs" using assms(1) by (auto simp: grows_def)
    moreover obtain ys where "entries_at r'' url = entries_at r' url @ ys" "list_all (P url) ys" using assms(2) by (auto simp: grows_def)
    ultimately show ?thesis by simp
  qed
  with assms show ?thesis by (simp add: grows_def)
qed

lemma grows_push: "P url e \<Longrightarrow> grows P r (push_entry url e r)"
  using set_bm_insert_subset [of url "unwrap_or [] (map_of (rt_entries r) url) @ [e]" "rt_entries r"]
  by (simp add: grows_def entries_at_push) (auto simp: push_entry_def rt_wf_def bm_wf_entry bm_entry_def bm_wf_insert list_all_iff)

lemma grows_fold: "(\<And>x r. x \<in> set xs \<Longrightarrow> grows P r (f x r)) \<Longrightarrow> grows P r (fold f xs r)"
  by (induction xs arbitrary: r) (auto intro: grows_refl grows_trans)

lemma grows_emit: "(\<And>url x. (url, x) \<in> set pr \<Longrightarrow> P url (mk x)) \<Longrightarrow> grows P r (emit_entries mk pr r)"
  unfolding emit_entries_def by (rule grows_fold) (auto intro: grows_push)

lemma grows_mem:
  assumes "grows P r r'"
  shows "e \<in> set (entries_at r' url) \<Longrightarrow> e \<in> set (entries_at r url) \<or> P url e"
    and "e \<in> set (entries_at r url) \<Longrightarrow> e \<in> set (entries_at r' url)"
proof -
  obtain es where "entries_at r' url = entries_at r url @ es" "list_all (P url) es" using assms by (auto simp: grows_def)
  then show "e \<in> set (entries_at r' url) \<Longrightarrow> e \<in> set (entries_at r url) \<or> P url e"
    "e \<in> set (entries_at r url) \<Longrightarrow> e \<in> set (entries_at r' url)" by (auto simp: list_all_iff)
qed

lemma grows_mono: "grows P r r' \<Longrightarrow> (\<And>url e. P url e \<Longrightarrow> Q url e) \<Longrightarrow> grows Q r r'"
  unfolding grows_def list_all_iff by meson

lemma emit_entries_mem: "(url, x) \<in> set pr \<Longrightarrow> mk x \<in> set (entries_at (emit_entries mk pr r) url)"
proof (induction pr arbitrary: r)
  case (Cons p pr)
  then show ?case
    using grows_mem(2) [OF grows_emit [where P = "\<lambda>_ _. True" and pr = pr and mk = mk]]
    by (cases p) (auto simp: emit_entries_def entries_at_push)
qed simp

section \<open>Accumulators\<close>

text \<open>A per-relay accumulator satisfies \<open>Q\<close> at every relay.\<close>

definition acc_all :: "(relay \<Rightarrow> 'e \<Rightarrow> bool) \<Rightarrow> (relay \<times> 'e) list \<Rightarrow> bool" where
  "acc_all Q m \<longleftrightarrow> (\<forall>url e. (url, e) \<in> set m \<longrightarrow> Q url e)"

lemma acc_all_Nil [simp]: "acc_all Q []"
  by (simp add: acc_all_def)

lemma acc_all_entry:
  assumes "acc_all Q m" and "Q url (f d)" and "\<And>e. Q url e \<Longrightarrow> Q url (f e)"
  shows "acc_all Q (bm_entry d url f m)"
proof -
  have "Q url (f (unwrap_or d (map_of m url)))"
    using assms by (cases "map_of m url") (auto simp: acc_all_def dest: map_of_SomeD)
  then show ?thesis
    using assms(1) set_bm_insert_subset [of url "f (unwrap_or d (map_of m url))" m] by (auto simp: acc_all_def bm_entry_def)
qed

lemma land_eq: "land d touch relays (m, l) = (fold (\<lambda>relay. bm_entry d relay touch) relays m, l \<or> relays \<noteq> [])"
  unfolding land_def by (induction relays arbitrary: m l) auto

lemma acc_all_fold:
  assumes "acc_all Q m" and "\<And>url. url \<in> set relays \<Longrightarrow> Q url (touch d)"
    and "\<And>url e. url \<in> set relays \<Longrightarrow> Q url e \<Longrightarrow> Q url (touch e)"
  shows "acc_all Q (fold (\<lambda>relay. bm_entry d relay touch) relays m)"
  using assms by (induction relays arbitrary: m) (auto simp: acc_all_entry)

lemma acc_all_land:
  assumes "acc_all Q m" and "\<And>url. url \<in> set relays \<Longrightarrow> Q url (touch d)"
    and "\<And>url e. url \<in> set relays \<Longrightarrow> Q url e \<Longrightarrow> Q url (touch e)"
  shows "acc_all Q (fst (land d touch relays (m, l)))"
  unfolding land_eq fst_conv using assms by (rule acc_all_fold)

section \<open>The lanes\<close>

definition p_tags :: "logical_interest \<Rightarrow> pubkey list" where
  "p_tags i = p_tag_values_of (li_shape i)"

text \<open>The keys whose outboxes serve an interest.\<close>

definition outbox_keys :: "logical_interest \<Rightarrow> pubkey set" where
  "outbox_keys i = set (sh_authors (li_shape i)) \<union> nc_pubkey ` set (sh_addresses (li_shape i))"

definition justified :: "mailbox_cache \<Rightarrow> relay_config \<Rightarrow> logical_interest \<Rightarrow> relay \<Rightarrow> routing_source \<Rightarrow> bool" where
  "justified cache cfg i url src =
     (case src of
        Nip65 \<Rightarrow>
          (\<exists>p s. p \<in> outbox_keys i \<and> mc_get cache p = Some s \<and> url \<in> set (outbox_relays s)) \<or>
          (sh_p_tag_routing (li_shape i) = Nip65ReadRelays \<and>
           (\<exists>p s. p \<in> set (p_tags i) \<and> mc_get cache p = Some s \<and> url \<in> set (inbox_relays s)))
      | Nip17DmRelay \<Rightarrow> sh_p_tag_routing (li_shape i) = Nip17DmRelays \<and>
          (\<exists>p rs. p \<in> set (p_tags i) \<and> mc_dm_inbox_relays cache p = Some rs \<and> url \<in> set rs)
      | Hint \<Rightarrow> (\<exists>h. h \<in> set (li_hints i) \<and> route_for_hint h = Some (url, Hint))
      | Provenance \<Rightarrow> (\<exists>h. h \<in> set (li_hints i) \<and> route_for_hint h = Some (url, Provenance))
      | UserConfigured c \<Rightarrow>
          (case c of
             AccountRead \<Rightarrow> url \<in> set (rc_account_read cfg)
           | AccountWrite \<Rightarrow> False
           | Indexer \<Rightarrow> (if sh_authors (li_shape i) = [] then url \<in> set (rc_indexer cfg)
                        else li_is_indexer_discovery i \<and> url \<in> set (rc_bootstrap_indexer cfg))
           | AppRelay \<Rightarrow> url \<in> set (rc_app cfg)
           | Debug \<Rightarrow> sh_relay_pin (li_shape i) = Some url \<or>
               (\<exists>h. h \<in> set (li_hints i) \<and> route_for_hint h = Some (url, UserConfigured Debug))
           | Bootstrap \<Rightarrow> url \<in> set (rc_bootstrap_content cfg)
           | ActivePin \<Rightarrow> url \<in> set (rc_active_pinned cfg) \<and> sh_kinds (li_shape i) = [0]))"

lemma hint_justified:
  assumes "h \<in> set (li_hints i)" and "route_for_hint h = Some (url, src)"
  shows "justified cache cfg i url src"
proof -
  have "src \<in> {Hint, Provenance, UserConfigured Debug}"
    using assms(2) by (auto simp: route_for_hint_def routing_source_for_hint_def split: hint_source.splits Option.bind_splits)
  with assms show ?thesis by (auto simp: justified_def)
qed

text \<open>What holds of every entry an interest adds.\<close>

definition entry_ok :: "mailbox_cache \<Rightarrow> relay_config \<Rightarrow> logical_interest \<Rightarrow> relay \<Rightarrow> relay_entry \<Rightarrow> bool" where
  "entry_ok cache cfg i url e \<longleftrightarrow> re_interest_id e = li_id i \<and> re_lifecycle e = li_lifecycle i \<and>
     re_sources e \<noteq> [] \<and> list_all (justified cache cfg i url) (re_sources e) \<and>
     set (re_authors e) \<subseteq> set (sh_authors (li_shape i)) \<and> set (re_addresses e) \<subseteq> set (sh_addresses (li_shape i)) \<and>
     sh_kinds (re_base_shape e) = sh_kinds (li_shape i) \<and> sh_relay_pin (re_base_shape e) = sh_relay_pin (li_shape i) \<and>
     sh_p_tag_routing (re_base_shape e) = sh_p_tag_routing (li_shape i)"

section \<open>Every entry is justified\<close>

definition ca_ok :: "mailbox_cache \<Rightarrow> relay_config \<Rightarrow> logical_interest \<Rightarrow> relay \<Rightarrow> case_a_entry \<Rightarrow> bool" where
  "ca_ok cache cfg i url e \<longleftrightarrow> ca_sources e \<noteq> [] \<and> (\<forall>src \<in> set (ca_sources e). justified cache cfg i url src) \<and>
     set (ca_authors e) \<subseteq> set (sh_authors (li_shape i)) \<and> set (ca_addresses e) \<subseteq> set (sh_addresses (li_shape i))"

lemma bs_insert_ne_Nil [simp]: "bs_insert x xs \<noteq> []"
  by (metis insert_not_empty list.set(1) set_bs_insert)

lemma ca_ok_touch:
  assumes "ca_ok cache cfg i url e \<or> e = case_a_default"
  shows "justified cache cfg i url Nip65 \<Longrightarrow> a \<in> set (sh_authors (li_shape i)) \<Longrightarrow> ca_ok cache cfg i url (touch_outbox a e)"
    and "justified cache cfg i url (UserConfigured c) \<Longrightarrow> a \<in> set (sh_authors (li_shape i)) \<Longrightarrow>
      ca_ok cache cfg i url (touch_configured a c e)"
    and "justified cache cfg i url Nip65 \<Longrightarrow> x \<in> set (sh_addresses (li_shape i)) \<Longrightarrow> ca_ok cache cfg i url (touch_coord_outbox x e)"
    and "justified cache cfg i url (UserConfigured AppRelay) \<Longrightarrow> x \<in> set (sh_addresses (li_shape i)) \<Longrightarrow>
      ca_ok cache cfg i url (touch_coord_app x e)"
    and "justified cache cfg i url src \<Longrightarrow> ca_ok cache cfg i url (touch_hint (li_shape i) src origin e)"
  using assms
  by (auto simp: ca_ok_def case_a_default_def touch_outbox_def touch_configured_def touch_coord_outbox_def
      touch_coord_app_def touch_hint_def)

lemma profile_kinds: "is_profile_resolution i \<Longrightarrow> sh_kinds (li_shape i) = [0]"
  by (auto simp: is_profile_resolution_def length_Suc_conv)

lemma case_a_author_ok:
  assumes "acc_all (ca_ok cache cfg i) m" and a: "a \<in> set (sh_authors (li_shape i))"
  shows "acc_all (ca_ok cache cfg i) (fst (case_a_author i cache cfg a (m, r)))"
proof -
  have nip: "justified cache cfg i url Nip65" if "mc_get cache a = Some s" "url \<in> set (outbox_relays s)" for s url
    using that a by (auto simp: justified_def outbox_keys_def)
  have app: "justified cache cfg i url (UserConfigured AppRelay)" if "url \<in> set (rc_app cfg)" for url
    using that by (simp add: justified_def)
  have pin: "justified cache cfg i url (UserConfigured ActivePin)"
    if "is_profile_resolution i" "url \<in> set (rc_active_pinned cfg)" for url
    using that profile_kinds by (simp add: justified_def)
  have idx: "justified cache cfg i url (UserConfigured Indexer)"
    if "li_is_indexer_discovery i" "url \<in> set (rc_bootstrap_indexer cfg)" for url
    using that a by (auto simp: justified_def)
  show ?thesis
    using assms(1)
    by (auto simp: case_a_author_def land_eq Let_def intro!: acc_all_fold ca_ok_touch nip app pin idx a split: option.splits)
qed

lemma case_a_address_ok:
  assumes "acc_all (ca_ok cache cfg i) m" and x: "x \<in> set (sh_addresses (li_shape i))"
  shows "acc_all (ca_ok cache cfg i) (fst (case_a_address cache cfg x (m, r)))"
proof -
  have nip: "justified cache cfg i url Nip65" if "mc_get cache (nc_pubkey x) = Some s" "url \<in> set (outbox_relays s)" for s url
    using that x by (auto simp: justified_def outbox_keys_def)
  have app: "justified cache cfg i url (UserConfigured AppRelay)" if "url \<in> set (rc_app cfg)" for url
    using that by (simp add: justified_def)
  show ?thesis
    using assms(1)
    by (auto simp: case_a_address_def land_eq Let_def intro!: acc_all_fold ca_ok_touch nip app x split: option.splits)
qed

lemma case_a_hint_ok:
  assumes "acc_all (ca_ok cache cfg i) m" and "h \<in> set (li_hints i)"
  shows "acc_all (ca_ok cache cfg i) (fst (case_a_hint (li_shape i) h (m, l)))"
proof (cases "route_for_hint h")
  case None
  then show ?thesis using assms(1) by (simp add: case_a_hint_def)
next
  case (Some us)
  obtain url src where us: "us = (url, src)" by (cases us)
  show ?thesis
    using assms(1) hint_justified [OF assms(2), of url src] Some
    by (auto simp: case_a_hint_def us intro!: acc_all_entry ca_ok_touch(5))
qed

lemma acc_all_step_fold:
  assumes "acc_all Q m" and "\<And>x m s. x \<in> set xs \<Longrightarrow> acc_all Q m \<Longrightarrow> acc_all Q (fst (f x (m, s)))"
  shows "acc_all Q (fst (fold f xs (m, s)))"
  using assms
proof (induction xs arbitrary: m s)
  case (Cons x xs)
  obtain m' s' where ms: "f x (m, s) = (m', s')" by (cases "f x (m, s)")
  have "acc_all Q m'" using Cons.prems(2) [of x m s] Cons.prems(1) ms by simp
  with Cons show ?case by (simp add: ms)
qed simp

lemma case_steps_frame:
  "rt_entries (snd (case_a_author i cache cfg a (m, r))) = rt_entries r"
  "rt_entries (snd (case_a_address cache cfg x (m, r))) = rt_entries r"
  "rt_entries (snd (case_b_address cache cfg x (b, r))) = rt_entries r"
  by (simp_all add: case_a_author_def case_a_address_def case_b_address_def land_eq Let_def split: option.split)

lemma fold_frame:
  assumes "\<And>x m r. rt_entries (snd (f x (m, r))) = rt_entries r"
  shows "rt_entries (snd (fold f xs (m, r))) = rt_entries r"
proof (induction xs arbitrary: m r)
  case (Cons x xs)
  then show ?case using assms [of x m r] by (cases "f x (m, r)") simp
qed simp

lemma fold_marks_frame [simp]:
  "rt_entries (fold mark_routable ps r) = rt_entries r"
  "rt_entries (fold (\<lambda>c. mark_routable (nc_pubkey c)) cs r) = rt_entries r"
  "rt_entries (fold request_probe ps r) = rt_entries r"
proof -
  show "rt_entries (fold mark_routable ps r) = rt_entries r" by (induction ps arbitrary: r) simp_all
  show "rt_entries (fold (\<lambda>c. mark_routable (nc_pubkey c)) cs r) = rt_entries r" by (induction cs arbitrary: r) simp_all
  show "rt_entries (fold request_probe ps r) = rt_entries r" by (induction ps arbitrary: r) simp_all
qed

lemma base_shape_fields [simp]:
  "sh_kinds (base_shape_of s) = sh_kinds s" "sh_relay_pin (base_shape_of s) = sh_relay_pin s"
  "sh_p_tag_routing (base_shape_of s) = sh_p_tag_routing s" "sh_tags (base_shape_of s) = sh_tags s"
  by (simp_all add: base_shape_of_def)

lemma inbox_targets_Some:
  assumes "inbox_targets cache mode p = Some (relays, src)"
  shows "mode = Nip65ReadRelays \<and> src = Nip65 \<and> (\<exists>s. mc_get cache p = Some s \<and> relays = inbox_relays s) \<or>
    mode = Nip17DmRelays \<and> src = Nip17DmRelay \<and> mc_dm_inbox_relays cache p = Some relays"
  using assms by (auto simp: inbox_targets_def split: p_tag_routing.splits option.splits if_splits)

lemma grows_p_tags:
  assumes "set ps \<subseteq> set (p_tags i)" and "set authors \<subseteq> set (sh_authors (li_shape i))"
  shows "grows (entry_ok cache cfg i) r
    (route_p_tags_to_inbox ps authors (base_shape_of (li_shape i)) (li_lifecycle i) (li_id i) cache r)"
  unfolding route_p_tags_to_inbox_def
proof (rule grows_fold)
  fix p r
  assume "p \<in> set ps"
  then have p: "p \<in> set (p_tags i)" using assms(1) by blast
  show "grows (entry_ok cache cfg i) r (route_p_tag authors (base_shape_of (li_shape i)) (li_lifecycle i) (li_id i) cache p r)"
  proof (cases "inbox_targets cache (sh_p_tag_routing (li_shape i)) p")
    case None
    then show ?thesis by (simp add: route_p_tag_def grows_same)
  next
    case (Some rs)
    obtain relays src where rs: "rs = (relays, src)" by (cases rs)
    have "justified cache cfg i url src" if "url \<in> set relays" for url
      using inbox_targets_Some [of cache "sh_p_tag_routing (li_shape i)" p relays src] Some rs that p
      by (fastforce simp: justified_def)
    then show ?thesis
      using assms(2) by (auto simp: route_p_tag_def Some rs Let_def entry_ok_def intro!: grows_fold grows_push)
  qed
qed

lemma grows_case_a:
  "grows (entry_ok cache cfg i) r (case_a_route i (p_tags i) (base_shape_of (li_shape i)) cache cfg r)"
proof -
  let ?s = "li_shape i" and ?Q = "ca_ok cache cfg i"
  obtain m1 r1 where 1: "fold (case_a_author i cache cfg) (sh_authors ?s) ([], r) = (m1, r1)" by (rule prod.exhaust)
  obtain m2 r2 where 2: "fold (case_a_address cache cfg) (sh_addresses ?s) (m1, r1) = (m2, r2)" by (rule prod.exhaust)
  obtain m3 l where 3: "fold (case_a_hint ?s) (li_hints i) (m2, False) = (m3, l)" by (rule prod.exhaust)
  have "acc_all ?Q m1"
    using acc_all_step_fold [where Q = ?Q and m = "[]" and xs = "sh_authors ?s" and f = "case_a_author i cache cfg" and s = r]
      case_a_author_ok 1 by fastforce
  then have "acc_all ?Q m2"
    using acc_all_step_fold [where Q = ?Q and m = m1 and xs = "sh_addresses ?s" and f = "case_a_address cache cfg" and s = r1]
      case_a_address_ok 2 by fastforce
  then have m3: "acc_all ?Q m3"
    using acc_all_step_fold [where Q = ?Q and m = m2 and xs = "li_hints i" and f = "case_a_hint ?s" and s = False]
      case_a_hint_ok 3 by fastforce
  have r2: "rt_entries r2 = rt_entries r"
    using fold_frame [of "case_a_author i cache cfg", OF case_steps_frame(1)] fold_frame [of "case_a_address cache cfg", OF case_steps_frame(2)] 1 2
    by (metis snd_conv)
  let ?r = "if l then fold (\<lambda>c. mark_routable (nc_pubkey c)) (sh_addresses ?s) (fold mark_routable (sh_authors ?s) r2) else r2"
  let ?e = "emit_entries (case_a_entry_of i (base_shape_of ?s)) m3 ?r"
  have "grows (entry_ok cache cfg i) ?r ?e"
    using m3 by (intro grows_emit) (auto simp: acc_all_def ca_ok_def entry_ok_def case_a_entry_of_def list_all_iff)
  moreover have "grows (entry_ok cache cfg i) r ?r" by (rule grows_same) (simp add: r2)
  ultimately have "grows (entry_ok cache cfg i) r ?e" using grows_trans by blast
  moreover have "grows (entry_ok cache cfg i) ?e
      (route_p_tags_to_inbox (p_tags i) (sh_authors ?s) (base_shape_of ?s) (li_lifecycle i) (li_id i) cache ?e)"
    by (rule grows_p_tags) simp_all
  ultimately show ?thesis by (auto simp: case_a_route_def 1 2 3 Let_def intro: grows_trans)
qed

definition cb_ok :: "mailbox_cache \<Rightarrow> relay_config \<Rightarrow> logical_interest \<Rightarrow> relay \<Rightarrow> case_b_entry \<Rightarrow> bool" where
  "cb_ok cache cfg i url e \<longleftrightarrow> snd e \<noteq> [] \<and> (\<forall>src \<in> set (snd e). justified cache cfg i url src) \<and>
     set (fst e) \<subseteq> set (sh_addresses (li_shape i))"

lemma case_b_address_ok:
  assumes "acc_all (cb_ok cache cfg i) m" and x: "x \<in> set (sh_addresses (li_shape i))"
  shows "acc_all (cb_ok cache cfg i) (fst (case_b_address cache cfg x (m, r)))"
proof -
  have "justified cache cfg i url Nip65" if "mc_get cache (nc_pubkey x) = Some s" "url \<in> set (outbox_relays s)" for s url
    using that x by (auto simp: justified_def outbox_keys_def)
  moreover have "justified cache cfg i url (UserConfigured AppRelay)" if "url \<in> set (rc_app cfg)" for url
    using that by (simp add: justified_def)
  ultimately show ?thesis
    using assms by (auto simp: case_b_address_def land_eq Let_def touch_b_def cb_ok_def intro!: acc_all_fold split: option.splits)
qed

lemma case_b_hint_ok:
  assumes "acc_all (cb_ok cache cfg i) m" and "h \<in> set (li_hints i)"
  shows "acc_all (cb_ok cache cfg i) (fst (case_b_hint (li_shape i) h (m, l)))"
proof (cases "route_for_hint h")
  case None
  then show ?thesis using assms(1) by (simp add: case_b_hint_def)
next
  case (Some us)
  obtain url src where us: "us = (url, src)" by (cases us)
  show ?thesis
    using assms(1) hint_justified [OF assms(2), of url src] Some
    by (auto simp: case_b_hint_def us cb_ok_def intro!: acc_all_entry)
qed

lemma grows_case_b: "grows (entry_ok cache cfg i) r (case_b_route i (base_shape_of (li_shape i)) cache cfg r)"
proof -
  let ?s = "li_shape i" and ?Q = "cb_ok cache cfg i"
  obtain m1 r1 where 1: "fold (case_b_address cache cfg) (sh_addresses ?s) ([], r) = (m1, r1)" by (rule prod.exhaust)
  obtain m2 l where 2: "fold (case_b_hint ?s) (li_hints i) (m1, False) = (m2, l)" by (rule prod.exhaust)
  have "acc_all ?Q m1"
    using acc_all_step_fold [where Q = ?Q and m = "[]" and xs = "sh_addresses ?s" and f = "case_b_address cache cfg" and s = r]
      case_b_address_ok 1 by fastforce
  then have m2: "acc_all ?Q m2"
    using acc_all_step_fold [where Q = ?Q and m = m1 and xs = "li_hints i" and f = "case_b_hint ?s" and s = False]
      case_b_hint_ok 2 by fastforce
  have r1: "rt_entries r1 = rt_entries r"
    using fold_frame [of "case_b_address cache cfg", OF case_steps_frame(3)] 1 by (metis snd_conv)
  let ?r = "if l then fold (\<lambda>c. mark_routable (nc_pubkey c)) (sh_addresses ?s) r1 else r1"
  have "grows (entry_ok cache cfg i) ?r (emit_entries (\<lambda>(addrs, sources). plain_entry i (base_shape_of ?s) addrs sources) m2 ?r)"
    using m2 by (intro grows_emit) (fastforce simp: acc_all_def cb_ok_def entry_ok_def plain_entry_def list_all_iff)
  moreover have "grows (entry_ok cache cfg i) r ?r" by (rule grows_same) (simp add: r1)
  ultimately show ?thesis by (auto simp: case_b_route_def 1 2 Let_def intro: grows_trans)
qed

definition lane_acc_ok :: "mailbox_cache \<Rightarrow> relay_config \<Rightarrow> logical_interest \<Rightarrow> relay \<Rightarrow> routing_source list \<Rightarrow> bool" where
  "lane_acc_ok cache cfg i url srcs \<longleftrightarrow> srcs \<noteq> [] \<and> (\<forall>src \<in> set srcs. justified cache cfg i url src)"

lemma stack_lane_ok:
  assumes "acc_all (lane_acc_ok cache cfg i) m"
    and "\<And>url. url \<in> set relays \<Longrightarrow> justified cache cfg i url (UserConfigured cat)"
  shows "acc_all (lane_acc_ok cache cfg i) (stack_lane cat relays m)"
  unfolding stack_lane_def using assms by (intro acc_all_fold) (auto simp: lane_acc_ok_def)

lemma grows_plain:
  assumes "acc_all (lane_acc_ok cache cfg i) m"
  shows "grows (entry_ok cache cfg i) r (emit_entries (plain_entry i (base_shape_of (li_shape i)) []) m r)"
  using assms by (intro grows_emit) (auto simp: acc_all_def lane_acc_ok_def entry_ok_def plain_entry_def list_all_iff)

lemma grows_route_hints: "grows (entry_ok cache cfg i) r (route_hints i (base_shape_of (li_shape i)) r)"
proof -
  let ?Q = "\<lambda>url e. lane_acc_ok cache cfg i url (fst e)"
  have step: "acc_all ?Q (case_d_hint h m)" if "acc_all ?Q m" "h \<in> set (li_hints i)" for h m
  proof (cases "route_for_hint h")
    case (Some us)
    obtain url src where us: "us = (url, src)" by (cases us)
    show ?thesis
      using that(1) hint_justified [OF that(2), of url src] Some
      by (auto simp: case_d_hint_def us lane_acc_ok_def intro!: acc_all_entry)
  qed (simp add: case_d_hint_def that(1))
  have "acc_all ?Q (fold case_d_hint hs m)" if "acc_all ?Q m" "set hs \<subseteq> set (li_hints i)" for hs m
    using that by (induction hs arbitrary: m) (auto intro: step)
  then have "acc_all ?Q (fold case_d_hint (li_hints i) [])" by simp
  then show ?thesis
    unfolding route_hints_def
    by (intro grows_emit) (fastforce simp: acc_all_def lane_acc_ok_def entry_ok_def case_d_hint_entry_def plain_entry_def list_all_iff)
qed

lemma grows_case_d:
  assumes "sh_authors (li_shape i) = []"
  shows "grows (entry_ok cache cfg i) r (case_d_route i (base_shape_of (li_shape i)) cfg r)"
  unfolding case_d_route_def Let_def
  by (intro grows_plain) (auto intro!: stack_lane_ok simp: justified_def assms)

lemma grows_partition: "grows (entry_ok cache cfg i) r (partition_interest cache cfg i r)"
proof (cases "sh_relay_pin (li_shape i)")
  case (Some pin)
  have "justified cache cfg i pin (UserConfigured Debug)" by (simp add: justified_def Some)
  then show ?thesis
    by (auto simp: partition_interest_def Some case_e_route_def entry_ok_def Let_def intro!: grows_push)
next
  case None
  let ?b = "base_shape_of (li_shape i)"
  have boot: "acc_all (lane_acc_ok cache cfg i) (stack_lane Bootstrap (rc_bootstrap_content cfg) [])"
    by (rule stack_lane_ok) (simp_all add: justified_def)
  have "grows (entry_ok cache cfg i) r (route_bootstrap_content_inbox i (p_tags i) ?b (rc_bootstrap_content cfg) r)"
    unfolding route_bootstrap_content_inbox_def Let_def
    by (rule grows_trans [OF grows_same grows_plain]) (simp_all add: boot)
  moreover have "grows (entry_ok cache cfg i) r' (route_bootstrap_content i ?b (rc_bootstrap_content cfg) r')" for r'
    unfolding route_bootstrap_content_def by (rule grows_plain [OF boot])
  moreover have "grows (entry_ok cache cfg i) r (case_c_route (p_tags i) ?b (li_lifecycle i) (li_id i) cache r)"
    unfolding case_c_route_def by (rule grows_p_tags) simp_all
  ultimately show ?thesis
    using grows_case_a [of cache cfg i r] grows_case_b [of cache cfg i r] grows_route_hints [of cache cfg i r] grows_case_d [of i cache cfg]
    by (auto simp: partition_interest_def None Let_def p_tags_def intro: grows_trans)
qed

section \<open>No author is dropped silently\<close>

text \<open>A member \<open>x\<close> of the field \<open>F\<close> sits at some relay of an accumulator; touches only add.\<close>

definition covered :: "('e \<Rightarrow> 'x list) \<Rightarrow> 'x \<Rightarrow> (relay \<times> 'e) list \<Rightarrow> bool" where
  "covered F x m \<longleftrightarrow> (\<exists>url e. map_of m url = Some e \<and> x \<in> set (F e))"

definition adds_only :: "('e \<Rightarrow> 'x list) \<Rightarrow> ('e \<Rightarrow> 'e) \<Rightarrow> bool" where
  "adds_only F touch \<longleftrightarrow> (\<forall>e. set (F e) \<subseteq> set (F (touch e)))"

definition places :: "('e \<Rightarrow> 'x list) \<Rightarrow> 'x \<Rightarrow> ('e \<Rightarrow> 'e) \<Rightarrow> bool" where
  "places F x touch \<longleftrightarrow> (\<forall>e. x \<in> set (F (touch e)))"

lemma covered_entry: "adds_only F touch \<Longrightarrow> covered F x m \<Longrightarrow> covered F x (bm_entry d url touch m)"
  unfolding covered_def adds_only_def by (metis bm_get_entry in_mono unwrap_or_simps(2))

lemma covered_entry_new: "places F x touch \<Longrightarrow> covered F x (bm_entry d url touch m)"
  unfolding covered_def places_def by (metis bm_get_entry)

lemma covered_fold:
  "adds_only F touch \<Longrightarrow> covered F x m \<Longrightarrow> covered F x (fold (\<lambda>relay. bm_entry d relay touch) relays m)"
  by (induction relays arbitrary: m) (auto intro: covered_entry)

lemma covered_fold_new:
  "adds_only F touch \<Longrightarrow> places F x touch \<Longrightarrow> relays \<noteq> [] \<Longrightarrow> covered F x (fold (\<lambda>relay. bm_entry d relay touch) relays m)"
  by (cases relays) (auto intro: covered_fold covered_entry_new)

lemma touches_add:
  "adds_only ca_authors (touch_outbox a)" "adds_only ca_authors (touch_configured a c)"
  "adds_only ca_authors (touch_coord_outbox x)" "adds_only ca_authors (touch_coord_app x)"
  "adds_only ca_authors (touch_hint s src og)"
  "adds_only ca_addresses (touch_outbox a)" "adds_only ca_addresses (touch_configured a c)"
  "adds_only ca_addresses (touch_coord_outbox x)" "adds_only ca_addresses (touch_coord_app x)"
  "adds_only ca_addresses (touch_hint s src og)" "adds_only fst (touch_b x src)"
  by (auto simp: adds_only_def touch_outbox_def touch_configured_def touch_coord_outbox_def touch_coord_app_def touch_hint_def touch_b_def)

lemma touches_place:
  "places ca_authors a (touch_outbox a)" "places ca_authors a (touch_configured a c)"
  "places ca_addresses x (touch_coord_outbox x)" "places ca_addresses x (touch_coord_app x)"
  "a \<in> set (sh_authors s) \<Longrightarrow> places ca_authors a (touch_hint s src og)"
  "x \<in> set (sh_addresses s) \<Longrightarrow> places ca_addresses x (touch_hint s src og)" "places fst x (touch_b x src)"
  by (auto simp: places_def touch_outbox_def touch_configured_def touch_coord_outbox_def touch_coord_app_def touch_hint_def touch_b_def)

lemmas covered_intros = covered_fold [OF touches_add(1)] covered_fold [OF touches_add(2)] covered_fold [OF touches_add(3)]
  covered_fold [OF touches_add(4)] covered_fold [OF touches_add(6)] covered_fold [OF touches_add(7)]
  covered_fold [OF touches_add(8)] covered_fold [OF touches_add(9)] covered_fold [OF touches_add(11)]
  covered_fold_new [OF touches_add(1) touches_place(1)] covered_fold_new [OF touches_add(2) touches_place(2)]
  covered_fold_new [OF touches_add(8) touches_place(3)] covered_fold_new [OF touches_add(9) touches_place(4)]
  covered_fold_new [OF touches_add(11) touches_place(7)]

text \<open>What a step leaves true of an author or a coordinate: placed at a relay, or its key marked.\<close>

definition accounted :: "('e \<Rightarrow> 'x list) \<Rightarrow> 'x \<Rightarrow> pubkey \<Rightarrow> (relay \<times> 'e) list \<times> routing \<Rightarrow> bool" where
  "accounted F x p s \<longleftrightarrow> covered F x (fst s) \<or> p \<in> set (rt_unroutable (snd s))"

lemma rt_unroutable_frame [simp]:
  "rt_unroutable (request_probe p r) = rt_unroutable r"
  "rt_unroutable (push_entry url e r) = rt_unroutable r"
  "set (rt_unroutable (mark_unroutable p r)) = insert p (set (rt_unroutable r))"
  "set (rt_unroutable (mark_routable p r)) = set (rt_unroutable r) - {p}"
  by (simp_all add: request_probe_def push_entry_def mark_unroutable_def mark_routable_def)

lemma case_a_author_accounts:
  "accounted ca_authors a a (case_a_author i cache cfg a s)"
  "accounted ca_authors b p s \<Longrightarrow> accounted ca_authors b p (case_a_author i cache cfg a s)"
  by (cases s; auto simp: accounted_def case_a_author_def land_eq Let_def intro: covered_intros split: option.splits)+

lemma case_a_address_accounts:
  "accounted ca_authors b p s \<Longrightarrow> accounted ca_authors b p (case_a_address cache cfg x s)"
  "accounted ca_addresses y p s \<Longrightarrow> accounted ca_addresses y p (case_a_address cache cfg x s)"
  "accounted ca_addresses x (nc_pubkey x) (case_a_address cache cfg x s)"
  by (cases s; auto simp: accounted_def case_a_address_def land_eq Let_def intro: covered_intros split: option.splits)+

lemma case_b_address_accounts:
  "accounted fst y p s \<Longrightarrow> accounted fst y p (case_b_address cache cfg x s)"
  "accounted fst x (nc_pubkey x) (case_b_address cache cfg x s)"
  by (cases s; auto simp: accounted_def case_b_address_def land_eq Let_def intro: covered_intros split: option.splits)+

text \<open>Marks are only taken back when hints exist; until then they only accumulate.\<close>

lemma marks_accumulate:
  "p \<in> set (rt_unroutable (snd s)) \<Longrightarrow> p \<in> set (rt_unroutable (snd (case_a_author i cache cfg a s)))"
  "p \<in> set (rt_unroutable (snd s)) \<Longrightarrow> p \<in> set (rt_unroutable (snd (case_a_address cache cfg x s)))"
  "p \<in> set (rt_unroutable (snd t)) \<Longrightarrow> p \<in> set (rt_unroutable (snd (case_b_address cache cfg x t)))"
  by (cases s; cases t; simp add: case_a_author_def case_a_address_def case_b_address_def land_eq Let_def split: option.split)+

lemma fold_keeps: "(\<And>x s. P s \<Longrightarrow> P (f x s)) \<Longrightarrow> P s \<Longrightarrow> P (fold f xs s)"
  by (induction xs arbitrary: s) auto

lemma fold_establishes:
  assumes "\<And>s. P (f x s)" "\<And>y s. P s \<Longrightarrow> P (f y s)" "x \<in> set xs"
  shows "P (fold f xs s)"
  using assms(3)
proof (induction xs arbitrary: s)
  case (Cons y ys)
  then show ?case using assms(1,2) by (cases "x = y") (auto intro: fold_keeps)
qed simp

lemma hint_fold_covers:
  assumes keep: "\<And>h m l. covered F x m \<Longrightarrow> covered F x (fst (f h (m, l)))"
    and new: "\<And>h m l. snd (f h (m, l)) \<noteq> l \<Longrightarrow> covered F x (fst (f h (m, l)))"
    and "covered F x m \<or> \<not> l \<and> snd (fold f hs (m, l))"
  shows "covered F x (fst (fold f hs (m, l)))"
  using assms(3)
proof (induction hs arbitrary: m l)
  case (Cons h hs)
  obtain m' l' where ml: "f h (m, l) = (m', l')" by (cases "f h (m, l)")
  have "covered F x m' \<or> \<not> l' \<and> snd (fold f hs (m', l'))"
    using Cons.prems keep [of m h l] new [of h m l] ml by (cases "l = l'") auto
  then show ?case using Cons.IH [of m' l'] by (simp add: ml)
qed auto

lemma case_a_hint_covers:
  assumes "\<And>src og. adds_only F (touch_hint s src og)" "\<And>src og. places F x (touch_hint s src og)"
  shows "covered F x m \<Longrightarrow> covered F x (fst (case_a_hint s h (m, l)))"
    and "snd (case_a_hint s h (m, l)) \<noteq> l \<Longrightarrow> covered F x (fst (case_a_hint s h (m, l)))"
  using assms by (auto simp: case_a_hint_def intro: covered_entry covered_entry_new split: option.splits prod.splits)

lemma case_b_hint_covers:
  assumes "x \<in> set (sh_addresses s)"
  shows "covered fst x m \<Longrightarrow> covered fst x (fst (case_b_hint s h (m, l)))"
    and "snd (case_b_hint s h (m, l)) \<noteq> l \<Longrightarrow> covered fst x (fst (case_b_hint s h (m, l)))"
  using assms by (auto simp: case_b_hint_def adds_only_def places_def intro!: covered_entry covered_entry_new split: option.splits prod.splits)

lemma unroutable_emit [simp]: "rt_unroutable (emit_entries mk m r) = rt_unroutable r"
  unfolding emit_entries_def by (induction m arbitrary: r) (auto split: prod.splits)

lemma unroutable_p_tags [simp]: "rt_unroutable (route_p_tags_to_inbox ps as b lc n cache r) = rt_unroutable r"
proof -
  have push: "rt_unroutable (fold (\<lambda>relay. push_entry relay e) relays r) = rt_unroutable r" for e relays r
    by (induction relays arbitrary: r) auto
  have "rt_unroutable (route_p_tag as b lc n cache p r) = rt_unroutable r" for p r
    by (simp add: route_p_tag_def push Let_def split: option.split prod.split)
  then show ?thesis unfolding route_p_tags_to_inbox_def by (induction ps arbitrary: r) auto
qed

definition asks_for :: "relay_entry \<Rightarrow> pubkey \<Rightarrow> bool" where
  "asks_for e p \<longleftrightarrow> p \<in> set (re_authors e) \<or> p \<in> nc_pubkey ` set (re_addresses e)"

definition asked :: "routing \<Rightarrow> pubkey \<Rightarrow> bool" where
  "asked r p \<longleftrightarrow> (\<exists>url e. e \<in> set (entries_at r url) \<and> asks_for e p)"

lemma asked_mono: "grows P r r' \<Longrightarrow> asked r p \<Longrightarrow> asked r' p"
  unfolding asked_def using grows_mem(2) by blast

lemma asked_emit:
  assumes "covered F x m" "\<And>e. x \<in> set (F e) \<Longrightarrow> asks_for (mk e) p"
  shows "asked (emit_entries mk m r) p"
proof -
  obtain url e where "(url, e) \<in> set m" "x \<in> set (F e)" using assms(1) by (auto simp: covered_def dest: map_of_SomeD)
  then show ?thesis unfolding asked_def using emit_entries_mem [of url e m mk r] assms(2) by blast
qed

lemma unroutable_marks:
  "set (rt_unroutable (fold mark_routable ps r)) = set (rt_unroutable r) - set ps"
  "set (rt_unroutable (fold (\<lambda>c. mark_routable (nc_pubkey c)) cs r)) = set (rt_unroutable r) - nc_pubkey ` set cs"
proof -
  show "set (rt_unroutable (fold mark_routable ps r)) = set (rt_unroutable r) - set ps"
    by (induction ps arbitrary: r) auto
  show "set (rt_unroutable (fold (\<lambda>c. mark_routable (nc_pubkey c)) cs r)) = set (rt_unroutable r) - nc_pubkey ` set cs"
    by (induction cs arbitrary: r) auto
qed

lemma case_a_accounts:
  assumes "r' = case_a_route i (p_tags i) (base_shape_of (li_shape i)) cache cfg r"
  shows "p \<in> outbox_keys i \<Longrightarrow> asked r' p \<or> p \<in> set (rt_unroutable r')"
    and "p \<in> set (rt_unroutable r) \<Longrightarrow> asked r' p \<or> p \<in> set (rt_unroutable r')"
proof -
  let ?s = "li_shape i" and ?mk = "case_a_entry_of i (base_shape_of (li_shape i))"
  obtain m1 r1 where 1: "fold (case_a_author i cache cfg) (sh_authors ?s) ([], r) = (m1, r1)" by (rule prod.exhaust)
  obtain m2 r2 where 2: "fold (case_a_address cache cfg) (sh_addresses ?s) (m1, r1) = (m2, r2)" by (rule prod.exhaust)
  obtain m3 l where 3: "fold (case_a_hint ?s) (li_hints i) (m2, False) = (m3, l)" by (rule prod.exhaust)
  let ?r = "if l then fold (\<lambda>c. mark_routable (nc_pubkey c)) (sh_addresses ?s) (fold mark_routable (sh_authors ?s) r2) else r2"
  let ?e = "emit_entries ?mk m3 ?r"
  have author: "asked ?e a \<or> \<not> l \<and> a \<in> set (rt_unroutable r2)" if a: "a \<in> set (sh_authors ?s)" for a
  proof -
    have "accounted ca_authors a a (m1, r1)"
      unfolding 1 [symmetric] by (rule fold_establishes [where P = "accounted ca_authors a a", OF _ _ a]) (auto intro: case_a_author_accounts)
    then have "accounted ca_authors a a (m2, r2)" unfolding 2 [symmetric] using fold_keeps case_a_address_accounts(1) by metis
    moreover have "covered ca_authors a m2 \<or> l \<Longrightarrow> covered ca_authors a m3"
      using hint_fold_covers [where F = ca_authors and x = a and f = "case_a_hint ?s" and m = m2 and l = False and hs = "li_hints i"]
        case_a_hint_covers [where F = ca_authors and x = a and s = ?s, OF touches_add(5) touches_place(5) [OF a]] 3 by auto
    ultimately have "covered ca_authors a m3 \<or> \<not> l \<and> a \<in> set (rt_unroutable r2)" by (auto simp: accounted_def)
    then show ?thesis
      using asked_emit [where F = ca_authors and x = a and m = m3 and mk = ?mk and p = a] by (auto simp: asks_for_def case_a_entry_of_def)
  qed
  have coord: "asked ?e (nc_pubkey x) \<or> \<not> l \<and> nc_pubkey x \<in> set (rt_unroutable r2)" if x: "x \<in> set (sh_addresses ?s)" for x
  proof -
    have "accounted ca_addresses x (nc_pubkey x) (m2, r2)"
      unfolding 2 [symmetric] by (rule fold_establishes [where P = "accounted ca_addresses x (nc_pubkey x)", OF _ _ x]) (auto intro: case_a_address_accounts)
    moreover have "covered ca_addresses x m2 \<or> l \<Longrightarrow> covered ca_addresses x m3"
      using hint_fold_covers [where F = ca_addresses and x = x and f = "case_a_hint ?s" and m = m2 and l = False and hs = "li_hints i"]
        case_a_hint_covers [where F = ca_addresses and x = x and s = ?s, OF touches_add(10) touches_place(6) [OF x]] 3 by auto
    ultimately have "covered ca_addresses x m3 \<or> \<not> l \<and> nc_pubkey x \<in> set (rt_unroutable r2)" by (auto simp: accounted_def)
    then show ?thesis
      using asked_emit [where F = ca_addresses and x = x and m = m3 and mk = ?mk and p = "nc_pubkey x"]
      by (auto simp: asks_for_def case_a_entry_of_def)
  qed
  have r': "r' = (if p_tags i \<noteq> []
      then route_p_tags_to_inbox (p_tags i) (sh_authors ?s) (base_shape_of ?s) (li_lifecycle i) (li_id i) cache ?e else ?e)"
    by (simp add: assms case_a_route_def 1 2 3 Let_def)
  have up: "asked ?e q \<Longrightarrow> asked r' q" for q
    using asked_mono [OF grows_p_tags [of "p_tags i" i "sh_authors ?s" cache cfg ?e]] r' by auto
  have un: "set (rt_unroutable r') = (if l then set (rt_unroutable r2) - outbox_keys i else set (rt_unroutable r2))"
    by (auto simp: r' unroutable_marks outbox_keys_def)
  show key: "asked r' p \<or> p \<in> set (rt_unroutable r')" if "p \<in> outbox_keys i" for p
    using that author coord up by (auto simp: outbox_keys_def un)
  assume p: "p \<in> set (rt_unroutable r)"
  have "p \<in> set (rt_unroutable (snd (m1, r1)))" unfolding 1 [symmetric]
    using fold_keeps [where P = "\<lambda>s. p \<in> set (rt_unroutable (snd s))" and s = "([], r)"] marks_accumulate(1) p by (metis snd_conv)
  then have "p \<in> set (rt_unroutable (snd (m2, r2)))" unfolding 2 [symmetric]
    using fold_keeps [where P = "\<lambda>s. p \<in> set (rt_unroutable (snd s))" and s = "(m1, r1)"] marks_accumulate(2) by (metis snd_conv)
  then show "asked r' p \<or> p \<in> set (rt_unroutable r')"
    using key [of p] by (cases "p \<in> outbox_keys i") (auto simp: un)
qed

lemma case_b_accounts:
  assumes "r' = case_b_route i (base_shape_of (li_shape i)) cache cfg r"
  shows "p \<in> nc_pubkey ` set (sh_addresses (li_shape i)) \<Longrightarrow> asked r' p \<or> p \<in> set (rt_unroutable r')"
    and "p \<in> set (rt_unroutable r) \<Longrightarrow> asked r' p \<or> p \<in> set (rt_unroutable r')"
proof -
  let ?s = "li_shape i" and ?mk = "\<lambda>(addrs, sources). plain_entry i (base_shape_of (li_shape i)) addrs sources"
  obtain m1 r1 where 1: "fold (case_b_address cache cfg) (sh_addresses ?s) ([], r) = (m1, r1)" by (rule prod.exhaust)
  obtain m2 l where 2: "fold (case_b_hint ?s) (li_hints i) (m1, False) = (m2, l)" by (rule prod.exhaust)
  have r': "r' = emit_entries ?mk m2 (if l then fold (\<lambda>c. mark_routable (nc_pubkey c)) (sh_addresses ?s) r1 else r1)"
    by (simp add: assms case_b_route_def 1 2 Let_def)
  have un: "set (rt_unroutable r') = (if l then set (rt_unroutable r1) - nc_pubkey ` set (sh_addresses ?s) else set (rt_unroutable r1))"
    by (simp add: r' unroutable_marks)
  show key: "asked r' p \<or> p \<in> set (rt_unroutable r')" if key: "p \<in> nc_pubkey ` set (sh_addresses ?s)" for p
  proof -
    obtain x where x: "x \<in> set (sh_addresses ?s)" "p = nc_pubkey x" using key by blast
    have "accounted fst x (nc_pubkey x) (m1, r1)"
      unfolding 1 [symmetric]
      by (rule fold_establishes [where P = "accounted fst x (nc_pubkey x)", OF _ _ x(1)]) (auto intro: case_b_address_accounts)
    moreover have "covered fst x m1 \<or> l \<Longrightarrow> covered fst x m2"
      using hint_fold_covers [where F = fst and x = x and f = "case_b_hint ?s" and m = m1 and l = False and hs = "li_hints i"]
        case_b_hint_covers [OF x(1)] 2 by auto
    ultimately have "covered fst x m2 \<or> \<not> l \<and> p \<in> set (rt_unroutable r1)" by (auto simp: accounted_def x(2))
    moreover have "asks_for (?mk e) p" if "x \<in> set (fst e)" for e
      using that by (cases e) (simp add: asks_for_def plain_entry_def x(2))
    then have "asked r' p" if "covered fst x m2" unfolding r' by (rule asked_emit [OF that])
    ultimately show ?thesis by (auto simp: un)
  qed
  assume p: "p \<in> set (rt_unroutable r)"
  have "p \<in> set (rt_unroutable (snd (m1, r1)))" unfolding 1 [symmetric]
    using fold_keeps [where P = "\<lambda>s. p \<in> set (rt_unroutable (snd s))" and s = "([], r)"] marks_accumulate(3) p by (metis snd_conv)
  then show "asked r' p \<or> p \<in> set (rt_unroutable r')"
    using key [of p] by (cases "p \<in> nc_pubkey ` set (sh_addresses ?s)") (auto simp: un)
qed

definition key_accounted :: "routing \<Rightarrow> pubkey \<Rightarrow> bool" where
  "key_accounted r p \<longleftrightarrow> asked r p \<or> p \<in> set (rt_unroutable r)"

lemma unroutable_probes [simp]: "rt_unroutable (fold request_probe ps r) = rt_unroutable r"
  by (induction ps arbitrary: r) auto

lemma partition_accounts:
  "p \<in> outbox_keys i \<Longrightarrow> key_accounted (partition_interest cache cfg i r) p"
  "key_accounted r p \<Longrightarrow> key_accounted (partition_interest cache cfg i r) p"
proof -
  let ?s = "li_shape i"
  let ?r' = "partition_interest cache cfg i r"
  have case_a: "?r' = case_a_route i (p_tags i) (base_shape_of ?s) cache cfg r" if "sh_relay_pin ?s = None" "sh_authors ?s \<noteq> []"
    using that by (simp add: partition_interest_def Let_def p_tags_def)
  have case_b: "?r' = case_b_route i (base_shape_of ?s) cache cfg r"
    if "sh_relay_pin ?s = None" "sh_authors ?s = []" "sh_addresses ?s \<noteq> []"
    using that by (simp add: partition_interest_def Let_def)
  show "key_accounted ?r' p" if p: "p \<in> outbox_keys i"
  proof (cases "sh_relay_pin ?s")
    case (Some pin)
    let ?e = "\<lparr>re_base_shape = (base_shape_of ?s)\<lparr>sh_relay_pin := Some pin\<rparr>, re_authors = sh_authors ?s,
        re_addresses = sh_addresses ?s, re_lifecycle = li_lifecycle i, re_sources = [UserConfigured Debug],
        re_interest_id = li_id i, re_attribution = attribution_default\<rparr>"
    have "?e \<in> set (entries_at ?r' pin)" by (simp add: partition_interest_def Some Let_def case_e_route_def entries_at_push)
    moreover have "asks_for ?e p" using p by (simp add: asks_for_def outbox_keys_def)
    ultimately show ?thesis unfolding key_accounted_def asked_def by blast
  next
    case None
    show ?thesis
    proof (cases "sh_authors ?s = []")
      case True
      then have k: "p \<in> nc_pubkey ` set (sh_addresses ?s)" using p by (simp add: outbox_keys_def)
      then have "sh_addresses ?s \<noteq> []" by auto
      then show ?thesis using case_b_accounts(1) [OF case_b [OF None True] k] by (simp add: key_accounted_def)
    next
      case False
      then show ?thesis using case_a_accounts(1) [OF case_a [OF None False] p] by (simp add: key_accounted_def)
    qed
  qed
  show "key_accounted ?r' p" if p: "key_accounted r p"
  proof (cases "asked r p")
    case True
    then show ?thesis using asked_mono [OF grows_partition] by (simp add: key_accounted_def)
  next
    case False
    then have un: "p \<in> set (rt_unroutable r)" using p by (simp add: key_accounted_def)
    consider (a) "sh_relay_pin ?s = None" "sh_authors ?s \<noteq> []"
      | (b) "sh_relay_pin ?s = None" "sh_authors ?s = []" "sh_addresses ?s \<noteq> []"
      | (c) "sh_relay_pin ?s \<noteq> None \<or> sh_authors ?s = [] \<and> sh_addresses ?s = []" by blast
    then show ?thesis
    proof cases
      case a
      show ?thesis using case_a_accounts(2) [OF case_a [OF a] un] by (simp add: key_accounted_def)
    next
      case b
      show ?thesis using case_b_accounts(2) [OF case_b [OF b] un] by (simp add: key_accounted_def)
    next
      case c
      have "rt_unroutable ?r' = rt_unroutable r"
        using c by (auto simp: partition_interest_def Let_def case_e_route_def case_c_route_def route_bootstrap_content_inbox_def
            route_hints_def route_bootstrap_content_def case_d_route_def split: option.splits)
      then show ?thesis using un by (simp add: key_accounted_def)
    qed
  qed
qed

section \<open>Direct messages\<close>

text \<open>The gift-wrap inbox interest: tagged keys only, over their direct-message relays.\<close>

definition dm_inbox :: "logical_interest \<Rightarrow> bool" where
  "dm_inbox i \<longleftrightarrow> sh_p_tag_routing (li_shape i) = Nip17DmRelays \<and> sh_relay_pin (li_shape i) = None \<and>
     sh_authors (li_shape i) = [] \<and> sh_addresses (li_shape i) = [] \<and> p_tags i \<noteq> []"

text \<open>Every tagged key of a shape lists the relay for its direct messages.\<close>

definition dm_at :: "mailbox_cache \<Rightarrow> relay \<Rightarrow> interest_shape \<Rightarrow> bool" where
  "dm_at cache url s \<longleftrightarrow>
     (case map_of (sh_tags s) ''p'' of
        None \<Rightarrow> False
      | Some ps \<Rightarrow> ps \<noteq> [] \<and>
          list_all (\<lambda>p. case mc_dm_inbox_relays cache p of Some rs \<Rightarrow> url \<in> set rs | None \<Rightarrow> False) ps)"

lemma grows_dm:
  assumes "dm_inbox i" and "bm_wf (sh_tags (li_shape i))"
  shows "grows (\<lambda>url e. dm_at cache url (re_base_shape e) \<and> bm_wf (sh_tags (re_base_shape e)) \<and> re_authors e = [] \<and> re_addresses e = []) r (partition_interest cache cfg i r)"
proof -
  let ?P = "\<lambda>url e. dm_at cache url (re_base_shape e) \<and> bm_wf (sh_tags (re_base_shape e)) \<and> re_authors e = [] \<and> re_addresses e = []"
  let ?b = "base_shape_of (li_shape i)"
  have "grows ?P r (route_p_tag [] ?b (li_lifecycle i) (li_id i) cache p r)" for p r
  proof (cases "inbox_targets cache Nip17DmRelays p")
    case None
    then show ?thesis using assms by (simp add: route_p_tag_def dm_inbox_def grows_refl)
  next
    case (Some rs)
    obtain relays src where rs: "rs = (relays, src)" by (cases rs)
    then have dm: "mc_dm_inbox_relays cache p = Some relays" using inbox_targets_Some [of cache Nip17DmRelays p] Some by simp
    have "grows ?P r (push_entry relay \<lparr>re_base_shape = ?b\<lparr>sh_tags := bm_insert ''p'' [p] (sh_tags ?b)\<rparr>, re_authors = [],
        re_addresses = [], re_lifecycle = li_lifecycle i, re_sources = [src], re_interest_id = li_id i,
        re_attribution = attribution_default\<rparr> r)" if "relay \<in> set relays" for relay r
      using that dm assms(2) by (intro grows_push) (simp add: dm_at_def btree_map.get_put bm_wf_insert)
    then show ?thesis
      using assms by (simp add: route_p_tag_def dm_inbox_def Some rs Let_def grows_fold)
  qed
  then have "grows ?P r (case_c_route (p_tags i) ?b (li_lifecycle i) (li_id i) cache r)"
    unfolding case_c_route_def route_p_tags_to_inbox_def by (intro grows_fold)
  then show ?thesis
    using assms by (simp add: partition_interest_def dm_inbox_def p_tags_def is_bootstrap_inbox_eligible_def Let_def)
qed

section \<open>Locality\<close>

definition caches_agree :: "mailbox_cache \<Rightarrow> mailbox_cache \<Rightarrow> logical_interest \<Rightarrow> bool" where
  "caches_agree cache cache' i \<longleftrightarrow>
     (\<forall>p \<in> outbox_keys i \<union> set (p_tags i). mc_get cache p = mc_get cache' p) \<and>
     (sh_p_tag_routing (li_shape i) = Nip17DmRelays \<longrightarrow> (\<forall>p \<in> set (p_tags i). mc_dm_inbox_relays cache p = mc_dm_inbox_relays cache' p))"

lemma partition_local:
  assumes "caches_agree cache cache' i"
  shows "partition_interest cache cfg i r = partition_interest cache' cfg i r"
proof -
  let ?s = "li_shape i" and ?b = "base_shape_of (li_shape i)"
  have get: "mc_get cache a = mc_get cache' a" if "a \<in> outbox_keys i \<union> set (p_tags i)" for a
    using assms that by (simp add: caches_agree_def)
  have "inbox_targets cache (sh_p_tag_routing ?s) p = inbox_targets cache' (sh_p_tag_routing ?s) p" if "p \<in> set (p_tags i)" for p
    using assms that by (cases "sh_p_tag_routing ?s") (auto simp: inbox_targets_def caches_agree_def)
  then have inbox: "route_p_tags_to_inbox (p_tags i) as ?b (li_lifecycle i) (li_id i) cache r =
      route_p_tags_to_inbox (p_tags i) as ?b (li_lifecycle i) (li_id i) cache' r" for as r
    unfolding route_p_tags_to_inbox_def by (intro fold_cong) (auto simp: route_p_tag_def)
  have authors: "fold (case_a_author i cache cfg) (sh_authors ?s) st = fold (case_a_author i cache' cfg) (sh_authors ?s) st" for st
    by (intro fold_cong) (auto simp: case_a_author_def get outbox_keys_def)
  have coords: "fold (case_a_address cache cfg) (sh_addresses ?s) st = fold (case_a_address cache' cfg) (sh_addresses ?s) st" for st
    by (intro fold_cong) (auto simp: case_a_address_def get outbox_keys_def)
  have bs: "fold (case_b_address cache cfg) (sh_addresses ?s) st = fold (case_b_address cache' cfg) (sh_addresses ?s) st" for st
    by (intro fold_cong) (auto simp: case_b_address_def get outbox_keys_def)
  have "case_a_route i (p_tags i) ?b cache cfg r = case_a_route i (p_tags i) ?b cache' cfg r"
    unfolding case_a_route_def Let_def authors coords inbox by (rule refl)
  moreover have "case_b_route i ?b cache cfg r = case_b_route i ?b cache' cfg r"
    by (simp add: case_b_route_def bs)
  moreover have "every_tagged_pubkey_lacks_nip65_inbox (p_tags i) cache = every_tagged_pubkey_lacks_nip65_inbox (p_tags i) cache'"
    unfolding every_tagged_pubkey_lacks_nip65_inbox_def by (intro list.pred_cong) (auto simp: get)
  ultimately show ?thesis
    using inbox by (auto simp: partition_interest_def Let_def p_tags_def case_c_route_def is_bootstrap_inbox_eligible_def split: option.split)
qed

end
