(* ===== verification/Planner_Compile.thy ===== *)
theory Planner_Compile
  imports Planner_Lattice Planner_Routing
begin

text \<open>
  Stages 3 and 4 of the subscription compiler (\<open>nmp-planner/src/compiler/mod.rs\<close> and \<open>plan_id.rs\<close>):
  the first-fit merge of a relay's entries into sub-shapes, the plan, and the content-addressed plan
  id. The theorems are about whole plans: what justifies a relay's presence, that no key is lost,
  where direct-message filters go, and what a plan depends on.
\<close>

section \<open>Canonical order\<close>

type_synonym canonical_merge_key =
  "nat \<times> u32 list \<times> u64 option \<times> u64 option \<times> u32 option \<times> string list \<times>
   (string \<times> string list) list \<times> string list \<times> naddr_coord list \<times> string option \<times> nat"

definition canonical_merge_key :: "interest_shape \<Rightarrow> interest_lifecycle \<Rightarrow> canonical_merge_key" where
  "canonical_merge_key shape lifecycle =
     ((case lifecycle of Tailing \<Rightarrow> 0 | OneShot \<Rightarrow> 1), sh_kinds shape, sh_since shape, sh_until shape, sh_limit shape,
      sh_authors shape, sh_tags shape, sh_event_ids shape, sh_addresses shape, sh_relay_pin shape,
      (case sh_p_tag_routing shape of Nip65ReadRelays \<Rightarrow> 0 | Nip17DmRelays \<Rightarrow> 1))"

section \<open>The merge of a relay's entries\<close>

type_synonym shaped = "interest_shape \<times> interest_lifecycle \<times> routing_source list \<times> interest_id \<times> relay_attribution"

type_synonym sub_acc = "(interest_shape \<times> interest_lifecycle \<times> interest_id list) list"

definition add_id :: "interest_id \<Rightarrow> interest_id list \<Rightarrow> interest_id list" where
  "add_id interest_id existing_ids =
     (if interest_id \<in> set existing_ids then existing_ids else existing_ids @ [interest_id])"

lemma set_add_id [simp]: "set (add_id n ids) = insert n (set ids)"
  by (auto simp: add_id_def)

text \<open>The inner loop with its \<open>break\<close>: the first existing sub-shape that accepts the entry.\<close>

fun first_fit :: "interest_shape \<Rightarrow> interest_lifecycle \<Rightarrow> interest_id \<Rightarrow> sub_acc \<Rightarrow> sub_acc \<times> bool" where
  "first_fit shape lifecycle interest_id [] = ([], False)"
| "first_fit shape lifecycle interest_id ((existing_shape, existing_lifecycle, existing_ids) # rest) =
     (case lattice_merge existing_shape shape existing_lifecycle lifecycle of
        Merged new_shape \<Rightarrow>
          ((new_shape, existing_lifecycle, add_id interest_id existing_ids) # rest, True)
      | Refused \<Rightarrow>
          let (rest', merged) = first_fit shape lifecycle interest_id rest
          in ((existing_shape, existing_lifecycle, existing_ids) # rest', merged))"

definition merge_attribution :: "relay_attribution \<Rightarrow> relay_attribution \<Rightarrow> relay_attribution" where
  "merge_attribution a e = \<lparr>ra_user_configured = bs_extend (ra_user_configured a) (ra_user_configured e),
     ra_outbox_authors = bs_extend (ra_outbox_authors a) (ra_outbox_authors e),
     ra_hints = bs_extend (ra_hints a) (ra_hints e), ra_interests = ra_interests a @ ra_interests e\<rparr>"

definition merge_entry ::
  "shaped \<Rightarrow> routing_source list \<times> relay_attribution \<times> sub_acc \<Rightarrow> routing_source list \<times> relay_attribution \<times> sub_acc" where
  "merge_entry sh acc =
     (let (shape, lifecycle, entry_sources, interest_id, entry_attribution) = sh;
          (role_tags, attribution, sub_shapes) = acc;
          (sub_shapes, merged) = first_fit shape lifecycle interest_id sub_shapes
      in (bs_extend role_tags entry_sources, merge_attribution attribution entry_attribution,
          if merged then sub_shapes else sub_shapes @ [(shape, lifecycle, [interest_id])]))"

definition canonical_sort :: "shaped list \<Rightarrow> shaped list" where
  "canonical_sort shaped = sort_key (\<lambda>(shape, lifecycle, _). canonical_merge_key shape lifecycle) shaped"

definition relay_plan_of :: "(interest_shape \<Rightarrow> string option) \<Rightarrow> relay \<Rightarrow> relay_entry list \<Rightarrow> relay_plan" where
  "relay_plan_of to_json relay_url entries =
     (let shaped = canonical_sort (map into_shape entries);
          (role_tags, attribution, sub_shapes) = fold merge_entry shaped ([], attribution_default, [])
      in \<lparr>rp_relay_url = relay_url, rp_role_tags = role_tags,
          rp_sub_shapes = map (\<lambda>(shape, _, ids). \<lparr>ss_shape = shape, ss_originating_interests = ids,
            ss_canonical_filter_hash = canonical_filter_hash to_json shape\<rparr>) sub_shapes,
          rp_attribution = attribution\<rparr>)"

section \<open>The plan id\<close>

record compile_context =
  cc_indexer_set_version :: u64
  cc_user_config_version :: u64

definition context_default :: compile_context where
  "context_default = \<lparr>cc_indexer_set_version = 0, cc_user_config_version = 0\<rparr>"

definition fnv_new :: "64 word" where
  "fnv_new = 0xcbf29ce484222325"

definition feed_bytes :: "bytes \<Rightarrow> 64 word \<Rightarrow> 64 word" where
  "feed_bytes bs h = fold (\<lambda>b h. (h XOR ucast b) * 0x100000001b3) bs h"

definition to_le_bytes :: "u64 \<Rightarrow> bytes" where
  "to_le_bytes v = map (\<lambda>i. word_of_nat (v div 256 ^ i)) [0..<8]"

definition feed_u64 :: "u64 \<Rightarrow> 64 word \<Rightarrow> 64 word" where
  "feed_u64 v h = feed_bytes (to_le_bytes v) h"

definition referenced_pubkeys :: "logical_interest list \<Rightarrow> pubkey list" where
  "referenced_pubkeys interests =
     fold (\<lambda>interest pks.
       let pks = bs_extend pks (sh_authors (li_shape interest));
           pks = fold (\<lambda>coord. bs_insert (nc_pubkey coord)) (sh_addresses (li_shape interest)) pks
       in case map_of (sh_tags (li_shape interest)) ''p'' of
            Some p_values \<Rightarrow> bs_extend pks p_values
          | None \<Rightarrow> pks) interests []"

definition dm_relay_referenced_pubkeys :: "logical_interest list \<Rightarrow> pubkey list" where
  "dm_relay_referenced_pubkeys interests =
     fold (\<lambda>interest pks.
       if sh_p_tag_routing (li_shape interest) \<noteq> Nip17DmRelays then pks
       else
         case map_of (sh_tags (li_shape interest)) ''p'' of
           Some p_values \<Rightarrow> bs_extend pks p_values
         | None \<Rightarrow> pks) interests []"

definition feed_interest :: "(interest_shape \<Rightarrow> string option) \<Rightarrow> logical_interest \<Rightarrow> 64 word \<Rightarrow> 64 word" where
  "feed_interest to_json interest h =
     (let h = feed_u64 (iid (li_id interest)) h;
          h = (case to_json (li_shape interest) of Some shape_json \<Rightarrow> feed_bytes (str_bytes shape_json) h | None \<Rightarrow> h);
          h = feed_bytes [plan_hash_tag (sh_p_tag_routing (li_shape interest))] h;
          (h, scope_tag) =
            (case li_scope interest of
               ActiveAccount \<Rightarrow> (h, 0)
             | Account acct \<Rightarrow> (feed_bytes (str_bytes acct) h, 1)
             | Global \<Rightarrow> (h, 2));
          h = feed_bytes [scope_tag] h
      in feed_bytes [case li_lifecycle interest of Tailing \<Rightarrow> 0 | OneShot \<Rightarrow> 1] h)"

definition feed_relays :: "relay list \<Rightarrow> 64 word \<Rightarrow> 64 word" where
  "feed_relays relays h = fold (\<lambda>r. feed_bytes (str_bytes r)) (sort relays) h"

definition feed_mailbox :: "mailbox_cache \<Rightarrow> pubkey list \<Rightarrow> pubkey \<Rightarrow> 64 word \<Rightarrow> 64 word" where
  "feed_mailbox cache dm_ref_pks pk h =
     (let h = (case mc_get cache pk of
                 Some mb \<Rightarrow> feed_relays (mb_both_relays mb) (feed_relays (mb_read_relays mb)
                   (feed_relays (mb_write_relays mb) (feed_bytes (str_bytes pk) h)))
               | None \<Rightarrow> h)
      in if pk \<in> set dm_ref_pks then
           (case mc_dm_inbox_relays cache pk of
              Some dm \<Rightarrow> feed_relays dm (feed_bytes (str_bytes ''dm-relays'') h)
            | None \<Rightarrow> h)
         else h)"

definition compute_plan_id ::
  "(interest_shape \<Rightarrow> string option) \<Rightarrow> logical_interest list \<Rightarrow> mailbox_cache \<Rightarrow> compile_context \<Rightarrow> byte \<Rightarrow> string" where
  "compute_plan_id to_json interests cache ctx lattice_version =
     (let h = fold (feed_interest to_json) (sort_key (\<lambda>i. iid (li_id i)) interests) fnv_new;
          h = fold (feed_mailbox cache (dm_relay_referenced_pubkeys interests)) (referenced_pubkeys interests) h;
          h = feed_u64 (cc_indexer_set_version ctx) h;
          h = feed_u64 (cc_user_config_version ctx) h
      in hex16 (feed_bytes [lattice_version] h))"

section \<open>The compiler\<close>

record subscription_compiler =
  sc_mailbox_cache :: mailbox_cache
  sc_indexer_relays :: "relay list"
  sc_active_account_read_relays :: "relay list"
  sc_app_relays :: "relay list"
  sc_bootstrap_content_relays :: "relay list"
  sc_bootstrap_indexer_relays :: "relay list"

definition with_relays_and_bootstrap ::
  "mailbox_cache \<Rightarrow> relay list \<Rightarrow> relay list \<Rightarrow> relay list \<Rightarrow> relay list \<Rightarrow> relay list \<Rightarrow> subscription_compiler" where
  "with_relays_and_bootstrap cache indexer account_read app bootstrap_content bootstrap_indexer =
     \<lparr>sc_mailbox_cache = cache, sc_indexer_relays = indexer, sc_active_account_read_relays = account_read,
      sc_app_relays = app, sc_bootstrap_content_relays = bootstrap_content, sc_bootstrap_indexer_relays = bootstrap_indexer\<rparr>"

definition with_relays :: "mailbox_cache \<Rightarrow> relay list \<Rightarrow> relay list \<Rightarrow> relay list \<Rightarrow> subscription_compiler" where
  "with_relays cache indexer account_read app = with_relays_and_bootstrap cache indexer account_read app [] []"

definition with_active_account_read_relays :: "mailbox_cache \<Rightarrow> relay list \<Rightarrow> relay list \<Rightarrow> subscription_compiler" where
  "with_active_account_read_relays cache indexer account_read = with_relays cache indexer account_read []"

definition compiler_new :: "mailbox_cache \<Rightarrow> relay list \<Rightarrow> subscription_compiler" where
  "compiler_new cache indexer = with_active_account_read_relays cache indexer []"

definition MERGE_LATTICE_VERSION :: byte where
  "MERGE_LATTICE_VERSION = 1"

definition active_pinned_relays :: "logical_interest list \<Rightarrow> relay list" where
  "active_pinned_relays interests = bs_of_list (List.map_filter (\<lambda>i. sh_relay_pin (li_shape i)) interests)"

definition config_of :: "subscription_compiler \<Rightarrow> logical_interest list \<Rightarrow> relay_config" where
  "config_of c interests = \<lparr>rc_indexer = sc_indexer_relays c, rc_account_read = sc_active_account_read_relays c,
     rc_app = sc_app_relays c, rc_bootstrap_content = sc_bootstrap_content_relays c,
     rc_bootstrap_indexer = sc_bootstrap_indexer_relays c, rc_active_pinned = active_pinned_relays interests\<rparr>"

definition partition_all :: "subscription_compiler \<Rightarrow> logical_interest list \<Rightarrow> routing" where
  "partition_all c interests =
     fold (partition_interest (sc_mailbox_cache c) (config_of c interests)) interests routing_new"

text \<open>The result with the probes the compile asked for.\<close>

definition compile_with_context ::
  "(interest_shape \<Rightarrow> string option) \<Rightarrow> subscription_compiler \<Rightarrow> logical_interest list \<Rightarrow> compile_context \<Rightarrow>
   (planner_error + compiled_plan) \<times> pubkey list" where
  "compile_with_context to_json c interests ctx =
     (let r = partition_all c interests;
          per_relay = fold (\<lambda>(relay_url, entries). bm_insert relay_url (relay_plan_of to_json relay_url entries)) (rt_entries r) [];
          plan_id = compute_plan_id to_json interests (sc_mailbox_cache c) ctx MERGE_LATTICE_VERSION
      in (Inr \<lparr>cp_plan_id = plan_id, cp_per_relay = per_relay, cp_unroutable_authors = rt_unroutable r\<rparr>, rt_probes r))"

definition compile ::
  "(interest_shape \<Rightarrow> string option) \<Rightarrow> subscription_compiler \<Rightarrow> logical_interest list \<Rightarrow>
   (planner_error + compiled_plan) \<times> pubkey list" where
  "compile to_json c interests = compile_with_context to_json c interests context_default"

section \<open>What the merge does to one relay\<close>

lemma lattice_merge_fields:
  assumes "lattice_merge a b la lb = Merged c"
  shows "la = lb" "set (sh_authors c) = set (sh_authors a) \<union> set (sh_authors b)"
    "set (sh_addresses c) = set (sh_addresses a) \<union> set (sh_addresses b)"
    "set (sh_event_ids c) = set (sh_event_ids a) \<union> set (sh_event_ids b)"
    "sh_relay_pin c = sh_relay_pin a" "sh_relay_pin c = sh_relay_pin b"
    "sh_p_tag_routing c = sh_p_tag_routing a" "sh_p_tag_routing c = sh_p_tag_routing b"
    "rule2_tags a b DEFAULT_VALUE_LIMIT = Some (sh_tags c)"
  using assms
  by (auto simp: lattice_merge_def or_refused_Merged rule6_lifecycle_def rule9_relay_pin_def rule7_event_ids_def
      rule8_addresses_def Let_def split: if_splits)

text \<open>An entry is absorbed when a sub-shape of its lifecycle carries its id and asks for all it asks for.\<close>

fun takes_in :: "interest_shape \<Rightarrow> interest_lifecycle \<Rightarrow> interest_id \<Rightarrow> interest_shape \<times> interest_lifecycle \<times> interest_id list \<Rightarrow> bool" where
  "takes_in shape lc n (s, l, ids) \<longleftrightarrow> l = lc \<and> n \<in> set ids \<and>
     set (sh_authors shape) \<subseteq> set (sh_authors s) \<and> set (sh_addresses shape) \<subseteq> set (sh_addresses s) \<and>
     set (sh_event_ids shape) \<subseteq> set (sh_event_ids s) \<and> sh_relay_pin s = sh_relay_pin shape \<and>
     sh_p_tag_routing s = sh_p_tag_routing shape"

definition absorbed :: "interest_shape \<Rightarrow> interest_lifecycle \<Rightarrow> interest_id \<Rightarrow> sub_acc \<Rightarrow> bool" where
  "absorbed shape lc n subs \<longleftrightarrow> (\<exists>t \<in> set subs. takes_in shape lc n t)"

lemma absorbed_simps [simp]:
  "\<not> absorbed shape lc n []"
  "absorbed shape lc n (t # ts) \<longleftrightarrow> takes_in shape lc n t \<or> absorbed shape lc n ts"
  "absorbed shape lc n (ts @ us) \<longleftrightarrow> absorbed shape lc n ts \<or> absorbed shape lc n us"
  by (auto simp: absorbed_def)

lemma takes_in_merged:
  assumes "lattice_merge es shape el lc = Merged c"
  shows "takes_in shape lc n (c, el, add_id n ids)"
    and "takes_in s0 lc0 n0 (es, el, ids) \<Longrightarrow> takes_in s0 lc0 n0 (c, el, add_id n ids)"
  using lattice_merge_fields [OF assms] by auto

lemma first_fit_absorbs:
  "snd (first_fit shape lc n subs) \<Longrightarrow> absorbed shape lc n (fst (first_fit shape lc n subs))"
  by (induction shape lc n subs rule: first_fit.induct)
    (auto simp del: takes_in.simps split: merge_outcome.splits prod.splits intro: takes_in_merged(1))

lemma first_fit_keeps:
  "absorbed s0 lc0 n0 subs \<Longrightarrow> absorbed s0 lc0 n0 (fst (first_fit shape lc n subs))"
  by (induction shape lc n subs rule: first_fit.induct)
    (auto simp del: takes_in.simps split: merge_outcome.splits prod.splits intro: takes_in_merged(2))

text \<open>An invariant of sub-shapes that merging preserves.\<close>

lemma first_fit_inv:
  assumes "list_all I subs"
    and "\<And>s l ids c. I (s, l, ids) \<Longrightarrow> lattice_merge s shape l lc = Merged c \<Longrightarrow>
      I (c, l, add_id n ids)"
  shows "list_all I (fst (first_fit shape lc n subs))"
  using assms
  by (induction shape lc n subs rule: first_fit.induct) (auto split: merge_outcome.splits prod.splits)

definition acc_subs :: "routing_source list \<times> relay_attribution \<times> sub_acc \<Rightarrow> sub_acc" where
  "acc_subs acc = snd (snd acc)"

lemma merge_entry_subs:
  "acc_subs (merge_entry (shape, lc, src, n, att) acc) =
     (case first_fit shape lc n (acc_subs acc) of
        (subs, merged) \<Rightarrow> if merged then subs else subs @ [(shape, lc, [n])])"
  "set (fst (merge_entry (shape, lc, src, n, att) acc)) = set (fst acc) \<union> set src"
  by (cases acc; auto simp: merge_entry_def acc_subs_def Let_def split: prod.splits)+

lemma fold_merge_entry_tags:
  "set (fst (fold merge_entry xs acc)) = set (fst acc) \<union> (\<Union>(_, _, src, _) \<in> set xs. set src)"
proof (induction xs arbitrary: acc)
  case (Cons x xs)
  then show ?case by (cases x) (auto simp: merge_entry_subs)
qed simp

lemma fold_merge_entry_absorbs:
  "absorbed shape lc n (acc_subs acc) \<or> (\<exists>src att. (shape, lc, src, n, att) \<in> set xs) \<Longrightarrow>
   absorbed shape lc n (acc_subs (fold merge_entry xs acc))"
proof (induction xs arbitrary: acc)
  case (Cons x xs)
  obtain s l src m att where x: "x = (s, l, src, m, att)" by (cases x)
  obtain subs merged where ff: "first_fit s l m (acc_subs acc) = (subs, merged)" by (cases "first_fit s l m (acc_subs acc)")
  have old: "absorbed shape lc n (acc_subs (merge_entry x acc))" if "absorbed shape lc n (acc_subs acc)"
    using first_fit_keeps [OF that, of s l m] by (auto simp: x merge_entry_subs ff)
  have new: "absorbed s l m (acc_subs (merge_entry x acc))"
    using first_fit_absorbs [of s l m "acc_subs acc"] by (auto simp: x merge_entry_subs ff)
  from Cons.prems have "absorbed shape lc n (acc_subs (merge_entry x acc)) \<or> (\<exists>src att. (shape, lc, src, n, att) \<in> set xs)"
    using old new by (auto simp: x)
  then show ?case using Cons.IH by simp
qed simp

lemma fold_merge_entry_inv:
  assumes "list_all I (acc_subs acc)"
    and "\<And>shape lc src n att. (shape, lc, src, n, att) \<in> set xs \<Longrightarrow> I (shape, lc, [n])"
    and "\<And>shape lc src n att s l ids c. (shape, lc, src, n, att) \<in> set xs \<Longrightarrow> I (s, l, ids) \<Longrightarrow>
      lattice_merge s shape l lc = Merged c \<Longrightarrow> I (c, l, add_id n ids)"
  shows "list_all I (acc_subs (fold merge_entry xs acc))"
  using assms
proof (induction xs arbitrary: acc)
  case (Cons x xs)
  obtain s l src m att where x: "x = (s, l, src, m, att)" by (cases x)
  have mem: "(s, l, src, m, att) \<in> set (x # xs)" by (simp add: x)
  have "list_all I (fst (first_fit s l m (acc_subs acc)))"
    by (rule first_fit_inv [OF Cons.prems(1)]) (rule Cons.prems(3) [OF mem])
  then have "list_all I (acc_subs (merge_entry x acc))"
    using Cons.prems(2) [OF mem] by (auto simp: x merge_entry_subs split: prod.splits)
  then have "list_all I (acc_subs (fold merge_entry xs (merge_entry x acc)))"
    by (rule Cons.IH) (rule Cons.prems(2) Cons.prems(3), rule list.set_intros(2), assumption+)+
  then show ?case by simp
qed simp

section \<open>From entries to plans\<close>

lemma fold_bm_insert_map:
  assumes "bm_wf (m @ n)"
  shows "fold (\<lambda>(k, v). bm_insert k (f k v)) n (map (\<lambda>(k, v). (k, f k v)) m) = map (\<lambda>(k, v). (k, f k v)) (m @ n)"
  using assms
proof (induction n arbitrary: m)
  case (Cons kv n)
  obtain k v where kv: "kv = (k, v)" by (cases kv)
  have "\<forall>a \<in> hm_keys (map (\<lambda>(k, v). (k, f k v)) m). a < k"
    using Cons.prems by (force simp: kv hm_keys_def sorted_wrt_append)
  then have "bm_insert k (f k v) (map (\<lambda>(k, v). (k, f k v)) m) = map (\<lambda>(k, v). (k, f k v)) (m @ [kv])"
    using bm_insert_append by (fastforce simp: kv)
  then show ?case using Cons.IH [of "m @ [kv]"] Cons.prems by (simp add: kv)
qed simp

lemma map_of_map_values: "map_of (map (\<lambda>(k, v). (k, f k v)) m) k = map_option (f k) (map_of m k)"
  by (induction m) auto

lemma rt_wf_new: "rt_wf routing_new"
  by (simp add: rt_wf_def routing_new_def)

lemma entries_at_new [simp]: "entries_at routing_new url = []"
  by (simp add: entries_at_def routing_new_def)

text \<open>What one interest contributes, with the pin it may carry.\<close>

definition entry_from :: "subscription_compiler \<Rightarrow> logical_interest list \<Rightarrow> relay \<Rightarrow> relay_entry \<Rightarrow> logical_interest \<Rightarrow> bool" where
  "entry_from c interests url e i \<longleftrightarrow> entry_ok (sc_mailbox_cache c) (config_of c interests) i url e \<and>
     (\<forall>u. sh_relay_pin (li_shape i) = Some u \<longrightarrow> url = u) \<and>
     (dm_inbox i \<and> bm_wf (sh_tags (li_shape i)) \<longrightarrow>
        dm_at (sc_mailbox_cache c) url (re_base_shape e) \<and> bm_wf (sh_tags (re_base_shape e)) \<and> re_authors e = [] \<and> re_addresses e = [])"

lemma grows_conj: "grows P r r' \<Longrightarrow> grows Q r r' \<Longrightarrow> grows (\<lambda>url e. P url e \<and> Q url e) r r'"
  unfolding grows_def list_all_iff by (metis same_append_eq)

lemma grows_pin:
  assumes "sh_relay_pin (li_shape i) = Some u"
  shows "grows (\<lambda>url _. url = u) r (partition_interest cache cfg i r)"
  using assms by (simp add: partition_interest_def Let_def case_e_route_def grows_push)

lemma grows_entry_from:
  "grows (\<lambda>url e. entry_from c interests url e i) r (partition_interest (sc_mailbox_cache c) (config_of c interests) i r)"
proof -
  let ?p = "partition_interest (sc_mailbox_cache c) (config_of c interests) i r"
  have true: "grows (\<lambda>_ _. True) r ?p" by (rule grows_mono [OF grows_partition]) simp
  have "grows (\<lambda>url _. \<forall>u. sh_relay_pin (li_shape i) = Some u \<longrightarrow> url = u) r ?p"
    using grows_pin [of i] true by (cases "sh_relay_pin (li_shape i)") (auto intro: grows_mono)
  moreover have "grows (\<lambda>url e. dm_inbox i \<and> bm_wf (sh_tags (li_shape i)) \<longrightarrow>
      dm_at (sc_mailbox_cache c) url (re_base_shape e) \<and> bm_wf (sh_tags (re_base_shape e)) \<and> re_authors e = [] \<and> re_addresses e = []) r ?p"
    using grows_dm [of i] true by (cases "dm_inbox i \<and> bm_wf (sh_tags (li_shape i))") (auto intro: grows_mono)
  ultimately show ?thesis
    unfolding entry_from_def using grows_conj [OF grows_partition grows_conj] by blast
qed

lemma partition_all_entries:
  "grows (\<lambda>url e. \<exists>i \<in> set interests. entry_from c interests url e i) routing_new (partition_all c interests)"
  unfolding partition_all_def by (intro grows_fold grows_mono [OF grows_entry_from]) blast

lemma partition_all_wf: "rt_wf (partition_all c interests)"
  using partition_all_entries rt_wf_new by (auto simp: grows_def)

lemma partition_all_accounts:
  assumes "i \<in> set interests" "p \<in> outbox_keys i"
  shows "key_accounted (partition_all c interests) p"
  unfolding partition_all_def
  by (rule fold_establishes [where P = "\<lambda>r. key_accounted r p", OF _ _ assms(1)]) (auto intro: partition_accounts assms(2))

lemma compile_plan:
  assumes "compile_with_context to_json c interests ctx = (Inr plan, probes)"
  shows "cp_per_relay plan = map (\<lambda>(url, es). (url, relay_plan_of to_json url es)) (rt_entries (partition_all c interests))"
    "cp_unroutable_authors plan = rt_unroutable (partition_all c interests)"
    "cp_plan_id plan = compute_plan_id to_json interests (sc_mailbox_cache c) ctx MERGE_LATTICE_VERSION"
  using assms fold_bm_insert_map [of "[]" "rt_entries (partition_all c interests)" "relay_plan_of to_json"] partition_all_wf [of c interests]
  by (auto simp: compile_with_context_def Let_def rt_wf_def)

lemma compile_relay:
  assumes "compile_with_context to_json c interests ctx = (Inr plan, probes)"
  shows "map_of (cp_per_relay plan) url = Some rp \<longleftrightarrow>
    entries_at (partition_all c interests) url \<noteq> [] \<and> rp = relay_plan_of to_json url (entries_at (partition_all c interests) url)"
proof -
  let ?r = "partition_all c interests"
  have "es \<noteq> []" if "map_of (rt_entries ?r) url = Some es" for es
    using that partition_all_wf [of c interests] by (auto simp: rt_wf_def list_all_iff dest!: map_of_SomeD)
  then show ?thesis
    by (auto simp: compile_plan(1) [OF assms] map_of_map_values entries_at_def unwrap_or_def split: option.splits)
qed

text \<open>A relay plan in terms of its entries.\<close>

lemma relay_plan_facts:
  defines "xs es \<equiv> canonical_sort (map into_shape es)"
  shows "rp_relay_url (relay_plan_of to_json url es) = url"
    "set (rp_role_tags (relay_plan_of to_json url es)) = (\<Union>e \<in> set es. set (re_sources e))"
    "rp_sub_shapes (relay_plan_of to_json url es) =
       map (\<lambda>(shape, _, ids). \<lparr>ss_shape = shape, ss_originating_interests = ids,
         ss_canonical_filter_hash = canonical_filter_hash to_json shape\<rparr>)
       (acc_subs (fold merge_entry (xs es) ([], attribution_default, [])))"
proof -
  let ?acc = "fold merge_entry (xs es) ([], attribution_default, [])"
  show "rp_relay_url (relay_plan_of to_json url es) = url"
    by (simp add: relay_plan_of_def Let_def split: prod.split)
  have "set (rp_role_tags (relay_plan_of to_json url es)) = set (fst ?acc)"
    by (simp add: relay_plan_of_def xs_def Let_def split: prod.split)
  also have "\<dots> = (\<Union>e \<in> set es. set (re_sources e))"
    by (auto simp: fold_merge_entry_tags xs_def canonical_sort_def into_shape_def)
  finally show "set (rp_role_tags (relay_plan_of to_json url es)) = (\<Union>e \<in> set es. set (re_sources e))" .
  show "rp_sub_shapes (relay_plan_of to_json url es) =
       map (\<lambda>(shape, _, ids). \<lparr>ss_shape = shape, ss_originating_interests = ids,
         ss_canonical_filter_hash = canonical_filter_hash to_json shape\<rparr>) (acc_subs ?acc)"
    by (simp add: relay_plan_of_def xs_def acc_subs_def Let_def split: prod.split)
qed

lemma relay_plan_absorbs:
  assumes "e \<in> set es"
  shows "\<exists>sub \<in> set (rp_sub_shapes (relay_plan_of to_json url es)). re_interest_id e \<in> set (ss_originating_interests sub) \<and>
    set (re_authors e) \<subseteq> set (sh_authors (ss_shape sub)) \<and> set (re_addresses e) \<subseteq> set (sh_addresses (ss_shape sub))"
proof -
  let ?acc = "fold merge_entry (canonical_sort (map into_shape es)) ([], attribution_default, [])"
  have "into_shape e \<in> set (canonical_sort (map into_shape es))" using assms by (simp add: canonical_sort_def)
  then have "absorbed ((re_base_shape e)\<lparr>sh_authors := re_authors e, sh_addresses := re_addresses e\<rparr>) (re_lifecycle e)
      (re_interest_id e) (acc_subs ?acc)"
    by (intro fold_merge_entry_absorbs) (auto simp: into_shape_def)
  then obtain s ids where "(s, re_lifecycle e, ids) \<in> set (acc_subs ?acc)" "re_interest_id e \<in> set ids"
      "set (re_authors e) \<subseteq> set (sh_authors s)" "set (re_addresses e) \<subseteq> set (sh_addresses s)"
    by (auto simp: absorbed_def)
  then show ?thesis unfolding relay_plan_facts(3) by force
qed

lemma relay_plan_inv:
  assumes "sub \<in> set (rp_sub_shapes (relay_plan_of to_json url es))"
    and "\<And>e. e \<in> set es \<Longrightarrow> I ((re_base_shape e)\<lparr>sh_authors := re_authors e, sh_addresses := re_addresses e\<rparr>) [re_interest_id e]"
    and "\<And>e s ids c l. e \<in> set es \<Longrightarrow> I s ids \<Longrightarrow>
      lattice_merge s ((re_base_shape e)\<lparr>sh_authors := re_authors e, sh_addresses := re_addresses e\<rparr>) l l = Merged c \<Longrightarrow>
      I c (add_id (re_interest_id e) ids)"
  shows "I (ss_shape sub) (ss_originating_interests sub)"
proof -
  let ?xs = "canonical_sort (map into_shape es)"
  have from_entry: "\<exists>e \<in> set es. shape = (re_base_shape e)\<lparr>sh_authors := re_authors e, sh_addresses := re_addresses e\<rparr> \<and> n = re_interest_id e"
    if "(shape, lc, src, n, att) \<in> set ?xs" for shape lc src n att
    using that by (auto simp: canonical_sort_def into_shape_def)
  have "list_all (\<lambda>(s, _, ids). I s ids) (acc_subs (fold merge_entry ?xs ([], attribution_default, [])))"
  proof (rule fold_merge_entry_inv)
    show "list_all (\<lambda>(s, _, ids). I s ids) (acc_subs ([], attribution_default, []))" by (simp add: acc_subs_def)
  next
    fix shape lc src n att
    assume "(shape, lc, src, n, att) \<in> set ?xs"
    then show "case (shape, lc, [n]) of (s, _, ids) \<Rightarrow> I s ids" using from_entry assms(2) by fastforce
  next
    fix shape lc src n att s l ids c
    assume x: "(shape, lc, src, n, att) \<in> set ?xs" "case (s, l, ids) of (s, _, ids) \<Rightarrow> I s ids" "lattice_merge s shape l lc = Merged c"
    then have "l = lc" using lattice_merge_fields(1) by blast
    then show "case (c, l, add_id n ids) of (s, _, ids) \<Rightarrow> I s ids" using from_entry [OF x(1)] assms(3) x(2,3) by auto
  qed
  then show ?thesis using assms(1) by (auto simp: relay_plan_facts(3) list_all_iff)
qed

section \<open>Properties of plans\<close>

text \<open>C16. A plan connects nowhere without a reason: every relay in it carries at least one routing lane, and
  each of its lanes is justified by an interest, that is, by a mailbox of one of its keys, a hint, a
  configured relay set or its pin; every sub-shape names interests that asked for it, asks for no
  author they did not name, and a filter pinned to a relay is sent to that relay only.\<close>

theorem plan_justified:
  assumes "compile_with_context to_json c interests ctx = (Inr plan, probes)" and "map_of (cp_per_relay plan) url = Some rp"
  shows "rp_relay_url rp = url \<and> rp_role_tags rp \<noteq> [] \<and> rp_sub_shapes rp \<noteq> [] \<and>
    (\<forall>src \<in> set (rp_role_tags rp). \<exists>i \<in> set interests. justified (sc_mailbox_cache c) (config_of c interests) i url src) \<and>
    (\<forall>sub \<in> set (rp_sub_shapes rp). ss_originating_interests sub \<noteq> [] \<and>
       (\<forall>n \<in> set (ss_originating_interests sub). \<exists>i \<in> set interests. li_id i = n) \<and>
       (\<forall>a \<in> set (sh_authors (ss_shape sub)). \<exists>i \<in> set interests.
          li_id i \<in> set (ss_originating_interests sub) \<and> a \<in> set (sh_authors (li_shape i))) \<and>
       (\<forall>u. sh_relay_pin (ss_shape sub) = Some u \<longrightarrow> u = url))"
proof -
  let ?es = "entries_at (partition_all c interests) url"
  have rp: "?es \<noteq> []" "rp = relay_plan_of to_json url ?es" using assms(2) compile_relay [OF assms(1)] by simp_all
  have from_i: "\<exists>i \<in> set interests. entry_from c interests url e i" if "e \<in> set ?es" for e
    using grows_mem(1) [OF partition_all_entries that] by simp
  obtain e where e: "e \<in> set ?es" using rp(1) by (cases ?es) auto
  have rt: "set (rp_role_tags rp) = (\<Union>e \<in> set ?es. set (re_sources e))" by (simp add: rp(2) relay_plan_facts(2))
  have ok: "re_sources e \<noteq> []" "\<exists>i \<in> set interests. \<forall>src \<in> set (re_sources e). justified (sc_mailbox_cache c) (config_of c interests) i url src"
    if "e \<in> set ?es" for e
    using from_i [OF that] by (auto simp: entry_from_def entry_ok_def list_all_iff)
  have tags: "rp_role_tags rp \<noteq> []"
    "\<forall>src \<in> set (rp_role_tags rp). \<exists>i \<in> set interests. justified (sc_mailbox_cache c) (config_of c interests) i url src"
  proof -
    show "rp_role_tags rp \<noteq> []" using ok(1) [OF e] e rt by (metis UN_I list.set_intros(1) neq_Nil_conv empty_iff set_empty)
    show "\<forall>src \<in> set (rp_role_tags rp). \<exists>i \<in> set interests. justified (sc_mailbox_cache c) (config_of c interests) i url src"
      unfolding rt using ok(2) by blast
  qed
  have "rp_sub_shapes rp \<noteq> []" using relay_plan_absorbs [OF e, of to_json url] by (auto simp: rp(2))
  moreover have "ss_originating_interests sub \<noteq> [] \<and>
      (\<forall>n \<in> set (ss_originating_interests sub). \<exists>i \<in> set interests. li_id i = n) \<and>
      (\<forall>a \<in> set (sh_authors (ss_shape sub)). \<exists>i \<in> set interests.
         li_id i \<in> set (ss_originating_interests sub) \<and> a \<in> set (sh_authors (li_shape i))) \<and>
      (\<forall>u. sh_relay_pin (ss_shape sub) = Some u \<longrightarrow> u = url)" if sub: "sub \<in> set (rp_sub_shapes rp)" for sub
  proof (rule relay_plan_inv [OF sub [unfolded rp(2)], where I = "\<lambda>s ids. ids \<noteq> [] \<and> (\<forall>n \<in> set ids. \<exists>i \<in> set interests. li_id i = n) \<and>
      (\<forall>a \<in> set (sh_authors s). \<exists>i \<in> set interests. li_id i \<in> set ids \<and> a \<in> set (sh_authors (li_shape i))) \<and>
      (\<forall>u. sh_relay_pin s = Some u \<longrightarrow> u = url)"], goal_cases)
    case (1 e)
    then show ?case using from_i [OF 1] by (fastforce simp: entry_from_def entry_ok_def)
  next
    case (2 e s ids m l)
    note f = lattice_merge_fields [OF 2(3)]
    obtain i where i: "i \<in> set interests" "entry_from c interests url e i" using from_i [OF 2(1)] by blast
    then have "li_id i = re_interest_id e" "set (re_authors e) \<subseteq> set (sh_authors (li_shape i))"
      by (simp_all add: entry_from_def entry_ok_def)
    moreover have "add_id (re_interest_id e) ids \<noteq> []" by (metis insert_not_empty list.set(1) set_add_id)
    moreover have "\<exists>i \<in> set interests. li_id i \<in> set (add_id (re_interest_id e) ids) \<and> a \<in> set (sh_authors (li_shape i))"
      if "a \<in> set (sh_authors m)" for a
    proof (cases "a \<in> set (sh_authors s)")
      case True
      then show ?thesis using 2(2) by auto
    next
      case False
      then have "a \<in> set (re_authors e)" using that f(2) by simp
      then show ?thesis using i(1) calculation(1,2) by auto
    qed
    moreover have "\<exists>i \<in> set interests. li_id i = n" if "n \<in> set (add_id (re_interest_id e) ids)" for n
      using that 2(2) i(1) calculation(1) by auto
    ultimately show ?case using 2(2) f(5) by simp
  qed
  moreover have "rp_relay_url rp = url" unfolding rp(2) by (rule relay_plan_facts(1))
  ultimately show ?thesis using tags by blast
qed

text \<open>C17. No key is lost on the way to a plan: every author of an interest and every author of one of its
  addresses is asked for at some relay of the plan, or reported as unroutable.\<close>

theorem plan_accounts_for_keys:
  assumes "compile_with_context to_json c interests ctx = (Inr plan, probes)" and "i \<in> set interests" and "p \<in> outbox_keys i"
  shows "p \<in> set (cp_unroutable_authors plan) \<or>
    (\<exists>url rp sub. map_of (cp_per_relay plan) url = Some rp \<and> sub \<in> set (rp_sub_shapes rp) \<and>
       (p \<in> set (sh_authors (ss_shape sub)) \<or> p \<in> nc_pubkey ` set (sh_addresses (ss_shape sub))))"
proof (cases "p \<in> set (cp_unroutable_authors plan)")
  case False
  then have "asked (partition_all c interests) p"
    using partition_all_accounts [OF assms(2,3), of c] compile_plan(2) [OF assms(1)] by (simp add: key_accounted_def)
  then obtain url e where e: "e \<in> set (entries_at (partition_all c interests) url)" "asks_for e p" by (auto simp: asked_def)
  let ?rp = "relay_plan_of to_json url (entries_at (partition_all c interests) url)"
  have "map_of (cp_per_relay plan) url = Some ?rp" using e(1) by (auto simp: compile_relay [OF assms(1)])
  moreover obtain sub where "sub \<in> set (rp_sub_shapes ?rp)" "set (re_authors e) \<subseteq> set (sh_authors (ss_shape sub))"
      "set (re_addresses e) \<subseteq> set (sh_addresses (ss_shape sub))"
    using relay_plan_absorbs [OF e(1), of to_json url] by blast
  ultimately show ?thesis using e(2) unfolding asks_for_def by blast
qed simp

section \<open>Direct messages stay on direct-message relays\<close>

lemma dm_at_merged:
  assumes "dm_at cache url a" "dm_at cache url b" "bm_wf (sh_tags a)" "lattice_merge a b la lb = Merged m"
  shows "dm_at cache url m \<and> bm_wf (sh_tags m)"
proof -
  have r: "rule2_tags a b DEFAULT_VALUE_LIMIT = Some (sh_tags m)" using lattice_merge_fields(9) [OF assms(4)] .
  then have keys: "map fst (sh_tags a) = map fst (sh_tags b)" by (simp add: rule2_tags_def split: if_splits)
  then have "fst ` set (sh_tags a) \<subseteq> fst ` set (sh_tags b)" by (metis list.set_map order_refl)
  from rule2_loop_result [where merged = "[]", OF _ this, of DEFAULT_VALUE_LIMIT] r keys assms(3)
  have t: "sh_tags m = union_tags (sh_tags a) (sh_tags b)" by (simp add: rule2_tags_def split: if_splits)
  obtain pa pb where "map_of (sh_tags a) ''p'' = Some pa" "map_of (sh_tags b) ''p'' = Some pb"
    using assms(1,2) by (auto simp: dm_at_def split: option.splits)
  then show ?thesis
    using assms(1,2,3) by (auto simp: dm_at_def t map_of_union_tags list_all_iff)
qed

text \<open>C18. Gift wraps do not leak: where every interest over direct-message relays is an inbox interest,
  each direct-message filter of the plan names at least one recipient and is sent only to relays that
  every recipient it names lists for direct messages. With unknown relays it is not sent at all.\<close>

theorem dm_filters_confined:
  assumes "compile_with_context to_json c interests ctx = (Inr plan, probes)" and "map_of (cp_per_relay plan) url = Some rp"
    and "\<forall>i \<in> set interests. shape_wf (li_shape i) \<and> (sh_p_tag_routing (li_shape i) = Nip17DmRelays \<longrightarrow> dm_inbox i)"
    and "sub \<in> set (rp_sub_shapes rp)" and "sh_p_tag_routing (ss_shape sub) = Nip17DmRelays"
  shows "\<exists>ps. map_of (sh_tags (ss_shape sub)) ''p'' = Some ps \<and> ps \<noteq> [] \<and>
    (\<forall>p \<in> set ps. \<exists>rs. mc_dm_inbox_relays (sc_mailbox_cache c) p = Some rs \<and> url \<in> set rs)"
proof -
  let ?es = "entries_at (partition_all c interests) url" and ?cache = "sc_mailbox_cache c"
  let ?I = "\<lambda>s (_ :: interest_id list). sh_p_tag_routing s = Nip17DmRelays \<longrightarrow> dm_at ?cache url s \<and> bm_wf (sh_tags s)"
  have rp: "rp = relay_plan_of to_json url ?es" using assms(2) compile_relay [OF assms(1)] by simp
  have entry: "?I (re_base_shape e) []" if e: "e \<in> set ?es" for e
  proof -
    obtain i where "i \<in> set interests" "entry_from c interests url e i"
      using grows_mem(1) [OF partition_all_entries e] by auto
    then show ?thesis using assms(3) by (auto simp: entry_from_def entry_ok_def shape_wf_def)
  qed
  have fields: "sh_tags (s\<lparr>sh_authors := a, sh_addresses := d\<rparr>) = sh_tags s" "dm_at ?cache url (s\<lparr>sh_authors := a, sh_addresses := d\<rparr>) = dm_at ?cache url s"
    for s a d by (simp_all add: dm_at_def)
  have "?I (ss_shape sub) (ss_originating_interests sub)"
  proof (rule relay_plan_inv [OF assms(4) [unfolded rp]], goal_cases)
    case (1 e)
    then show ?case using entry [OF 1] by (simp add: fields)
  next
    case (2 e s ids m l)
    show ?case
    proof
      assume dm: "sh_p_tag_routing m = Nip17DmRelays"
      then have "sh_p_tag_routing s = Nip17DmRelays" "sh_p_tag_routing (re_base_shape e) = Nip17DmRelays"
        using lattice_merge_fields(7,8) [OF 2(3)] by simp_all
      then show "dm_at ?cache url m \<and> bm_wf (sh_tags m)"
        using 2(2) entry [OF 2(1)] dm_at_merged [OF _ _ _ 2(3), of ?cache url] by (simp add: fields)
    qed
  qed
  then show ?thesis using assms(5) by (fastforce simp: dm_at_def list_all_iff split: option.splits)
qed

section \<open>What a plan depends on\<close>

lemma set_fold_bs_insert: "set (fold (\<lambda>x. bs_insert (f x)) xs ys) = set ys \<union> f ` set xs"
  by (induction xs arbitrary: ys) auto

lemma set_referenced_pubkeys:
  "set (referenced_pubkeys interests) = (\<Union>i \<in> set interests. outbox_keys i \<union> set (p_tags i))"
proof -
  let ?f = "\<lambda>interest pks. let pks = bs_extend pks (sh_authors (li_shape interest));
       pks = fold (\<lambda>coord. bs_insert (nc_pubkey coord)) (sh_addresses (li_shape interest)) pks
     in case map_of (sh_tags (li_shape interest)) ''p'' of Some p_values \<Rightarrow> bs_extend pks p_values | None \<Rightarrow> pks"
  have step: "\<And>i pks. set (?f i pks) = set pks \<union> (outbox_keys i \<union> set (p_tags i))"
    by (auto simp: Let_def set_fold_bs_insert outbox_keys_def p_tags_def p_tag_values_of_def split: option.splits)
  have "set (fold ?f is pks) = set pks \<union> (\<Union>i \<in> set is. outbox_keys i \<union> set (p_tags i))" for "is" pks
  proof (induction "is" arbitrary: pks)
    case (Cons i "is")
    have "set (fold ?f (i # is) pks) = set (?f i pks) \<union> (\<Union>i \<in> set is. outbox_keys i \<union> set (p_tags i))"
      using Cons.IH [of "?f i pks"] by simp
    then show ?case unfolding step by auto
  qed simp
  then show ?thesis by (simp add: referenced_pubkeys_def)
qed

lemma set_dm_referenced:
  "set (dm_relay_referenced_pubkeys interests) = (\<Union>i \<in> {i \<in> set interests. sh_p_tag_routing (li_shape i) = Nip17DmRelays}. set (p_tags i))"
proof -
  let ?f = "\<lambda>interest pks. if sh_p_tag_routing (li_shape interest) \<noteq> Nip17DmRelays then pks
     else case map_of (sh_tags (li_shape interest)) ''p'' of Some p_values \<Rightarrow> bs_extend pks p_values | None \<Rightarrow> pks"
  have step: "\<And>i pks. set (?f i pks) = set pks \<union> (if sh_p_tag_routing (li_shape i) = Nip17DmRelays then set (p_tags i) else {})"
    by (auto simp: p_tags_def p_tag_values_of_def split: option.splits)
  have "set (fold ?f is pks) = set pks \<union> (\<Union>i \<in> {i \<in> set is. sh_p_tag_routing (li_shape i) = Nip17DmRelays}. set (p_tags i))" for "is" pks
  proof (induction "is" arbitrary: pks)
    case (Cons i "is")
    have "set (fold ?f (i # is) pks) =
        set (?f i pks) \<union> (\<Union>i \<in> {i \<in> set is. sh_p_tag_routing (li_shape i) = Nip17DmRelays}. set (p_tags i))"
      using Cons.IH [of "?f i pks"] by simp
    then show ?case unfolding step by (auto split: if_splits)
  qed simp
  then show ?thesis by (simp add: dm_relay_referenced_pubkeys_def)
qed

lemma plan_id_local:
  assumes "\<And>i. i \<in> set interests \<Longrightarrow> caches_agree cache cache' i"
  shows "compute_plan_id to_json interests cache ctx v = compute_plan_id to_json interests cache' ctx v"
proof -
  have "feed_mailbox cache (dm_relay_referenced_pubkeys interests) p = feed_mailbox cache' (dm_relay_referenced_pubkeys interests) p"
    if "p \<in> set (referenced_pubkeys interests)" for p
  proof -
    have get: "mc_get cache p = mc_get cache' p" using that assms by (auto simp: set_referenced_pubkeys caches_agree_def)
    have "mc_dm_inbox_relays cache p = mc_dm_inbox_relays cache' p" if "p \<in> set (dm_relay_referenced_pubkeys interests)"
      using that assms by (auto simp: set_dm_referenced caches_agree_def)
    with get show ?thesis by (auto simp: feed_mailbox_def Let_def fun_eq_iff)
  qed
  then have "fold (feed_mailbox cache (dm_relay_referenced_pubkeys interests)) (referenced_pubkeys interests) h =
      fold (feed_mailbox cache' (dm_relay_referenced_pubkeys interests)) (referenced_pubkeys interests) h" for h
    by (intro fold_cong) auto
  then show ?thesis by (simp add: compute_plan_id_def)
qed

text \<open>C19. A plan depends on the mailboxes of the keys its interests name and on no others: the arrival of a
  relay list for an unrelated key changes neither the plan, nor its id, nor the probes asked for; and
  direct-message lists matter only for keys tagged by direct-message interests.\<close>

theorem plan_ignores_unrelated_mailboxes:
  assumes "\<forall>i \<in> set interests. caches_agree (sc_mailbox_cache c) cache' i"
  shows "compile_with_context to_json (c\<lparr>sc_mailbox_cache := cache'\<rparr>) interests ctx = compile_with_context to_json c interests ctx"
proof -
  let ?c = "c\<lparr>sc_mailbox_cache := cache'\<rparr>"
  have "config_of ?c interests = config_of c interests" by (simp add: config_of_def)
  then have "partition_all ?c interests = partition_all c interests"
    unfolding partition_all_def using assms by (intro fold_cong) (auto intro!: partition_local [symmetric])
  moreover have "compute_plan_id to_json interests cache' ctx MERGE_LATTICE_VERSION =
      compute_plan_id to_json interests (sc_mailbox_cache c) ctx MERGE_LATTICE_VERSION"
    using assms by (intro plan_id_local [symmetric]) blast
  ultimately show ?thesis by (simp add: compile_with_context_def)
qed

section \<open>A small example\<close>

definition demo_cache :: mailbox_cache where
  "demo_cache = as_mailbox_cache (im_put_dm_relays ''bob'' [''wss://dm'']
     (im_put ''alice'' \<lparr>mb_write_relays = [''wss://w''], mb_read_relays = [], mb_both_relays = []\<rparr> im_new))"

definition demo_compiler :: subscription_compiler where
  "demo_compiler = compiler_new demo_cache [''wss://index'']"

definition demo_notes :: logical_interest where
  "demo_notes = logical_default\<lparr>li_id := InterestId 1, li_shape := timeline_for [''alice'', ''carol''] [1]\<rparr>"

definition demo_wraps :: logical_interest where
  "demo_wraps = logical_default\<lparr>li_id := InterestId 2, li_lifecycle := Tailing,
     li_shape := shape_default\<lparr>sh_kinds := [1059], sh_tags := [(''p'', [''bob''])], sh_p_tag_routing := Nip17DmRelays\<rparr>\<rparr>"

lemma demo_compiles:
  obtains plan probes where
    "compile_with_context (\<lambda>_. None) demo_compiler [demo_notes, demo_wraps] context_default = (Inr plan, probes)"
  by (auto simp: compile_with_context_def Let_def)

lemma demo_entries:
  "entries_at (partition_all demo_compiler [demo_notes, demo_wraps]) ''wss://w'' \<noteq> []"
  "map re_base_shape (entries_at (partition_all demo_compiler [demo_notes, demo_wraps]) ''wss://dm'') = [li_shape demo_wraps]"
  "rt_unroutable (partition_all demo_compiler [demo_notes, demo_wraps]) = [''carol'']"
  by code_simp+

theorem plan_justified_witness:
  "\<exists>plan probes rp. compile_with_context (\<lambda>_. None) demo_compiler [demo_notes, demo_wraps] context_default = (Inr plan, probes) \<and>
     map_of (cp_per_relay plan) ''wss://w'' = Some rp \<and> rp_role_tags rp \<noteq> [] \<and> rp_sub_shapes rp \<noteq> []"
proof -
  obtain plan probes where
    c: "compile_with_context (\<lambda>_. None) demo_compiler [demo_notes, demo_wraps] context_default = (Inr plan, probes)"
    by (rule demo_compiles)
  obtain rp where "map_of (cp_per_relay plan) ''wss://w'' = Some rp" using demo_entries(1) compile_relay [OF c] by blast
  with c plan_justified [OF c this] show ?thesis by blast
qed

theorem plan_accounts_for_keys_witness:
  "\<exists>plan probes url rp sub. compile_with_context (\<lambda>_. None) demo_compiler [demo_notes, demo_wraps] context_default = (Inr plan, probes) \<and>
     cp_unroutable_authors plan = [''carol''] \<and> map_of (cp_per_relay plan) url = Some rp \<and> sub \<in> set (rp_sub_shapes rp) \<and>
     (''alice'' \<in> set (sh_authors (ss_shape sub)) \<or> ''alice'' \<in> nc_pubkey ` set (sh_addresses (ss_shape sub)))"
proof -
  obtain plan probes where
    c: "compile_with_context (\<lambda>_. None) demo_compiler [demo_notes, demo_wraps] context_default = (Inr plan, probes)"
    by (rule demo_compiles)
  have "''alice'' \<in> outbox_keys demo_notes" by (simp add: outbox_keys_def demo_notes_def timeline_for_def)
  moreover have "cp_unroutable_authors plan = [''carol'']" using compile_plan(2) [OF c] demo_entries(3) by simp
  ultimately show ?thesis using plan_accounts_for_keys [OF c, of demo_notes "''alice''"] c by auto
qed

theorem dm_filters_confined_witness:
  "\<exists>plan probes rp sub ps. compile_with_context (\<lambda>_. None) demo_compiler [demo_notes, demo_wraps] context_default = (Inr plan, probes) \<and>
     map_of (cp_per_relay plan) ''wss://dm'' = Some rp \<and> sub \<in> set (rp_sub_shapes rp) \<and>
     map_of (sh_tags (ss_shape sub)) ''p'' = Some ps \<and> ps \<noteq> []"
proof -
  let ?es = "entries_at (partition_all demo_compiler [demo_notes, demo_wraps]) ''wss://dm''"
  obtain plan probes where
    c: "compile_with_context (\<lambda>_. None) demo_compiler [demo_notes, demo_wraps] context_default = (Inr plan, probes)"
    by (rule demo_compiles)
  obtain e where e: "?es = [e]" "re_base_shape e = li_shape demo_wraps" using demo_entries(2) by (auto simp: map_eq_Cons_conv)
  let ?rp = "relay_plan_of (\<lambda>_. None) ''wss://dm'' [e]"
  have rp: "map_of (cp_per_relay plan) ''wss://dm'' = Some ?rp" by (simp add: compile_relay [OF c] e(1))
  have wf: "\<forall>i \<in> set [demo_notes, demo_wraps]. shape_wf (li_shape i) \<and> (sh_p_tag_routing (li_shape i) = Nip17DmRelays \<longrightarrow> dm_inbox i)"
    by code_simp
  have "canonical_sort [x] = [x]" for x by (simp add: canonical_sort_def)
  then obtain sub where sub: "rp_sub_shapes ?rp = [sub]" "sh_p_tag_routing (ss_shape sub) = Nip17DmRelays"
    by (simp add: relay_plan_facts(3) into_shape_def merge_entry_def acc_subs_def e(2) demo_wraps_def)
  then show ?thesis using dm_filters_confined [OF c rp wf, of sub] c rp by auto
qed

theorem plan_ignores_unrelated_mailboxes_witness:
  "compile_with_context (\<lambda>_. None) (demo_compiler\<lparr>sc_mailbox_cache := as_mailbox_cache (im_put ''dave'' \<lparr>mb_write_relays = [''wss://x''],
      mb_read_relays = [], mb_both_relays = []\<rparr> (im_put_dm_relays ''bob'' [''wss://dm'']
      (im_put ''alice'' \<lparr>mb_write_relays = [''wss://w''], mb_read_relays = [], mb_both_relays = []\<rparr> im_new)))\<rparr>)
     [demo_notes, demo_wraps] context_default =
   compile_with_context (\<lambda>_. None) demo_compiler [demo_notes, demo_wraps] context_default"
proof -
  have keys: "outbox_keys demo_notes \<union> set (p_tags demo_notes) = {''alice'', ''carol''}"
    "outbox_keys demo_wraps \<union> set (p_tags demo_wraps) = {''bob''}"
    by (auto simp: outbox_keys_def p_tags_def p_tag_values_of_def demo_notes_def demo_wraps_def timeline_for_def shape_default_def)
  show ?thesis
    by (rule plan_ignores_unrelated_mailboxes)
      (auto simp: caches_agree_def keys demo_compiler_def compiler_new_def with_active_account_read_relays_def with_relays_def
        with_relays_and_bootstrap_def demo_cache_def as_mailbox_cache_def in_memory.put_unrelated in_memory.dm_put)
qed

end
