(* ===== verification/Planner_Selection.thy ===== *)
theory Planner_Selection
  imports Planner_Compile
begin

text \<open>
  Relay selection (\<open>nmp-planner/src/selection.rs\<close>, \<open>selection/relay_score_lookup.rs\<close>): the
  post-compile pass that bounds the number of connections. Relays an operator, a hint or the
  direct-message protocol names bypass it; the others go through an optional warm-relay filter and a
  greedy maximum coverage with a cap of relays per author, and the surviving sub-shapes are narrowed to
  the authors each relay was chosen for.

  The score lookup is the interface \<open>is_warm\<close> of its trait, a parameter.
\<close>

section \<open>The greedy routine\<close>

text \<open>The relays that survive selection whatever they cover.\<close>

definition relay_bypasses_selection :: "routing_source list \<Rightarrow> bool" where
  "relay_bypasses_selection tags \<longleftrightarrow>
     Hint \<in> set tags \<or> Provenance \<in> set tags \<or> Nip17DmRelay \<in> set tags \<or>
     UserConfigured AppRelay \<in> set tags \<or> UserConfigured Debug \<in> set tags"

type_synonym author_map = "(relay \<times> pubkey list) list"

text \<open>\<open>pool\<close>, \<open>hits\<close>, \<open>selected\<close> and \<open>selections\<close> of the loop.\<close>

record greedy_state =
  gs_pool :: "(pubkey \<times> relay list) list"
  gs_hits :: "(pubkey \<times> nat) list"
  gs_selected :: "relay list"
  gs_selections :: author_map

definition invert_pool :: "author_map \<Rightarrow> (pubkey \<times> relay list) list" where
  "invert_pool per_relay =
     fold (\<lambda>(relay, authors). fold (\<lambda>author. hm_entry [] author (List.insert relay)) authors) per_relay []"

text \<open>How many authors of the pool each relay not yet selected would cover.\<close>

definition count_coverage :: "relay list \<Rightarrow> (pubkey \<times> relay list) list \<Rightarrow> (relay \<times> nat) list" where
  "count_coverage selected pool =
     fold (\<lambda>relays. fold (\<lambda>r c. if r \<in> set selected then c else hm_entry 0 r Suc c) relays) (map snd pool) []"

definition coverage_le :: "relay \<times> nat \<Rightarrow> relay \<times> nat \<Rightarrow> bool" where
  "coverage_le a b \<longleftrightarrow> snd a < snd b \<or> snd a = snd b \<and> fst b \<le> fst a"

definition pick_winner :: "relay list \<Rightarrow> (pubkey \<times> relay list) list \<Rightarrow> relay option" where
  "pick_winner selected pool = map_option fst (max_by coverage_le (count_coverage selected pool))"

text \<open>The body of the loop over the authors of the pool.\<close>

definition cover_author :: "nat \<Rightarrow> relay \<Rightarrow> pubkey \<Rightarrow> greedy_state \<Rightarrow> greedy_state" where
  "cover_author max_per_user winner author s =
     (case map_of (gs_pool s) author of
        None \<Rightarrow> s
      | Some relays \<Rightarrow>
          if winner \<notin> set relays then s
          else
            let hits = hm_entry 0 author Suc (gs_hits s);
                rest = removeAll winner relays in
            s\<lparr>gs_selections := bm_entry [] winner (bs_insert author) (gs_selections s),
              gs_hits := hits,
              gs_pool :=
                (if max_per_user \<le> unwrap_or 0 (map_of hits author) then hm_remove author (gs_pool s)
                 else if rest = [] then hm_remove author (gs_pool s)
                 else hm_insert author rest (gs_pool s))\<rparr>)"

definition greedy_round :: "nat \<Rightarrow> relay \<Rightarrow> greedy_state \<Rightarrow> greedy_state" where
  "greedy_round max_per_user winner s =
     fold (cover_author max_per_user winner) (map fst (gs_pool s)) (s\<lparr>gs_selected := winner # gs_selected s\<rparr>)"

lemma selected_cover_author [simp]: "gs_selected (cover_author m w a s) = gs_selected s"
  by (simp add: cover_author_def Let_def split: option.splits)

lemma selected_round [simp]: "gs_selected (greedy_round m w s) = w # gs_selected s"
proof -
  have "gs_selected (fold (cover_author m w) as t) = gs_selected t" for as t
    by (induction as arbitrary: t) auto
  then show ?thesis by (simp add: greedy_round_def)
qed

text \<open>The loop: every round selects one more relay.\<close>

function greedy_loop :: "nat \<Rightarrow> nat \<Rightarrow> greedy_state \<Rightarrow> greedy_state" where
  "greedy_loop max_connections max_per_user s =
     (if gs_pool s = [] \<or> max_connections \<le> length (gs_selected s) then s
      else case pick_winner (gs_selected s) (gs_pool s) of
        None \<Rightarrow> s
      | Some winner \<Rightarrow> greedy_loop max_connections max_per_user (greedy_round max_per_user winner s))"
  by pat_completeness auto
termination
  by (relation "measure (\<lambda>(c, _, s). c - length (gs_selected s))") auto

declare greedy_loop.simps [simp del]

definition greedy_start :: "author_map \<Rightarrow> greedy_state" where
  "greedy_start per_relay = \<lparr>gs_pool = invert_pool per_relay, gs_hits = [], gs_selected = [], gs_selections = []\<rparr>"

definition greedy_select :: "author_map \<Rightarrow> nat \<Rightarrow> nat \<Rightarrow> author_map" where
  "greedy_select per_relay max_connections max_per_user =
     (if max_connections = 0 \<or> max_per_user = 0 then []
      else gs_selections (greedy_loop max_connections max_per_user (greedy_start per_relay)))"

section \<open>The pass over a plan\<close>

definition plan_authors :: "relay_plan \<Rightarrow> pubkey list" where
  "plan_authors rp = fold (\<lambda>sub acc. bs_extend acc (sh_authors (ss_shape sub))) (rp_sub_shapes rp) []"

definition selection_pinned :: "compiled_plan \<Rightarrow> relay list" where
  "selection_pinned plan = map fst (filter (\<lambda>(_, rp). relay_bypasses_selection (rp_role_tags rp)) (cp_per_relay plan))"

definition raw_per_relay_authors :: "compiled_plan \<Rightarrow> author_map" where
  "raw_per_relay_authors plan =
     map (\<lambda>(relay, rp). (relay, plan_authors rp))
       (filter (\<lambda>(relay, _). relay \<notin> set (selection_pinned plan)) (cp_per_relay plan))"

definition nip65_only :: "compiled_plan \<Rightarrow> relay list" where
  "nip65_only plan =
     map fst (filter (\<lambda>(relay, rp). relay \<notin> set (selection_pinned plan) \<and> length (rp_role_tags rp) = 1 \<and>
                        Nip65 \<in> set (rp_role_tags rp)) (cp_per_relay plan))"

text \<open>The authors with a warm relay among the purely NIP-65 ones.\<close>

definition author_has_warm :: "(pubkey \<Rightarrow> relay \<Rightarrow> bool) \<Rightarrow> relay list \<Rightarrow> author_map \<Rightarrow> pubkey list" where
  "author_has_warm is_warm nip65 raw =
     fold (\<lambda>(relay, authors) acc. if relay \<notin> set nip65 then acc
             else bs_extend acc (filter (\<lambda>a. is_warm a relay) authors)) raw []"

definition warm_filter :: "(pubkey \<Rightarrow> relay \<Rightarrow> bool) option \<Rightarrow> relay list \<Rightarrow> author_map \<Rightarrow> author_map" where
  "warm_filter lookup nip65 raw =
     (case lookup of
        None \<Rightarrow> raw
      | Some is_warm \<Rightarrow>
          let warm = author_has_warm is_warm nip65 raw in
          map (\<lambda>(relay, authors). (relay, if relay \<notin> set nip65 then authors
                 else filter (\<lambda>a. is_warm a relay \<or> a \<notin> set warm) authors)) raw)"

text \<open>Relays without authors fill what is left of the budget.\<close>

fun backfill :: "nat \<Rightarrow> author_map \<Rightarrow> author_map \<Rightarrow> author_map" where
  "backfill max_connections [] selections = selections"
| "backfill max_connections ((relay, authors) # rest) selections =
     (if authors = [] \<and> \<not> hm_contains relay selections then
        let selections' = bm_insert relay [] selections in
        if max_connections \<le> length selections' then selections' else backfill max_connections rest selections'
      else backfill max_connections rest selections)"

definition select_relays :: "author_map \<Rightarrow> nat \<Rightarrow> nat \<Rightarrow> author_map" where
  "select_relays per_relay max_connections max_per_user =
     (let selections = greedy_select per_relay max_connections max_per_user in
      if length selections < max_connections \<and> 0 < max_per_user
      then backfill max_connections per_relay selections else selections)"

text \<open>A sub-shape restricted to the authors its relay serves.\<close>

definition narrow_sub :: "(interest_shape \<Rightarrow> string option) \<Rightarrow> pubkey list \<Rightarrow> sub_shape \<Rightarrow> sub_shape option" where
  "narrow_sub to_json allowed sub =
     (let authors = sh_authors (ss_shape sub);
          kept = filter (\<lambda>a. a \<in> set allowed) authors;
          sub' = sub\<lparr>ss_shape := (ss_shape sub)\<lparr>sh_authors := kept\<rparr>\<rparr> in
      if authors = [] then Some sub
      else if kept = [] then None
      else Some (if length kept \<noteq> length authors then recompute_hash to_json sub' else sub'))"

definition narrow_attribution :: "pubkey list \<Rightarrow> sub_shape list \<Rightarrow> relay_attribution \<Rightarrow> relay_attribution" where
  "narrow_attribution allowed subs ra =
     (let interests = map (\<lambda>ia. ia\<lparr>ia_authors := filter (\<lambda>a. a \<in> set allowed) (ia_authors ia)\<rparr>) (ra_interests ra);
          surviving = concat (map ss_originating_interests subs) in
      ra\<lparr>ra_outbox_authors := filter (\<lambda>a. a \<in> set allowed) (ra_outbox_authors ra),
         ra_interests := filter (\<lambda>ia. ia_authors ia = [] \<or> ia_interest_id ia \<in> set surviving) interests\<rparr>)"

definition narrow_relay :: "(interest_shape \<Rightarrow> string option) \<Rightarrow> pubkey list \<Rightarrow> relay_plan \<Rightarrow> relay_plan option" where
  "narrow_relay to_json allowed rp =
     (let kept = List.map_filter (narrow_sub to_json allowed) (rp_sub_shapes rp) in
      if kept = [] then None
      else Some (rp\<lparr>rp_sub_shapes := kept, rp_attribution := narrow_attribution allowed kept (rp_attribution rp)\<rparr>))"

definition project_relay ::
  "(interest_shape \<Rightarrow> string option) \<Rightarrow> relay list \<Rightarrow> author_map \<Rightarrow> relay \<times> relay_plan \<Rightarrow> (relay \<times> relay_plan) option" where
  "project_relay to_json pinned selections row =
     (case row of (relay, rp) \<Rightarrow>
        if relay \<in> set pinned then Some (relay, rp)
        else case map_of selections relay of
          None \<Rightarrow> None
        | Some allowed \<Rightarrow> map_option (Pair relay) (narrow_relay to_json allowed rp))"

definition apply_selection_with_lookup ::
  "(interest_shape \<Rightarrow> string option) \<Rightarrow> nat \<Rightarrow> nat \<Rightarrow> (pubkey \<Rightarrow> relay \<Rightarrow> bool) option \<Rightarrow> compiled_plan \<Rightarrow> compiled_plan" where
  "apply_selection_with_lookup to_json max_connections max_per_user lookup plan =
     (let per_relay_authors = warm_filter lookup (nip65_only plan) (raw_per_relay_authors plan);
          selections = select_relays per_relay_authors max_connections max_per_user in
      plan\<lparr>cp_per_relay := List.map_filter (project_relay to_json (selection_pinned plan) selections) (cp_per_relay plan)\<rparr>)"

definition apply_selection :: "(interest_shape \<Rightarrow> string option) \<Rightarrow> nat \<Rightarrow> nat \<Rightarrow> compiled_plan \<Rightarrow> compiled_plan" where
  "apply_selection to_json max_connections max_per_user =
     apply_selection_with_lookup to_json max_connections max_per_user None"

section \<open>What the greedy loop keeps\<close>

text \<open>The relays that can serve an author, and those chosen to.\<close>

definition relays_of :: "author_map \<Rightarrow> pubkey \<Rightarrow> relay set" where
  "relays_of m a = {r. a \<in> set (unwrap_or [] (map_of m r))}"

text \<open>One author's row of the loop state.\<close>

type_synonym author_row = "relay set option \<times> nat \<times> relay set"

definition row_of :: "pubkey \<Rightarrow> greedy_state \<Rightarrow> author_row" where
  "row_of a s = (map_option set (map_of (gs_pool s) a), unwrap_or 0 (map_of (gs_hits s) a), relays_of (gs_selections s) a)"

lemma served_row: "snd (snd (row_of a s)) = relays_of (gs_selections s) a"
  by (simp add: row_of_def)

definition cover_row :: "nat \<Rightarrow> relay \<Rightarrow> author_row \<Rightarrow> author_row" where
  "cover_row max_per_user winner row =
     (case row of
        (Some relays, hits, served) \<Rightarrow>
          if winner \<in> relays
          then (if max_per_user \<le> Suc hits \<or> relays - {winner} = {} then None else Some (relays - {winner}), Suc hits, insert winner served)
          else row
      | _ \<Rightarrow> row)"

lemma relays_of_entry:
  "relays_of (bm_entry [] w (bs_insert x) m) a = relays_of m a \<union> (if a = x then {w} else {})"
  by (auto simp: relays_of_def bm_get_entry)

lemma row_of_cover:
  "row_of a (cover_author m w x s) = (if a = x then cover_row m w (row_of a s) else row_of a s)"
proof (cases "map_of (gs_pool s) x")
  case None
  then show ?thesis by (simp add: cover_author_def row_of_def cover_row_def)
next
  case (Some relays)
  have empty: "removeAll w relays = [] \<longleftrightarrow> set relays - {w} = {}" by (metis set_empty set_removeAll)
  show ?thesis
  proof (cases "w \<in> set relays")
    case False
    with Some show ?thesis by (simp add: cover_author_def row_of_def cover_row_def)
  next
    case True
    with Some show ?thesis
      by (auto simp: cover_author_def row_of_def cover_row_def Let_def relays_of_entry hm_get_entry
          hash_map.get_put hash_map.get_del empty)
  qed
qed

lemma row_of_fold_cover:
  "distinct xs \<Longrightarrow> row_of a (fold (cover_author m w) xs s) =
     (if a \<in> set xs then cover_row m w (row_of a s) else row_of a s)"
  by (induction xs arbitrary: s) (auto simp: row_of_cover)

lemma row_of_round:
  assumes "hm_wf (gs_pool s)"
  shows "row_of a (greedy_round m w s) = cover_row m w (row_of a s)"
proof -
  have sel: "row_of a (s\<lparr>gs_selected := w # gs_selected s\<rparr>) = row_of a s" by (simp add: row_of_def)
  show ?thesis
  proof (cases "a \<in> set (map fst (gs_pool s))")
    case True
    then show ?thesis unfolding greedy_round_def using row_of_fold_cover [OF assms] sel by simp
  next
    case False
    then have "map_of (gs_pool s) a = None" by (simp add: map_of_eq_None_iff)
    then have "cover_row m w (row_of a s) = row_of a s" by (simp add: row_of_def cover_row_def)
    with False show ?thesis unfolding greedy_round_def using row_of_fold_cover [OF assms] sel by simp
  qed
qed

text \<open>What holds of an author's row when \<open>selected\<close> has been chosen, \<open>all\<close> the relays able to serve it.\<close>

definition row_ok :: "nat \<Rightarrow> relay set \<Rightarrow> relay set \<Rightarrow> author_row \<Rightarrow> bool" where
  "row_ok max_per_user selected all row \<longleftrightarrow>
     (case row of (pool, hits, served) \<Rightarrow>
        finite served \<and> hits = card served \<and> hits \<le> max_per_user \<and> served \<subseteq> all \<inter> selected \<and>
        (case pool of
           Some relays \<Rightarrow> relays \<noteq> {} \<and> relays = all - selected \<and> served = all \<inter> selected \<and> hits < max_per_user
         | None \<Rightarrow> hits = max_per_user \<or> served = all))"

lemma row_ok_cover:
  assumes ok: "row_ok m selected all row" and w: "w \<notin> selected"
  shows "row_ok m (insert w selected) all (cover_row m w row)"
proof -
  obtain pool hits served where row: "row = (pool, hits, served)" by (cases row)
  show ?thesis
  proof (cases pool)
    case None
    with ok show ?thesis by (auto simp: row row_ok_def cover_row_def)
  next
    case (Some relays)
    with ok have facts: "relays \<noteq> {}" "relays = all - selected" "served = all \<inter> selected" "card served < m"
      "finite served" "hits = card served" by (auto simp: row row_ok_def)
    show ?thesis
    proof (cases "w \<in> relays")
      case False
      with facts Some w show ?thesis by (auto simp: row row_ok_def cover_row_def)
    next
      case True
      have card: "card (insert w served) = Suc hits" using facts w by (simp add: card_insert_if)
      have step: "cover_row m w row = (if m \<le> Suc hits \<or> relays - {w} = {} then None else Some (relays - {w}), Suc hits, insert w served)"
        using True by (simp add: row Some cover_row_def)
      have rest: "relays - {w} = all - insert w selected" "insert w served = all \<inter> insert w selected"
        using facts(2,3) True by blast+
      have done_if: "relays - {w} = {} \<Longrightarrow> insert w served = all" using facts(2,3) True by blast
      have le: "Suc hits \<le> m" using facts(4,6) by simp
      have sub: "insert w served \<subseteq> all \<inter> insert w selected" using rest(2) by blast
      show ?thesis
      proof (cases "m \<le> Suc hits \<or> relays - {w} = {}")
        case True
        then have "Suc hits = m \<or> insert w served = all" using le done_if by linarith
        with True show ?thesis unfolding step row_ok_def using card le sub facts(5) by auto
      next
        case False
        then have "relays - {w} \<noteq> {}" "Suc hits < m" by auto
        moreover have "finite (all \<inter> insert w selected)" using rest(2) facts(5) by (metis finite.insertI)
        ultimately show ?thesis using False unfolding step row_ok_def using card le sub facts(5) rest by simp
      qed
    qed
  qed
qed

definition greedy_inv :: "author_map \<Rightarrow> nat \<Rightarrow> greedy_state \<Rightarrow> bool" where
  "greedy_inv per_relay max_per_user s \<longleftrightarrow>
     hm_wf (gs_pool s) \<and> bm_wf (gs_selections s) \<and> distinct (gs_selected s) \<and>
     hm_keys (gs_selections s) = set (gs_selected s) \<and>
     (\<forall>r \<in> set (gs_selected s). \<exists>a. r \<in> relays_of (gs_selections s) a) \<and>
     (\<forall>a. row_ok max_per_user (set (gs_selected s)) (relays_of per_relay a) (row_of a s))"

text \<open>The inverted pool.\<close>

lemma row_of_entry:
  "map_option set (map_of (hm_entry [] x (List.insert r) m) a) =
     (if a = x then Some (insert r (set (unwrap_or [] (map_of m x)))) else map_option set (map_of m a))"
  by (simp add: hm_get_entry)

lemma invert_pool_inner:
  "set (unwrap_or [] (map_of (fold (\<lambda>author. hm_entry [] author (List.insert r)) as m) a)) =
     set (unwrap_or [] (map_of m a)) \<union> (if a \<in> set as then {r} else {})"
  by (induction as arbitrary: m) (auto simp: hm_get_entry)

definition rows_filled :: "('a \<times> 'b list) list \<Rightarrow> bool" where
  "rows_filled m \<longleftrightarrow> hm_wf m \<and> (\<forall>a. map_of m a \<noteq> Some [])"

lemma rows_filled_inner: "rows_filled m \<Longrightarrow> rows_filled (fold (\<lambda>author. hm_entry [] author (List.insert r)) as m)"
proof (induction as arbitrary: m)
  case (Cons x as)
  have "rows_filled (hm_entry [] x (List.insert r) m)"
    using Cons.prems by (auto simp: rows_filled_def hm_wf_entry hm_get_entry List.insert_def)
  with Cons.IH show ?case by simp
qed simp

lemma relays_of_Cons: "hm_wf ((r, as) # m) \<Longrightarrow> relays_of ((r, as) # m) a = relays_of m a \<union> (if a \<in> set as then {r} else {})"
  by (auto simp: relays_of_def map_of_eq_None_iff [symmetric] split: if_splits)

lemma invert_pool_fold:
  assumes "hm_wf per"
  shows "set (unwrap_or [] (map_of (fold (\<lambda>(relay, authors). fold (\<lambda>author. hm_entry [] author (List.insert relay)) authors) per m) a)) =
           set (unwrap_or [] (map_of m a)) \<union> relays_of per a"
    and "rows_filled m \<Longrightarrow> rows_filled (fold (\<lambda>(relay, authors). fold (\<lambda>author. hm_entry [] author (List.insert relay)) authors) per m)"
  using assms
proof (induction per arbitrary: m)
  case Nil
  { case 1 then show ?case by (simp add: relays_of_def) }
  { case 2 then show ?case by simp }
next
  case (Cons ra per)
  obtain r as where ra: "ra = (r, as)" by (cases ra)
  { case 1
    then show ?case using Cons.IH(1) by (simp add: ra relays_of_Cons invert_pool_inner Un_ac) }
  { case 2
    then show ?case using Cons.IH(2) by (simp add: ra rows_filled_inner) }
qed

lemma invert_pool_rows:
  assumes "hm_wf per"
  shows "map_option set (map_of (invert_pool per) a) = (if relays_of per a = {} then None else Some (relays_of per a))"
    and "hm_wf (invert_pool per)"
proof -
  have filled: "rows_filled (invert_pool per)"
    using invert_pool_fold(2) [OF assms, of "[]"] by (simp add: invert_pool_def rows_filled_def)
  then show "hm_wf (invert_pool per)" by (simp add: rows_filled_def)
  have rows: "set (unwrap_or [] (map_of (invert_pool per) a)) = relays_of per a"
    using invert_pool_fold(1) [OF assms, of "[]"] by (simp add: invert_pool_def)
  show "map_option set (map_of (invert_pool per) a) = (if relays_of per a = {} then None else Some (relays_of per a))"
  proof (cases "map_of (invert_pool per) a")
    case None
    with rows show ?thesis by simp
  next
    case (Some rs)
    with filled have "rs \<noteq> []" by (auto simp: rows_filled_def)
    with rows Some show ?thesis by auto
  qed
qed

lemma greedy_start_inv:
  assumes "hm_wf per" "0 < m"
  shows "greedy_inv per m (greedy_start per)"
proof -
  have "row_ok m {} (relays_of per a) (row_of a (greedy_start per))" for a
    using assms invert_pool_rows(1) [OF assms(1), of a]
    by (auto simp: row_of_def greedy_start_def row_ok_def relays_of_def)
  then show ?thesis using invert_pool_rows(2) [OF assms(1)] by (simp add: greedy_inv_def greedy_start_def)
qed

section \<open>One round\<close>

lemma coverage_keys:
  "hm_keys (count_coverage selected pool) = (\<Union>(_, relays) \<in> set pool. set relays) - set selected"
proof -
  have inner: "hm_keys (fold (\<lambda>r c. if r \<in> set selected then c else hm_entry 0 r Suc c) relays c) =
      hm_keys c \<union> (set relays - set selected)" for relays and c :: "(relay \<times> nat) list"
    by (induction relays arbitrary: c) auto
  have "hm_keys (fold (\<lambda>relays. fold (\<lambda>r c. if r \<in> set selected then c else hm_entry 0 r Suc c) relays) rss c) =
      hm_keys c \<union> ((\<Union>relays \<in> set rss. set relays) - set selected)" for rss and c :: "(relay \<times> nat) list"
    by (induction rss arbitrary: c) (auto simp: inner)
  then show ?thesis by (auto simp: count_coverage_def)
qed

lemma pick_winner_Some:
  assumes "pick_winner selected pool = Some w"
  shows "w \<notin> set selected \<and> (\<exists>a relays. (a, relays) \<in> set pool \<and> w \<in> set relays)"
proof -
  obtain c where "max_by coverage_le (count_coverage selected pool) = Some (w, c)"
    using assms by (auto simp: pick_winner_def)
  then have "w \<in> hm_keys (count_coverage selected pool)" using max_by_mem by (force simp: hm_keys_def)
  then show ?thesis by (auto simp: coverage_keys)
qed

lemma pick_winner_None:
  "pick_winner selected pool = None \<longleftrightarrow> (\<Union>(_, relays) \<in> set pool. set relays) \<subseteq> set selected"
proof -
  have "pick_winner selected pool = None \<longleftrightarrow> hm_keys (count_coverage selected pool) = {}"
    by (simp add: pick_winner_def hm_keys_def)
  then show ?thesis by (simp add: coverage_keys)
qed

lemma cover_frame:
  "hm_wf (gs_pool s) \<Longrightarrow> hm_wf (gs_pool (cover_author m w a s))"
  "bm_wf (gs_selections s) \<Longrightarrow> bm_wf (gs_selections (cover_author m w a s))"
  "hm_keys (gs_selections s) \<subseteq> hm_keys (gs_selections (cover_author m w a s))"
  "hm_keys (gs_selections (cover_author m w a s)) \<subseteq> insert w (hm_keys (gs_selections s))"
  by (auto simp: cover_author_def Let_def AList.distinct_update AList.distinct_delete bm_wf_entry split: option.splits)

lemma round_frame:
  "hm_wf (gs_pool s) \<Longrightarrow> hm_wf (gs_pool (greedy_round m w s))"
  "bm_wf (gs_selections s) \<Longrightarrow> bm_wf (gs_selections (greedy_round m w s))"
  "hm_keys (gs_selections s) \<subseteq> hm_keys (gs_selections (greedy_round m w s))"
  "hm_keys (gs_selections (greedy_round m w s)) \<subseteq> insert w (hm_keys (gs_selections s))"
proof -
  have fold_frame: "(hm_wf (gs_pool t) \<longrightarrow> hm_wf (gs_pool (fold (cover_author m w) as t))) \<and>
      (bm_wf (gs_selections t) \<longrightarrow> bm_wf (gs_selections (fold (cover_author m w) as t))) \<and>
      hm_keys (gs_selections t) \<subseteq> hm_keys (gs_selections (fold (cover_author m w) as t)) \<and>
      hm_keys (gs_selections (fold (cover_author m w) as t)) \<subseteq> insert w (hm_keys (gs_selections t))" for as t
  proof (induction as arbitrary: t)
    case (Cons a as)
    show ?case using Cons [of "cover_author m w a t"] cover_frame [where s = t and m = m and w = w and a = a] by auto
  qed auto
  from this [of "s\<lparr>gs_selected := w # gs_selected s\<rparr>" "map fst (gs_pool s)"]
   show "hm_wf (gs_pool s) \<Longrightarrow> hm_wf (gs_pool (greedy_round m w s))"
    "bm_wf (gs_selections s) \<Longrightarrow> bm_wf (gs_selections (greedy_round m w s))"
    "hm_keys (gs_selections s) \<subseteq> hm_keys (gs_selections (greedy_round m w s))"
    "hm_keys (gs_selections (greedy_round m w s)) \<subseteq> insert w (hm_keys (gs_selections s))"
    by (simp_all add: greedy_round_def)
qed

lemma relays_of_iff: "r \<in> relays_of m a \<longleftrightarrow> (\<exists>as. map_of m r = Some as \<and> a \<in> set as)"
  by (cases "map_of m r") (auto simp: relays_of_def)

lemma relays_of_key: "r \<in> relays_of m a \<Longrightarrow> r \<in> hm_keys m"
  by (cases "map_of m r") (auto simp: relays_of_def hm_keys_map_of)

lemma greedy_round_inv:
  assumes inv: "greedy_inv per m s" and win: "pick_winner (gs_selected s) (gs_pool s) = Some w"
  shows "greedy_inv per m (greedy_round m w s)"
proof -
  have wf: "hm_wf (gs_pool s)" using inv by (simp add: greedy_inv_def)
  obtain a relays where w: "w \<notin> set (gs_selected s)" and a: "(a, relays) \<in> set (gs_pool s)" "w \<in> set relays"
    using pick_winner_Some [OF win] by blast
  have "map_of (gs_pool s) a = Some relays" using a(1) hm_mem_iff [OF wf] by simp
  then have "w \<in> snd (snd (cover_row m w (row_of a s)))"
    using a(2) by (simp add: cover_row_def row_of_def)
  then have served: "w \<in> relays_of (gs_selections (greedy_round m w s)) a" 
    by (simp only: row_of_round [OF wf, symmetric] served_row)
  have grow: "relays_of (gs_selections s) b \<subseteq> relays_of (gs_selections (greedy_round m w s)) b" for b
  proof -
    have "snd (snd row) \<subseteq> snd (snd (cover_row m w row))" for row
      by (cases row) (auto simp: cover_row_def split: option.splits)
    from this [of "row_of b s"] show ?thesis by (simp only: row_of_round [OF wf, symmetric] served_row)
  qed
  have "w \<in> hm_keys (gs_selections (greedy_round m w s))" using served by (rule relays_of_key)
  then have "hm_keys (gs_selections (greedy_round m w s)) = insert w (set (gs_selected s))"
    using round_frame(3,4) [where s = s and m = m and w = w] inv by (auto simp: greedy_inv_def)
  moreover have "\<exists>b. r \<in> relays_of (gs_selections (greedy_round m w s)) b" if "r \<in> insert w (set (gs_selected s))" for r
    using that served grow inv by (fastforce simp: greedy_inv_def)
  ultimately show ?thesis
    using inv w round_frame [where s = s and m = m and w = w] row_of_round [OF wf] row_ok_cover [OF _ w]
    by (simp add: greedy_inv_def)
qed

text \<open>The loop ends with the budget spent or every author settled.\<close>

lemma greedy_loop_inv:
  assumes "greedy_inv per m s" "length (gs_selected s) \<le> c"
  shows "greedy_inv per m (greedy_loop c m s) \<and> length (gs_selected (greedy_loop c m s)) \<le> c \<and>
    (gs_pool (greedy_loop c m s) = [] \<or> length (gs_selected (greedy_loop c m s)) = c)"
  using assms
proof (induction c m s rule: greedy_loop.induct)
  case (1 c m s)
  show ?case
  proof (cases "gs_pool s = [] \<or> c \<le> length (gs_selected s)")
    case True
    then show ?thesis using "1.prems" by (subst (1 2 3 4) greedy_loop.simps) auto
  next
    case False
    show ?thesis
    proof (cases "pick_winner (gs_selected s) (gs_pool s)")
      case None
      obtain a relays rest where pool: "gs_pool s = (a, relays) # rest" using False by (cases "gs_pool s") auto
      have "row_ok m (set (gs_selected s)) (relays_of per a) (row_of a s)" using "1.prems"(1) by (simp add: greedy_inv_def)
      then have "relays \<noteq> [] \<and> set relays = relays_of per a - set (gs_selected s)"
        by (simp add: row_ok_def row_of_def pool)
      then have "relays \<noteq> []" "\<And>r. r \<in> set relays \<Longrightarrow> r \<notin> set (gs_selected s)" by simp_all
      moreover have "set relays \<subseteq> set (gs_selected s)" using None by (auto simp: pick_winner_None pool)
      ultimately have False by (cases relays) auto
      then show ?thesis by simp
    next
      case (Some w)
      have step: "greedy_loop c m s = greedy_loop c m (greedy_round m w s)"
        using False Some by (subst greedy_loop.simps) simp
      show ?thesis unfolding step
        using "1.IH" [OF False Some] greedy_round_inv [OF "1.prems"(1) Some] False by simp
    qed
  qed
qed

section \<open>The oracle\<close>

lemma finite_relays_of [simp]: "finite (relays_of m a)"
proof -
  have "relays_of m a \<subseteq> hm_keys m" using relays_of_key by blast
  then show ?thesis by (rule finite_subset) (simp add: hm_keys_def)
qed

lemma greedy_select_oracle:
  assumes wf: "hm_wf per" and sel: "out = greedy_select per c m"
  shows "bm_wf out" and "length out \<le> c" and "card (relays_of out a) \<le> m" and "relays_of out a \<subseteq> relays_of per a"
    and "0 < m \<Longrightarrow> length out < c \<Longrightarrow> card (relays_of out a) = min m (card (relays_of per a))"
    and "r \<in> hm_keys out \<Longrightarrow> \<exists>a. r \<in> relays_of out a"
proof -
  define s where "s = greedy_loop c m (greedy_start per)"
  have inv: "greedy_inv per m s" "length (gs_selected s) \<le> c" "gs_pool s = [] \<or> length (gs_selected s) = c" if "0 < m"
    using greedy_loop_inv [OF greedy_start_inv [OF wf that], of c] by (simp_all add: s_def greedy_start_def)
  have len: "length (gs_selections s) = length (gs_selected s)" if "0 < m"
  proof -
    have "distinct (map fst (gs_selections s))" "set (map fst (gs_selections s)) = set (gs_selected s)" "distinct (gs_selected s)"
      using inv(1) [OF that] by (simp_all add: greedy_inv_def hm_keys_def bm_wf_distinct)
    then show ?thesis by (metis distinct_card length_map)
  qed
  have row: "row_ok m (set (gs_selected s)) (relays_of per a) (row_of a s)" if "0 < m"
    using inv(1) [OF that] by (simp add: greedy_inv_def)
  show "\<exists>a. r \<in> relays_of out a" if "r \<in> hm_keys out"
    using inv(1) that by (cases "c = 0 \<or> m = 0") (auto simp: sel greedy_select_def s_def greedy_inv_def)
  show "bm_wf out" using inv(1) by (simp add: sel greedy_select_def s_def greedy_inv_def)
  show "length out \<le> c" using inv(2) len by (simp add: sel greedy_select_def s_def)
  show "card (relays_of out a) \<le> m" using row
    by (cases "c = 0 \<or> m = 0") (auto simp: sel greedy_select_def s_def row_ok_def row_of_def relays_of_def [of "[]"])
  show "relays_of out a \<subseteq> relays_of per a" using row
    by (cases "c = 0 \<or> m = 0") (auto simp: sel greedy_select_def s_def row_ok_def row_of_def relays_of_def [of "[]"])
  show "card (relays_of out a) = min m (card (relays_of per a))" if m: "0 < m" and lt: "length out < c"
  proof -
    have out: "out = gs_selections s" using m lt by (auto simp: sel greedy_select_def s_def)
    have "gs_pool s = []" using inv(3) [OF m] len [OF m] lt out by simp
    then have "card (relays_of out a) = m \<or> relays_of out a = relays_of per a" "card (relays_of out a) \<le> m"
      "relays_of out a \<subseteq> relays_of per a"
      using row [OF m] by (auto simp: row_ok_def row_of_def out)
    then show ?thesis using card_mono [OF finite_relays_of, of "relays_of out a" per a] by (auto simp: min_def)
  qed
qed

text \<open>Backfilling adds only relays without authors and stays within the budget.\<close>

lemma relays_of_backfill [simp]: "relays_of (backfill c per out) a = relays_of out a"
proof (induction c per out rule: backfill.induct)
  case (2 c r as rest out)
  have "relays_of (bm_insert r [] out) a = relays_of out a" if "r \<notin> hm_keys out"
    using that by (auto simp: relays_of_def map_of_bm_insert hm_keys_map_of split: if_splits)
  with 2 show ?case by (auto simp: Let_def)
qed simp

lemma backfill_length: "length out < c \<Longrightarrow> bm_wf out \<Longrightarrow> length (backfill c per out) \<le> c"
proof (induction c per out rule: backfill.induct)
  case (2 c r as rest out)
  have "length (bm_insert r [] out) \<le> Suc (length out)"
    by (induction r "[]::pubkey list" out rule: bm_insert.induct) auto
  with 2 show ?case by (auto simp: Let_def bm_wf_insert)
qed simp

lemma backfill_keys: "hm_keys out \<subseteq> hm_keys (backfill c per out)"
  by (induction c per out rule: backfill.induct) (auto simp: Let_def)

lemma select_relays_length:
  "hm_wf per \<Longrightarrow> length (select_relays per c m) \<le> c"
  using greedy_select_oracle(1,2) [of per _ c m] by (auto simp: select_relays_def Let_def intro: backfill_length)

lemma relays_of_select [simp]: "relays_of (select_relays per c m) a = relays_of (greedy_select per c m) a"
  by (simp add: select_relays_def Let_def)

section \<open>The pass, relay by relay\<close>

text \<open>The relays the pass may drop.\<close>

definition greedy_relay :: "relay_plan \<Rightarrow> bool" where
  "greedy_relay rp \<longleftrightarrow> \<not> relay_bypasses_selection (rp_role_tags rp)"

text \<open>The relays subject to selection that an author is asked at.\<close>

definition servers :: "compiled_plan \<Rightarrow> pubkey \<Rightarrow> relay set" where
  "servers plan a = {r. \<exists>rp. map_of (cp_per_relay plan) r = Some rp \<and> greedy_relay rp \<and> a \<in> set (plan_authors rp)}"

definition hashes_ok :: "(interest_shape \<Rightarrow> string option) \<Rightarrow> relay_plan \<Rightarrow> bool" where
  "hashes_ok to_json rp \<longleftrightarrow>
     list_all (\<lambda>sub. ss_canonical_filter_hash sub = canonical_filter_hash to_json (ss_shape sub)) (rp_sub_shapes rp)"

text \<open>What narrowing a sub-shape may do to it.\<close>

definition narrows :: "pubkey list \<Rightarrow> sub_shape \<Rightarrow> sub_shape \<Rightarrow> bool" where
  "narrows allowed sub sub' \<longleftrightarrow>
     ss_shape sub' = (ss_shape sub)\<lparr>sh_authors := sh_authors (ss_shape sub')\<rparr> \<and>
     ss_originating_interests sub' = ss_originating_interests sub \<and>
     set (sh_authors (ss_shape sub')) = set (sh_authors (ss_shape sub)) \<inter> set allowed \<and>
     (sh_authors (ss_shape sub') = [] \<longleftrightarrow> sh_authors (ss_shape sub) = [])"

lemma set_plan_authors: "set (plan_authors rp) = (\<Union>sub \<in> set (rp_sub_shapes rp). set (sh_authors (ss_shape sub)))"
proof -
  have "set (fold (\<lambda>sub acc. bs_extend acc (sh_authors (ss_shape sub))) subs acc) =
      set acc \<union> (\<Union>sub \<in> set subs. set (sh_authors (ss_shape sub)))" for subs :: "sub_shape list" and acc
    by (induction subs arbitrary: acc) auto
  then show ?thesis by (simp add: plan_authors_def)
qed

lemma narrow_sub_narrows: "narrow_sub to_json allowed sub = Some sub' \<Longrightarrow> narrows allowed sub sub'"
  by (auto simp: narrow_sub_def narrows_def Let_def recompute_hash_def split: if_splits)

lemma narrow_sub_hash:
  assumes "narrow_sub to_json allowed sub = Some sub'"
    and "ss_canonical_filter_hash sub = canonical_filter_hash to_json (ss_shape sub)"
  shows "ss_canonical_filter_hash sub' = canonical_filter_hash to_json (ss_shape sub')"
proof (cases "sh_authors (ss_shape sub) = []")
  case True
  with assms show ?thesis by (simp add: narrow_sub_def)
next
  case False
  define kept where "kept = filter (\<lambda>a. a \<in> set allowed) (sh_authors (ss_shape sub))"
  have sub': "sub' = (if length kept \<noteq> length (sh_authors (ss_shape sub))
      then recompute_hash to_json (sub\<lparr>ss_shape := (ss_shape sub)\<lparr>sh_authors := kept\<rparr>\<rparr>)
      else sub\<lparr>ss_shape := (ss_shape sub)\<lparr>sh_authors := kept\<rparr>\<rparr>)"
    using assms(1) False by (simp add: narrow_sub_def Let_def kept_def split: if_splits)
  show ?thesis
  proof (cases "length kept = length (sh_authors (ss_shape sub))")
    case True
    then have "kept = sh_authors (ss_shape sub)" unfolding kept_def by (metis filter_id_conv length_filter_less less_irrefl)
    with True sub' assms(2) show ?thesis by simp
  next
    case False
    with sub' show ?thesis by (simp add: recompute_hash_def)
  qed
qed

lemma narrow_sub_keeps:
  "a \<in> set (sh_authors (ss_shape sub)) \<Longrightarrow> a \<in> set allowed \<Longrightarrow> narrow_sub to_json allowed sub \<noteq> None"
  by (auto simp: narrow_sub_def Let_def filter_empty_conv)

lemma narrow_relay_SomeD:
  assumes "narrow_relay to_json allowed rp = Some rp'"
  shows "rp_relay_url rp' = rp_relay_url rp" and "rp_role_tags rp' = rp_role_tags rp"
    and "rp_sub_shapes rp' = List.map_filter (narrow_sub to_json allowed) (rp_sub_shapes rp)"
    and "rp_attribution rp' = narrow_attribution allowed (rp_sub_shapes rp') (rp_attribution rp)"
    and "rp_sub_shapes rp' \<noteq> []"
  using assms by (auto simp: narrow_relay_def Let_def split: if_splits)

lemma narrowed_authors:
  assumes "narrow_relay to_json allowed rp = Some rp'"
  shows "set (plan_authors rp') = set (plan_authors rp) \<inter> set allowed"
proof (intro equalityI subsetI)
  fix a
  assume "a \<in> set (plan_authors rp')"
  then obtain sub sub' where "sub \<in> set (rp_sub_shapes rp)" "narrow_sub to_json allowed sub = Some sub'" "a \<in> set (sh_authors (ss_shape sub'))"
    by (auto simp: set_plan_authors narrow_relay_SomeD(3) [OF assms] set_map_filter_iff)
  then show "a \<in> set (plan_authors rp) \<inter> set allowed"
    using narrow_sub_narrows by (auto simp: set_plan_authors narrows_def)
next
  fix a
  assume a: "a \<in> set (plan_authors rp) \<inter> set allowed"
  then obtain sub where sub: "sub \<in> set (rp_sub_shapes rp)" "a \<in> set (sh_authors (ss_shape sub))" by (auto simp: set_plan_authors)
  with a obtain sub' where "narrow_sub to_json allowed sub = Some sub'" using narrow_sub_keeps by blast
  with a sub show "a \<in> set (plan_authors rp')"
    using narrow_sub_narrows [of to_json allowed sub sub']
    by (auto simp: set_plan_authors narrow_relay_SomeD(3) [OF assms] set_map_filter_iff narrows_def)
qed

lemma narrow_relay_keeps:
  assumes "a \<in> set (plan_authors rp)" "a \<in> set allowed"
  shows "narrow_relay to_json allowed rp \<noteq> None"
proof -
  obtain sub where "sub \<in> set (rp_sub_shapes rp)" "a \<in> set (sh_authors (ss_shape sub))" using assms(1) by (auto simp: set_plan_authors)
  then obtain sub' where "sub' \<in> set (List.map_filter (narrow_sub to_json allowed) (rp_sub_shapes rp))"
    using narrow_sub_keeps assms(2) by (fastforce simp: set_map_filter_iff)
  then show ?thesis by (auto simp: narrow_relay_def Let_def)
qed

lemma map_of_map_filter:
  assumes "hm_wf m" "\<And>k v k' v'. f (k, v) = Some (k', v') \<Longrightarrow> k' = k"
  shows "map_of (List.map_filter f m) k = (case map_of m k of None \<Rightarrow> None | Some v \<Rightarrow> map_option snd (f (k, v)))"
  using assms(1)
proof (induction m)
  case Nil
  then show ?case by (simp add: List.map_filter_simps)
next
  case (Cons kv m)
  obtain k' v where kv: "kv = (k', v)" by (cases kv)
  show ?case
  proof (cases "f (k', v)")
    case None
    then have "map_of (List.map_filter f (kv # m)) k = map_of (List.map_filter f m) k" by (simp add: kv List.map_filter_simps)
    moreover have "map_of m k' = None" using Cons.prems by (simp add: kv map_of_eq_None_iff)
    ultimately show ?thesis using Cons None by (auto simp: kv)
  next
    case (Some kw)
    then obtain w where "kw = (k', w)" using assms(2) by (cases kw) blast
    with Some Cons show ?thesis by (auto simp: kv List.map_filter_simps)
  qed
qed

lemma pinned_iff: "hm_wf (cp_per_relay plan) \<Longrightarrow> map_of (cp_per_relay plan) r = Some rp \<Longrightarrow>
    r \<in> set (selection_pinned plan) \<longleftrightarrow> \<not> greedy_relay rp"
proof -
  assume wf: "hm_wf (cp_per_relay plan)" and rp: "map_of (cp_per_relay plan) r = Some rp"
  have "(r, rp') \<in> set (cp_per_relay plan) \<longleftrightarrow> rp' = rp" for rp' using hm_mem_iff [OF wf, of r rp'] rp by auto
  then show ?thesis by (force simp: selection_pinned_def greedy_relay_def)
qed

definition selected_authors :: "nat \<Rightarrow> nat \<Rightarrow> (pubkey \<Rightarrow> relay \<Rightarrow> bool) option \<Rightarrow> compiled_plan \<Rightarrow> author_map" where
  "selected_authors c m lookup plan = select_relays (warm_filter lookup (nip65_only plan) (raw_per_relay_authors plan)) c m"

lemma project_key: "project_relay to_json pinned out (k, rp) = Some (k', rp') \<Longrightarrow> k' = k"
  by (auto simp: project_relay_def split: if_splits option.splits)

lemma apply_selection_relay:
  assumes wf: "hm_wf (cp_per_relay plan)"
  shows "map_of (cp_per_relay (apply_selection_with_lookup to_json c m lookup plan)) r =
    (case map_of (cp_per_relay plan) r of
       None \<Rightarrow> None
     | Some rp \<Rightarrow>
         if \<not> greedy_relay rp then Some rp
         else case map_of (selected_authors c m lookup plan) r of None \<Rightarrow> None | Some allowed \<Rightarrow> narrow_relay to_json allowed rp)"
proof -
  define out where "out = selected_authors c m lookup plan"
  have rows: "cp_per_relay (apply_selection_with_lookup to_json c m lookup plan) =
      List.map_filter (project_relay to_json (selection_pinned plan) out) (cp_per_relay plan)"
    by (simp add: apply_selection_with_lookup_def Let_def out_def selected_authors_def)
  have step: "map_of (List.map_filter (project_relay to_json (selection_pinned plan) out) (cp_per_relay plan)) r =
      (case map_of (cp_per_relay plan) r of None \<Rightarrow> None
       | Some rp \<Rightarrow> map_option snd (project_relay to_json (selection_pinned plan) out (r, rp)))"
    by (rule map_of_map_filter [OF wf]) (rule project_key)
  show ?thesis
  proof (cases "map_of (cp_per_relay plan) r")
    case None
    with step rows show ?thesis by simp
  next
    case (Some rp)
    from pinned_iff [OF wf Some] show ?thesis
      unfolding rows step out_def [symmetric] Some
      by (simp add: project_relay_def option.map_comp comp_def option.map_ident split: option.splits)
  qed
qed

lemma selection_wf:
  assumes "bm_wf (cp_per_relay plan)"
  shows "bm_wf (cp_per_relay (apply_selection_with_lookup to_json c m lookup plan))"
proof -
  have sub: "fst ` set (List.map_filter (project_relay to_json pinned out) rows) \<subseteq> fst ` set rows" for pinned out rows
    using project_key by (force simp: set_map_filter_iff)
  have "bm_wf rows \<Longrightarrow> bm_wf (List.map_filter (project_relay to_json pinned out) rows)" for pinned out rows
  proof (induction rows)
    case (Cons row rows)
    obtain k rp where row: "row = (k, rp)" by (cases row)
    have "\<forall>x \<in> fst ` set rows. k < x" using Cons.prems by (simp add: row)
    then have below: "\<forall>x \<in> fst ` set (List.map_filter (project_relay to_json pinned out) rows). k < x"
      using sub [of pinned out rows] by blast
    show ?case
    proof (cases "project_relay to_json pinned out row")
      case None
      with Cons show ?thesis by (simp add: List.map_filter_simps)
    next
      case (Some row')
      then obtain rp' where "row' = (k, rp')" using project_key row by (cases row') blast
      with Some Cons below show ?thesis by (simp add: List.map_filter_simps)
    qed
  qed (simp add: List.map_filter_simps)
  with assms show ?thesis by (simp add: apply_selection_with_lookup_def Let_def)
qed

lemma relays_of_raw: "hm_wf (cp_per_relay plan) \<Longrightarrow> relays_of (raw_per_relay_authors plan) a = servers plan a"
proof -
  assume wf: "hm_wf (cp_per_relay plan)"
  have keep: "map_of (filter (\<lambda>(k, _). k \<notin> S) m) r = (if r \<in> S then None else map_of m r)"
    for S r and m :: "(relay \<times> relay_plan) list" by (induction m) auto
  have "map_of (raw_per_relay_authors plan) r =
      (if r \<in> set (selection_pinned plan) then None else map_option plan_authors (map_of (cp_per_relay plan) r))" for r
    unfolding raw_per_relay_authors_def by (simp add: map_of_map_values keep)
  then have "r \<in> relays_of (raw_per_relay_authors plan) a \<longleftrightarrow> r \<in> servers plan a" for r
    using pinned_iff [OF wf, of r] by (cases "map_of (cp_per_relay plan) r") (auto simp: relays_of_iff servers_def)
  then show ?thesis by blast
qed

lemma raw_wf: "hm_wf (cp_per_relay plan) \<Longrightarrow> hm_wf (raw_per_relay_authors plan)"
  by (simp add: raw_per_relay_authors_def comp_def split_def distinct_map_filter)

lemma warm_filter_wf: "hm_wf raw \<Longrightarrow> hm_wf (warm_filter lookup nip65 raw)"
  by (simp add: warm_filter_def Let_def comp_def split_def split: option.splits)

lemma set_author_has_warm:
  "set (author_has_warm is_warm nip65 raw) = {a. \<exists>(r, as) \<in> set raw. r \<in> set nip65 \<and> a \<in> set as \<and> is_warm a r}"
proof -
  have "set (fold (\<lambda>(relay, authors) acc. if relay \<notin> set nip65 then acc
             else bs_extend acc (filter (\<lambda>a. is_warm a relay) authors)) raw acc) =
        set acc \<union> {a. \<exists>(r, as) \<in> set raw. r \<in> set nip65 \<and> a \<in> set as \<and> is_warm a r}" for acc
    by (induction raw arbitrary: acc) (auto split: if_splits)
  then show ?thesis by (simp add: author_has_warm_def)
qed

text \<open>The warm filter drops pairs, but never an author's last one.\<close>

lemma relays_of_warm:
  assumes "hm_wf raw"
  shows "relays_of (warm_filter lookup nip65 raw) a \<subseteq> relays_of raw a"
    and "relays_of raw a \<noteq> {} \<Longrightarrow> relays_of (warm_filter lookup nip65 raw) a \<noteq> {}"
proof -
  show sub: "relays_of (warm_filter lookup nip65 raw) a \<subseteq> relays_of raw a"
    by (cases lookup) (auto simp: warm_filter_def Let_def relays_of_iff map_of_map_values split: if_splits)
  show "relays_of (warm_filter lookup nip65 raw) a \<noteq> {}" if some: "relays_of raw a \<noteq> {}"
  proof (cases lookup)
    case None
    with some show ?thesis by (simp add: warm_filter_def)
  next
    case (Some is_warm)
    have kept: "r \<in> relays_of (warm_filter lookup nip65 raw) a"
      if raw: "r \<in> relays_of raw a" and why: "r \<notin> set nip65 \<or> is_warm a r \<or> a \<notin> set (author_has_warm is_warm nip65 raw)" for r
    proof -
      obtain as where "map_of raw r = Some as" "a \<in> set as" using raw by (auto simp: relays_of_iff)
      with why show ?thesis by (auto simp: Some warm_filter_def Let_def relays_of_def map_of_map_values)
    qed
    show ?thesis
    proof (cases "a \<in> set (author_has_warm is_warm nip65 raw)")
      case False
      with some kept show ?thesis by blast
    next
      case True
      then obtain r as where "(r, as) \<in> set raw" "r \<in> set nip65" "a \<in> set as" "is_warm a r"
        by (auto simp: set_author_has_warm)
      then have "r \<in> relays_of raw a" using hm_mem_iff [OF assms] by (simp add: relays_of_iff)
      with kept \<open>is_warm a r\<close> show ?thesis by blast
    qed
  qed
qed

text \<open>The relays an author is asked at after the pass are those the oracle chose.\<close>

lemma servers_oracle:
  assumes wf: "hm_wf (cp_per_relay plan)"
  shows "servers (apply_selection_with_lookup to_json c m lookup plan) a = relays_of (selected_authors c m lookup plan) a"
proof (intro equalityI subsetI)
  fix r
  assume "r \<in> servers (apply_selection_with_lookup to_json c m lookup plan) a"
  then obtain rp rp' allowed where "map_of (selected_authors c m lookup plan) r = Some allowed" "narrow_relay to_json allowed rp = Some rp'"
    "a \<in> set (plan_authors rp')"
    by (auto simp: servers_def apply_selection_relay [OF wf] split: option.splits if_splits)
  then show "r \<in> relays_of (selected_authors c m lookup plan) a" using narrowed_authors by (auto simp: relays_of_iff)
next
  fix r
  assume r: "r \<in> relays_of (selected_authors c m lookup plan) a"
  have "relays_of (selected_authors c m lookup plan) a \<subseteq> relays_of (warm_filter lookup (nip65_only plan) (raw_per_relay_authors plan)) a"
    unfolding selected_authors_def relays_of_select using greedy_select_oracle(4) [OF warm_filter_wf [OF raw_wf [OF wf]] refl] .
  then have "r \<in> servers plan a" using r relays_of_warm(1) [OF raw_wf [OF wf]] relays_of_raw [OF wf] by blast
  then obtain rp where rp: "map_of (cp_per_relay plan) r = Some rp" "greedy_relay rp" "a \<in> set (plan_authors rp)"
    by (auto simp: servers_def)
  obtain allowed where allowed: "map_of (selected_authors c m lookup plan) r = Some allowed" "a \<in> set allowed"
    using r by (cases "map_of (selected_authors c m lookup plan) r") (auto simp: relays_of_def)
  obtain rp' where rp': "narrow_relay to_json allowed rp = Some rp'" using narrow_relay_keeps [OF rp(3) allowed(2)] by blast
  have "greedy_relay rp'" using rp(2) narrow_relay_SomeD(2) [OF rp'] by (simp add: greedy_relay_def)
  moreover have "a \<in> set (plan_authors rp')" using narrowed_authors [OF rp'] rp(3) allowed(2) by simp
  ultimately show "r \<in> servers (apply_selection_with_lookup to_json c m lookup plan) a"
    using rp allowed rp' by (simp add: servers_def apply_selection_relay [OF wf])
qed

section \<open>What selection guarantees\<close>

text \<open>With connections to spare the loop has settled every author.\<close>

lemma selection_complete:
  assumes "bm_wf (cp_per_relay plan)" and "0 < m"
    and plan': "plan' = apply_selection_with_lookup to_json c m lookup plan"
    and spare: "length (filter (\<lambda>(_, rp). greedy_relay rp) (cp_per_relay plan')) < c"
  shows "card (servers plan' a) = min m (card (relays_of (warm_filter lookup (nip65_only plan) (raw_per_relay_authors plan)) a))"
proof -
  have wf: "hm_wf (cp_per_relay plan)" using assms(1) by (rule bm_wf_distinct)
  define per where "per = warm_filter lookup (nip65_only plan) (raw_per_relay_authors plan)"
  have per: "hm_wf per" unfolding per_def by (rule warm_filter_wf [OF raw_wf [OF wf]])
  define out where "out = greedy_select per c m"
  have served: "servers plan' a = relays_of out a" for a
    unfolding plan' servers_oracle [OF wf] by (simp add: selected_authors_def out_def per_def)
  have "hm_keys out \<subseteq> fst ` set (filter (\<lambda>(_, rp). greedy_relay rp) (cp_per_relay plan'))"
  proof
    fix r
    assume "r \<in> hm_keys out"
    then obtain b where "r \<in> servers plan' b" unfolding served using greedy_select_oracle(6) [OF per out_def] by blast
    then obtain rp where "map_of (cp_per_relay plan') r = Some rp" "greedy_relay rp" by (auto simp: servers_def)
    then show "r \<in> fst ` set (filter (\<lambda>(_, rp). greedy_relay rp) (cp_per_relay plan'))"
      by (force dest: map_of_SomeD)
  qed
  then have "card (hm_keys out) \<le> card (fst ` set (filter (\<lambda>(_, rp). greedy_relay rp) (cp_per_relay plan')))"
    by (rule card_mono [rotated]) simp
  also have "\<dots> \<le> length (filter (\<lambda>(_, rp). greedy_relay rp) (cp_per_relay plan'))"
    by (metis card_length length_map list.set_map)
  finally have "card (hm_keys out) < c" using spare by simp
  moreover have "card (hm_keys out) = length out"
    using bm_wf_distinct [OF greedy_select_oracle(1) [OF per out_def]] by (metis distinct_card hm_keys_def length_map list.set_map)
  ultimately show ?thesis
    using greedy_select_oracle(5) [OF per out_def assms(2)] by (simp add: served per_def)
qed

text \<open>C20. The connection budget holds: after selection at most \<open>max_connections\<close> relays are left besides
  those that bypass it, and every author is asked at no more than \<open>max_per_user\<close> of them, all of them
  relays it was asked at before.\<close>

theorem selection_bounds:
  assumes "bm_wf (cp_per_relay plan)"
    and plan'_def: "plan' = apply_selection_with_lookup to_json max_connections max_per_user lookup plan"
  shows "length (filter (\<lambda>(_, rp). greedy_relay rp) (cp_per_relay plan')) \<le> max_connections \<and>
    (\<forall>a. card (servers plan' a) \<le> max_per_user) \<and> (\<forall>a. servers plan' a \<subseteq> servers plan a)"
proof (intro conjI allI)
  have wf: "hm_wf (cp_per_relay plan)" using assms(1) by (rule bm_wf_distinct)
  have per: "hm_wf (warm_filter lookup (nip65_only plan) (raw_per_relay_authors plan))"
    by (rule warm_filter_wf [OF raw_wf [OF wf]])
  have wf': "hm_wf (cp_per_relay plan')" unfolding plan'_def by (rule bm_wf_distinct [OF selection_wf [OF assms(1)]])
  define out where "out = selected_authors max_connections max_per_user lookup plan"
  define left where "left = filter (\<lambda>(_, rp). greedy_relay rp) (cp_per_relay plan')"
  have "set (map fst left) \<subseteq> hm_keys out"
  proof
    fix r
    assume "r \<in> set (map fst left)"
    then obtain rp where "(r, rp) \<in> set (cp_per_relay plan')" "greedy_relay rp" by (auto simp: left_def)
    then have "map_of (cp_per_relay plan') r = Some rp" "greedy_relay rp" using hm_mem_iff [OF wf'] by auto
    then show "r \<in> hm_keys out"
      by (auto simp: plan'_def apply_selection_relay [OF wf] out_def hm_keys_map_of split: option.splits if_splits)
  qed
  then have "card (set (map fst left)) \<le> card (hm_keys out)" by (rule card_mono [rotated]) (simp add: hm_keys_def)
  also have "\<dots> \<le> length out" unfolding hm_keys_def by (metis card_length length_map list.set_map)
  also have "\<dots> \<le> max_connections" unfolding out_def selected_authors_def by (rule select_relays_length [OF per])
  also have "card (set (map fst left)) = length left"
    using wf' by (metis distinct_card distinct_map_filter left_def length_map)
  finally show "length (filter (\<lambda>(_, rp). greedy_relay rp) (cp_per_relay plan')) \<le> max_connections" by (simp add: left_def)
  fix a
  have served: "servers plan' a = relays_of (greedy_select (warm_filter lookup (nip65_only plan) (raw_per_relay_authors plan)) max_connections max_per_user) a"
    unfolding plan'_def servers_oracle [OF wf] by (simp add: selected_authors_def)
  show "card (servers plan' a) \<le> max_per_user" unfolding served by (rule greedy_select_oracle(3) [OF per refl])
  show "servers plan' a \<subseteq> servers plan a" unfolding served
    using greedy_select_oracle(4) [OF per refl] relays_of_warm(1) [OF raw_wf [OF wf]] relays_of_raw [OF wf] by blast
qed

text \<open>C21. Nothing is lost while connections are left: if fewer than \<open>max_connections\<close> of the relays
  subject to selection remain, every author is asked at as many relays as before, or at
  \<open>max_per_user\<close> when it was asked at more.\<close>

theorem selection_exact:
  assumes "bm_wf (cp_per_relay plan)" and "0 < max_per_user"
    and plan'_def: "plan' = apply_selection to_json max_connections max_per_user plan"
    and spare: "length (filter (\<lambda>(_, rp). greedy_relay rp) (cp_per_relay plan')) < max_connections"
  shows "card (servers plan' a) = min max_per_user (card (servers plan a))"
  using selection_complete [OF assms(1,2) plan'_def [unfolded apply_selection_def] spare, of a] relays_of_raw bm_wf_distinct [OF assms(1)]
  by (simp add: warm_filter_def)

lemma selection_serves:
  assumes "bm_wf (cp_per_relay plan)" and "0 < max_per_user"
    and plan'_def: "plan' = apply_selection_with_lookup to_json max_connections max_per_user lookup plan"
    and spare: "length (filter (\<lambda>(_, rp). greedy_relay rp) (cp_per_relay plan')) < max_connections"
    and asked: "servers plan a \<noteq> {}"
  shows "servers plan' a \<noteq> {}"
proof -
  have raw: "hm_wf (raw_per_relay_authors plan)" "relays_of (raw_per_relay_authors plan) a = servers plan a"
    using raw_wf relays_of_raw bm_wf_distinct [OF assms(1)] by auto
  have "relays_of (warm_filter lookup (nip65_only plan) (raw_per_relay_authors plan)) a \<noteq> {}"
    using relays_of_warm(2) [OF raw(1)] asked raw(2) by simp
  then have "0 < card (servers plan' a)"
    using assms(2) by (simp add: selection_complete [OF assms(1,2) plan'_def spare] card_gt_0_iff)
  then show ?thesis by (simp add: card_gt_0_iff)
qed

text \<open>The warm-relay filter loses no author: with any score lookup, an author asked at some relay subject
  to selection is still asked at one of them while connections are left.\<close>

theorem selection_keeps_authors:
  assumes "bm_wf (cp_per_relay plan)" and "0 < max_per_user"
    and plan'_def: "plan' = apply_selection_with_lookup to_json max_connections max_per_user lookup plan"
    and spare: "length (filter (\<lambda>(_, rp). greedy_relay rp) (cp_per_relay plan')) < max_connections"
    and asked: "servers plan a \<noteq> {}"
  shows "servers plan' a \<noteq> {}"
  using assms by (rule selection_serves)


text \<open>What a surviving relay's plan is to its plan before: the same relay and lanes; each sub-shape one it
  had with its authors cut to those the relay still serves, none of its sub-shapes for such an author or
  without authors missing; and an attribution that names only authors it is still asked for.\<close>

definition restricts :: "relay_plan \<Rightarrow> relay_plan \<Rightarrow> bool" where
  "restricts rp rp' \<longleftrightarrow>
     rp_relay_url rp' = rp_relay_url rp \<and> rp_role_tags rp' = rp_role_tags rp \<and>
     (\<forall>sub' \<in> set (rp_sub_shapes rp'). \<exists>sub \<in> set (rp_sub_shapes rp). narrows (plan_authors rp') sub sub') \<and>
     (\<forall>sub \<in> set (rp_sub_shapes rp). sh_authors (ss_shape sub) = [] \<or> set (sh_authors (ss_shape sub)) \<inter> set (plan_authors rp') \<noteq> {} \<longrightarrow>
        (\<exists>sub' \<in> set (rp_sub_shapes rp'). narrows (plan_authors rp') sub sub')) \<and>
     set (ra_outbox_authors (rp_attribution rp')) \<subseteq> set (plan_authors rp') \<and>
     (\<forall>ia \<in> set (ra_interests (rp_attribution rp')). set (ia_authors ia) \<subseteq> set (plan_authors rp'))"

lemma narrows_cong: "set allowed = set allowed' \<Longrightarrow> narrows allowed sub sub' = narrows allowed' sub sub'"
  by (simp add: narrows_def)

lemma narrow_relay_restricts:
  assumes "narrow_relay to_json allowed rp = Some rp'" and "set allowed \<subseteq> set (plan_authors rp)"
  shows "restricts rp rp'"
proof -
  have allowed: "set (plan_authors rp') = set allowed" using narrowed_authors [OF assms(1)] assms(2) by blast
  note facts = narrow_relay_SomeD [OF assms(1)]
  have cut: "\<exists>sub \<in> set (rp_sub_shapes rp). narrows (plan_authors rp') sub sub'" if "sub' \<in> set (rp_sub_shapes rp')" for sub'
    using that narrow_sub_narrows unfolding facts(3) set_map_filter_iff narrows_cong [OF allowed] by blast
  have kept: "\<exists>sub' \<in> set (rp_sub_shapes rp'). narrows (plan_authors rp') sub sub'"
    if "sub \<in> set (rp_sub_shapes rp)" "sh_authors (ss_shape sub) = [] \<or> set (sh_authors (ss_shape sub)) \<inter> set (plan_authors rp') \<noteq> {}" for sub
  proof -
    have "narrow_sub to_json allowed sub \<noteq> None"
      using that(2) narrow_sub_keeps allowed by (auto simp: narrow_sub_def Let_def filter_empty_conv)
    then obtain sub' where "narrow_sub to_json allowed sub = Some sub'" by blast
    then show ?thesis
      using that(1) narrow_sub_narrows unfolding facts(3) set_map_filter_iff narrows_cong [OF allowed] by blast
  qed
  have "set (ra_outbox_authors (rp_attribution rp')) \<subseteq> set (plan_authors rp')"
    "\<forall>ia \<in> set (ra_interests (rp_attribution rp')). set (ia_authors ia) \<subseteq> set (plan_authors rp')"
    by (auto simp: facts(4) narrow_attribution_def Let_def allowed)
  then show ?thesis using facts(1,2) cut kept by (simp add: restricts_def)
qed

lemma narrow_relay_hashes: "narrow_relay to_json allowed rp = Some rp' \<Longrightarrow> hashes_ok to_json rp \<Longrightarrow> hashes_ok to_json rp'"
  using narrow_sub_hash by (fastforce simp: hashes_ok_def list_all_iff narrow_relay_SomeD(3) set_map_filter_iff)

lemma selected_authors_sound:
  assumes wf: "hm_wf (cp_per_relay plan)" and "map_of (selected_authors c m lookup plan) r = Some allowed"
    and rp: "map_of (cp_per_relay plan) r = Some rp"
  shows "set allowed \<subseteq> set (plan_authors rp)"
proof
  fix a
  assume "a \<in> set allowed"
  then have "r \<in> relays_of (selected_authors c m lookup plan) a" using assms(2) by (simp add: relays_of_def)
  then have "r \<in> servers plan a"
    unfolding selected_authors_def relays_of_select
    using greedy_select_oracle(4) [OF warm_filter_wf [OF raw_wf [OF wf]] refl] relays_of_warm(1) [OF raw_wf [OF wf]] relays_of_raw [OF wf]
    by blast
  then show "a \<in> set (plan_authors rp)" using rp by (auto simp: servers_def)
qed

text \<open>For the relays it does touch, selection is a restriction of the plan: a surviving relay keeps its URL
  and its lanes, asks for sub-shapes it had before cut to the authors it serves, loses none that asks for
  one of them or for no author in particular, and its attribution claims no author it is not asked for.\<close>

theorem selection_restricts:
  assumes "bm_wf (cp_per_relay plan)"
    and "map_of (cp_per_relay (apply_selection_with_lookup to_json max_connections max_per_user lookup plan)) r = Some rp'"
    and "\<not> relay_bypasses_selection (rp_role_tags rp')"
  shows "\<exists>rp. map_of (cp_per_relay plan) r = Some rp \<and> restricts rp rp'"
proof -
  have wf: "hm_wf (cp_per_relay plan)" using assms(1) by (rule bm_wf_distinct)
  obtain rp where rp: "map_of (cp_per_relay plan) r = Some rp"
    using assms(2) by (auto simp: apply_selection_relay [OF wf] split: option.splits)
  show ?thesis
  proof (cases "greedy_relay rp")
    case False
    with assms(2,3) rp show ?thesis by (simp add: apply_selection_relay [OF wf] greedy_relay_def)
  next
    case True
    with assms(2) rp obtain allowed where "map_of (selected_authors max_connections max_per_user lookup plan) r = Some allowed"
        "narrow_relay to_json allowed rp = Some rp'"
      by (auto simp: apply_selection_relay [OF wf] split: option.splits)
    then show ?thesis using narrow_relay_restricts selected_authors_sound [OF wf _ rp] rp by blast
  qed
qed

text \<open>C23. The hash the wire emitter compares is never stale: whatever is compiled and then selected, every
  sub-shape of the result carries the canonical hash of the filter it asks for.\<close>

theorem selected_plan_hashes:
  assumes "compile_with_context to_json c interests ctx = (Inr plan, probes)"
    and "map_of (cp_per_relay (apply_selection_with_lookup to_json max_connections max_per_user lookup plan)) r = Some rp'"
  shows "\<forall>sub \<in> set (rp_sub_shapes rp'). ss_canonical_filter_hash sub = canonical_filter_hash to_json (ss_shape sub)"
proof -
  have "bm_wf (cp_per_relay plan)"
    using partition_all_wf [of c interests] by (simp add: compile_plan(1) [OF assms(1)] rt_wf_def comp_def split_def)
  then have wf: "hm_wf (cp_per_relay plan)" by (rule bm_wf_distinct)
  obtain rp where rp: "map_of (cp_per_relay plan) r = Some rp"
    using assms(2) by (auto simp: apply_selection_relay [OF wf] split: option.splits)
  then have "hashes_ok to_json rp"
    by (auto simp: compile_relay [OF assms(1)] hashes_ok_def relay_plan_facts(3) list_all_iff)
  then have "hashes_ok to_json rp'"
    using assms(2) rp narrow_relay_hashes by (auto simp: apply_selection_relay [OF wf] split: option.splits if_splits)
  then show ?thesis by (simp add: hashes_ok_def list_all_iff)
qed

text \<open>A score lookup that calls every relay cold changes nothing: selection with it is selection without
  a lookup.\<close>

theorem selection_cold_lookup:
  "apply_selection_with_lookup to_json max_connections max_per_user (Some (\<lambda>_ _. False)) plan =
   apply_selection to_json max_connections max_per_user plan"
proof -
  have "set (author_has_warm (\<lambda>_ _. False) nip65 raw) = {}" for nip65 raw by (simp add: set_author_has_warm)
  then have "warm_filter (Some (\<lambda>_ _. False)) nip65 raw = warm_filter None nip65 raw" for nip65 raw
    by (simp add: warm_filter_def Let_def map_idI split: prod.splits)
  then show ?thesis by (simp add: apply_selection_def apply_selection_with_lookup_def)
qed

section \<open>An example plan\<close>

definition demo_sub :: "pubkey list \<Rightarrow> sub_shape" where
  "demo_sub authors = \<lparr>ss_shape = timeline_for authors [1], ss_originating_interests = [InterestId 1], ss_canonical_filter_hash = []\<rparr>"

definition demo_relay :: "relay \<Rightarrow> routing_source \<Rightarrow> pubkey list \<Rightarrow> relay \<times> relay_plan" where
  "demo_relay url lane authors = (url, \<lparr>rp_relay_url = url, rp_role_tags = [lane], rp_sub_shapes = [demo_sub authors],
     rp_attribution = attribution_default\<lparr>ra_outbox_authors := authors\<rparr>\<rparr>)"

text \<open>Three outbox relays for three authors, and an app relay.\<close>

definition demo_plan :: compiled_plan where
  "demo_plan = (empty_plan ''demo'')\<lparr>cp_per_relay :=
     [demo_relay ''wss://a'' Nip65 [''alice'', ''bob''], demo_relay ''wss://app'' (UserConfigured AppRelay) [''alice''],
      demo_relay ''wss://b'' Nip65 [''alice''], demo_relay ''wss://c'' Nip65 [''bob'', ''carol'']]\<rparr>"

lemma demo_wf: "bm_wf (cp_per_relay demo_plan)"
  by code_simp

lemma demo_greedy: "length (filter (\<lambda>(_, rp). greedy_relay rp) (cp_per_relay demo_plan)) = 3"
  unfolding greedy_relay_def by code_simp

lemma demo_rows:
  "map_option (\<lambda>rp. (greedy_relay rp, plan_authors rp)) (map_of (cp_per_relay demo_plan) r) =
     map_of [(''wss://a'', True, [''alice'', ''bob'']), (''wss://app'', False, [''alice'']), (''wss://b'', True, [''alice'']),
       (''wss://c'', True, [''bob'', ''carol''])] r"
proof -
  have "map (\<lambda>(r, rp). (r, greedy_relay rp, plan_authors rp)) (cp_per_relay demo_plan) =
      [(''wss://a'', True, [''alice'', ''bob'']), (''wss://app'', False, [''alice'']), (''wss://b'', True, [''alice'']),
       (''wss://c'', True, [''bob'', ''carol''])]"
    unfolding greedy_relay_def by code_simp
  then show ?thesis
    using map_of_map_values [of "\<lambda>_ rp. (greedy_relay rp, plan_authors rp)" "cp_per_relay demo_plan" r] by simp
qed

lemma servers_rows: "servers plan a =
    {r. \<exists>as. map_option (\<lambda>rp. (greedy_relay rp, plan_authors rp)) (map_of (cp_per_relay plan) r) = Some (True, as) \<and> a \<in> set as}"
  by (auto simp: servers_def)

lemma demo_servers: "servers demo_plan ''alice'' = {''wss://a'', ''wss://b''}"
  unfolding servers_rows demo_rows by (auto split: if_splits)

text \<open>Selection never adds a relay.\<close>

lemma selection_shrinks:
  "length (filter (\<lambda>(_, rp). greedy_relay rp) (cp_per_relay (apply_selection_with_lookup to_json c m lookup plan))) \<le>
     length (filter (\<lambda>(_, rp). greedy_relay rp) (cp_per_relay plan))"
proof -
  have kept: "greedy_relay rp' \<Longrightarrow> greedy_relay rp" if "project_relay to_json pinned out (k, rp) = Some (k', rp')"
    for pinned out k rp k' rp'
    using that by (auto simp: project_relay_def greedy_relay_def narrow_relay_SomeD(2) split: if_splits option.splits)
  have "length (filter (\<lambda>(_, rp). greedy_relay rp) (List.map_filter (project_relay to_json pinned out) rows)) \<le>
      length (filter (\<lambda>(_, rp). greedy_relay rp) rows)" for pinned out rows
  proof (induction rows)
    case (Cons row rows)
    then show ?case using kept by (cases row) (auto simp: List.map_filter_simps split: option.splits intro: le_SucI)
  qed (simp add: List.map_filter_simps)
  then show ?thesis by (simp add: apply_selection_with_lookup_def Let_def)
qed

lemma demo_spare:
  "length (filter (\<lambda>(_, rp). greedy_relay rp) (cp_per_relay (apply_selection_with_lookup to_json 4 m lookup demo_plan))) < 4"
  using selection_shrinks [of to_json 4 m lookup demo_plan] demo_greedy by simp

theorem selection_bounds_witness:
  "length (filter (\<lambda>(_, rp). greedy_relay rp) (cp_per_relay (apply_selection_with_lookup (\<lambda>_. None) 1 1 None demo_plan))) \<le> 1 \<and>
   card (servers (apply_selection_with_lookup (\<lambda>_. None) 1 1 None demo_plan) ''alice'') \<le> 1"
  using selection_bounds [OF demo_wf refl, of "\<lambda>_. None" 1 1 None] by simp

theorem selection_exact_witness:
  "card (servers (apply_selection (\<lambda>_. None) 4 1 demo_plan) ''alice'') = 1"
  using selection_exact [OF demo_wf, of 1 _ "\<lambda>_. None" 4 "''alice''"] demo_spare [of _ 1 None]
  by (simp add: demo_servers apply_selection_def)

theorem selection_keeps_authors_witness:
  "servers (apply_selection_with_lookup (\<lambda>_. None) 4 1 (Some (\<lambda>a r. r = ''wss://b'')) demo_plan) ''alice'' \<noteq> {}"
  by (rule selection_keeps_authors [OF demo_wf _ refl demo_spare]) (simp_all add: demo_servers)


lemma demo_selected:
  obtains r rp where "map_of (cp_per_relay (apply_selection_with_lookup to_json 4 1 lookup demo_plan)) r = Some rp"
    "\<not> relay_bypasses_selection (rp_role_tags rp)"
proof -
  have "servers demo_plan ''alice'' \<noteq> {}" by (simp add: demo_servers)
  with selection_serves [OF demo_wf _ refl demo_spare, of 1 "''alice''"] that show ?thesis
    by (auto simp: servers_def greedy_relay_def)
qed

theorem selection_restricts_witness:
  "\<exists>r rp rp'. map_of (cp_per_relay demo_plan) r = Some rp \<and> restricts rp rp' \<and>
     map_of (cp_per_relay (apply_selection_with_lookup (\<lambda>_. None) 4 1 None demo_plan)) r = Some rp'"
proof -
  obtain r rp' where r: "map_of (cp_per_relay (apply_selection_with_lookup (\<lambda>_. None) 4 1 None demo_plan)) r = Some rp'"
    "\<not> relay_bypasses_selection (rp_role_tags rp')"
    by (rule demo_selected)
  then show ?thesis using selection_restricts [OF demo_wf r] by blast
qed

theorem selected_plan_hashes_witness:
  "\<exists>plan probes rp sub. compile_with_context (\<lambda>_. None) demo_compiler [demo_notes, demo_wraps] context_default = (Inr plan, probes) \<and>
     map_of (cp_per_relay (apply_selection_with_lookup (\<lambda>_. None) 0 0 None plan)) ''wss://dm'' = Some rp \<and>
     sub \<in> set (rp_sub_shapes rp) \<and> ss_canonical_filter_hash sub = canonical_filter_hash (\<lambda>_. None) (ss_shape sub)"
proof -
  let ?es = "entries_at (partition_all demo_compiler [demo_notes, demo_wraps]) ''wss://dm''"
  obtain plan probes where
    c: "compile_with_context (\<lambda>_. None) demo_compiler [demo_notes, demo_wraps] context_default = (Inr plan, probes)"
    by (rule demo_compiles)
  have "map re_sources ?es = [[Nip17DmRelay]]" by code_simp
  then obtain e where e: "?es = [e]" "re_sources e = [Nip17DmRelay]" by (auto simp: map_eq_Cons_conv)
  let ?rp = "relay_plan_of (\<lambda>_. None) ''wss://dm'' [e]"
  have rp: "map_of (cp_per_relay plan) ''wss://dm'' = Some ?rp" by (simp add: compile_relay [OF c] e(1))
  have "\<not> greedy_relay ?rp" using e(2) by (simp add: greedy_relay_def relay_bypasses_selection_def relay_plan_facts(2))
  moreover have "hm_wf (cp_per_relay plan)"
    using partition_all_wf [of demo_compiler "[demo_notes, demo_wraps]"]
    by (intro bm_wf_distinct) (simp add: compile_plan(1) [OF c] rt_wf_def comp_def split_def)
  ultimately have kept: "map_of (cp_per_relay (apply_selection_with_lookup (\<lambda>_. None) 0 0 None plan)) ''wss://dm'' = Some ?rp"
    using rp by (simp add: apply_selection_relay)
  obtain sub where "sub \<in> set (rp_sub_shapes ?rp)"
    using relay_plan_absorbs [of e "[e]" "\<lambda>_. None" "''wss://dm''"] by auto
  then show ?thesis using selected_plan_hashes [OF c kept] c kept by blast
qed

end
