(* ===== verification/Subs_Wire.thy ===== *)
theory Subs_Wire
  imports Planner_Selection
begin

text \<open>
  The wire emitter (\<open>nmp-core/src/subs/wire.rs\<close>): from a pair of plans to the \<open>REQ\<close> and \<open>CLOSE\<close>
  frames that lead from one to the other, and from a shape to its NIP-01 filter.

  The filter is built and printed by the \<open>nostr\<close> crate. What the code hands to the builder is modelled
  call by call; parsing of keys, the single-letter test and the printing are parameters.
\<close>

section \<open>Filters on the wire\<close>

datatype filter_call =
    FAuthors "string list"
  | FKinds "nat list"
  | FIds "string list"
  | FCustomTags string "string list"
  | FCoordinates "naddr_coord list"
  | FSince u64
  | FUntil u64
  | FLimit u32
  | FSearch string

record nostr_lib =
  nl_public_key :: "string \<Rightarrow> string option"
  nl_event_id :: "string \<Rightarrow> string option"
  nl_single_letter :: "string \<Rightarrow> bool"
  nl_to_string :: "filter_call list \<Rightarrow> string option"

text \<open>\<open>as u16\<close>.\<close>

definition as_u16 :: "u32 \<Rightarrow> nat" where
  "as_u16 k = k mod 65536"

definition filter_calls :: "nostr_lib \<Rightarrow> interest_shape \<Rightarrow> filter_call list" where
  "filter_calls lib shape =
     (let authors = List.map_filter (nl_public_key lib) (sh_authors shape);
          ids = List.map_filter (nl_event_id lib) (sh_event_ids shape);
          coords = List.map_filter (\<lambda>a. map_option (\<lambda>pk. NaddrCoord pk (as_u16 (nc_kind a)) (nc_d_tag a))
                     (nl_public_key lib (nc_pubkey a))) (sh_addresses shape)
      in (if authors \<noteq> [] then [FAuthors authors] else []) @
         (if sh_kinds shape \<noteq> [] then [FKinds (map as_u16 (sh_kinds shape))] else []) @
         (if ids \<noteq> [] then [FIds ids] else []) @
         List.map_filter (\<lambda>(tag_key, values). if single_char tag_key \<and> nl_single_letter lib tag_key
                            then Some (FCustomTags tag_key values) else None) (sh_tags shape) @
         (if coords \<noteq> [] then [FCoordinates coords] else []) @
         (case sh_since shape of Some since \<Rightarrow> [FSince since] | None \<Rightarrow> []) @
         (case sh_until shape of Some until \<Rightarrow> [FUntil until] | None \<Rightarrow> []) @
         (case sh_limit shape of Some limit \<Rightarrow> [FLimit limit] | None \<Rightarrow> []) @
         (case sh_search shape of Some search \<Rightarrow> [FSearch search] | None \<Rightarrow> []))"

definition filter_json_for :: "nostr_lib \<Rightarrow> interest_shape \<Rightarrow> string" where
  "filter_json_for lib shape = unwrap_or ''{}'' (nl_to_string lib (filter_calls lib shape))"

section \<open>Frames\<close>

datatype wire_frame =
    is_Req: Req (wf_relay_url: relay) (wf_sub_id: string) (wf_filter_json: string) (wf_interest_id: interest_id)
      (wf_lifecycle: interest_lifecycle)
  | Close (wf_relay_url: relay) (wf_sub_id: string)

definition sub_id_for :: "sub_shape \<Rightarrow> string" where
  "sub_id_for shape = ''sub-'' @ ss_canonical_filter_hash shape"

definition lifecycle_for_shape :: "sub_shape \<Rightarrow> logical_interest list \<Rightarrow> interest_lifecycle" where
  "lifecycle_for_shape shape interests =
     (case List.map_filter (\<lambda>origin. find (\<lambda>i. li_id i = origin) interests) (ss_originating_interests shape) of
        [] \<Rightarrow> Tailing
      | i # _ \<Rightarrow> li_lifecycle i)"

text \<open>\<open>first().cloned().unwrap_or(InterestId(0))\<close>.\<close>

definition first_origin :: "sub_shape \<Rightarrow> interest_id" where
  "first_origin shape = (case ss_originating_interests shape of [] \<Rightarrow> InterestId 0 | i # _ \<Rightarrow> i)"

definition emit_req :: "nostr_lib \<Rightarrow> relay \<Rightarrow> sub_shape \<Rightarrow> logical_interest list \<Rightarrow> string \<Rightarrow> wire_frame" where
  "emit_req lib relay_url shape interests sub_id =
     Req relay_url sub_id (filter_json_for lib (ss_shape shape)) (first_origin shape) (lifecycle_for_shape shape interests)"

text \<open>The sub-shapes of a plan in the order both loops visit them.\<close>

definition plan_rows :: "compiled_plan option \<Rightarrow> (relay \<times> sub_shape) list" where
  "plan_rows plan =
     (case plan of
        None \<Rightarrow> []
      | Some p \<Rightarrow> concat (map (\<lambda>(relay_url, rp). map (Pair relay_url) (rp_sub_shapes rp)) (cp_per_relay p)))"

definition collect_relay_sub_keys :: "compiled_plan option \<Rightarrow> (relay \<times> string) list" where
  "collect_relay_sub_keys plan =
     fold (\<lambda>(relay_url, shape). bs_insert (relay_url, sub_id_for shape)) (plan_rows plan) []"

definition plan_diff ::
  "nostr_lib \<Rightarrow> compiled_plan option \<Rightarrow> compiled_plan option \<Rightarrow> logical_interest list \<Rightarrow> wire_frame list" where
  "plan_diff lib prior next_plan next_interests =
     (let prior_keys = collect_relay_sub_keys prior;
          next_keys = collect_relay_sub_keys next_plan
      in List.map_filter (\<lambda>(relay_url, shape).
           if (relay_url, sub_id_for shape) \<notin> set next_keys then Some (Close relay_url (sub_id_for shape)) else None)
           (plan_rows prior) @
         List.map_filter (\<lambda>(relay_url, shape).
           if (relay_url, sub_id_for shape) \<notin> set prior_keys
           then Some (emit_req lib relay_url shape next_interests (sub_id_for shape)) else None)
           (plan_rows next_plan))"

section \<open>What the frames do\<close>

text \<open>The subscriptions open at the relays, and what a frame does to them.\<close>

type_synonym open_subs = "(relay \<times> string) set"

fun wire_step :: "wire_frame \<Rightarrow> open_subs \<Rightarrow> open_subs" where
  "wire_step (Req relay_url sub_id _ _ _) subs = insert (relay_url, sub_id) subs"
| "wire_step (Close relay_url sub_id) subs = subs - {(relay_url, sub_id)}"

definition wire_run :: "wire_frame list \<Rightarrow> open_subs \<Rightarrow> open_subs" where
  "wire_run = fold wire_step"

definition frame_key :: "wire_frame \<Rightarrow> relay \<times> string" where
  "frame_key f = (wf_relay_url f, wf_sub_id f)"

definition opened :: "wire_frame list \<Rightarrow> open_subs" where
  "opened frames = set (map frame_key (filter is_Req frames))"

definition closed :: "wire_frame list \<Rightarrow> open_subs" where
  "closed frames = set (map frame_key (filter (\<lambda>f. \<not> is_Req f) frames))"

text \<open>What a plan wants open.\<close>

definition sub_keys :: "compiled_plan option \<Rightarrow> open_subs" where
  "sub_keys plan = (\<lambda>(relay_url, shape). (relay_url, sub_id_for shape)) ` set (plan_rows plan)"

lemma set_collect [simp]: "set (collect_relay_sub_keys plan) = sub_keys plan"
proof -
  have "set (fold (\<lambda>(relay_url, shape). bs_insert (relay_url, sub_id_for shape)) rows acc) =
      set acc \<union> (\<lambda>(relay_url, shape). (relay_url, sub_id_for shape)) ` set rows" for rows acc
    by (induction rows arbitrary: acc) (auto split: prod.splits)
  from this [of "plan_rows plan" "[]"] show ?thesis by (simp add: collect_relay_sub_keys_def sub_keys_def)
qed

lemma plan_rows_None [simp]: "plan_rows None = []"
  by (simp add: plan_rows_def)

lemma sub_keys_None [simp]: "sub_keys None = {}"
  by (simp add: sub_keys_def)

lemma opened_simps [simp]:
  "opened [] = {}" "opened (Req r s j i l # fs) = insert (r, s) (opened fs)" "opened (Close r s # fs) = opened fs"
  "opened (fs @ gs) = opened fs \<union> opened gs"
  by (auto simp: opened_def frame_key_def)

lemma closed_simps [simp]:
  "closed [] = {}" "closed (Req r s j i l # fs) = closed fs" "closed (Close r s # fs) = insert (r, s) (closed fs)"
  "closed (fs @ gs) = closed fs \<union> closed gs"
  by (auto simp: closed_def frame_key_def)

text \<open>Frames that close nothing they open have one net effect, whatever their order.\<close>

lemma wire_run_disjoint:
  "opened frames \<inter> closed frames = {} \<Longrightarrow> wire_run frames subs = subs - closed frames \<union> opened frames"
proof (induction frames arbitrary: subs)
  case Nil
  then show ?case by (simp add: wire_run_def)
next
  case (Cons f fs)
  have "wire_run (f # fs) subs = wire_run fs (wire_step f subs)" by (simp add: wire_run_def)
  moreover have "opened fs \<inter> closed fs = {}" using Cons.prems by (cases f) auto
  ultimately show ?case using Cons by (cases f) auto
qed

lemma sub_key_iff:
  "(r, s) \<in> sub_keys plan \<longleftrightarrow> (\<exists>shape. (r, shape) \<in> set (plan_rows plan) \<and> s = sub_id_for shape)"
  by (force simp: sub_keys_def)

lemma row_key: "(r, shape) \<in> set (plan_rows plan) \<Longrightarrow> (r, sub_id_for shape) \<in> sub_keys plan"
  by (auto simp: sub_key_iff)

lemma is_Req_emit [simp]: "is_Req (emit_req lib r shape is s)" and
  key_emit [simp]: "frame_key (emit_req lib r shape is s) = (r, s)"
  by (simp_all add: emit_req_def frame_key_def)

lemma set_map_filter_if:
  "y \<in> set (List.map_filter (\<lambda>(a, b). if P a b then Some (g a b) else None) xs) \<longleftrightarrow>
     (\<exists>a b. (a, b) \<in> set xs \<and> P a b \<and> y = g a b)"
  by (auto simp: set_map_filter_iff split: if_splits) (force split: if_splits)+

lemma diff_frames:
  "f \<in> set (plan_diff lib prior next_plan is) \<longleftrightarrow>
     (\<exists>r shape. (r, shape) \<in> set (plan_rows prior) \<and> (r, sub_id_for shape) \<notin> sub_keys next_plan \<and> f = Close r (sub_id_for shape)) \<or>
     (\<exists>r shape. (r, shape) \<in> set (plan_rows next_plan) \<and> (r, sub_id_for shape) \<notin> sub_keys prior \<and>
        f = emit_req lib r shape is (sub_id_for shape))"
  unfolding plan_diff_def Let_def set_append Un_iff set_map_filter_if set_collect ..

lemma opened_diff: "opened (plan_diff lib prior next_plan is) = sub_keys next_plan - sub_keys prior"
proof
  show "opened (plan_diff lib prior next_plan is) \<subseteq> sub_keys next_plan - sub_keys prior"
    by (auto simp: opened_def diff_frames sub_key_iff)
  show "sub_keys next_plan - sub_keys prior \<subseteq> opened (plan_diff lib prior next_plan is)"
  proof (clarify)
    fix r s
    assume new: "(r, s) \<in> sub_keys next_plan" "(r, s) \<notin> sub_keys prior"
    then obtain shape where shape: "(r, shape) \<in> set (plan_rows next_plan)" "s = sub_id_for shape"
      by (auto simp: sub_key_iff)
    then have "emit_req lib r shape is s \<in> set (plan_diff lib prior next_plan is)"
      using new by (auto simp: diff_frames)
    then show "(r, s) \<in> opened (plan_diff lib prior next_plan is)"
      by (force simp: opened_def)
  qed
qed

lemma closed_diff: "closed (plan_diff lib prior next_plan is) = sub_keys prior - sub_keys next_plan"
proof
  show "closed (plan_diff lib prior next_plan is) \<subseteq> sub_keys prior - sub_keys next_plan"
    by (auto simp: closed_def diff_frames sub_key_iff frame_key_def)
  show "sub_keys prior - sub_keys next_plan \<subseteq> closed (plan_diff lib prior next_plan is)"
  proof (clarify)
    fix r s
    assume old: "(r, s) \<in> sub_keys prior" "(r, s) \<notin> sub_keys next_plan"
    then obtain shape where shape: "(r, shape) \<in> set (plan_rows prior)" "s = sub_id_for shape"
      by (auto simp: sub_key_iff)
    then have "Close r s \<in> set (plan_diff lib prior next_plan is)"
      using old by (auto simp: diff_frames)
    then show "(r, s) \<in> closed (plan_diff lib prior next_plan is)"
      by (force simp: closed_def frame_key_def)
  qed
qed

lemma wire_run_diff:
  "wire_run (plan_diff lib prior next_plan is) subs =
     subs - (sub_keys prior - sub_keys next_plan) \<union> (sub_keys next_plan - sub_keys prior)"
  by (subst wire_run_disjoint) (auto simp: opened_diff closed_diff)

lemma plan_diff_same [simp]:
  assumes "sub_keys prior = sub_keys next_plan"
  shows "plan_diff lib prior next_plan is = []"
proof -
  have "f \<notin> set (plan_diff lib prior next_plan is)" for f
    using row_key [of _ _ prior] row_key [of _ _ next_plan] by (auto simp: diff_frames assms)
  then show ?thesis by (metis list.set_intros(1) neq_Nil_conv)
qed

text \<open>C28. The diff of two plans leads the relays from the subscriptions of the one to those of the other:
  it closes exactly the relay-scoped subscriptions only the first plan has, opens exactly those only the
  second has, touches nothing else that is open, and is empty between plans with the same
  subscriptions.\<close>

theorem plan_diff_exact:
  "wire_run (plan_diff lib prior next_plan interests) (sub_keys prior) = sub_keys next_plan \<and>
   closed (plan_diff lib prior next_plan interests) = sub_keys prior - sub_keys next_plan \<and>
   opened (plan_diff lib prior next_plan interests) = sub_keys next_plan - sub_keys prior \<and>
   plan_diff lib prior prior interests = [] \<and>
   plan_diff lib None None interests = []"
  by (auto simp: wire_run_diff opened_diff closed_diff)

section \<open>What a filter asks for\<close>

text \<open>NIP-01: an event answers a filter when it answers every field; \<open>limit\<close> and \<open>search\<close> are left to
  the relay. A tag field wants an event that carries the tag.\<close>

definition carries_tag :: "string list list \<Rightarrow> string \<Rightarrow> string list \<Rightarrow> bool" where
  "carries_tag tags letter values \<longleftrightarrow>
     (\<exists>row \<in> set tags. get_nth 0 row = Some letter \<and> (case get_nth 1 row of Some v \<Rightarrow> v \<in> set values | None \<Rightarrow> False))"

fun call_admits :: "string \<Rightarrow> pubkey \<Rightarrow> u32 \<Rightarrow> u64 \<Rightarrow> string list list \<Rightarrow> filter_call \<Rightarrow> bool" where
  "call_admits i author kind t tags (FAuthors authors) \<longleftrightarrow> author \<in> set authors"
| "call_admits i author kind t tags (FKinds kinds) \<longleftrightarrow> kind \<in> set kinds"
| "call_admits i author kind t tags (FIds ids) \<longleftrightarrow> i \<in> set ids"
| "call_admits i author kind t tags (FCustomTags letter values) \<longleftrightarrow> carries_tag tags letter values"
| "call_admits i author kind t tags (FCoordinates coords) \<longleftrightarrow> carries_tag tags ''a'' (map show_coord coords)"
| "call_admits i author kind t tags (FSince since) \<longleftrightarrow> since \<le> t"
| "call_admits i author kind t tags (FUntil until) \<longleftrightarrow> t \<le> until"
| "call_admits i author kind t tags (FLimit _) \<longleftrightarrow> True"
| "call_admits i author kind t tags (FSearch _) \<longleftrightarrow> True"

definition filter_admits :: "filter_call list \<Rightarrow> string \<Rightarrow> pubkey \<Rightarrow> u32 \<Rightarrow> u64 \<Rightarrow> string list list \<Rightarrow> bool" where
  "filter_admits calls i author kind t tags = list_all (call_admits i author kind t tags) calls"

text \<open>The event's own keys are in the form the parser prints, its kind fits NIP-01, and the shape's tag
  dimensions are single letters with values.\<close>

definition wire_ready :: "nostr_lib \<Rightarrow> interest_shape \<Rightarrow> string \<Rightarrow> pubkey \<Rightarrow> u32 \<Rightarrow> bool" where
  "wire_ready lib s i author kind \<longleftrightarrow>
     nl_public_key lib author = Some author \<and> nl_event_id lib i = Some i \<and> kind < 65536 \<and>
     sh_addresses s = [] \<and> list_all (\<lambda>(letter, values). length letter = 1 \<and> values \<noteq> []) (sh_tags s)"

lemma filter_admits_append [simp]:
  "filter_admits (cs @ ds) i a k t tags \<longleftrightarrow> filter_admits cs i a k t tags \<and> filter_admits ds i a k t tags"
  "filter_admits [] i a k t tags"
  by (simp_all add: filter_admits_def)

lemma tag_calls_admit:
  assumes "list_all (tag_satisfied tags) rows" "list_all (\<lambda>(letter, values). length letter = 1 \<and> values \<noteq> []) rows"
  shows "filter_admits (List.map_filter (\<lambda>(tag_key, values). if single_char tag_key \<and> nl_single_letter lib tag_key
           then Some (FCustomTags tag_key values) else None) rows) i author kind t tags"
proof -
  have "call_admits i author kind t tags c"
    if c: "c \<in> set (List.map_filter (\<lambda>(tag_key, values). if single_char tag_key \<and> nl_single_letter lib tag_key
           then Some (FCustomTags tag_key values) else None) rows)" for c
  proof -
    from c obtain letter vals where row: "(letter, vals) \<in> set rows" "c = FCustomTags letter vals"
      by (auto simp: set_map_filter_if)
    then have "tag_satisfied tags (letter, vals)" "length letter = 1" "vals \<noteq> []"
      using assms by (auto simp: list_all_iff)
    then show ?thesis by (auto simp: row(2) tag_satisfied_def carries_tag_def)
  qed
  then show ?thesis by (simp add: filter_admits_def list_all_iff)
qed

text \<open>C33. The filter on the wire is not narrower than the shape where the two can be compared: for a
  shape without addresses whose tag names are single characters with at least one value each, and an
  event whose id and author are in the form the library prints and whose kind is below 65536, a relay
  that answers the filter returns the event whenever the shape matches it.\<close>

theorem wire_filter_covers:
  assumes match: "matches_event_with_id s i author kind t tags" and ready: "wire_ready lib s i author kind"
  shows "filter_admits (filter_calls lib s) i author kind t tags"
proof -
  from match have m: "shape_admits s i author kind t tags" by (simp add: matches_admits)
  have key: "y \<in> set (List.map_filter f xs)"
    if "List.map_filter f xs \<noteq> []" "xs \<noteq> [] \<longrightarrow> y \<in> set xs" "f y = Some y" for f :: "string \<Rightarrow> string option" and y xs
    using that by (cases "xs = []") (auto simp: set_map_filter_iff List.map_filter_simps)
  have authors: "List.map_filter (nl_public_key lib) (sh_authors s) \<noteq> [] \<Longrightarrow>
      author \<in> set (List.map_filter (nl_public_key lib) (sh_authors s))"
    using m ready by (intro key) (auto simp: shape_admits_def wire_ready_def)
  have ids: "List.map_filter (nl_event_id lib) (sh_event_ids s) \<noteq> [] \<Longrightarrow>
      i \<in> set (List.map_filter (nl_event_id lib) (sh_event_ids s))"
    using m ready by (intro key) (auto simp: shape_admits_def wire_ready_def)
  have kinds: "kind \<in> set (map as_u16 (sh_kinds s))" if "sh_kinds s \<noteq> []"
  proof -
    have "kind \<in> set (sh_kinds s)" using m that by (simp add: shape_admits_def)
    moreover have "as_u16 kind = kind" using ready by (simp add: wire_ready_def as_u16_def)
    ultimately show ?thesis by (metis image_eqI list.set_map)
  qed
  have tags: "filter_admits (List.map_filter (\<lambda>(tag_key, values). if single_char tag_key \<and> nl_single_letter lib tag_key
      then Some (FCustomTags tag_key values) else None) (sh_tags s)) i author kind t tags"
    using m ready by (intro tag_calls_admit) (auto simp: shape_admits_def wire_ready_def)
  have bounds: "since \<le> t" if "sh_since s = Some since" for since
    using m that by (simp add: shape_admits_def)
  have until: "t \<le> u" if "sh_until s = Some u" for u
    using m that by (simp add: shape_admits_def)
  have one: "filter_admits (if P then [c] else []) i author kind t tags \<longleftrightarrow> (P \<longrightarrow> call_admits i author kind t tags c)" for P c
    by (simp add: filter_admits_def)
  have addresses: "sh_addresses s = []" using ready by (simp add: wire_ready_def)
  show ?thesis
    unfolding filter_calls_def Let_def filter_admits_append one addresses List.map_filter_simps
    using authors ids kinds tags bounds until by (auto simp: filter_admits_def split: option.splits)
qed

text \<open>A library that takes every key and the ASCII letters.\<close>

definition demo_lib :: nostr_lib where
  "demo_lib = \<lparr>nl_public_key = (\<lambda>s. if s = ''junk'' then None else Some s), nl_event_id = Some,
     nl_single_letter = (\<lambda>s. length s = 1), nl_to_string = (\<lambda>_. Some ''{}'')\<rparr>"

definition demo_tagged :: interest_shape where
  "demo_tagged = (timeline_for [''alice'', ''junk''] [1])\<lparr>sh_tags := [(''t'', [''nostr''])], sh_since := Some 5\<rparr>"

theorem wire_filter_covers_witness:
  "filter_admits (filter_calls demo_lib demo_tagged) ''e1'' ''alice'' 1 9 [[''t'', ''nostr'']] \<and>
   \<not> filter_admits (filter_calls demo_lib demo_tagged) ''e1'' ''bob'' 1 9 [[''t'', ''nostr'']]"
proof
  have "matches_event_with_id demo_tagged ''e1'' ''alice'' 1 9 [[''t'', ''nostr'']]" by code_simp
  moreover have "wire_ready demo_lib demo_tagged ''e1'' ''alice'' 1" by code_simp
  ultimately show "filter_admits (filter_calls demo_lib demo_tagged) ''e1'' ''alice'' 1 9 [[''t'', ''nostr'']]"
    by (rule wire_filter_covers)
  show "\<not> filter_admits (filter_calls demo_lib demo_tagged) ''e1'' ''bob'' 1 9 [[''t'', ''nostr'']]"
    by (simp add: filter_calls_def Let_def demo_lib_def demo_tagged_def timeline_for_def filter_admits_def List.map_filter_simps)
qed

text \<open>What the covering leaves out. A set of authors that holds no valid key is dropped, so the filter
  asks for everyone's events; and an address is asked for by an \<open>#a\<close> field, which the addressed event,
  carrying no such tag, does not answer.\<close>

lemma invalid_authors_widen:
  assumes "list_all (\<lambda>a. nl_public_key lib a = None) (sh_authors s)"
  shows "filter_calls lib s = filter_calls lib (s\<lparr>sh_authors := []\<rparr>)"
proof -
  have "List.map_filter (nl_public_key lib) (sh_authors s) = []"
    using assms by (auto simp: List.map_filter_def list_all_iff filter_empty_conv)
  then show ?thesis by (simp add: filter_calls_def List.map_filter_simps)
qed

lemma address_target_missed:
  assumes "nl_public_key lib (nc_pubkey coord) \<noteq> None" and "list_all (\<lambda>row. get_nth 0 row \<noteq> Some ''a'') tags"
  shows "\<not> filter_admits (filter_calls lib (shape_default\<lparr>sh_addresses := [coord]\<rparr>)) i author kind t tags"
  using assms
  by (auto simp: filter_calls_def shape_default_def List.map_filter_simps filter_admits_def carries_tag_def list_all_iff)

lemma address_target_matches:
  "matches_event_with_id (shape_default\<lparr>sh_addresses := [NaddrCoord ''alice'' 30023 ''post'']\<rparr>) ''e1'' ''alice'' 30023 9 [[''d'', ''post'']] \<and>
   \<not> filter_admits (filter_calls demo_lib (shape_default\<lparr>sh_addresses := [NaddrCoord ''alice'' 30023 ''post'']\<rparr>))
       ''e1'' ''alice'' 30023 9 [[''d'', ''post'']]"
  by (rule conjI, code_simp, rule address_target_missed) code_simp+

end
