(* ===== verification/Subs_Gate.thy ===== *)
theory Subs_Gate
  imports Subs_Wire "HOL-Library.Multiset"
begin

text \<open>
  The authentication gate (\<open>nmp-core/src/subs/auth_gate.rs\<close>): requests for a relay that is
  authenticating are buffered, requests for a relay that failed to are dropped, everything else passes.
\<close>

datatype relay_auth_state = NotRequired | ChallengeReceived | Authenticating | Authenticated | Failed

record auth_gate =
  ag_state :: "(relay \<times> relay_auth_state) list"
  ag_pending :: "(relay \<times> wire_frame list) list"

definition gate_new :: auth_gate where
  "gate_new = \<lparr>ag_state = [], ag_pending = []\<rparr>"

definition is_paused :: "auth_gate \<Rightarrow> relay \<Rightarrow> bool" where
  "is_paused g relay_url \<longleftrightarrow>
     map_of (ag_state g) relay_url \<in> {Some ChallengeReceived, Some Authenticating, Some Failed}"

definition is_failed :: "auth_gate \<Rightarrow> relay \<Rightarrow> bool" where
  "is_failed g relay_url \<longleftrightarrow> map_of (ag_state g) relay_url = Some Failed"

definition record_transition :: "relay \<Rightarrow> relay_auth_state \<Rightarrow> auth_gate \<Rightarrow> wire_frame list \<times> auth_gate" where
  "record_transition relay_url state g =
     (let g' = g\<lparr>ag_state := hm_insert relay_url state (ag_state g)\<rparr> in
      if state = Authenticated
      then (unwrap_or [] (map_of (ag_pending g) relay_url), g'\<lparr>ag_pending := hm_remove relay_url (ag_pending g)\<rparr>)
      else ([], if state = Failed then g'\<lparr>ag_pending := hm_remove relay_url (ag_pending g)\<rparr> else g'))"

definition gate_frame :: "wire_frame \<Rightarrow> wire_frame list \<times> auth_gate \<Rightarrow> wire_frame list \<times> auth_gate" where
  "gate_frame frame acc =
     (let (out, g) = acc in
      if is_Req frame \<and> is_failed g (wf_relay_url frame) then (out, g)
      else if is_Req frame \<and> is_paused g (wf_relay_url frame)
      then (out, g\<lparr>ag_pending := bm_entry [] (wf_relay_url frame) (\<lambda>q. q @ [frame]) (ag_pending g)\<rparr>)
      else (out @ [frame], g))"

definition gate_partition :: "wire_frame list \<Rightarrow> auth_gate \<Rightarrow> wire_frame list \<times> auth_gate" where
  "gate_partition frames g = fold gate_frame frames ([], g)"

section \<open>Buffers\<close>

definition pending_at :: "auth_gate \<Rightarrow> relay \<Rightarrow> wire_frame list" where
  "pending_at g r = unwrap_or [] (map_of (ag_pending g) r)"

lemma is_failed_paused: "is_failed g r \<Longrightarrow> is_paused g r"
  by (simp add: is_failed_def is_paused_def)

lemma gate_new_simps [simp]: "pending_at gate_new r = []" "\<not> is_paused gate_new r" "\<not> is_failed gate_new r"
  by (simp_all add: gate_new_def pending_at_def is_paused_def is_failed_def)

lemma state_of_transition [simp]:
  "map_of (ag_state (snd (record_transition r s g))) r' = (if r' = r then Some s else map_of (ag_state g) r')"
  by (simp add: record_transition_def Let_def hash_map.get_put)

lemma pending_of_transition [simp]:
  "pending_at (snd (record_transition r s g)) r' =
     (if r' = r \<and> (s = Authenticated \<or> s = Failed) then [] else pending_at g r')"
  by (auto simp: record_transition_def Let_def pending_at_def hash_map.get_del)

lemma flushed_of_transition: "fst (record_transition r s g) = (if s = Authenticated then pending_at g r else [])"
  by (simp add: record_transition_def Let_def pending_at_def)

lemma gate_frame_state [simp]: "ag_state (snd (gate_frame f acc)) = ag_state (snd acc)"
  by (cases acc) (simp add: gate_frame_def)

lemma fold_gate_state [simp]: "ag_state (snd (fold gate_frame fs acc)) = ag_state (snd acc)"
  by (induction fs arbitrary: acc) auto

lemma gate_partition_state [simp]: "ag_state (snd (gate_partition fs g)) = ag_state g"
  by (simp add: gate_partition_def)

lemma paused_cong: "ag_state g = ag_state h \<Longrightarrow> is_paused g r = is_paused h r \<and> is_failed g r = is_failed h r"
  by (simp add: is_paused_def is_failed_def)

text \<open>The batch in closed form: a filter decides what passes and what is buffered where.\<close>

definition passes :: "auth_gate \<Rightarrow> wire_frame \<Rightarrow> bool" where
  "passes g f \<longleftrightarrow> \<not> is_Req f \<or> \<not> is_paused g (wf_relay_url f)"

definition held :: "auth_gate \<Rightarrow> relay \<Rightarrow> wire_frame \<Rightarrow> bool" where
  "held g r f \<longleftrightarrow> is_Req f \<and> wf_relay_url f = r \<and> is_paused g r \<and> \<not> is_failed g r"

lemma gate_frame_closed:
  "fst (gate_frame f acc) = fst acc @ (if passes (snd acc) f then [f] else []) \<and>
   pending_at (snd (gate_frame f acc)) r = pending_at (snd acc) r @ (if held (snd acc) r f then [f] else [])"
  using is_failed_paused [of "snd acc" "wf_relay_url f"]
  by (cases acc) (auto simp: gate_frame_def passes_def held_def pending_at_def bm_get_entry)

lemma fold_gate_closed:
  "fst (fold gate_frame fs acc) = fst acc @ filter (passes (snd acc)) fs \<and>
   pending_at (snd (fold gate_frame fs acc)) r = pending_at (snd acc) r @ filter (held (snd acc) r) fs"
proof (induction fs arbitrary: acc)
  case Nil
  then show ?case by simp
next
  case (Cons f fs)
  have same: "passes (snd (gate_frame f acc)) = passes (snd acc)" "held (snd (gate_frame f acc)) r = held (snd acc) r"
    using paused_cong [of "snd (gate_frame f acc)" "snd acc"] by (auto simp: passes_def held_def fun_eq_iff)
  show ?case
    using Cons.IH [of "gate_frame f acc"] gate_frame_closed [of f acc r] by (simp add: same)
qed

lemma partition_passes: "fst (gate_partition fs g) = filter (passes g) fs"
  using fold_gate_closed [of fs "([], g)"] by (simp add: gate_partition_def)

lemma pending_of_partition [simp]: "pending_at (snd (gate_partition fs g)) r = pending_at g r @ filter (held g r) fs"
  using fold_gate_closed [of fs "([], g)"] by (simp add: gate_partition_def)

lemma gate_partition_Nil [simp]: "gate_partition [] g = ([], g)"
  by (simp add: gate_partition_def)

section \<open>Runs of the gate\<close>

datatype gate_op = GTransition relay relay_auth_state | GFrames "wire_frame list"

fun gate_step :: "gate_op \<Rightarrow> auth_gate \<Rightarrow> wire_frame list \<times> auth_gate" where
  "gate_step (GTransition r s) g = record_transition r s g"
| "gate_step (GFrames fs) g = gate_partition fs g"

fun gate_run :: "gate_op list \<Rightarrow> auth_gate \<Rightarrow> wire_frame list \<times> auth_gate" where
  "gate_run [] g = ([], g)"
| "gate_run (op # ops) g =
     (let (out, g') = gate_step op g; (outs, g'') = gate_run ops g' in (out @ outs, g''))"

definition submitted :: "gate_op list \<Rightarrow> wire_frame list" where
  "submitted ops = concat (map (\<lambda>op. case op of GTransition _ _ \<Rightarrow> [] | GFrames fs \<Rightarrow> fs) ops)"

text \<open>The requests for one relay.\<close>

definition reqs_for :: "relay \<Rightarrow> wire_frame list \<Rightarrow> wire_frame list" where
  "reqs_for r = filter (\<lambda>f. is_Req f \<and> wf_relay_url f = r)"

definition closes_of :: "wire_frame list \<Rightarrow> wire_frame list" where
  "closes_of = filter (\<lambda>f. \<not> is_Req f)"

definition gate_ok :: "auth_gate \<Rightarrow> bool" where
  "gate_ok g \<longleftrightarrow> (\<forall>r. (\<forall>f \<in> set (pending_at g r). is_Req f \<and> wf_relay_url f = r) \<and> 
     (map_of (ag_state g) r \<in> {Some Authenticated, Some Failed} \<longrightarrow> pending_at g r = []))"

lemma gate_step_ok: "gate_ok g \<Longrightarrow> gate_ok (snd (gate_step op g))"
  by (cases op) (auto simp: gate_ok_def held_def is_failed_def is_paused_def filter_empty_conv)

lemma gate_run_ok: "gate_ok g \<Longrightarrow> gate_ok (snd (gate_run ops g))"
proof (induction ops arbitrary: g)
  case Nil
  then show ?case by simp
next
  case (Cons op ops)
  from gate_step_ok [OF Cons.prems, of op] Cons.IH [of "snd (gate_step op g)"]
  show ?case by (simp add: split_def Let_def)
qed

lemma gate_new_ok: "gate_ok gate_new"
  by (simp add: gate_ok_def)

lemma reqs_for_simps [simp]: "reqs_for r [] = []" "reqs_for r (xs @ ys) = reqs_for r xs @ reqs_for r ys"
  by (simp_all add: reqs_for_def)

lemma closes_of_simps [simp]: "closes_of [] = []" "closes_of (xs @ ys) = closes_of xs @ closes_of ys"
  by (simp_all add: closes_of_def)

lemma submitted_simps [simp]:
  "submitted [] = []" "submitted (GTransition r s # ops) = submitted ops" "submitted (GFrames fs # ops) = fs @ submitted ops"
  by (simp_all add: submitted_def)

lemma reqs_for_pending: "gate_ok g \<Longrightarrow> reqs_for r (pending_at g r') = (if r' = r then pending_at g r else [])"
  unfolding reqs_for_def gate_ok_def by (auto simp: filter_empty_conv filter_id_conv)

lemma closes_of_pending: "gate_ok g \<Longrightarrow> closes_of (pending_at g r) = []"
  unfolding closes_of_def gate_ok_def by (auto simp: filter_empty_conv)

text \<open>One step splits what comes in over the frames going out and the buffers.\<close>

lemma gate_step_reqs:
  assumes "gate_ok g" "op \<noteq> GTransition r Failed" "\<not> is_failed g r"
  shows "mset (reqs_for r (fst (gate_step op g))) + mset (pending_at (snd (gate_step op g)) r) =
    mset (pending_at g r) + mset (reqs_for r (submitted [op])) \<and> \<not> is_failed (snd (gate_step op g)) r"
proof (cases op)
  case (GTransition r' s)
  then show ?thesis
    using assms by (auto simp: flushed_of_transition reqs_for_pending is_failed_def)
next
  case (GFrames fs)
  have "reqs_for r (filter (passes g) fs) = (if is_paused g r then [] else reqs_for r fs)"
    by (induction fs) (auto simp: reqs_for_def passes_def)
  moreover have "filter (held g r) fs = (if is_paused g r then reqs_for r fs else [])"
    using assms(3) by (induction fs) (auto simp: reqs_for_def held_def)
  ultimately show ?thesis
    using assms paused_cong [of "snd (gate_partition fs g)" g] by (simp add: GFrames partition_passes)
qed

lemma gate_run_reqs:
  "gate_ok g \<Longrightarrow> \<not> is_failed g r \<Longrightarrow> list_all (\<lambda>op. op \<noteq> GTransition r Failed) ops \<Longrightarrow>
     mset (reqs_for r (fst (gate_run ops g))) + mset (pending_at (snd (gate_run ops g)) r) =
     mset (pending_at g r) + mset (reqs_for r (submitted ops))"
proof (induction ops arbitrary: g)
  case Nil
  then show ?case by simp
next
  case (Cons op ops)
  let ?g = "snd (gate_step op g)"
  have step: "mset (reqs_for r (fst (gate_step op g))) + mset (pending_at ?g r) =
      mset (pending_at g r) + mset (reqs_for r (submitted [op]))" "\<not> is_failed ?g r"
    using gate_step_reqs [of g op r] Cons.prems by auto
  have rest: "mset (reqs_for r (fst (gate_run ops ?g))) + mset (pending_at (snd (gate_run ops ?g)) r) =
      mset (pending_at ?g r) + mset (reqs_for r (submitted ops))"
    using Cons.IH [of ?g] gate_step_ok [OF Cons.prems(1), of op] step(2) Cons.prems by simp
  have "submitted (op # ops) = submitted [op] @ submitted ops" by (cases op) simp_all
  then show ?case using step(1) rest by (simp add: split_def Let_def ac_simps)
qed

lemma gate_run_closes: "gate_ok g \<Longrightarrow> closes_of (fst (gate_run ops g)) = closes_of (submitted ops)"
proof (induction ops arbitrary: g)
  case Nil
  then show ?case by simp
next
  case (Cons op ops)
  have "closes_of (fst (gate_step op g)) = closes_of (submitted [op])"
  proof (cases op)
    case (GTransition r s)
    then show ?thesis using closes_of_pending [OF Cons.prems, of r] by (simp add: flushed_of_transition)
  next
    case (GFrames fs)
    then show ?thesis by (auto simp: partition_passes closes_of_def passes_def intro: filter_cong)
  qed
  moreover have "submitted (op # ops) = submitted [op] @ submitted ops" by (cases op) simp_all
  ultimately show ?case
    using Cons.IH [OF gate_step_ok [OF Cons.prems, of op]] by (simp add: split_def Let_def)
qed

text \<open>The state last reported for a relay in a run.\<close>

definition reported :: "gate_op list \<Rightarrow> relay \<Rightarrow> relay_auth_state option" where
  "reported ops r =
     fold (\<lambda>op s. case op of GTransition r' state \<Rightarrow> if r' = r then Some state else s | GFrames _ \<Rightarrow> s) ops None"

lemma reported_state: "map_of (ag_state (snd (gate_run ops gate_new))) r = reported ops r"
proof -
  have "map_of (ag_state (snd (gate_run ops g))) r =
      fold (\<lambda>op s. case op of GTransition r' state \<Rightarrow> if r' = r then Some state else s | GFrames _ \<Rightarrow> s)
        ops (map_of (ag_state g) r)" for g
  proof (induction ops arbitrary: g)
    case (Cons op ops)
    then show ?case by (cases op) (auto simp: split_def Let_def)
  qed simp
  from this [of gate_new] show ?thesis by (simp add: reported_def gate_new_def)
qed

lemma reqs_for_passes: "reqs_for r (filter (passes g) fs) = (if is_paused g r then [] else reqs_for r fs)"
  by (induction fs) (auto simp: reqs_for_def passes_def)

lemma filter_held: "filter (held g r) fs = (if is_paused g r \<and> \<not> is_failed g r then reqs_for r fs else [])"
  by (induction fs) (auto simp: reqs_for_def held_def)

lemma closes_of_passes: "closes_of (filter (passes g) fs) = closes_of fs"
  by (induction fs) (auto simp: closes_of_def passes_def)

text \<open>C30. The gate fails closed. After any sequence of reported states and batches, the state last
  reported for a relay decides what a batch does to the requests for it: while the relay is challenged
  or authenticating none passes and all are appended to its buffer; when it failed none passes and the
  buffer is empty; otherwise all pass, and after an authentication the buffer is empty. Closes always pass. A state
  change releases requests for that relay only, all it has buffered and only on authentication, and a failure
  discards them. This is what the gate lets through: the replay of subscriptions on a reconnect does not ask it.\<close>

theorem auth_gate_fail_closed:
  "let g = snd (gate_run ops gate_new); out = fst (gate_partition frames g); g' = snd (gate_partition frames g);
     change = record_transition r state g in
   (case reported ops r of
      Some ChallengeReceived \<Rightarrow> reqs_for r out = [] \<and> pending_at g' r = pending_at g r @ reqs_for r frames
    | Some Authenticating \<Rightarrow> reqs_for r out = [] \<and> pending_at g' r = pending_at g r @ reqs_for r frames
    | Some Failed \<Rightarrow> reqs_for r out = [] \<and> pending_at g' r = []
    | Some Authenticated \<Rightarrow> reqs_for r out = reqs_for r frames \<and> pending_at g' r = []
    | Some NotRequired \<Rightarrow> reqs_for r out = reqs_for r frames \<and> pending_at g' r = pending_at g r
    | None \<Rightarrow> reqs_for r out = reqs_for r frames \<and> pending_at g' r = pending_at g r) \<and>
   closes_of out = closes_of frames \<and>
   fst change = (if state = Authenticated then pending_at g r else []) \<and> fst change = reqs_for r (fst change) \<and>
   pending_at (snd change) r = (if state = Authenticated \<or> state = Failed then [] else pending_at g r)"
proof -
  let ?g = "snd (gate_run ops gate_new)"
  have ok: "gate_ok ?g" by (intro gate_run_ok gate_new_ok)
  then have "reported ops r = Some Authenticated \<or> reported ops r = Some Failed \<Longrightarrow> pending_at ?g r = []"
    by (auto simp: gate_ok_def reported_state)
  moreover have "is_paused ?g r = (reported ops r \<in> {Some ChallengeReceived, Some Authenticating, Some Failed})"
    "is_failed ?g r = (reported ops r = Some Failed)"
    by (simp_all add: is_paused_def is_failed_def reported_state)
  ultimately show ?thesis
    by (auto simp: Let_def partition_passes reqs_for_passes filter_held closes_of_passes
        flushed_of_transition reqs_for_pending [OF ok] split: option.split relay_auth_state.split)
qed

text \<open>The gate loses nothing for a relay that never fails: the requests submitted for it are those it
  has let out and those it still holds, each as often as it was submitted; and every close goes out, in
  order.\<close>

theorem auth_gate_conserves:
  assumes "list_all (\<lambda>op. op \<noteq> GTransition r Failed) ops"
  shows "mset (reqs_for r (submitted ops)) =
      mset (reqs_for r (fst (gate_run ops gate_new))) + mset (pending_at (snd (gate_run ops gate_new)) r) \<and>
    closes_of (fst (gate_run ops gate_new)) = closes_of (submitted ops)"
  using gate_run_reqs [OF gate_new_ok _ assms] gate_run_closes [OF gate_new_ok] by simp

definition demo_req :: "relay \<Rightarrow> wire_frame" where
  "demo_req r = Req r ''sub-1'' ''{}'' (InterestId 1) Tailing"

text \<open>A close does not reach into the buffer: the request it closes is sent after it.\<close>

theorem auth_gate_conserves_witness:
  "let ops = [GTransition ''wss://r'' ChallengeReceived, GFrames [demo_req ''wss://r''], GFrames [Close ''wss://r'' ''sub-1''],
              GTransition ''wss://r'' Authenticated] in
   mset (reqs_for ''wss://r'' (submitted ops)) =
     mset (reqs_for ''wss://r'' (fst (gate_run ops gate_new))) + mset (pending_at (snd (gate_run ops gate_new)) ''wss://r'') \<and>
   fst (gate_run ops gate_new) = [Close ''wss://r'' ''sub-1'', demo_req ''wss://r'']"
proof -
  define ops where "ops = [GTransition ''wss://r'' ChallengeReceived, GFrames [demo_req ''wss://r''],
    GFrames [Close ''wss://r'' ''sub-1''], GTransition ''wss://r'' Authenticated]"
  have "list_all (\<lambda>op. op \<noteq> GTransition ''wss://r'' Failed) ops" by (simp add: ops_def)
  from auth_gate_conserves [OF this]
  have "mset (reqs_for ''wss://r'' (submitted ops)) =
     mset (reqs_for ''wss://r'' (fst (gate_run ops gate_new))) + mset (pending_at (snd (gate_run ops gate_new)) ''wss://r'')" ..
  moreover have "fst (gate_run ops gate_new) = [Close ''wss://r'' ''sub-1'', demo_req ''wss://r'']"
    unfolding ops_def by code_simp
  ultimately show ?thesis by (simp add: Let_def ops_def)
qed

end
