(* ===== verification/Subs_Lifecycle.thy ===== *)
theory Subs_Lifecycle
  imports Subs_Registry Subs_Gate
begin

text \<open>
  The subscription lifecycle (\<open>nmp-core/src/subs\<close>: \<open>mod.rs\<close>, \<open>lifecycle.rs\<close>, \<open>recompile.rs\<close>,
  \<open>handlers.rs\<close>, \<open>inbox.rs\<close>, \<open>trigger.rs\<close>, \<open>watermark_rewrite.rs\<close>): it owns the registry, the trigger
  inbox, the plan believed to be on the wire and the authentication gate, and composes the compiler,
  the selection and the wire emitter.

  What a caller passes in, and the closures installed from outside, are the environment of a call: the
  mailbox cache, the warm-relay lookup, the blocked relays, the coverage hook, the watermark resolver,
  the JSON printers and the hash of the compile inputs. The state records which closures are installed.
\<close>

section \<open>Triggers\<close>

datatype invalidate_reason = DiagnosticsManualRefresh | TestForceRecompile | External string

datatype compile_trigger =
    Nip65Arrived pubkey u64
  | DmRelayListChanged pubkey u64
  | ViewOpened "interest_id list"
  | ViewClosed "interest_id list" u64
  | ActiveAccountChanged "string option" "string option"
  | RelayReconnected relay
  | InvalidateCompile invalidate_reason
  | UserConfiguredRelaysChanged u64
  | IndexerSetChanged u64
  | RelayAuthStateChanged relay relay_auth_state
  | SignerAvailable string string
  | RelayHealthChanged relay bool
  | FollowListChanged string "pubkey list"

definition requires_recompile :: "compile_trigger \<Rightarrow> bool" where
  "requires_recompile t = (case t of RelayReconnected _ \<Rightarrow> False | _ \<Rightarrow> True)"

section \<open>The state\<close>

record subscription_lifecycle =
  lc_registry :: interest_registry
  lc_inbox :: "compile_trigger list"
  lc_indexer_relays :: "relay list"
  lc_app_relays :: "relay list"
  lc_active_account_read_relays :: "relay list"
  lc_bootstrap_content_relays :: "relay list"
  lc_bootstrap_indexer_relays :: "relay list"
  lc_current_plan :: "compiled_plan option"
  lc_current_plan_attribution :: "(relay \<times> relay_attribution) list"
  lc_auth_gate :: auth_gate
  lc_compile_count :: u64
  lc_coverage_hook :: bool
  lc_req_frame_interceptor :: bool
  lc_watermark_fn :: bool
  lc_select_max_connections :: usize
  lc_select_max_per_user :: usize
  lc_dead_relays :: "relay list"
  lc_probed_mailboxes :: "pubkey list"
  lc_probe_epoch :: u64
  lc_indexer_lane_down :: bool
  lc_last_planner_error :: "string option"
  lc_mailbox_generation :: u64
  lc_watermark_generation :: u64
  lc_last_compile_fingerprint :: "64 word option"

definition DEFAULT_SELECT_MAX_CONNECTIONS :: usize where
  "DEFAULT_SELECT_MAX_CONNECTIONS = 30"

definition DEFAULT_SELECT_MAX_PER_USER :: usize where
  "DEFAULT_SELECT_MAX_PER_USER = 2"

definition MAILBOX_PROBE_BATCH :: usize where
  "MAILBOX_PROBE_BATCH = 500"

definition lifecycle_new :: subscription_lifecycle where
  "lifecycle_new = \<lparr>lc_registry = [], lc_inbox = [], lc_indexer_relays = [], lc_app_relays = [],
     lc_active_account_read_relays = [], lc_bootstrap_content_relays = [], lc_bootstrap_indexer_relays = [],
     lc_current_plan = None, lc_current_plan_attribution = [], lc_auth_gate = gate_new, lc_compile_count = 0,
     lc_coverage_hook = False, lc_req_frame_interceptor = False, lc_watermark_fn = False,
     lc_select_max_connections = DEFAULT_SELECT_MAX_CONNECTIONS, lc_select_max_per_user = DEFAULT_SELECT_MAX_PER_USER,
     lc_dead_relays = [], lc_probed_mailboxes = [], lc_probe_epoch = 0, lc_indexer_lane_down = False,
     lc_last_planner_error = None, lc_mailbox_generation = 0, lc_watermark_generation = 0,
     lc_last_compile_fingerprint = None\<rparr>"

text \<open>The inbox.\<close>

definition inbox_enqueue :: "compile_trigger \<Rightarrow> compile_trigger list \<Rightarrow> compile_trigger list" where
  "inbox_enqueue trigger queue = queue @ [trigger]"

definition drain_coalesced :: "compile_trigger list \<Rightarrow> compile_trigger list \<times> compile_trigger list" where
  "drain_coalesced queue = (queue, [])"

definition push_trigger :: "compile_trigger \<Rightarrow> subscription_lifecycle \<Rightarrow> subscription_lifecycle" where
  "push_trigger trigger lc = lc\<lparr>lc_inbox := inbox_enqueue trigger (lc_inbox lc)\<rparr>"

section \<open>Accessors and setters\<close>

definition clear_probed_mailboxes :: "subscription_lifecycle \<Rightarrow> subscription_lifecycle" where
  "clear_probed_mailboxes lc = lc\<lparr>lc_probed_mailboxes := [], lc_last_compile_fingerprint := None\<rparr>"

definition note_indexer_lane_recovered :: "bool \<Rightarrow> subscription_lifecycle \<Rightarrow> bool \<times> subscription_lifecycle" where
  "note_indexer_lane_recovered any_indexer_connected lc =
     (if any_indexer_connected then
        let was_down = lc_indexer_lane_down lc;
            lc = lc\<lparr>lc_indexer_lane_down := False\<rparr> in
        if was_down then
          let lc = clear_probed_mailboxes (lc\<lparr>lc_probe_epoch := saturating_inc (lc_probe_epoch lc)\<rparr>)
          in (True, push_trigger (IndexerSetChanged (lc_probe_epoch lc)) lc)
        else (False, lc)
      else (False, lc\<lparr>lc_indexer_lane_down := True\<rparr>))"

definition mark_relay_dead :: "relay \<Rightarrow> subscription_lifecycle \<Rightarrow> bool \<times> subscription_lifecycle" where
  "mark_relay_dead url lc =
     (if url \<in> set (lc_dead_relays lc) then (False, lc)
      else (True, push_trigger (RelayHealthChanged url True) (lc\<lparr>lc_dead_relays := bs_insert url (lc_dead_relays lc)\<rparr>)))"

definition mark_relay_alive :: "relay \<Rightarrow> subscription_lifecycle \<Rightarrow> bool \<times> subscription_lifecycle" where
  "mark_relay_alive url lc =
     (if url \<notin> set (lc_dead_relays lc) then (False, lc)
      else (True, push_trigger (RelayHealthChanged url False) (lc\<lparr>lc_dead_relays := bs_remove url (lc_dead_relays lc)\<rparr>)))"

definition set_app_relays :: "relay list \<Rightarrow> subscription_lifecycle \<Rightarrow> subscription_lifecycle" where
  "set_app_relays relays lc = lc\<lparr>lc_app_relays := relays\<rparr>"

definition set_active_account_read_relays :: "relay list \<Rightarrow> subscription_lifecycle \<Rightarrow> subscription_lifecycle" where
  "set_active_account_read_relays relays lc = lc\<lparr>lc_active_account_read_relays := relays\<rparr>"

definition set_bootstrap_content_relays :: "relay list \<Rightarrow> subscription_lifecycle \<Rightarrow> subscription_lifecycle" where
  "set_bootstrap_content_relays relays lc = lc\<lparr>lc_bootstrap_content_relays := relays\<rparr>"

definition set_bootstrap_indexer_relays :: "relay list \<Rightarrow> subscription_lifecycle \<Rightarrow> subscription_lifecycle" where
  "set_bootstrap_indexer_relays relays lc = lc\<lparr>lc_bootstrap_indexer_relays := relays\<rparr>"

definition set_indexer_relays :: "relay list \<Rightarrow> subscription_lifecycle \<Rightarrow> subscription_lifecycle" where
  "set_indexer_relays relays lc = lc\<lparr>lc_indexer_relays := relays\<rparr>"

definition set_coverage_hook :: "subscription_lifecycle \<Rightarrow> subscription_lifecycle" where
  "set_coverage_hook lc = lc\<lparr>lc_coverage_hook := True\<rparr>"

definition set_req_frame_interceptor :: "subscription_lifecycle \<Rightarrow> subscription_lifecycle" where
  "set_req_frame_interceptor lc = lc\<lparr>lc_req_frame_interceptor := True\<rparr>"

definition set_watermark_fn :: "subscription_lifecycle \<Rightarrow> subscription_lifecycle" where
  "set_watermark_fn lc = lc\<lparr>lc_watermark_fn := True\<rparr>"

definition set_selection_budget :: "usize \<Rightarrow> usize \<Rightarrow> subscription_lifecycle \<Rightarrow> subscription_lifecycle" where
  "set_selection_budget max_connections max_per_user lc =
     lc\<lparr>lc_select_max_connections := max_connections, lc_select_max_per_user := max_per_user\<rparr>"

definition bump_mailbox_generation :: "subscription_lifecycle \<Rightarrow> subscription_lifecycle" where
  "bump_mailbox_generation lc =
     lc\<lparr>lc_mailbox_generation := saturating_inc (lc_mailbox_generation lc), lc_last_compile_fingerprint := None\<rparr>"

definition bump_watermark_generation :: "subscription_lifecycle \<Rightarrow> subscription_lifecycle" where
  "bump_watermark_generation lc =
     lc\<lparr>lc_watermark_generation := saturating_inc (lc_watermark_generation lc), lc_last_compile_fingerprint := None\<rparr>"

definition enqueue_trigger :: "compile_trigger \<Rightarrow> subscription_lifecycle \<Rightarrow> subscription_lifecycle" where
  "enqueue_trigger trigger lc =
     push_trigger trigger
       (case trigger of
          Nip65Arrived _ _ \<Rightarrow> bump_mailbox_generation lc
        | DmRelayListChanged _ _ \<Rightarrow> bump_mailbox_generation lc
        | _ \<Rightarrow> lc)"

section \<open>Outages of the indexer lane\<close>

text \<open>An outage survived: an observation that no indexer is connected followed by one that some is.\<close>

fun outages :: "bool list \<Rightarrow> nat" where
  "outages (a # b # obs) = (if \<not> a \<and> b then 1 else 0) + outages (b # obs)"
| "outages _ = 0"

definition observe_lane :: "bool list \<Rightarrow> subscription_lifecycle \<Rightarrow> subscription_lifecycle" where
  "observe_lane obs lc = fold (\<lambda>up. snd \<circ> note_indexer_lane_recovered up) obs lc"

lemma saturating_inc_add: "saturating_inc (min u64_max (n + k)) = min u64_max (n + Suc k)"
  by (simp add: saturating_inc_def)

lemma note_lane_down [simp]: "lc_indexer_lane_down (snd (note_indexer_lane_recovered up lc)) = (\<not> up)"
  by (simp add: note_indexer_lane_recovered_def push_trigger_def clear_probed_mailboxes_def Let_def)

lemma note_lane_effect:
  "let lc' = snd (note_indexer_lane_recovered up lc); recovered = lc_indexer_lane_down lc \<and> up in
   lc_probe_epoch lc' = (if recovered then saturating_inc (lc_probe_epoch lc) else lc_probe_epoch lc) \<and>
   lc_inbox lc' = lc_inbox lc @ (if recovered then [IndexerSetChanged (lc_probe_epoch lc')] else []) \<and>
   lc_probed_mailboxes lc' = (if recovered then [] else lc_probed_mailboxes lc)"
  by (simp add: note_indexer_lane_recovered_def push_trigger_def clear_probed_mailboxes_def inbox_enqueue_def Let_def)

lemma observe_lane_run:
  assumes "lc_probe_epoch lc = min u64_max n" "outages ((\<not> lc_indexer_lane_down lc) # obs) = m"
  shows "lc_probe_epoch (observe_lane obs lc) = min u64_max (n + m) \<and>
    length (lc_inbox (observe_lane obs lc)) = length (lc_inbox lc) + m \<and>
    (m = 0 \<longrightarrow> lc_probed_mailboxes (observe_lane obs lc) = lc_probed_mailboxes lc) \<and>
    (m \<noteq> 0 \<longrightarrow> lc_probed_mailboxes (observe_lane obs lc) = [])"
  using assms
proof (induction obs arbitrary: lc n m)
  case Nil
  then show ?case by (simp add: observe_lane_def)
next
  case (Cons up obs)
  let ?lc = "snd (note_indexer_lane_recovered up lc)"
  let ?k = "if lc_indexer_lane_down lc \<and> up then 1 else 0 :: nat"
  note effect = note_lane_effect [of up lc, unfolded Let_def]
  have "lc_probe_epoch ?lc = min u64_max (n + ?k)"
    using effect Cons.prems(1) saturating_inc_add [of n 0] by simp
  moreover have "outages ((\<not> lc_indexer_lane_down ?lc) # obs) = m - ?k" "?k \<le> m" "m = ?k + (m - ?k)"
    using Cons.prems(2) by (cases obs; auto)+
  moreover have "observe_lane (up # obs) lc = observe_lane obs ?lc" by (simp add: observe_lane_def)
  ultimately show ?case
    using Cons.IH [of ?lc "n + ?k" "m - ?k"] effect by (auto split: if_splits)
qed

text \<open>The probe epoch counts the outages of the indexer lane and nothing else: first connects,
  repeated losses and reconnects while another indexer is up leave the probe set and the inbox alone;
  each recovery re-arms the probes and asks for one recompile.\<close>

theorem probe_epoch_counts_outages:
  "let lc = observe_lane obs (lifecycle_new\<lparr>lc_probed_mailboxes := probed\<rparr>) in
   lc_probe_epoch lc = min u64_max (outages (True # obs)) \<and> length (lc_inbox lc) = outages (True # obs) \<and>
   lc_probed_mailboxes lc = (if outages (True # obs) = 0 then probed else [])"
  using observe_lane_run [of "lifecycle_new\<lparr>lc_probed_mailboxes := probed\<rparr>" 0 obs "outages (True # obs)"]
  by (simp add: lifecycle_new_def Let_def)

lemma outages_example: "outages [True, True, False, False, True, True, False] = 1" "outages [True, False, True, False, True] = 2"
  by simp_all

end
