(* ===== verification/Subs_Recompile.thy ===== *)
theory Subs_Recompile
  imports Subs_Lifecycle
begin

text \<open>
  Recompiling, draining the inbox and replaying a connection
  (\<open>nmp-core/src/subs/recompile.rs\<close>, \<open>handlers.rs\<close>, \<open>watermark_rewrite.rs\<close>).
\<close>

section \<open>The environment of a call\<close>

text \<open>What the compile-input hash feeds on.\<close>

record fingerprint_input =
  fi_interests :: "logical_interest list"
  fi_mailbox_generation :: u64
  fi_dead_relays :: "relay list"
  fi_indexer_relays :: "relay list"
  fi_active_account_read_relays :: "relay list"
  fi_app_relays :: "relay list"
  fi_bootstrap_content_relays :: "relay list"
  fi_bootstrap_indexer_relays :: "relay list"
  fi_select_max_connections :: usize
  fi_select_max_per_user :: usize
  fi_watermark_generation :: u64
  fi_blocked :: "relay list"

record subs_env =
  se_to_json :: "interest_shape \<Rightarrow> string option"
  se_nostr :: nostr_lib
  se_probe_json :: "pubkey list \<Rightarrow> string"
  se_fingerprint :: "fingerprint_input \<Rightarrow> 64 word"
  se_mailboxes :: mailbox_cache
  se_lookup :: "(pubkey \<Rightarrow> relay \<Rightarrow> bool) option"
  se_blocked :: "relay list option"
  se_coverage_hook :: "compiled_plan \<Rightarrow> compiled_plan"
  se_watermark :: "interest_shape \<Rightarrow> relay \<Rightarrow> u64 option"

definition se_blocked_set :: "subs_env \<Rightarrow> relay list" where
  "se_blocked_set env = (case se_blocked env of None \<Rightarrow> [] | Some blocked \<Rightarrow> blocked)"

section \<open>The watermark rewrite\<close>

definition shape_is_ephemeral_only :: "interest_shape \<Rightarrow> bool" where
  "shape_is_ephemeral_only shape \<longleftrightarrow> sh_kinds shape \<noteq> [] \<and> list_all is_ephemeral (sh_kinds shape)"

definition rewrite_sub ::
  "(interest_shape \<Rightarrow> relay \<Rightarrow> u64 option) \<Rightarrow> logical_interest list \<Rightarrow> relay \<Rightarrow> sub_shape \<Rightarrow> sub_shape" where
  "rewrite_sub watermark_fn interests relay_url sub =
     (let shape = ss_shape sub in
      if shape_is_ephemeral_only shape then sub
      else case sh_since shape of
        None \<Rightarrow>
          if lifecycle_for_shape sub interests \<noteq> Tailing then sub
          else (case watermark_fn shape relay_url of
                  None \<Rightarrow> sub
                | Some watermark \<Rightarrow> sub\<lparr>ss_shape := shape\<lparr>sh_since := Some (saturating_inc watermark)\<rparr>\<rparr>)
      | Some existing \<Rightarrow>
          (case watermark_fn shape relay_url of
             None \<Rightarrow> sub
           | Some watermark \<Rightarrow>
               if saturating_inc watermark > existing
               then sub\<lparr>ss_shape := shape\<lparr>sh_since := Some (saturating_inc watermark)\<rparr>\<rparr> else sub))"

definition apply_watermark_rewrite ::
  "(interest_shape \<Rightarrow> relay \<Rightarrow> u64 option) \<Rightarrow> logical_interest list \<Rightarrow> compiled_plan \<Rightarrow> compiled_plan" where
  "apply_watermark_rewrite watermark_fn interests plan =
     plan\<lparr>cp_per_relay := map (\<lambda>(url, rp). (url, rp\<lparr>rp_sub_shapes :=
        map (rewrite_sub watermark_fn interests (rp_relay_url rp)) (rp_sub_shapes rp)\<rparr>)) (cp_per_relay plan)\<rparr>"

section \<open>Mailbox probes\<close>

function chunks :: "nat \<Rightarrow> 'a list \<Rightarrow> 'a list list" where
  "chunks n xs = (if xs = [] \<or> n = 0 then [] else take n xs # chunks n (drop n xs))"
  by pat_completeness auto
termination by (relation "measure (\<lambda>(n, xs). length xs)") auto

declare chunks.simps [simp del]

text \<open>\<open>format!("{:08x}", h & 0xFFFF_FFFF)\<close> of the hash of a literal and a slice.\<close>

definition hex8 :: "64 word \<Rightarrow> string" where
  "hex8 w = map (\<lambda>i. ''0123456789abcdef'' ! unat (drop_bit (4 * (7 - i)) w AND 15)) [0..<8]"

definition probe_sub_id :: "pubkey list \<Rightarrow> string" where
  "probe_sub_id chunk =
     ''mailbox-probe-'' @
     hex8 (fold hash_str chunk (hash_write (to_le_bytes (length chunk)) (hash_str ''mailbox-probe'' FNV_OFFSET)) AND 0xFFFFFFFF)"

definition kind10002_covered :: "logical_interest list \<Rightarrow> pubkey list" where
  "kind10002_covered interests =
     fold (\<lambda>i acc. if KIND_RELAY_LIST \<in> set (sh_kinds (li_shape i)) then bs_extend acc (sh_authors (li_shape i)) else acc)
       interests []"

definition authors_to_probe :: "mailbox_cache \<Rightarrow> pubkey list \<Rightarrow> logical_interest list \<Rightarrow> pubkey list" where
  "authors_to_probe cache probed interests =
     fold (\<lambda>i acc. fold (\<lambda>author acc.
         if author \<in> set probed then acc
         else if mc_get cache author \<noteq> None then acc
         else if author \<in> set (kind10002_covered interests) then acc
         else bs_insert author acc) (sh_authors (li_shape i)) acc)
       interests []"

definition probe_frames :: "subs_env \<Rightarrow> relay list \<Rightarrow> pubkey list \<Rightarrow> wire_frame list" where
  "probe_frames env probe_relays batch =
     concat (map (\<lambda>chunk. map (\<lambda>relay. Req relay (probe_sub_id chunk) (se_probe_json env chunk) (InterestId u64_max) OneShot)
       probe_relays) (chunks MAILBOX_PROBE_BATCH batch))"

definition mailbox_probes :: "subs_env \<Rightarrow> logical_interest list \<Rightarrow> subscription_lifecycle \<Rightarrow> wire_frame list \<times> subscription_lifecycle" where
  "mailbox_probes env interests lc =
     (let probe_relays = bs_extend (bs_of_list (lc_indexer_relays lc)) (lc_app_relays lc);
          to_probe = authors_to_probe (se_mailboxes env) (lc_probed_mailboxes lc) interests in
      if probe_relays = [] \<or> to_probe = [] then ([], lc)
      else
        let (frames, gate) = gate_partition (probe_frames env probe_relays to_probe) (lc_auth_gate lc)
        in (frames, lc\<lparr>lc_auth_gate := gate, lc_probed_mailboxes := bs_extend (lc_probed_mailboxes lc) to_probe\<rparr>))"

section \<open>Recompiling\<close>

definition fingerprint_input_of :: "subs_env \<Rightarrow> subscription_lifecycle \<Rightarrow> fingerprint_input" where
  "fingerprint_input_of env lc =
     \<lparr>fi_interests = iter_active (lc_registry lc), fi_mailbox_generation = lc_mailbox_generation lc,
      fi_dead_relays = lc_dead_relays lc, fi_indexer_relays = lc_indexer_relays lc,
      fi_active_account_read_relays = lc_active_account_read_relays lc, fi_app_relays = lc_app_relays lc,
      fi_bootstrap_content_relays = lc_bootstrap_content_relays lc,
      fi_bootstrap_indexer_relays = lc_bootstrap_indexer_relays lc,
      fi_select_max_connections = lc_select_max_connections lc, fi_select_max_per_user = lc_select_max_per_user lc,
      fi_watermark_generation = lc_watermark_generation lc, fi_blocked = se_blocked_set env\<rparr>"

text \<open>With a coverage hook installed the memo is off and the stored value a sentinel.\<close>

definition compile_fingerprint :: "subs_env \<Rightarrow> subscription_lifecycle \<Rightarrow> 64 word" where
  "compile_fingerprint env lc = (if lc_coverage_hook lc then 0 else se_fingerprint env (fingerprint_input_of env lc))"

definition memo_hit :: "subs_env \<Rightarrow> subscription_lifecycle \<Rightarrow> bool" where
  "memo_hit env lc \<longleftrightarrow> \<not> lc_coverage_hook lc \<and> lc_last_compile_fingerprint lc = Some (compile_fingerprint env lc)"

definition compiler_of :: "subs_env \<Rightarrow> subscription_lifecycle \<Rightarrow> subscription_compiler" where
  "compiler_of env lc = with_relays_and_bootstrap (se_mailboxes env) (lc_indexer_relays lc)
     (lc_active_account_read_relays lc) (lc_app_relays lc) (lc_bootstrap_content_relays lc) (lc_bootstrap_indexer_relays lc)"

definition retain_relays :: "(relay \<Rightarrow> bool) \<Rightarrow> compiled_plan \<Rightarrow> compiled_plan" where
  "retain_relays P plan = plan\<lparr>cp_per_relay := hm_retain (\<lambda>url _. P url) (cp_per_relay plan)\<rparr>"

text \<open>From the compiled plan to the one all selected relays are reported from: without the dead relays,
  reduced to the connection budget, past the coverage hook and the watermark.\<close>

definition candidate_plan :: "subs_env \<Rightarrow> subscription_lifecycle \<Rightarrow> compiled_plan \<Rightarrow> compiled_plan" where
  "candidate_plan env lc plan =
     (let plan = (if lc_dead_relays lc \<noteq> [] then retain_relays (\<lambda>url. url \<notin> set (lc_dead_relays lc)) plan else plan);
          plan = apply_selection_with_lookup (se_to_json env) (lc_select_max_connections lc) (lc_select_max_per_user lc)
                   (se_lookup env) plan;
          plan = (if lc_coverage_hook lc then se_coverage_hook env plan else plan)
      in if lc_watermark_fn lc
         then apply_watermark_rewrite (se_watermark env) (iter_active (lc_registry lc)) plan else plan)"

definition wire_plan :: "subs_env \<Rightarrow> compiled_plan \<Rightarrow> compiled_plan" where
  "wire_plan env plan =
     (case se_blocked env of
        Some blocked \<Rightarrow> if blocked \<noteq> [] then retain_relays (\<lambda>url. url \<notin> set blocked) plan else plan
      | None \<Rightarrow> plan)"

definition recompile_inner ::
  "subs_env \<Rightarrow> subscription_lifecycle \<Rightarrow> (planner_error + wire_frame list) \<times> subscription_lifecycle" where
  "recompile_inner env lc =
     (let interests = iter_active (lc_registry lc);
          fingerprint = compile_fingerprint env lc in
      if memo_hit env lc then (Inr [], lc)
      else
        case fst (compile (se_to_json env) (compiler_of env lc) interests) of
          Inl e \<Rightarrow> (Inl e, lc)
        | Inr compiled \<Rightarrow>
            let candidate = candidate_plan env lc compiled;
                attribution = map (\<lambda>(url, rp). (url, rp_attribution rp)) (cp_per_relay candidate);
                plan = wire_plan env candidate;
                raw_frames = plan_diff (se_nostr env) (lc_current_plan lc) (Some plan) interests;
                (frames, gate) = gate_partition raw_frames (lc_auth_gate lc);
                lc = lc\<lparr>lc_compile_count := saturating_inc (lc_compile_count lc),
                        lc_current_plan_attribution := attribution, lc_current_plan := Some plan,
                        lc_last_compile_fingerprint := Some fingerprint, lc_auth_gate := gate\<rparr>;
                (probes, lc) = mailbox_probes env interests lc
            in (Inr (frames @ probes), lc))"

definition recompile_and_diff :: "subs_env \<Rightarrow> subscription_lifecycle \<Rightarrow> (planner_error + wire_frame list) \<times> subscription_lifecycle" where
  "recompile_and_diff env lc = recompile_inner (env\<lparr>se_lookup := None, se_blocked := None\<rparr>) lc"

definition recompile_and_diff_with_lookup ::
  "subs_env \<Rightarrow> subscription_lifecycle \<Rightarrow> (planner_error + wire_frame list) \<times> subscription_lifecycle" where
  "recompile_and_diff_with_lookup env lc = recompile_inner (env\<lparr>se_blocked := None\<rparr>) lc"

definition recompile_and_diff_with_blocked ::
  "subs_env \<Rightarrow> relay list \<Rightarrow> subscription_lifecycle \<Rightarrow> (planner_error + wire_frame list) \<times> subscription_lifecycle" where
  "recompile_and_diff_with_blocked env blocked lc = recompile_inner (env\<lparr>se_blocked := Some blocked\<rparr>) lc"

section \<open>Draining the inbox\<close>

definition show_planner_error :: "planner_error \<Rightarrow> string" where
  "show_planner_error e = (case e of
      EmptyInterestSet \<Rightarrow> ''no interests registered''
    | InvalidShape reason \<Rightarrow> ''invalid shape: '' @ reason
    | HashingFailed reason \<Rightarrow> ''plan-id hashing failed: '' @ reason)"

definition apply_auth_trigger :: "compile_trigger \<Rightarrow> wire_frame list \<times> auth_gate \<Rightarrow> wire_frame list \<times> auth_gate" where
  "apply_auth_trigger t acc =
     (case t of
        RelayAuthStateChanged url state \<Rightarrow>
          let (flushed, g) = acc; (frames, g) = record_transition url state g in (flushed @ frames, g)
      | _ \<Rightarrow> acc)"

definition drain_tick_inner :: "subs_env \<Rightarrow> subscription_lifecycle \<Rightarrow> wire_frame list \<times> subscription_lifecycle" where
  "drain_tick_inner env lc =
     (let (triggers, inbox) = drain_coalesced (lc_inbox lc); lc = lc\<lparr>lc_inbox := inbox\<rparr> in
      if triggers = [] then ([], lc)
      else
        let (auth_flushed, gate) = fold apply_auth_trigger triggers ([], lc_auth_gate lc);
            lc = lc\<lparr>lc_auth_gate := gate\<rparr> in
        case recompile_inner env lc of
          (Inr frames, lc) \<Rightarrow> (frames @ auth_flushed, lc)
        | (Inl EmptyInterestSet, lc) \<Rightarrow> (auth_flushed, lc)
        | (Inl e, lc) \<Rightarrow> (auth_flushed, lc\<lparr>lc_last_planner_error := Some (show_planner_error e)\<rparr>))"

definition drain_tick :: "subs_env \<Rightarrow> subscription_lifecycle \<Rightarrow> wire_frame list \<times> subscription_lifecycle" where
  "drain_tick env lc = drain_tick_inner (env\<lparr>se_lookup := None, se_blocked := None\<rparr>) lc"

definition drain_tick_with_lookup :: "subs_env \<Rightarrow> subscription_lifecycle \<Rightarrow> wire_frame list \<times> subscription_lifecycle" where
  "drain_tick_with_lookup env lc = drain_tick_inner (env\<lparr>se_blocked := None\<rparr>) lc"

definition drain_tick_with_lookup_and_blocked ::
  "subs_env \<Rightarrow> relay list \<Rightarrow> subscription_lifecycle \<Rightarrow> wire_frame list \<times> subscription_lifecycle" where
  "drain_tick_with_lookup_and_blocked env blocked lc = drain_tick_inner (env\<lparr>se_blocked := Some blocked\<rparr>) lc"

section \<open>Handlers and diagnostics\<close>

definition current_plan_frames :: "nostr_lib \<Rightarrow> subscription_lifecycle \<Rightarrow> wire_frame list" where
  "current_plan_frames lib lc =
     map (\<lambda>(relay_url, shape). emit_req lib relay_url shape (iter_active (lc_registry lc)) (sub_id_for shape))
       (plan_rows (lc_current_plan lc))"

definition current_plan_unroutable :: "subscription_lifecycle \<Rightarrow> pubkey list" where
  "current_plan_unroutable lc = (case lc_current_plan lc of None \<Rightarrow> [] | Some p \<Rightarrow> cp_unroutable_authors p)"

definition current_plan_wire_origins :: "subscription_lifecycle \<Rightarrow> ((relay \<times> string) \<times> interest_id list) list" where
  "current_plan_wire_origins lc =
     fold (\<lambda>(relay_url, shape). bm_insert (relay_url, sub_id_for shape) (ss_originating_interests shape))
       (plan_rows (lc_current_plan lc)) []"

definition current_interest_owner_counts :: "subscription_lifecycle \<Rightarrow> (interest_id \<times> usize) list" where
  "current_interest_owner_counts lc = owner_counts_by_interest_id (lc_registry lc)"

text \<open>The filter of a replayed subscription: the rewrite on a copy, under the relay that reconnected.\<close>

definition replay_shape ::
  "(interest_shape \<Rightarrow> relay \<Rightarrow> u64 option) \<Rightarrow> logical_interest list \<Rightarrow> relay \<Rightarrow> sub_shape \<Rightarrow> interest_shape" where
  "replay_shape wm interests relay_url sub =
     (let wire_shape = ss_shape sub in
      case sh_since wire_shape of
        None \<Rightarrow>
          if lifecycle_for_shape sub interests = Tailing then
            (case wm wire_shape relay_url of
               Some watermark \<Rightarrow> wire_shape\<lparr>sh_since := Some (saturating_inc watermark)\<rparr>
             | None \<Rightarrow> wire_shape)
          else wire_shape
      | Some existing \<Rightarrow>
          (case wm wire_shape relay_url of
             Some watermark \<Rightarrow>
               if saturating_inc watermark > existing then wire_shape\<lparr>sh_since := Some (saturating_inc watermark)\<rparr> else wire_shape
           | None \<Rightarrow> wire_shape))"

definition handle_reconnect :: "subs_env \<Rightarrow> relay \<Rightarrow> subscription_lifecycle \<Rightarrow> wire_frame list" where
  "handle_reconnect env relay_url lc =
     (case lc_current_plan lc of
        None \<Rightarrow> []
      | Some plan \<Rightarrow>
          (case map_of (cp_per_relay plan) relay_url of
             None \<Rightarrow> []
           | Some relay_plan \<Rightarrow>
               let interests = iter_active (lc_registry lc) in
               map (\<lambda>shape.
                 Req relay_url (sub_id_for shape)
                   (filter_json_for (se_nostr env)
                     (if lc_watermark_fn lc \<and> \<not> shape_is_ephemeral_only (ss_shape shape)
                      then replay_shape (se_watermark env) interests relay_url shape else ss_shape shape))
                   (first_origin shape) (lifecycle_for_shape shape interests)) (rp_sub_shapes relay_plan)))"

definition handle_auth_state_change ::
  "relay \<Rightarrow> relay_auth_state \<Rightarrow> subscription_lifecycle \<Rightarrow> wire_frame list \<times> subscription_lifecycle" where
  "handle_auth_state_change relay_url state lc =
     (let (frames, gate) = record_transition relay_url state (lc_auth_gate lc) in (frames, lc\<lparr>lc_auth_gate := gate\<rparr>))"

end
