(* ===== verification/Subs_Plan.thy ===== *)
theory Subs_Plan
  imports Subs_Recompile
begin

text \<open>
  What the passes over a plan keep: the watermark rewrite moves only \<open>since\<close>, the retention passes only
  drop relays, and every plan the lifecycle holds is a map from relays to their own plans.
\<close>

section \<open>The watermark\<close>

text \<open>The resolver's floor for a sub-shape; filters on ephemeral kinds and one-shot requests for the whole
  history have none.\<close>

definition watermark_floor ::
  "(interest_shape \<Rightarrow> relay \<Rightarrow> u64 option) \<Rightarrow> logical_interest list \<Rightarrow> relay \<Rightarrow> sub_shape \<Rightarrow> u64 option" where
  "watermark_floor wm interests relay_url sub =
     (if shape_is_ephemeral_only (ss_shape sub) \<or>
         (sh_since (ss_shape sub) = None \<and> lifecycle_for_shape sub interests \<noteq> Tailing) then None
      else map_option saturating_inc (wm (ss_shape sub) relay_url))"

lemma rewrite_sub_since:
  "rewrite_sub wm interests r sub =
     (case watermark_floor wm interests r sub of
        None \<Rightarrow> sub
      | Some floor \<Rightarrow>
          if (case sh_since (ss_shape sub) of None \<Rightarrow> True | Some existing \<Rightarrow> existing < floor)
          then sub\<lparr>ss_shape := (ss_shape sub)\<lparr>sh_since := Some floor\<rparr>\<rparr> else sub)"
  by (auto simp: rewrite_sub_def watermark_floor_def Let_def split: option.splits)

lemma rewrite_sub_hash [simp]:
  "ss_canonical_filter_hash (rewrite_sub wm interests r sub) = ss_canonical_filter_hash sub"
  "ss_originating_interests (rewrite_sub wm interests r sub) = ss_originating_interests sub"
  by (simp_all add: rewrite_sub_since split: option.splits)

lemma rewrite_sub_id [simp]:
  "sub_id_for (rewrite_sub wm interests r sub) = sub_id_for sub"
  "first_origin (rewrite_sub wm interests r sub) = first_origin sub"
  "lifecycle_for_shape (rewrite_sub wm interests r sub) is = lifecycle_for_shape sub is"
  by (simp_all add: sub_id_for_def first_origin_def lifecycle_for_shape_def)

text \<open>The watermark rewrite asks for the same events from the floor on and for nothing else: an event
  answers the rewritten filter exactly when it answered the original and is not below the floor, and the
  subscription keeps its id, its interests and every other field.\<close>

theorem watermark_floors_filter:
  "let sub' = rewrite_sub wm interests relay_url sub in
   matches_event_with_id (ss_shape sub') i author kind t tags =
     (matches_event_with_id (ss_shape sub) i author kind t tags \<and>
      unwrap_or 0 (watermark_floor wm interests relay_url sub) \<le> t) \<and>
   sub_id_for sub' = sub_id_for sub \<and>
   sub'\<lparr>ss_shape := (ss_shape sub')\<lparr>sh_since := None\<rparr>\<rparr> = sub\<lparr>ss_shape := (ss_shape sub)\<lparr>sh_since := None\<rparr>\<rparr>"
proof -
  have "unwrap_or 0 (watermark_floor wm interests relay_url sub) \<le> t"
    if "matches_event_with_id (ss_shape (rewrite_sub wm interests relay_url sub)) i author kind t tags"
    using that by (auto simp: rewrite_sub_since matches_admits shape_admits_def split: option.splits if_splits)
  moreover have "matches_event_with_id (ss_shape sub) i author kind t tags"
    if "matches_event_with_id (ss_shape (rewrite_sub wm interests relay_url sub)) i author kind t tags"
    using that by (auto simp: rewrite_sub_since matches_admits shape_admits_def split: option.splits if_splits)
  moreover have "matches_event_with_id (ss_shape (rewrite_sub wm interests relay_url sub)) i author kind t tags"
    if "matches_event_with_id (ss_shape sub) i author kind t tags" "unwrap_or 0 (watermark_floor wm interests relay_url sub) \<le> t"
    using that by (auto simp: rewrite_sub_since matches_admits shape_admits_def split: option.splits)
  moreover have "(rewrite_sub wm interests relay_url sub)\<lparr>ss_shape :=
      (ss_shape (rewrite_sub wm interests relay_url sub))\<lparr>sh_since := None\<rparr>\<rparr> = sub\<lparr>ss_shape := (ss_shape sub)\<lparr>sh_since := None\<rparr>\<rparr>"
    by (simp add: rewrite_sub_since split: option.splits)
  ultimately show ?thesis by (auto simp: Let_def)
qed

section \<open>Plans as maps\<close>

definition plan_wf :: "compiled_plan \<Rightarrow> bool" where
  "plan_wf plan \<longleftrightarrow> bm_wf (cp_per_relay plan) \<and> list_all (\<lambda>(url, rp). rp_relay_url rp = url) (cp_per_relay plan)"

text \<open>The rows of one relay.\<close>

definition relay_rows :: "relay \<Rightarrow> compiled_plan option \<Rightarrow> sub_shape list" where
  "relay_rows r plan = map snd (filter (\<lambda>(url, _). url = r) (plan_rows plan))"

lemma plan_rows_Some: "plan_rows (Some p) = concat (map (\<lambda>(url, rp). map (Pair url) (rp_sub_shapes rp)) (cp_per_relay p))"
  by (simp add: plan_rows_def)

lemma in_plan_rows:
  "(r, s) \<in> set (plan_rows (Some p)) \<longleftrightarrow> (\<exists>rp. (r, rp) \<in> set (cp_per_relay p) \<and> s \<in> set (rp_sub_shapes rp))"
  by (auto simp: plan_rows_Some)

lemma in_sub_keys:
  "(r, k) \<in> sub_keys (Some p) \<longleftrightarrow>
     (\<exists>rp shape. (r, rp) \<in> set (cp_per_relay p) \<and> shape \<in> set (rp_sub_shapes rp) \<and> k = sub_id_for shape)"
  by (auto simp: sub_key_iff in_plan_rows)

lemma relay_rows_map:
  assumes "hm_wf (cp_per_relay p)"
  shows "relay_rows r (Some p) = (case map_of (cp_per_relay p) r of None \<Rightarrow> [] | Some rp \<Rightarrow> rp_sub_shapes rp)"
proof -
  have absent: "r \<notin> fst ` set m \<Longrightarrow> filter (\<lambda>(url, _). url = r) (concat (map (\<lambda>(url, rp). map (Pair url) (rp_sub_shapes rp)) m)) = []"
    for m :: "(relay \<times> relay_plan) list"
    by (auto simp: filter_empty_conv) (force simp: image_iff)
  have here: "filter (\<lambda>(url, _). url = r) (map (Pair u) xs) = (if u = r then map (Pair u) xs else [])" for u and xs :: "sub_shape list"
    by (auto simp: filter_map comp_def)
  have "hm_wf m \<Longrightarrow> map snd (filter (\<lambda>(url, _). url = r) (concat (map (\<lambda>(url, rp). map (Pair url) (rp_sub_shapes rp)) m))) =
      (case map_of m r of None \<Rightarrow> [] | Some rp \<Rightarrow> rp_sub_shapes rp)" for m :: "(relay \<times> relay_plan) list"
  proof (induction m)
    case (Cons row m)
    obtain u rp where row: "row = (u, rp)" by (cases row)
    have "map_of m u = None" using Cons.prems by (simp add: row map_of_eq_None_iff)
    then show ?case
      using Cons absent [of m] by (auto simp: row here comp_def)
  qed simp
  with assms show ?thesis by (simp add: relay_rows_def plan_rows_Some)
qed

lemma compile_wf: "fst (compile to_json c interests) = Inr plan \<Longrightarrow> plan_wf plan"
proof -
  assume "fst (compile to_json c interests) = Inr plan"
  then obtain probes where c: "compile_with_context to_json c interests context_default = (Inr plan, probes)"
    by (metis compile_def prod.collapse)
  have "bm_wf (cp_per_relay plan)"
    using partition_all_wf [of c interests] by (simp add: compile_plan(1) [OF c] rt_wf_def comp_def split_def)
  moreover have "list_all (\<lambda>(url, rp). rp_relay_url rp = url) (cp_per_relay plan)"
    by (auto simp: compile_plan(1) [OF c] list_all_iff relay_plan_facts(1))
  ultimately show "plan_wf plan" by (simp add: plan_wf_def)
qed

lemma compile_total: "\<exists>plan. fst (compile to_json c interests) = Inr plan"
  by (simp add: compile_def compile_with_context_def Let_def)

lemma retain_wf: "plan_wf plan \<Longrightarrow> plan_wf (retain_relays P plan)"
  by (auto simp: plan_wf_def retain_relays_def hm_retain_def list_all_iff sorted_wrt_map intro: sorted_wrt_filter)

lemma narrow_relay_url: "narrow_relay to_json allowed rp = Some rp' \<Longrightarrow> rp_relay_url rp' = rp_relay_url rp"
  by (auto simp: narrow_relay_def Let_def split: if_splits)

lemma selection_plan_wf:
  assumes "plan_wf plan"
  shows "plan_wf (apply_selection_with_lookup to_json c m lookup plan)"
proof -
  have "rp_relay_url rp' = url'" if "project_relay to_json pinned out (url, rp) = Some (url', rp')" "rp_relay_url rp = url"
    for pinned out url rp url' rp'
    using that by (auto simp: project_relay_def dest!: narrow_relay_url split: if_splits option.splits)
  then have "list_all (\<lambda>(url, rp). rp_relay_url rp = url) (cp_per_relay (apply_selection_with_lookup to_json c m lookup plan))"
    using assms by (force simp: plan_wf_def apply_selection_with_lookup_def Let_def list_all_iff set_map_filter_iff)
  with assms selection_wf [of plan] show ?thesis by (simp add: plan_wf_def)
qed

lemma rewrite_rows:
  "cp_per_relay (apply_watermark_rewrite wm is plan) =
     map (\<lambda>(url, rp). (url, rp\<lparr>rp_sub_shapes := map (rewrite_sub wm is (rp_relay_url rp)) (rp_sub_shapes rp)\<rparr>)) (cp_per_relay plan)"
  by (simp add: apply_watermark_rewrite_def)

lemma rewrite_wf: "plan_wf plan \<Longrightarrow> plan_wf (apply_watermark_rewrite wm is plan)"
  by (auto simp: plan_wf_def rewrite_rows comp_def split_def list_all_iff)

lemma sub_keys_rewrite [simp]: "sub_keys (Some (apply_watermark_rewrite wm is plan)) = sub_keys (Some plan)"
proof -
  have "(r, k) \<in> sub_keys (Some (apply_watermark_rewrite wm is plan)) \<longleftrightarrow> (r, k) \<in> sub_keys (Some plan)" for r k
    unfolding in_sub_keys rewrite_rows by fastforce
  then show ?thesis by auto
qed

lemma sub_keys_retain: "sub_keys (Some (retain_relays P plan)) = {k \<in> sub_keys (Some plan). P (fst k)}"
proof -
  have "(r, k) \<in> sub_keys (Some (retain_relays P plan)) \<longleftrightarrow> (r, k) \<in> sub_keys (Some plan) \<and> P r" for r k
    unfolding in_sub_keys by (auto simp: retain_relays_def hm_retain_def)
  then show ?thesis by auto
qed

section \<open>A recompile in closed form\<close>

lemma selection_relays:
  "(r, rp') \<in> set (cp_per_relay (apply_selection_with_lookup to_json c m lookup plan)) \<Longrightarrow> \<exists>rp. (r, rp) \<in> set (cp_per_relay plan)"
  using project_key by (fastforce simp: apply_selection_with_lookup_def Let_def set_map_filter_iff)

text \<open>A hook gets and leaves a map.\<close>

definition hook_ok :: "subs_env \<Rightarrow> bool" where
  "hook_ok env \<longleftrightarrow> (\<forall>plan. plan_wf plan \<longrightarrow> plan_wf (se_coverage_hook env plan))"

definition next_plan :: "subs_env \<Rightarrow> subscription_lifecycle \<Rightarrow> compiled_plan" where
  "next_plan env lc = wire_plan env (candidate_plan env lc
     (case fst (compile (se_to_json env) (compiler_of env lc) (iter_active (lc_registry lc))) of
        Inr plan \<Rightarrow> plan | Inl _ \<Rightarrow> empty_plan []))"

lemma wire_plan_wf: "plan_wf plan \<Longrightarrow> plan_wf (wire_plan env plan)"
  by (simp add: wire_plan_def retain_wf split: option.split)

lemma candidate_plan_wf: "plan_wf plan \<Longrightarrow> hook_ok env \<Longrightarrow> plan_wf (candidate_plan env lc plan)"
  by (simp add: candidate_plan_def Let_def hook_ok_def retain_wf selection_plan_wf rewrite_wf)

lemma next_plan_wf: "hook_ok env \<Longrightarrow> plan_wf (next_plan env lc)"
  unfolding next_plan_def
  by (intro wire_plan_wf candidate_plan_wf)
    (auto simp: plan_wf_def empty_plan_def dest!: compile_wf split: sum.split)

lemma wire_plan_keys: "sub_keys (Some (wire_plan env plan)) = {k \<in> sub_keys (Some plan). fst k \<notin> set (se_blocked_set env)}"
  by (auto simp: wire_plan_def se_blocked_set_def sub_keys_retain split: option.split)

lemma candidate_alive:
  assumes "\<not> lc_coverage_hook lc" "(r, k) \<in> sub_keys (Some (candidate_plan env lc plan))"
  shows "r \<notin> set (lc_dead_relays lc)"
proof -
  let ?plan = "if lc_dead_relays lc \<noteq> [] then retain_relays (\<lambda>url. url \<notin> set (lc_dead_relays lc)) plan else plan"
  have "(r, k) \<in> sub_keys (Some (apply_selection_with_lookup (se_to_json env) (lc_select_max_connections lc)
      (lc_select_max_per_user lc) (se_lookup env) ?plan))"
    using assms by (simp add: candidate_plan_def Let_def split: if_splits)
  then obtain rp where "(r, rp) \<in> set (cp_per_relay ?plan)"
    by (auto simp: in_sub_keys dest!: selection_relays)
  then show ?thesis by (auto simp: retain_relays_def hm_retain_def split: if_splits)
qed

text \<open>The probes of one recompile.\<close>

definition probe_relays :: "subscription_lifecycle \<Rightarrow> relay list" where
  "probe_relays lc = bs_extend (bs_of_list (lc_indexer_relays lc)) (lc_app_relays lc)"

definition wanted_probes :: "subs_env \<Rightarrow> subscription_lifecycle \<Rightarrow> pubkey list" where
  "wanted_probes env lc = (if probe_relays lc = [] then []
     else authors_to_probe (se_mailboxes env) (lc_probed_mailboxes lc) (iter_active (lc_registry lc)))"

definition probe_reqs :: "subs_env \<Rightarrow> subscription_lifecycle \<Rightarrow> wire_frame list" where
  "probe_reqs env lc = probe_frames env (probe_relays lc) (wanted_probes env lc)"

definition content_frames :: "subs_env \<Rightarrow> subscription_lifecycle \<Rightarrow> wire_frame list" where
  "content_frames env lc =
     plan_diff (se_nostr env) (lc_current_plan lc) (Some (next_plan env lc)) (iter_active (lc_registry lc))"

lemma chunks_Nil [simp]: "chunks n [] = []"
  by (simp add: chunks.simps)

lemma probe_frames_Nil [simp]: "probe_frames env rs [] = []"
  by (simp add: probe_frames_def)

lemma fold_gate_out: "snd (fold gate_frame fs (out, g)) = snd (fold gate_frame fs ([], g))"
proof (induction fs arbitrary: out g)
  case (Cons f fs)
  obtain out' g' where f: "gate_frame f ([], g) = (out', g')" by fastforce
  then have "gate_frame f (out, g) = (out @ out', g')" by (auto simp: gate_frame_def Let_def split: if_splits)
  then show ?case using Cons [of "out @ out'" g'] Cons [of out' g'] by (simp add: f)
qed simp

lemma gate_partition_append:
  "gate_partition (xs @ ys) g =
     (let (out, g') = gate_partition xs g; (out', g'') = gate_partition ys g' in (out @ out', g''))"
proof -
  have "passes (snd (gate_partition xs g)) = passes g"
    using paused_cong [of "snd (gate_partition xs g)" g] by (simp add: passes_def fun_eq_iff)
  then have "fst (gate_partition (xs @ ys) g) = fst (gate_partition xs g) @ fst (gate_partition ys (snd (gate_partition xs g)))"
    by (simp add: partition_passes)
  moreover have "snd (gate_partition (xs @ ys) g) = snd (gate_partition ys (snd (gate_partition xs g)))"
    unfolding gate_partition_def fold_append comp_def by (metis fold_gate_out prod.collapse)
  ultimately show ?thesis by (simp add: split_def Let_def prod_eq_iff)
qed

lemma recompile_full:
  assumes "\<not> memo_hit env lc"
  shows "recompile_inner env lc =
    (let (frames, gate) = gate_partition (content_frames env lc @ probe_reqs env lc) (lc_auth_gate lc) in
     (Inr frames, snd (recompile_inner env lc))) \<and>
   lc_current_plan (snd (recompile_inner env lc)) = Some (next_plan env lc) \<and>
   lc_auth_gate (snd (recompile_inner env lc)) = snd (gate_partition (content_frames env lc @ probe_reqs env lc) (lc_auth_gate lc)) \<and>
   lc_probed_mailboxes (snd (recompile_inner env lc)) = bs_extend (lc_probed_mailboxes lc) (wanted_probes env lc) \<and>
   lc_last_compile_fingerprint (snd (recompile_inner env lc)) = Some (compile_fingerprint env lc) \<and>
   lc_compile_count (snd (recompile_inner env lc)) = saturating_inc (lc_compile_count lc)"
proof -
  obtain plan where plan: "fst (compile (se_to_json env) (compiler_of env lc) (iter_active (lc_registry lc))) = Inr plan"
    using compile_total by blast
  then have n: "wire_plan env (candidate_plan env lc plan) = next_plan env lc" by (simp add: next_plan_def)
  define c where "c = gate_partition (content_frames env lc) (lc_auth_gate lc)"
  define p where "p = gate_partition (probe_reqs env lc) (snd c)"
  have both: "gate_partition (content_frames env lc @ probe_reqs env lc) (lc_auth_gate lc) = (fst c @ fst p, snd p)"
    by (simp add: gate_partition_append split_def Let_def c_def p_def)
  define lc1 where "lc1 = lc\<lparr>lc_compile_count := saturating_inc (lc_compile_count lc),
    lc_current_plan_attribution := map (\<lambda>(url, rp). (url, rp_attribution rp)) (cp_per_relay (candidate_plan env lc plan)),
    lc_current_plan := Some (next_plan env lc), lc_last_compile_fingerprint := Some (compile_fingerprint env lc),
    lc_auth_gate := snd c\<rparr>"
  have probes: "mailbox_probes env (iter_active (lc_registry lc)) lc1 =
      (fst p, lc1\<lparr>lc_auth_gate := snd p, lc_probed_mailboxes := bs_extend (lc_probed_mailboxes lc) (wanted_probes env lc)\<rparr>)"
    unfolding mailbox_probes_def Let_def probe_reqs_def [symmetric]
    by (simp add: lc1_def p_def probe_reqs_def wanted_probes_def probe_relays_def split_def Let_def bs_extend_def)
  have "recompile_inner env lc = (Inr (fst c @ fst p),
      lc1\<lparr>lc_auth_gate := snd p, lc_probed_mailboxes := bs_extend (lc_probed_mailboxes lc) (wanted_probes env lc)\<rparr>)"
    using assms probes unfolding recompile_inner_def Let_def plan
    by (simp add: n split_def lc1_def content_frames_def [symmetric] c_def [symmetric])
  then show ?thesis unfolding both by (simp add: lc1_def)
qed

lemma recompile_memo: "memo_hit env lc \<Longrightarrow> recompile_inner env lc = (Inr [], lc)"
  by (simp add: recompile_inner_def Let_def)

lemma recompile_keeps:
  "lc_registry (snd (recompile_inner env lc)) = lc_registry lc"
  "lc_inbox (snd (recompile_inner env lc)) = lc_inbox lc"
  "lc_dead_relays (snd (recompile_inner env lc)) = lc_dead_relays lc"
  "lc_coverage_hook (snd (recompile_inner env lc)) = lc_coverage_hook lc"
  by (auto simp: recompile_inner_def mailbox_probes_def Let_def split: sum.split prod.split)

lemma fst_recompile:
  "\<not> memo_hit env lc \<Longrightarrow>
     fst (recompile_inner env lc) = Inr (filter (passes (lc_auth_gate lc)) (content_frames env lc @ probe_reqs env lc))"
  using arg_cong [OF conjunct1 [OF recompile_full], of env lc fst] by (simp add: partition_passes split_def Let_def)

section \<open>A small lifecycle\<close>

definition demo_subs_env :: subs_env where
  "demo_subs_env = \<lparr>se_to_json = (\<lambda>_. None), se_nostr = demo_lib, se_probe_json = (\<lambda>_. ''{}''),
     se_fingerprint = (\<lambda>fi. of_nat (length (fi_interests fi))), se_mailboxes = empty_mailbox_cache, se_lookup = None,
     se_blocked = Some [''wss://blocked''], se_coverage_hook = id, se_watermark = (\<lambda>_ _. Some 9)\<rparr>"

definition demo_follow :: logical_interest where
  "demo_follow = logical_default\<lparr>li_id := InterestId 1, li_lifecycle := Tailing, li_shape := timeline_for [''alice''] [1]\<rparr>"

definition demo_lc :: subscription_lifecycle where
  "demo_lc = lifecycle_new\<lparr>lc_registry := registry_step (Register Replace (demo_identity 1) demo_follow) [],
     lc_app_relays := [''wss://app''], lc_indexer_relays := [''wss://index''], lc_dead_relays := [''wss://dead''],
     lc_watermark_fn := True\<rparr>"

lemma demo_active: "iter_active (lc_registry demo_lc) = [demo_follow]"
  by code_simp

lemma demo_miss: "\<not> memo_hit env demo_lc"
  by (simp add: memo_hit_def demo_lc_def lifecycle_new_def)

lemma demo_wanted: "wanted_probes demo_subs_env demo_lc = [''alice'']"
  by code_simp

section \<open>What a recompile may send\<close>

definition probe_keys :: "subs_env \<Rightarrow> subscription_lifecycle \<Rightarrow> (relay \<times> string) set" where
  "probe_keys env lc = set (probe_relays lc) \<times> probe_sub_id ` set (chunks MAILBOX_PROBE_BATCH (wanted_probes env lc))"

lemma set_probe_relays: "set (probe_relays lc) = set (lc_indexer_relays lc) \<union> set (lc_app_relays lc)"
  by (simp add: probe_relays_def)

lemma opened_probes: "opened (probe_reqs env lc) = probe_keys env lc"
  by (auto simp: opened_def probe_reqs_def probe_frames_def probe_keys_def frame_key_def image_iff)

lemma closed_probes [simp]: "closed (probe_reqs env lc) = {}"
  by (auto simp: closed_def probe_reqs_def probe_frames_def)

lemma opened_filter: "opened (filter P fs) \<subseteq> opened fs"
  by (auto simp: opened_def)

lemma closed_passes [simp]: "closed (filter (passes g) fs) = closed fs"
  by (auto simp: closed_def passes_def)

text \<open>C31. A recompile sends no request past its gates. When the memo skips it, it sends nothing and
  changes nothing. Otherwise every request is a subscription of the new plan or a mailbox probe at an
  indexer or app relay, none goes to a relay whose last reported state is challenged, authenticating or
  failed, and the new plan names no blocked relay and, while no coverage hook is installed (one could put
  it back), no dead one.\<close>

theorem recompile_confined:
  assumes "recompile_inner env lc = (Inr frames, lc')"
  shows "if memo_hit env lc then frames = [] \<and> lc' = lc
    else opened frames \<subseteq> sub_keys (lc_current_plan lc') \<union> probe_keys env lc \<and>
      fst ` probe_keys env lc \<subseteq> set (lc_indexer_relays lc) \<union> set (lc_app_relays lc) \<and>
      opened frames \<inter> {(r, k). map_of (ag_state (lc_auth_gate lc')) r \<in>
        {Some ChallengeReceived, Some Authenticating, Some Failed}} = {} \<and>
      fst ` sub_keys (lc_current_plan lc') \<inter> set (se_blocked_set env) = {} \<and>
      (lc_coverage_hook lc \<or> fst ` sub_keys (lc_current_plan lc') \<inter> set (lc_dead_relays lc) = {})"
proof (cases "memo_hit env lc")
  case True
  then show ?thesis using assms recompile_memo by simp
next
  case False
  have frames: "frames = filter (passes (lc_auth_gate lc)) (content_frames env lc @ probe_reqs env lc)"
    using fst_recompile [OF False] assms by simp
  have plan: "lc_current_plan lc' = Some (next_plan env lc)" and
    state: "ag_state (lc_auth_gate lc') = ag_state (lc_auth_gate lc)"
    using recompile_full [OF False] assms by simp_all
  have "opened frames \<subseteq> sub_keys (lc_current_plan lc') \<union> probe_keys env lc"
    using opened_filter [of "passes (lc_auth_gate lc)" "content_frames env lc @ probe_reqs env lc"]
    by (auto simp: frames plan opened_diff opened_probes content_frames_def)
  moreover have "fst ` probe_keys env lc \<subseteq> set (lc_indexer_relays lc) \<union> set (lc_app_relays lc)"
    by (auto simp: probe_keys_def set_probe_relays)
  moreover have "opened frames \<inter> {(r, k). map_of (ag_state (lc_auth_gate lc')) r \<in>
      {Some ChallengeReceived, Some Authenticating, Some Failed}} = {}"
    by (auto simp: frames state opened_def frame_key_def passes_def is_paused_def)
  moreover have "fst ` sub_keys (lc_current_plan lc') \<inter> set (se_blocked_set env) = {}"
    by (auto simp: plan next_plan_def wire_plan_keys)
  moreover have "lc_coverage_hook lc \<or> fst ` sub_keys (lc_current_plan lc') \<inter> set (lc_dead_relays lc) = {}"
    using candidate_alive [of lc _ _ env] by (auto simp: plan next_plan_def wire_plan_keys)
  ultimately show ?thesis using False by simp
qed

theorem recompile_confined_witness:
  "\<exists>frames lc'. recompile_inner demo_subs_env demo_lc = (Inr frames, lc') \<and>
     opened frames \<subseteq> sub_keys (lc_current_plan lc') \<union> probe_keys demo_subs_env demo_lc \<and>
     fst ` sub_keys (lc_current_plan lc') \<inter> {''wss://blocked'', ''wss://dead''} = {}"
proof -
  obtain frames where res: "recompile_inner demo_subs_env demo_lc = (Inr frames, snd (recompile_inner demo_subs_env demo_lc))"
    using fst_recompile [OF demo_miss, of demo_subs_env] by (metis prod.collapse)
  have "se_blocked_set demo_subs_env = [''wss://blocked'']" "lc_dead_relays demo_lc = [''wss://dead'']" "\<not> lc_coverage_hook demo_lc"
    by (simp_all add: se_blocked_set_def demo_subs_env_def demo_lc_def lifecycle_new_def)
  then show ?thesis using recompile_confined [OF res] demo_miss res by auto
qed

section \<open>Mailbox probes\<close>

lemma set_covered:
  "set (kind10002_covered interests) =
     (\<Union>i \<in> {i \<in> set interests. KIND_RELAY_LIST \<in> set (sh_kinds (li_shape i))}. set (sh_authors (li_shape i)))"
proof -
  have "set (fold (\<lambda>i acc. if KIND_RELAY_LIST \<in> set (sh_kinds (li_shape i)) then bs_extend acc (sh_authors (li_shape i)) else acc) is acc) =
      set acc \<union> (\<Union>i \<in> {i \<in> set is. KIND_RELAY_LIST \<in> set (sh_kinds (li_shape i))}. set (sh_authors (li_shape i)))"
    for "is" :: "logical_interest list" and acc
    by (induction "is" arbitrary: acc) auto
  from this [of interests "[]"] show ?thesis by (simp add: kind10002_covered_def)
qed

lemma probe_author_fold:
  "set (fold (\<lambda>author acc. if author \<in> A then acc else if g author \<noteq> None then acc
       else if author \<in> C then acc else bs_insert author acc) authors acc) =
     set acc \<union> {a \<in> set authors. a \<notin> A \<and> g a = None \<and> a \<notin> C} \<and>
   (bs_wf acc \<longrightarrow> bs_wf (fold (\<lambda>author acc. if author \<in> A then acc else if g author \<noteq> None then acc
       else if author \<in> C then acc else bs_insert author acc) authors acc))"
  by (induction authors arbitrary: acc) (auto simp: bs_wf_insert)

lemma set_authors_to_probe:
  "set (authors_to_probe cache probed interests) =
     {a. \<exists>i \<in> set interests. a \<in> set (sh_authors (li_shape i))} - set probed - {a. mc_get cache a \<noteq> None} -
     set (kind10002_covered interests)"
  and authors_to_probe_wf: "bs_wf (authors_to_probe cache probed interests)"
proof -
  let ?step = "\<lambda>i acc. fold (\<lambda>author acc. if author \<in> set probed then acc else if mc_get cache author \<noteq> None then acc
         else if author \<in> set (kind10002_covered interests) then acc else bs_insert author acc) (sh_authors (li_shape i)) acc"
  have "set (fold ?step is acc) = set acc \<union>
      {a. (\<exists>i \<in> set is. a \<in> set (sh_authors (li_shape i))) \<and> a \<notin> set probed \<and> mc_get cache a = None \<and>
          a \<notin> set (kind10002_covered interests)} \<and> (bs_wf acc \<longrightarrow> bs_wf (fold ?step is acc))" for "is" acc
  proof (induction "is" arbitrary: acc)
    case (Cons i "is")
    show ?case
      using Cons [of "?step i acc"] probe_author_fold [of "set probed" "mc_get cache" "set (kind10002_covered interests)" "sh_authors (li_shape i)" acc]
      by auto
  qed simp
  from this [of interests "[]"] show "set (authors_to_probe cache probed interests) =
     {a. \<exists>i \<in> set interests. a \<in> set (sh_authors (li_shape i))} - set probed - {a. mc_get cache a \<noteq> None} -
     set (kind10002_covered interests)" "bs_wf (authors_to_probe cache probed interests)"
    by (auto simp: authors_to_probe_def)
qed

lemma concat_chunks: "0 < n \<Longrightarrow> concat (chunks n xs) = xs"
  by (induction n xs rule: chunks.induct) (subst chunks.simps, auto)

lemma chunks_one: "xs \<noteq> [] \<Longrightarrow> length xs \<le> n \<Longrightarrow> chunks n xs = [xs]"
  using chunks.simps [of n xs] by (cases n) simp_all

lemma chunks_length: "c \<in> set (chunks n xs) \<Longrightarrow> 0 < length c \<and> length c \<le> n"
proof (induction n xs rule: chunks.induct)
  case (1 n xs)
  then show ?case by (subst (asm) (2) chunks.simps) (auto split: if_splits)
qed

text \<open>C32. A recompile that the memo does not skip asks for the relay list of every author it targets and
  knows nothing of, once. While some indexer or app relay is configured, the authors it newly marks as
  probed are exactly those of the interests that are neither cached nor marked nor covered by an interest
  in relay lists. They are split into batches of at most 500, each author in one, and behind the frames
  of the plan's difference the recompile emits one request per batch and probe relay that asks for the authors of
  the batch: the answer is what of these frames the gate passes, and the gate keeps the others in their relay's
  buffer unless the relay failed.\<close>

theorem mailbox_probes_once:
  assumes "recompile_inner env lc = (Inr frames, lc')" and "\<not> memo_hit env lc"
    and "lc_indexer_relays lc \<noteq> [] \<or> lc_app_relays lc \<noteq> []"
  shows "let new = {a. \<exists>i \<in> set (iter_active (lc_registry lc)). a \<in> set (sh_authors (li_shape i))} -
        set (lc_probed_mailboxes lc) - {a. mc_get (se_mailboxes env) a \<noteq> None} -
        set (kind10002_covered (iter_active (lc_registry lc)));
      plan_frames = plan_diff (se_nostr env) (lc_current_plan lc) (lc_current_plan lc') (iter_active (lc_registry lc));
      probe = (\<lambda>batch r. Req r (probe_sub_id batch) (se_probe_json env batch) (InterestId u64_max) OneShot) in
    set (lc_probed_mailboxes lc') = set (lc_probed_mailboxes lc) \<union> new \<and>
    (\<exists>batches relays. set (concat batches) = new \<and> distinct (concat batches) \<and>
      list_all (\<lambda>batch. 0 < length batch \<and> length batch \<le> 500) batches \<and>
      set relays = set (lc_indexer_relays lc) \<union> set (lc_app_relays lc) \<and>
      (let probes = concat (map (\<lambda>batch. map (probe batch) relays) batches) in
       frames = filter (passes (lc_auth_gate lc)) (plan_frames @ probes) \<and>
       (\<forall>r. pending_at (lc_auth_gate lc') r = pending_at (lc_auth_gate lc) r @
          filter (held (lc_auth_gate lc) r) (plan_frames @ probes))))"
proof -
  have "probe_relays lc \<noteq> []" using assms(3) set_probe_relays [of lc] by auto
  then have w: "wanted_probes env lc = authors_to_probe (se_mailboxes env) (lc_probed_mailboxes lc) (iter_active (lc_registry lc))"
    by (simp add: wanted_probes_def)
  let ?batches = "chunks MAILBOX_PROBE_BATCH (wanted_probes env lc)"
  have all: "concat ?batches = wanted_probes env lc"
    by (rule concat_chunks) (simp add: MAILBOX_PROBE_BATCH_def)
  have "bs_wf (wanted_probes env lc)" using authors_to_probe_wf by (simp add: w)
  then have "distinct (concat ?batches)" by (simp add: all strict_sorted_iff)
  moreover have "list_all (\<lambda>batch. 0 < length batch \<and> length batch \<le> 500) ?batches"
    using chunks_length by (fastforce simp: list_all_iff MAILBOX_PROBE_BATCH_def)
  moreover have "lc_current_plan lc' = Some (next_plan env lc)"
      "set (lc_probed_mailboxes lc') = set (lc_probed_mailboxes lc) \<union> set (wanted_probes env lc)"
      "lc_auth_gate lc' = snd (gate_partition (content_frames env lc @ probe_reqs env lc) (lc_auth_gate lc))"
    using recompile_full [OF assms(2)] assms(1) by simp_all
  moreover have "frames = filter (passes (lc_auth_gate lc)) (content_frames env lc @ probe_reqs env lc)"
    using fst_recompile [OF assms(2)] assms(1) by simp
  ultimately show ?thesis
    unfolding Let_def
    by (intro conjI exI [of _ ?batches] exI [of _ "probe_relays lc"])
       (simp_all del: set_concat add: all [unfolded w] w set_authors_to_probe set_probe_relays content_frames_def probe_reqs_def probe_frames_def)
qed

lemma opened_batches:
  assumes "batch \<in> set batches"
  shows "set rs \<times> {probe_sub_id batch} \<subseteq>
    opened (fs @ concat (map (\<lambda>batch. map (\<lambda>r. Req r (probe_sub_id batch) (json batch) i life) rs) batches))"
  using assms by (auto simp: opened_def frame_key_def image_iff)

lemma singleton_batch:
  assumes "set (concat batches) = {x}" and "distinct (concat batches)"
  shows "[x] \<in> set batches"
proof -
  obtain batch where batch: "batch \<in> set batches" "x \<in> set batch" using assms(1) by auto
  have "set batch \<subseteq> set (concat batches)" using batch(1) by auto
  then have "set batch = {x}" using batch(2) unfolding assms(1) by blast
  moreover have "distinct batch" using assms(2) batch(1) by (simp add: distinct_concat_iff)
  ultimately have "batch = [x]" by (cases batch; cases "tl batch") auto
  then show ?thesis using batch(1) by simp
qed

theorem mailbox_probes_once_witness:
  "\<exists>frames lc'. recompile_inner demo_subs_env demo_lc = (Inr frames, lc') \<and> set (lc_probed_mailboxes lc') = {''alice''} \<and>
     {''wss://index'', ''wss://app''} \<times> {probe_sub_id [''alice'']} \<subseteq> opened frames"
proof -
  obtain frames lc' where res: "recompile_inner demo_subs_env demo_lc = (Inr frames, lc')"
    using fst_recompile [OF demo_miss, of demo_subs_env] by (metis prod.collapse)
  have relays: "lc_indexer_relays demo_lc = [''wss://index'']" "lc_app_relays demo_lc = [''wss://app'']"
    and probed: "lc_probed_mailboxes demo_lc = []" and ungated: "passes (lc_auth_gate demo_lc) f" for f
    by (simp_all add: demo_lc_def lifecycle_new_def passes_def)
  have cached: "mc_get (se_mailboxes demo_subs_env) = (\<lambda>_. None)" by (simp add: demo_subs_env_def empty_mailbox_cache_def)
  have follow: "sh_authors (li_shape demo_follow) = [''alice'']" "KIND_RELAY_LIST \<notin> set (sh_kinds (li_shape demo_follow))"
    by (simp_all add: demo_follow_def timeline_for_def KIND_RELAY_LIST_def)
  have new: "{a. \<exists>i \<in> set (iter_active (lc_registry demo_lc)). a \<in> set (sh_authors (li_shape i))} - set (lc_probed_mailboxes demo_lc) -
      {a. mc_get (se_mailboxes demo_subs_env) a \<noteq> None} - set (kind10002_covered (iter_active (lc_registry demo_lc))) = {''alice''}"
    unfolding demo_active probed set_covered cached by (simp add: follow)
  have "lc_indexer_relays demo_lc \<noteq> [] \<or> lc_app_relays demo_lc \<noteq> []" by (simp add: relays)
  note probes = mailbox_probes_once [OF res demo_miss this, unfolded Let_def new, unfolded relays probed]
  then have lc': "set (lc_probed_mailboxes lc') = {''alice''}" by (elim conjE) simp
  from probes obtain batches rs where
      b: "set (concat batches) = {''alice''}" "distinct (concat batches)"
    and rs: "set rs = set [''wss://index''] \<union> set [''wss://app'']"
    and frames: "frames = filter (passes (lc_auth_gate demo_lc)) (plan_diff (se_nostr demo_subs_env)
      (lc_current_plan demo_lc) (lc_current_plan lc') (iter_active (lc_registry demo_lc)) @ concat (map (\<lambda>batch. map (\<lambda>r.
        Req r (probe_sub_id batch) (se_probe_json demo_subs_env batch) (InterestId u64_max) OneShot) rs) batches))"
    by (elim conjE exE) (rule that)
  have "[''alice''] \<in> set batches" by (rule singleton_batch [OF b])
  then have "set rs \<times> {probe_sub_id [''alice'']} \<subseteq> opened frames"
    unfolding frames filter_True [OF ballI [OF ungated]] by (rule opened_batches)
  then have "{''wss://index'', ''wss://app''} \<times> {probe_sub_id [''alice'']} \<subseteq> opened frames"
    by (simp add: rs)
  then show ?thesis using res lc' by blast
qed

section \<open>Replay\<close>

lemma replay_shape_rewrite:
  "ss_shape (rewrite_sub wm is r sub) = (if shape_is_ephemeral_only (ss_shape sub) then ss_shape sub else replay_shape wm is r sub)"
  by (auto simp: rewrite_sub_def replay_shape_def Let_def split: option.splits)

text \<open>A replay is the plan on the wire: what a reconnect sends is one request per sub-shape the plan
  has for the relay, with the ids, interests and lifecycles of the plan and the filters the watermark
  rewrite of a recompile would give them.\<close>

theorem reconnect_replays_plan:
  assumes "lc_current_plan lc = Some plan" and "plan_wf plan"
  shows "handle_reconnect env r lc =
    map (\<lambda>sub. emit_req (se_nostr env) r sub (iter_active (lc_registry lc)) (sub_id_for sub))
      (relay_rows r (Some (if lc_watermark_fn lc
         then apply_watermark_rewrite (se_watermark env) (iter_active (lc_registry lc)) plan else plan)))"
proof -
  have wf: "hm_wf (cp_per_relay plan)" using assms(2) by (simp add: plan_wf_def bm_wf_distinct)
  have wf': "hm_wf (cp_per_relay (apply_watermark_rewrite (se_watermark env) (iter_active (lc_registry lc)) plan))"
    using wf by (simp add: rewrite_rows comp_def split_def)
  show ?thesis
  proof (cases "map_of (cp_per_relay plan) r")
    case None
    then show ?thesis
      by (auto simp: handle_reconnect_def assms(1) relay_rows_map [OF wf] relay_rows_map [OF wf'] rewrite_rows
          map_of_map_values [of "\<lambda>url rp. rp\<lparr>rp_sub_shapes := map (rewrite_sub (se_watermark env) (iter_active (lc_registry lc)) (rp_relay_url rp)) (rp_sub_shapes rp)\<rparr>"])
  next
    case (Some rp)
    have url: "rp_relay_url rp = r"
      using assms(2) map_of_SomeD [OF Some] by (auto simp: plan_wf_def list_all_iff)
    show ?thesis
      by (simp add: handle_reconnect_def assms(1) Some Let_def relay_rows_map [OF wf] relay_rows_map [OF wf'] rewrite_rows
          map_of_map_values [of "\<lambda>url rp. rp\<lparr>rp_sub_shapes := map (rewrite_sub (se_watermark env) (iter_active (lc_registry lc)) (rp_relay_url rp)) (rp_sub_shapes rp)\<rparr>"]
          url emit_req_def replay_shape_rewrite)
  qed
qed

text \<open>The lifecycle on a plan of three relays: the subscription of \<open>wss://b\<close> comes back from its watermark.\<close>

theorem reconnect_replays_plan_witness:
  "let lc = demo_lc\<lparr>lc_current_plan := Some demo_plan\<rparr> in
   handle_reconnect demo_subs_env ''wss://b'' lc = [emit_req demo_lib ''wss://b''
     ((demo_sub [''alice''])\<lparr>ss_shape := (timeline_for [''alice''] [1])\<lparr>sh_since := Some 10\<rparr>\<rparr>) [demo_follow] ''sub-'']"
proof -
  define lc where "lc = demo_lc\<lparr>lc_current_plan := Some demo_plan\<rparr>"
  have lc: "lc_current_plan lc = Some demo_plan" "lc_watermark_fn lc" "iter_active (lc_registry lc) = [demo_follow]"
    using demo_active by (simp_all add: lc_def demo_lc_def)
  have "list_all (\<lambda>(url, rp). rp_relay_url rp = url) (cp_per_relay demo_plan)"
    by (simp add: demo_plan_def demo_relay_def)
  then have "plan_wf demo_plan" using demo_wf by (simp add: plan_wf_def)
  from reconnect_replays_plan [OF lc(1) this, of demo_subs_env "''wss://b''"]
  have "handle_reconnect demo_subs_env ''wss://b'' lc = [emit_req demo_lib ''wss://b''
     ((demo_sub [''alice''])\<lparr>ss_shape := (timeline_for [''alice''] [1])\<lparr>sh_since := Some 10\<rparr>\<rparr>) [demo_follow] ''sub-'']"
    by (simp add: lc demo_subs_env_def relay_rows_def plan_rows_Some rewrite_rows demo_plan_def demo_relay_def
        demo_sub_def rewrite_sub_def shape_is_ephemeral_only_def lifecycle_for_shape_def demo_follow_def List.map_filter_simps
        timeline_for_def shape_default_def is_ephemeral_def sub_id_for_def saturating_inc_def u64_max_def)
  then show ?thesis by (simp only: lc_def Let_def)
qed

lemma opened_replay:
  assumes "lc_current_plan lc = Some plan" "plan_wf plan"
  shows "opened (handle_reconnect env r lc) = {k \<in> sub_keys (Some plan). fst k = r} \<and> closed (handle_reconnect env r lc) = {}"
proof -
  have "hm_wf (cp_per_relay plan)" using assms(2) by (simp add: plan_wf_def bm_wf_distinct)
  then have rows: "(r, rp) \<in> set (cp_per_relay plan) \<longleftrightarrow> map_of (cp_per_relay plan) r = Some rp" for rp
    by (rule hm_mem_iff)
  show ?thesis
  proof (cases "map_of (cp_per_relay plan) r")
    case None
    then show ?thesis by (auto simp: handle_reconnect_def assms(1) in_sub_keys rows)
  next
    case (Some rp)
    then have "(r, k) \<in> sub_keys (Some plan) \<longleftrightarrow> k \<in> sub_id_for ` set (rp_sub_shapes rp)" for k
      by (auto simp: in_sub_keys rows)
    then show ?thesis
      by (auto simp: handle_reconnect_def assms(1) Some opened_def closed_def frame_key_def Let_def image_iff)
  qed
qed

end
