(* ===== verification/Subs_World.thy ===== *)
theory Subs_World
  imports Subs_Plan
begin

text \<open>
  The lifecycle in its world: the operations the kernel and the actor perform on it, with the
  subscriptions that are open at the relays, the relays whose connection or authentication was lost since
  they were last replayed, and the mailboxes that change under it. Frames take effect at the relays in
  the order they are returned.
\<close>

section \<open>The machine\<close>

record subs_world =
  sw_lc :: subscription_lifecycle
  sw_mailboxes :: mailbox_cache
  sw_open :: open_subs
  sw_lost :: "relay set"

definition world_new :: subs_world where
  "world_new = \<lparr>sw_lc = lifecycle_new, sw_mailboxes = empty_mailbox_cache, sw_open = {}, sw_lost = {}\<rparr>"

datatype subs_op =
    ORegistry registry_op
  | OTrigger compile_trigger
  | OMailboxes mailbox_cache compile_trigger
  | ODrain subs_env
  | ORecompile subs_env
  | OAuth relay relay_auth_state
  | OReplay subs_env relay
  | OAuthOk subs_env relay
  | ODisconnect relay
  | OLane bool
  | ODead relay
  | OAlive relay
  | OClearProbes
  | OWatermark
  | ORelays "relay list" "relay list" "relay list" "relay list" "relay list"
  | OBudget usize usize
  | OCoverageHook
  | OInterceptor
  | OWatermarkFn

text \<open>The environment of a call reads the mailboxes of the world.\<close>

definition env_at :: "subs_world \<Rightarrow> subs_env \<Rightarrow> subs_env" where
  "env_at w env = env\<lparr>se_mailboxes := sw_mailboxes w\<rparr>"

definition on_lc :: "(subscription_lifecycle \<Rightarrow> subscription_lifecycle) \<Rightarrow> subs_world \<Rightarrow> subs_world" where
  "on_lc f w = w\<lparr>sw_lc := f (sw_lc w)\<rparr>"

definition gate_failed_relays :: "auth_gate \<Rightarrow> relay set" where
  "gate_failed_relays g = set (filter (is_failed g) (map fst (ag_state g)))"

text \<open>A call returned frames: they are sent, and relays the gate gave up on are lost.\<close>

definition sends :: "wire_frame list \<times> subscription_lifecycle \<Rightarrow> relay set \<Rightarrow> subs_world \<Rightarrow> subs_world" where
  "sends res gone w =
     w\<lparr>sw_lc := snd res, sw_open := wire_run (fst res) (sw_open w),
       sw_lost := sw_lost w \<union> gone \<union> gate_failed_relays (lc_auth_gate (snd res))\<rparr>"

definition ok_frames :: "(planner_error + wire_frame list) \<times> subscription_lifecycle \<Rightarrow> wire_frame list \<times> subscription_lifecycle" where
  "ok_frames res = (case fst res of Inr frames \<Rightarrow> frames | Inl _ \<Rightarrow> [], snd res)"

definition failed_triggers :: "compile_trigger list \<Rightarrow> relay set" where
  "failed_triggers ts =
     set (List.map_filter (\<lambda>t. case t of RelayAuthStateChanged r Failed \<Rightarrow> Some r | _ \<Rightarrow> None) ts)"

text \<open>A replay restores a relay, unless the gate still holds it for failed. The kernel answers an accepted
  authentication with one, in place of the frames the gate flushes.\<close>

definition replayed :: "subs_env \<Rightarrow> relay \<Rightarrow> subs_world \<Rightarrow> subs_world" where
  "replayed env r w =
     (let w' = sends (handle_reconnect (env_at w env) r (sw_lc w), sw_lc w) {} w
      in w'\<lparr>sw_lost := sw_lost w' - (if is_failed (lc_auth_gate (sw_lc w)) r then {} else {r})\<rparr>)"

fun subs_step :: "subs_op \<Rightarrow> subs_world \<Rightarrow> subs_world" where
  "subs_step (ORegistry op) w = on_lc (\<lambda>lc. lc\<lparr>lc_registry := registry_step op (lc_registry lc)\<rparr>) w"
| "subs_step (OTrigger t) w = on_lc (enqueue_trigger t) w"
| "subs_step (OMailboxes cache t) w = on_lc (enqueue_trigger t) (w\<lparr>sw_mailboxes := cache\<rparr>)"
| "subs_step (ODrain env) w =
     sends (drain_tick_inner (env_at w env) (sw_lc w)) (failed_triggers (lc_inbox (sw_lc w))) w"
| "subs_step (ORecompile env) w = sends (ok_frames (recompile_inner (env_at w env) (sw_lc w))) {} w"
| "subs_step (OAuth r state) w = sends (handle_auth_state_change r state (sw_lc w)) {} w"
| "subs_step (OReplay env r) w = replayed env r w"
| "subs_step (OAuthOk env r) w = replayed env r (on_lc (snd \<circ> handle_auth_state_change r Authenticated) w)"
| "subs_step (ODisconnect r) w = w\<lparr>sw_open := {k \<in> sw_open w. fst k \<noteq> r}, sw_lost := insert r (sw_lost w)\<rparr>"
| "subs_step (OLane up) w = on_lc (snd \<circ> note_indexer_lane_recovered up) w"
| "subs_step (ODead r) w = on_lc (snd \<circ> mark_relay_dead r) w"
| "subs_step (OAlive r) w = on_lc (snd \<circ> mark_relay_alive r) w"
| "subs_step OClearProbes w = on_lc clear_probed_mailboxes w"
| "subs_step OWatermark w = on_lc bump_watermark_generation w"
| "subs_step (ORelays indexer app account content boot) w =
     on_lc (set_indexer_relays indexer \<circ> set_app_relays app \<circ> set_active_account_read_relays account \<circ>
       set_bootstrap_content_relays content \<circ> set_bootstrap_indexer_relays boot) w"
| "subs_step (OBudget c m) w = on_lc (set_selection_budget c m) w"
| "subs_step OCoverageHook w = on_lc set_coverage_hook w"
| "subs_step OInterceptor w = on_lc set_req_frame_interceptor w"
| "subs_step OWatermarkFn w = on_lc set_watermark_fn w"

definition subs_run :: "subs_op list \<Rightarrow> subs_world" where
  "subs_run ops = fold subs_step ops world_new"

fun op_env :: "subs_op \<Rightarrow> subs_env option" where
  "op_env (ODrain env) = Some env"
| "op_env (ORecompile env) = Some env"
| "op_env (OReplay env r) = Some env"
| "op_env (OAuthOk env r) = Some env"
| "op_env _ = None"

section \<open>Nothing is lost\<close>

lemma gate_failed_relays_eq [simp]: "gate_failed_relays g = {r. is_failed g r}"
  by (force simp: gate_failed_relays_def is_failed_def dest: map_of_SomeD)

lemma failed_triggers_iff: "failed_triggers ts = {r. RelayAuthStateChanged r Failed \<in> set ts}"
  by (induction ts) (auto simp: failed_triggers_def List.map_filter_simps split: compile_trigger.splits relay_auth_state.splits)

text \<open>The subscriptions waiting in the gate.\<close>

definition held_keys :: "auth_gate \<Rightarrow> open_subs" where
  "held_keys g = {k. \<exists>r. k \<in> frame_key ` set (pending_at g r)}"

definition world_ok :: "subs_world \<Rightarrow> bool" where
  "world_ok w \<longleftrightarrow>
     gate_ok (lc_auth_gate (sw_lc w)) \<and> {r. is_failed (lc_auth_gate (sw_lc w)) r} \<subseteq> sw_lost w \<and>
     (\<forall>plan. lc_current_plan (sw_lc w) = Some plan \<longrightarrow> plan_wf plan) \<and>
     sub_keys (lc_current_plan (sw_lc w)) \<subseteq> sw_open w \<union> held_keys (lc_auth_gate (sw_lc w)) \<union> sw_lost w \<times> UNIV"

lemma wire_run_keeps: "k \<in> subs \<Longrightarrow> k \<notin> closed fs \<Longrightarrow> k \<in> wire_run fs subs"
proof (induction fs arbitrary: subs)
  case (Cons f fs)
  then show ?case by (cases f) (auto simp: wire_run_def)
qed (simp add: wire_run_def)

lemma wire_run_opens: "k \<in> opened fs \<Longrightarrow> k \<notin> closed fs \<Longrightarrow> k \<in> wire_run fs subs"
proof (induction fs arbitrary: subs)
  case (Cons f fs)
  show ?case
  proof (cases f)
    case (Req r s j i l)
    have "wire_run (f # fs) subs = wire_run fs (insert (r, s) subs)" by (simp add: wire_run_def Req)
    then show ?thesis
      using Cons wire_run_keeps [of k "insert (r, s) subs" fs] by (auto simp: Req)
  next
    case (Close r s)
    then show ?thesis using Cons by (simp add: wire_run_def)
  qed
qed simp

lemma wire_run_append [simp]: "wire_run (xs @ ys) subs = wire_run ys (wire_run xs subs)"
  by (simp add: wire_run_def)

text \<open>Every request of a batch passes, is held, or is for a failed relay.\<close>

lemma gate_accounts:
  assumes "k \<in> opened fs"
  shows "k \<in> opened (filter (passes g) fs) \<or> k \<in> held_keys (snd (gate_partition fs g)) \<or> is_failed g (fst k)"
proof -
  from assms obtain f where f: "f \<in> set fs" "is_Req f" "frame_key f = k" by (auto simp: opened_def)
  show ?thesis
  proof (cases "passes g f")
    case True
    with f show ?thesis by (auto simp: opened_def)
  next
    case False
    then have "is_failed g (fst k) \<or> held g (fst k) f" using f by (auto simp: passes_def held_def frame_key_def)
    with f show ?thesis by (fastforce simp: held_keys_def)
  qed
qed

lemma held_keys_partition: "held_keys g \<subseteq> held_keys (snd (gate_partition fs g))"
  by (force simp: held_keys_def)

lemma recompile_accounts:
  assumes old: "sub_keys (lc_current_plan lc) \<subseteq> subs \<union> extra \<union> held_keys (lc_auth_gate lc) \<union> lost \<times> UNIV"
    and failed: "{r. is_failed (lc_auth_gate lc) r} \<subseteq> lost"
    and res: "recompile_inner env lc = (Inr frames, lc')"
  shows "sub_keys (lc_current_plan lc') \<subseteq> wire_run frames subs \<union> extra \<union> held_keys (lc_auth_gate lc') \<union> lost \<times> UNIV"
proof (cases "memo_hit env lc")
  case True
  then show ?thesis using old res by (simp add: recompile_memo wire_run_def)
next
  case False
  let ?fs = "content_frames env lc @ probe_reqs env lc"
  have frames: "frames = filter (passes (lc_auth_gate lc)) ?fs" using fst_recompile [OF False] res by simp
  have gate: "lc_auth_gate lc' = snd (gate_partition ?fs (lc_auth_gate lc))" and
    plan: "lc_current_plan lc' = Some (next_plan env lc)"
    using recompile_full [OF False] res by simp_all
  have closed: "closed frames = sub_keys (lc_current_plan lc) - sub_keys (Some (next_plan env lc))"
    unfolding frames closed_passes by (simp add: content_frames_def closed_diff)
  have new: "sub_keys (Some (next_plan env lc)) - sub_keys (lc_current_plan lc) \<subseteq> opened ?fs"
    by (auto simp: content_frames_def opened_diff)
  show ?thesis
  proof
    fix k
    assume k: "k \<in> sub_keys (lc_current_plan lc')"
    then have kept: "k \<notin> closed frames" by (simp add: closed plan)
    show "k \<in> wire_run frames subs \<union> extra \<union> held_keys (lc_auth_gate lc') \<union> lost \<times> UNIV"
    proof (cases "k \<in> sub_keys (lc_current_plan lc)")
      case True
      then show ?thesis
        using old wire_run_keeps [OF _ kept, of subs] held_keys_partition [of "lc_auth_gate lc" ?fs] by (auto simp: gate)
    next
      case False
      with new k have "k \<in> opened ?fs" by (auto simp: plan)
      from gate_accounts [OF this, of "lc_auth_gate lc"] show ?thesis
        using wire_run_opens [OF _ kept, of subs] failed by (cases k) (auto simp: frames gate)
    qed
  qed
qed

lemma recompile_gate_ok:
  assumes "gate_ok (lc_auth_gate lc)"
  shows "gate_ok (lc_auth_gate (snd (recompile_inner env lc)))"
    and "is_failed (lc_auth_gate (snd (recompile_inner env lc))) r = is_failed (lc_auth_gate lc) r"
proof -
  have "lc_auth_gate (snd (recompile_inner env lc)) = lc_auth_gate lc \<or>
      lc_auth_gate (snd (recompile_inner env lc)) = snd (gate_step (GFrames (content_frames env lc @ probe_reqs env lc)) (lc_auth_gate lc))"
    using recompile_full [of env lc] recompile_memo [of env lc] by (cases "memo_hit env lc") auto
  then show "gate_ok (lc_auth_gate (snd (recompile_inner env lc)))"
    "is_failed (lc_auth_gate (snd (recompile_inner env lc))) r = is_failed (lc_auth_gate lc) r"
    using gate_step_ok [OF assms, of "GFrames (content_frames env lc @ probe_reqs env lc)"] assms
    by (auto simp: is_failed_def)
qed

lemma recompile_plan_wf:
  "hook_ok env \<Longrightarrow> (\<forall>plan. lc_current_plan lc = Some plan \<longrightarrow> plan_wf plan) \<Longrightarrow>
     (\<forall>plan. lc_current_plan (snd (recompile_inner env lc)) = Some plan \<longrightarrow> plan_wf plan)"
  using recompile_full [of env lc] recompile_memo [of env lc] next_plan_wf [of env lc]
  by (cases "memo_hit env lc") auto

lemma recompile_Inr: "\<exists>frames. recompile_inner env lc = (Inr frames, snd (recompile_inner env lc))"
  using fst_recompile [of env lc] recompile_memo [of env lc] by (cases "memo_hit env lc") (auto simp: prod_eq_iff)

text \<open>The authentication triggers of a tick.\<close>

lemma auth_triggers:
  assumes "gate_ok g"
  shows "gate_ok (snd (fold apply_auth_trigger ts (out, g))) \<and>
    {r. is_failed (snd (fold apply_auth_trigger ts (out, g))) r} \<subseteq> {r. is_failed g r} \<union> failed_triggers ts \<and>
    closed (fst (fold apply_auth_trigger ts (out, g))) = closed out \<and>
    opened out \<union> held_keys g \<subseteq> opened (fst (fold apply_auth_trigger ts (out, g))) \<union>
      held_keys (snd (fold apply_auth_trigger ts (out, g))) \<union> failed_triggers ts \<times> UNIV"
  using assms
proof (induction ts arbitrary: out g)
  case Nil
  then show ?case by (simp add: failed_triggers_iff)
next
  case (Cons t ts)
  show ?case
  proof (cases "\<exists>r s. t = RelayAuthStateChanged r s")
    case False
    then have "apply_auth_trigger t (out, g) = (out, g)" by (auto simp: apply_auth_trigger_def split: compile_trigger.split)
    moreover have "failed_triggers (t # ts) = failed_triggers ts" using False by (auto simp: failed_triggers_iff)
    ultimately show ?thesis using Cons by simp
  next
    case True
    then obtain r s where t: "t = RelayAuthStateChanged r s" by blast
    let ?g = "snd (record_transition r s g)"
    let ?out = "out @ fst (record_transition r s g)"
    have step: "apply_auth_trigger t (out, g) = (?out, ?g)"
      by (simp add: t apply_auth_trigger_def split_def Let_def)
    have ok: "gate_ok ?g" using gate_step_ok [OF Cons.prems, of "GTransition r s"] by simp
    define F where "F = (if s = Failed then {r} else {})"
    have failed: "failed_triggers (t # ts) = F \<union> failed_triggers ts"
      by (auto simp: t F_def failed_triggers_iff)
    have gone: "{r. is_failed ?g r} \<subseteq> {r. is_failed g r} \<union> F"
      by (auto simp: is_failed_def F_def split: if_splits)
    have no_close: "closed ?out = closed out"
      using Cons.prems by (auto simp: flushed_of_transition gate_ok_def closed_def)
    have reqs: "is_Req f \<and> wf_relay_url f = r'" if "f \<in> set (pending_at g r')" for f r'
      using that Cons.prems by (auto simp: gate_ok_def)
    have "k \<in> opened ?out \<union> held_keys ?g \<union> F \<times> UNIV" if k: "k \<in> held_keys g" for k
    proof -
      obtain r' f where f: "f \<in> set (pending_at g r')" "k = frame_key f" using k by (auto simp: held_keys_def)
      with reqs [OF f(1)] have f': "is_Req f" "fst k = r'" by (auto simp: frame_key_def)
      show ?thesis
      proof (cases "r' = r \<and> (s = Authenticated \<or> s = Failed)")
        case True
        with f f' show ?thesis by (auto simp: F_def flushed_of_transition opened_def mem_Times_iff)
      next
        case False
        then have "f \<in> set (pending_at ?g r')" using f by auto
        with f(2) have "k \<in> held_keys ?g" unfolding held_keys_def by blast
        then show ?thesis by blast
      qed
    qed
    then have keep: "opened out \<union> held_keys g \<subseteq> opened ?out \<union> held_keys ?g \<union> F \<times> UNIV"
      by auto
    have IH: "gate_ok (snd (fold apply_auth_trigger ts (?out, ?g)))"
      "{r. is_failed (snd (fold apply_auth_trigger ts (?out, ?g))) r} \<subseteq> {r. is_failed ?g r} \<union> failed_triggers ts"
      "closed (fst (fold apply_auth_trigger ts (?out, ?g))) = closed ?out"
      "opened ?out \<union> held_keys ?g \<subseteq> opened (fst (fold apply_auth_trigger ts (?out, ?g))) \<union>
        held_keys (snd (fold apply_auth_trigger ts (?out, ?g))) \<union> failed_triggers ts \<times> UNIV"
      using Cons.IH [OF ok, of ?out] by blast+
    show ?thesis
      unfolding fold_Cons comp_apply step failed
      using IH(1) subset_trans [OF IH(2) Un_mono [OF gone subset_refl]] IH(3) no_close subset_trans [OF keep Un_mono [OF IH(4) subset_refl]]
      by (intro conjI) (simp_all add: Un_ac Sigma_Un_distrib1)
  qed
qed

text \<open>Operations that leave the gate and the plan alone.\<close>

lemma world_ok_on_lc:
  assumes "world_ok w" "lc_auth_gate (f (sw_lc w)) = lc_auth_gate (sw_lc w)" "lc_current_plan (f (sw_lc w)) = lc_current_plan (sw_lc w)"
  shows "world_ok (on_lc f w)"
  using assms by (simp add: world_ok_def on_lc_def)

lemma enqueue_simps [simp]:
  "lc_auth_gate (enqueue_trigger t lc) = lc_auth_gate lc" "lc_current_plan (enqueue_trigger t lc) = lc_current_plan lc"
  by (simp_all add: enqueue_trigger_def push_trigger_def bump_mailbox_generation_def split: compile_trigger.split)

lemmas setter_defs = note_indexer_lane_recovered_def mark_relay_dead_def mark_relay_alive_def clear_probed_mailboxes_def
  push_trigger_def bump_watermark_generation_def set_indexer_relays_def set_app_relays_def set_active_account_read_relays_def
  set_bootstrap_content_relays_def set_bootstrap_indexer_relays_def set_selection_budget_def set_coverage_hook_def
  set_req_frame_interceptor_def set_watermark_fn_def

lemma world_ok_recompile:
  assumes "world_ok w" "hook_ok env"
  shows "world_ok (sends (ok_frames (recompile_inner (env_at w env) (sw_lc w))) {} w)"
proof -
  obtain frames where res: "recompile_inner (env_at w env) (sw_lc w) = (Inr frames, snd (recompile_inner (env_at w env) (sw_lc w)))"
    using recompile_Inr by blast
  have hook: "hook_ok (env_at w env)" using assms(2) by (simp add: hook_ok_def env_at_def)
  have ok: "gate_ok (lc_auth_gate (sw_lc w))" "{r. is_failed (lc_auth_gate (sw_lc w)) r} \<subseteq> sw_lost w"
    "\<forall>plan. lc_current_plan (sw_lc w) = Some plan \<longrightarrow> plan_wf plan"
    "sub_keys (lc_current_plan (sw_lc w)) \<subseteq> sw_open w \<union> {} \<union> held_keys (lc_auth_gate (sw_lc w)) \<union> sw_lost w \<times> UNIV"
    using assms(1) by (simp_all add: world_ok_def)
  have frames: "ok_frames (recompile_inner (env_at w env) (sw_lc w)) = (frames, snd (recompile_inner (env_at w env) (sw_lc w)))"
    by (metis fst_conv ok_frames_def res sum.case(2))
  show ?thesis
    using recompile_accounts [OF ok(4,2) res] recompile_gate_ok [OF ok(1), of "env_at w env"]
      recompile_plan_wf [OF hook ok(3)] ok(2)
    by (auto simp: world_ok_def sends_def frames)
qed

text \<open>A tick with triggers: the authentication triggers, then a recompile, whose frames come first.\<close>

lemma drain_result:
  assumes "lc_inbox lc \<noteq> []"
    and "recompile_inner env (lc\<lparr>lc_inbox := [], lc_auth_gate := snd (fold apply_auth_trigger (lc_inbox lc) ([], lc_auth_gate lc))\<rparr>)
      = (Inr frames, lc')"
  shows "drain_tick_inner env lc = (frames @ fst (fold apply_auth_trigger (lc_inbox lc) ([], lc_auth_gate lc)), lc')"
proof -
  obtain flushed gate where acc: "fold apply_auth_trigger (lc_inbox lc) ([], lc_auth_gate lc) = (flushed, gate)" by fastforce
  show ?thesis
    using assms unfolding drain_tick_inner_def drain_coalesced_def Let_def by (simp add: acc)
qed

lemma world_ok_drain:
  assumes "world_ok w" "hook_ok env"
  shows "world_ok (sends (drain_tick_inner (env_at w env) (sw_lc w)) (failed_triggers (lc_inbox (sw_lc w))) w)"
proof (cases "lc_inbox (sw_lc w) = []")
  case True
  then have "drain_tick_inner (env_at w env) (sw_lc w) = ([], (sw_lc w)\<lparr>lc_inbox := []\<rparr>)"
    by (simp add: drain_tick_inner_def drain_coalesced_def)
  with assms(1) True show ?thesis by (auto simp: world_ok_def sends_def wire_run_def failed_triggers_iff)
next
  case False
  let ?ts = "lc_inbox (sw_lc w)"
  let ?auth = "fold apply_auth_trigger ?ts ([], lc_auth_gate (sw_lc w))"
  define lc where "lc = (sw_lc w)\<lparr>lc_inbox := [], lc_auth_gate := snd ?auth\<rparr>"
  define lost where "lost = sw_lost w \<union> failed_triggers ?ts"
  obtain frames where res: "recompile_inner (env_at w env) lc = (Inr frames, snd (recompile_inner (env_at w env) lc))"
    using recompile_Inr by blast
  have hook: "hook_ok (env_at w env)" using assms(2) by (simp add: hook_ok_def env_at_def)
  have ok: "gate_ok (lc_auth_gate (sw_lc w))" "{r. is_failed (lc_auth_gate (sw_lc w)) r} \<subseteq> sw_lost w"
    "\<forall>plan. lc_current_plan (sw_lc w) = Some plan \<longrightarrow> plan_wf plan"
    "sub_keys (lc_current_plan (sw_lc w)) \<subseteq> sw_open w \<union> held_keys (lc_auth_gate (sw_lc w)) \<union> sw_lost w \<times> UNIV"
    using assms(1) by (simp_all add: world_ok_def)
  note auth = auth_triggers [OF ok(1), of ?ts "[]"]
  have drain: "drain_tick_inner (env_at w env) (sw_lc w) = (frames @ fst ?auth, snd (recompile_inner (env_at w env) lc))"
    using False res unfolding lc_def by (rule drain_result)
  have gate: "gate_ok (lc_auth_gate lc)" "{r. is_failed (lc_auth_gate lc) r} \<subseteq> lost"
    using auth ok(2) by (auto simp: lc_def lost_def)
  have "sub_keys (lc_current_plan lc) \<subseteq> sw_open w \<union> opened (fst ?auth) \<union> held_keys (lc_auth_gate lc) \<union> lost \<times> UNIV"
    using ok(4) auth [THEN conjunct2, THEN conjunct2, THEN conjunct2] unfolding lc_def lost_def by simp blast
  note acc = recompile_accounts [OF this gate(2) res]
  have "wire_run frames (sw_open w) \<union> opened (fst ?auth) \<subseteq> wire_run (frames @ fst ?auth) (sw_open w)"
    using wire_run_keeps [of _ "wire_run frames (sw_open w)" "fst ?auth"]
      wire_run_opens [of _ "fst ?auth" "wire_run frames (sw_open w)"] auth by auto
  moreover have "\<forall>plan. lc_current_plan lc = Some plan \<longrightarrow> plan_wf plan" using ok(3) by (simp add: lc_def)
  note recompile_plan_wf [OF hook this]
  ultimately show ?thesis
    using acc recompile_gate_ok [OF gate(1), of "env_at w env"] gate(2)
    unfolding world_ok_def sends_def drain lost_def by simp blast
qed

lemma world_ok_replayed:
  assumes ok: "gate_ok (lc_auth_gate (sw_lc w))" "{r. is_failed (lc_auth_gate (sw_lc w)) r} \<subseteq> sw_lost w"
      "\<forall>plan. lc_current_plan (sw_lc w) = Some plan \<longrightarrow> plan_wf plan"
    and keys: "sub_keys (lc_current_plan (sw_lc w)) \<subseteq> sw_open w \<union> held_keys (lc_auth_gate (sw_lc w)) \<union> insert r (sw_lost w) \<times> UNIV"
  shows "world_ok (replayed env r w)"
proof (cases "lc_current_plan (sw_lc w)")
  case None
  then have "handle_reconnect (env_at w env) r (sw_lc w) = []" by (simp add: handle_reconnect_def)
  with ok None show ?thesis by (auto simp: world_ok_def replayed_def sends_def Let_def wire_run_def)
next
  case (Some plan)
  then have "plan_wf plan" using ok(3) by blast
  note replay = opened_replay [OF Some this, of "env_at w env" r]
  have "k \<in> wire_run (handle_reconnect (env_at w env) r (sw_lc w)) (sw_open w)"
    if "k \<in> sub_keys (Some plan)" "fst k = r \<or> k \<in> sw_open w" for k
    using that replay wire_run_opens [of k "handle_reconnect (env_at w env) r (sw_lc w)" "sw_open w"]
      wire_run_keeps [of k "sw_open w" "handle_reconnect (env_at w env) r (sw_lc w)"] by auto
  with keys have "sub_keys (Some plan) \<subseteq> wire_run (handle_reconnect (env_at w env) r (sw_lc w)) (sw_open w) \<union>
      held_keys (lc_auth_gate (sw_lc w)) \<union> (sw_lost w - {r}) \<times> UNIV"
    by (fastforce simp: Some)
  with ok Some show ?thesis
    by (auto simp: world_ok_def replayed_def sends_def Let_def subset_iff)
qed

lemma world_ok_auth:
  assumes "world_ok w"
  shows "world_ok (sends (handle_auth_state_change r s (sw_lc w)) {} w)"
proof -
  let ?acc = "fold apply_auth_trigger [RelayAuthStateChanged r s] ([], lc_auth_gate (sw_lc w))"
  have eq: "handle_auth_state_change r s (sw_lc w) = (fst ?acc, (sw_lc w)\<lparr>lc_auth_gate := snd ?acc\<rparr>)"
    by (simp add: handle_auth_state_change_def apply_auth_trigger_def split_def Let_def)
  have failed: "failed_triggers [RelayAuthStateChanged r s] = {r'. r' = r \<and> s = Failed}"
    by (auto simp: failed_triggers_iff)
  have gone: "r' = r \<and> s = Failed \<Longrightarrow> is_failed (snd ?acc) r'" for r'
    by (simp add: apply_auth_trigger_def split_def Let_def is_failed_def)
  note auth = auth_triggers [of "lc_auth_gate (sw_lc w)" "[RelayAuthStateChanged r s]" "[]", unfolded failed]
  have ok: "gate_ok (lc_auth_gate (sw_lc w))" "{r. is_failed (lc_auth_gate (sw_lc w)) r} \<subseteq> sw_lost w"
    "\<forall>plan. lc_current_plan (sw_lc w) = Some plan \<longrightarrow> plan_wf plan"
    "sub_keys (lc_current_plan (sw_lc w)) \<subseteq> sw_open w \<union> held_keys (lc_auth_gate (sw_lc w)) \<union> sw_lost w \<times> UNIV"
    using assms by (simp_all add: world_ok_def)
  have "sw_open w \<union> opened (fst ?acc) \<subseteq> wire_run (fst ?acc) (sw_open w)"
    using wire_run_keeps [of _ "sw_open w" "fst ?acc"] wire_run_opens [of _ "fst ?acc" "sw_open w"] auth [OF ok(1)] by auto
  moreover have "held_keys (lc_auth_gate (sw_lc w)) \<subseteq> opened (fst ?acc) \<union> held_keys (snd ?acc) \<union> {r. is_failed (snd ?acc) r} \<times> UNIV"
    using auth [OF ok(1)] gone by (auto simp: subset_iff)
  ultimately have "sub_keys (lc_current_plan (sw_lc w)) \<subseteq> wire_run (fst ?acc) (sw_open w) \<union> held_keys (snd ?acc) \<union>
      (sw_lost w \<union> {r. is_failed (snd ?acc) r}) \<times> UNIV"
    using ok(4) by blast
  with ok(3) auth [OF ok(1)] show ?thesis by (simp add: world_ok_def sends_def eq)
qed

lemma world_ok_accepted:
  assumes "world_ok w"
  shows "world_ok (replayed env r (on_lc (snd \<circ> handle_auth_state_change r Authenticated) w))"
proof (rule world_ok_replayed)
  let ?g = "snd (record_transition r Authenticated (lc_auth_gate (sw_lc w)))"
  let ?w = "on_lc (snd \<circ> handle_auth_state_change r Authenticated) w"
  have ok: "gate_ok (lc_auth_gate (sw_lc w))" "{r. is_failed (lc_auth_gate (sw_lc w)) r} \<subseteq> sw_lost w"
    "\<forall>plan. lc_current_plan (sw_lc w) = Some plan \<longrightarrow> plan_wf plan"
    "sub_keys (lc_current_plan (sw_lc w)) \<subseteq> sw_open w \<union> held_keys (lc_auth_gate (sw_lc w)) \<union> sw_lost w \<times> UNIV"
    using assms by (simp_all add: world_ok_def)
  have lc: "lc_auth_gate (sw_lc ?w) = ?g" "lc_current_plan (sw_lc ?w) = lc_current_plan (sw_lc w)"
    "sw_open ?w = sw_open w" "sw_lost ?w = sw_lost w"
    by (simp_all add: on_lc_def handle_auth_state_change_def split_def Let_def)
  show "gate_ok (lc_auth_gate (sw_lc ?w))"
    using gate_step_ok [OF ok(1), of "GTransition r Authenticated"] by (simp add: lc)
  show "{r. is_failed (lc_auth_gate (sw_lc ?w)) r} \<subseteq> sw_lost ?w"
    using ok(2) by (auto simp: lc is_failed_def)
  show "\<forall>plan. lc_current_plan (sw_lc ?w) = Some plan \<longrightarrow> plan_wf plan"
    using ok(3) by (simp add: lc)
  have "k \<in> held_keys ?g \<or> fst k = r" if k: "k \<in> held_keys (lc_auth_gate (sw_lc w))" for k
  proof -
    from k obtain r' f where f: "f \<in> set (pending_at (lc_auth_gate (sw_lc w)) r')" "k = frame_key f"
      by (auto simp: held_keys_def)
    then have "fst k = r'" using ok(1) by (auto simp: gate_ok_def frame_key_def)
    moreover have "k \<in> held_keys ?g" if "r' \<noteq> r" using f that by (force simp: held_keys_def)
    ultimately show ?thesis by blast
  qed
  then have "held_keys (lc_auth_gate (sw_lc w)) \<subseteq> held_keys ?g \<union> {r} \<times> UNIV" by fastforce
  with ok(4) show "sub_keys (lc_current_plan (sw_lc ?w)) \<subseteq>
      sw_open ?w \<union> held_keys (lc_auth_gate (sw_lc ?w)) \<union> insert r (sw_lost ?w) \<times> UNIV"
    unfolding lc by blast
qed

lemma world_ok_step:
  assumes ok: "world_ok w" and hook: "\<forall>env. op_env op = Some env \<longrightarrow> hook_ok env"
  shows "world_ok (subs_step op w)"
proof (cases op)
  case (OMailboxes cache t)
  have "world_ok (w\<lparr>sw_mailboxes := cache\<rparr>)" using ok by (simp add: world_ok_def)
  then show ?thesis by (simp add: OMailboxes world_ok_on_lc)
next
  case (OReplay env r)
  have "insert r (sw_lost w) \<times> UNIV = sw_lost w \<times> UNIV \<union> {r} \<times> (UNIV :: string set)" by blast
  with ok show ?thesis unfolding OReplay subs_step.simps by (intro world_ok_replayed) (auto simp: world_ok_def)
next
  case (ODisconnect r)
  have "sub_keys (lc_current_plan (sw_lc w)) \<subseteq> {k \<in> sw_open w. fst k \<noteq> r} \<union> held_keys (lc_auth_gate (sw_lc w)) \<union>
      insert r (sw_lost w) \<times> UNIV"
    using ok by (fastforce simp: world_ok_def)
  with ok show ?thesis by (auto simp: ODisconnect world_ok_def)
qed (insert ok hook world_ok_drain world_ok_recompile world_ok_auth world_ok_accepted,
    auto simp: setter_defs Let_def intro!: world_ok_on_lc)

lemma world_ok_run:
  assumes "\<forall>op \<in> set ops. \<forall>env. op_env op = Some env \<longrightarrow> hook_ok env"
  shows "world_ok (subs_run ops)"
proof -
  have "world_ok w \<Longrightarrow> \<forall>op \<in> set ops. \<forall>env. op_env op = Some env \<longrightarrow> hook_ok env \<Longrightarrow> world_ok (fold subs_step ops w)" for w
    by (induction ops arbitrary: w) (auto simp: world_ok_step)
  moreover have "world_ok world_new"
    using gate_new_ok by (simp add: world_ok_def world_new_def lifecycle_new_def)
  ultimately show ?thesis using assms by (simp add: subs_run_def)
qed

text \<open>C26. No subscription gets lost. Whatever the sequence of registrations, triggers, mailbox arrivals,
  ticks, authentication changes, replays, disconnects and setting changes, every subscription of the
  current plan is open at its relay, or waits in the gate for the relay to authenticate, or is for a relay
  that was disconnected or failed to authenticate and was not replayed since.\<close>

theorem no_subscription_lost:
  assumes "\<forall>op \<in> set ops. \<forall>env. op_env op = Some env \<longrightarrow> hook_ok env"
  shows "let w = subs_run ops in
    sub_keys (lc_current_plan (sw_lc w)) \<subseteq> sw_open w \<union> held_keys (lc_auth_gate (sw_lc w)) \<union> sw_lost w \<times> UNIV"
  using world_ok_run [OF assms] by (simp add: world_ok_def)

definition demo_setup :: "subs_op list" where
  "demo_setup = [ORegistry (Register Replace (demo_identity 1) demo_follow), ORelays [''wss://index''] [''wss://app''] [] [] [],
     OAuth ''wss://app'' ChallengeReceived, ODisconnect ''wss://index'']"

definition demo_ops :: "subs_op list" where
  "demo_ops = demo_setup @ [ORecompile demo_subs_env]"

text \<open>The setup compiles nothing.\<close>

lemma demo_setup_run:
  "lc_last_compile_fingerprint (sw_lc (subs_run demo_setup)) = None" "\<not> lc_coverage_hook (sw_lc (subs_run demo_setup))"
  by (simp_all add: subs_run_def demo_setup_def on_lc_def sends_def handle_auth_state_change_def setter_defs split_def Let_def
      world_new_def lifecycle_new_def)

lemma demo_ops_run: "subs_run demo_ops = subs_step (ORecompile demo_subs_env) (subs_run demo_setup)"
  by (simp only: subs_run_def demo_ops_def fold_append comp_apply fold_simps)

theorem no_subscription_lost_witness:
  "let w = subs_run demo_ops in lc_current_plan (sw_lc w) \<noteq> None \<and>
    sub_keys (lc_current_plan (sw_lc w)) \<subseteq> sw_open w \<union> held_keys (lc_auth_gate (sw_lc w)) \<union> sw_lost w \<times> UNIV"
proof -
  have "hook_ok demo_subs_env" by (simp add: hook_ok_def demo_subs_env_def)
  then have "\<forall>op \<in> set demo_ops. \<forall>env. op_env op = Some env \<longrightarrow> hook_ok env" by (simp add: demo_ops_def demo_setup_def)
  note no_subscription_lost [OF this]
  moreover have "\<not> memo_hit (env_at w demo_subs_env) (sw_lc w)" if "w = subs_run demo_setup" for w
    using demo_setup_run(1) by (simp add: memo_hit_def that)
  from recompile_full [OF this [OF refl]] have "lc_current_plan (sw_lc (subs_run demo_ops)) \<noteq> None"
    by (simp add: demo_ops_run sends_def ok_frames_def)
  ultimately show ?thesis by (simp add: Let_def)
qed

end
