(* ===== verification/Subs_Memo.thy ===== *)
theory Subs_Memo
  imports Subs_World
begin

text \<open>
  The compile memo of \<open>subs/recompile.rs\<close>: a recompile whose inputs hash to the value of the last one
  is skipped. The hash covers what the fingerprint feeds on; the mailboxes enter it as a generation that
  the triggers of a mailbox change bump, the warm-relay lookup not at all.
\<close>

section \<open>What the hash has to cover\<close>

definition env_agrees :: "subs_env \<Rightarrow> subs_env \<Rightarrow> bool" where
  "env_agrees base env \<longleftrightarrow> se_to_json env = se_to_json base \<and> se_fingerprint env = se_fingerprint base \<and> se_lookup env = se_lookup base"

text \<open>Mailbox changes are announced, and calls come with the printer, the hash and the lookup of the base.\<close>

fun memo_safe :: "subs_env \<Rightarrow> subs_op \<Rightarrow> bool" where
  "memo_safe base (OMailboxes cache t) \<longleftrightarrow> (case t of Nip65Arrived _ _ \<Rightarrow> True | DmRelayListChanged _ _ \<Rightarrow> True | _ \<Rightarrow> False)"
| "memo_safe base (ODrain env) \<longleftrightarrow> env_agrees base env"
| "memo_safe base (ORecompile env) \<longleftrightarrow> env_agrees base env"
| "memo_safe base _ \<longleftrightarrow> True"

text \<open>A run that remembers the inputs of the last recompile that was not skipped.\<close>

definition input_after :: "subs_env \<Rightarrow> subs_world \<Rightarrow> fingerprint_input option \<Rightarrow> fingerprint_input option" where
  "input_after env w inp =
     (if memo_hit (env_at w env) (sw_lc w) then inp else Some (fingerprint_input_of (env_at w env) (sw_lc w)))"

definition memo_step :: "subs_op \<Rightarrow> subs_world \<times> fingerprint_input option \<Rightarrow> subs_world \<times> fingerprint_input option" where
  "memo_step op s =
     (let (w, inp) = s in
      (subs_step op w,
       case op of
         ODrain env \<Rightarrow> if lc_inbox (sw_lc w) = [] then inp else input_after env w inp
       | ORecompile env \<Rightarrow> input_after env w inp
       | _ \<Rightarrow> inp))"

definition memo_run :: "subs_op list \<Rightarrow> subs_world \<times> fingerprint_input option" where
  "memo_run ops = fold memo_step ops (world_new, None)"

text \<open>The subscriptions of a plan depend on the inputs that are hashed, the mailboxes, the printer and the
  lookup; the watermark moves none of them.\<close>

lemma next_plan_keys:
  assumes "\<not> lc_coverage_hook lc"
  shows "sub_keys (Some (next_plan env lc)) =
    {k \<in> sub_keys (Some (apply_selection_with_lookup (se_to_json env) (lc_select_max_connections lc) (lc_select_max_per_user lc)
        (se_lookup env)
        (let plan = (case fst (compile (se_to_json env) (compiler_of env lc) (iter_active (lc_registry lc))) of
             Inr plan \<Rightarrow> plan | Inl _ \<Rightarrow> empty_plan []) in
         if lc_dead_relays lc \<noteq> [] then retain_relays (\<lambda>url. url \<notin> set (lc_dead_relays lc)) plan else plan))).
     fst k \<notin> set (se_blocked_set env)}"
  using assms unfolding next_plan_def wire_plan_keys candidate_plan_def Let_def by simp

lemma next_plan_cong:
  assumes "fingerprint_input_of env lc = fingerprint_input_of env' lc'" "env_agrees base env" "env_agrees base env'"
    "se_mailboxes env = se_mailboxes env'" "\<not> lc_coverage_hook lc" "\<not> lc_coverage_hook lc'"
  shows "sub_keys (Some (next_plan env lc)) = sub_keys (Some (next_plan env' lc'))"
proof -
  have "iter_active (lc_registry lc) = iter_active (lc_registry lc')" "lc_dead_relays lc = lc_dead_relays lc'"
    "lc_select_max_connections lc = lc_select_max_connections lc'" "lc_select_max_per_user lc = lc_select_max_per_user lc'"
    "se_blocked_set env = se_blocked_set env'" "compiler_of env lc = compiler_of env' lc'"
    using assms(1,4) by (simp_all add: fingerprint_input_of_def compiler_of_def)
  then show ?thesis
    using assms(2,3) unfolding next_plan_keys [OF assms(5)] next_plan_keys [OF assms(6)]
    by (simp add: env_agrees_def cong: if_cong)
qed

section \<open>The invariant\<close>

text \<open>The stored value stands for inputs that lead to the plan at hand and leave nobody to probe.\<close>

definition memo_ok :: "subs_env \<Rightarrow> mailbox_cache \<Rightarrow> fingerprint_input option \<Rightarrow> subscription_lifecycle \<Rightarrow> bool" where
  "memo_ok base cache inp lc \<longleftrightarrow>
     (\<not> lc_coverage_hook lc \<longrightarrow> lc_last_compile_fingerprint lc \<noteq> None \<longrightarrow>
       (\<exists>env0 lc0. env_agrees base env0 \<and> se_mailboxes env0 = cache \<and> \<not> lc_coverage_hook lc0 \<and>
          inp = Some (fingerprint_input_of env0 lc0) \<and>
          lc_last_compile_fingerprint lc = Some (se_fingerprint base (fingerprint_input_of env0 lc0)) \<and>
          sub_keys (lc_current_plan lc) = sub_keys (Some (next_plan env0 lc0)) \<and>
          (probe_relays lc0 = [] \<or> authors_to_probe cache (lc_probed_mailboxes lc) (iter_active (lc_registry lc0)) = [])))"

lemma memo_ok_cong:
  assumes "memo_ok base cache inp lc" "lc_coverage_hook lc' = lc_coverage_hook lc \<or> lc_coverage_hook lc'"
    "lc_last_compile_fingerprint lc' = lc_last_compile_fingerprint lc" "lc_current_plan lc' = lc_current_plan lc"
    "lc_probed_mailboxes lc' = lc_probed_mailboxes lc"
  shows "memo_ok base cache inp lc'"
  using assms unfolding memo_ok_def by metis

lemma memo_ok_None: "lc_last_compile_fingerprint lc = None \<Longrightarrow> memo_ok base cache inp lc"
  by (simp add: memo_ok_def)

lemma probed_nobody:
  "authors_to_probe cache (bs_extend probed (authors_to_probe cache probed interests)) interests = []"
proof -
  have "set (authors_to_probe cache (bs_extend probed (authors_to_probe cache probed interests)) interests) = {}"
    by (auto simp: set_authors_to_probe)
  then show ?thesis by simp
qed

lemma memo_ok_recompile:
  assumes ok: "memo_ok base cache inp lc" and env: "env_agrees base env" "se_mailboxes env = cache"
  shows "memo_ok base cache (if memo_hit env lc then inp else Some (fingerprint_input_of env lc)) (snd (recompile_inner env lc))"
proof (cases "memo_hit env lc")
  case True
  then show ?thesis using ok by (simp add: recompile_memo)
next
  case False
  note full = recompile_full [OF False]
  have "probe_relays lc = [] \<or>
      authors_to_probe cache (lc_probed_mailboxes (snd (recompile_inner env lc))) (iter_active (lc_registry lc)) = []"
    using full env(2) probed_nobody [of cache "lc_probed_mailboxes lc" "iter_active (lc_registry lc)"]
    by (simp add: wanted_probes_def)
  moreover have "\<not> lc_coverage_hook lc \<Longrightarrow> compile_fingerprint env lc = se_fingerprint base (fingerprint_input_of env lc)"
    using env by (simp add: compile_fingerprint_def env_agrees_def)
  ultimately show ?thesis
    unfolding memo_ok_def using False full env by (auto simp: recompile_keeps intro!: exI [of _ env] exI [of _ lc])
qed

lemma fingerprint_of_tick:
  "fingerprint_input_of env (lc\<lparr>lc_inbox := q, lc_auth_gate := g\<rparr>) = fingerprint_input_of env lc"
  "memo_hit env (lc\<lparr>lc_inbox := q, lc_auth_gate := g\<rparr>) = memo_hit env lc"
  by (simp_all add: fingerprint_input_of_def memo_hit_def compile_fingerprint_def)

lemma drain_recompiles:
  assumes "lc_inbox lc \<noteq> []"
  shows "snd (drain_tick_inner env lc) =
    snd (recompile_inner env (lc\<lparr>lc_inbox := [], lc_auth_gate := snd (fold apply_auth_trigger (lc_inbox lc) ([], lc_auth_gate lc))\<rparr>))"
  using drain_result [OF assms] recompile_Inr by (metis snd_conv)

lemma memo_ok_drain:
  assumes "memo_ok base cache inp lc" "env_agrees base env" "se_mailboxes env = cache"
  shows "memo_ok base cache
    (if lc_inbox lc = [] \<or> memo_hit env lc then inp else Some (fingerprint_input_of env lc)) (snd (drain_tick_inner env lc))"
proof (cases "lc_inbox lc = []")
  case True
  then have "snd (drain_tick_inner env lc) = lc\<lparr>lc_inbox := []\<rparr>" by (simp add: drain_tick_inner_def drain_coalesced_def)
  then show ?thesis using memo_ok_cong [OF assms(1)] True by simp
next
  case False
  let ?lc = "lc\<lparr>lc_inbox := [], lc_auth_gate := snd (fold apply_auth_trigger (lc_inbox lc) ([], lc_auth_gate lc))\<rparr>"
  have "memo_ok base cache inp ?lc" using memo_ok_cong [OF assms(1)] by simp
  from memo_ok_recompile [OF this assms(2,3)] show ?thesis
    unfolding drain_recompiles [OF False] fingerprint_of_tick using False by simp
qed

lemma memo_ok_step:
  assumes ok: "memo_ok base (sw_mailboxes w) inp (sw_lc w)" and safe: "memo_safe base op" and s: "memo_step op (w, inp) = (w', inp')"
  shows "memo_ok base (sw_mailboxes w') inp' (sw_lc w')"
proof -
  have w': "w' = subs_step op w" using s by (simp add: memo_step_def)
  have inp': "(\<And>env. op \<noteq> ODrain env \<and> op \<noteq> ORecompile env) \<Longrightarrow> inp' = inp"
    using s by (cases op) (auto simp: memo_step_def)
  have agrees: "env_agrees base env \<Longrightarrow> env_agrees base (env_at w env)" for env by (simp add: env_agrees_def env_at_def)
  note keep = memo_ok_cong [OF ok]
  have keep_or_None: "memo_ok base (sw_mailboxes w) inp lc"
    if "lc_last_compile_fingerprint lc = None \<or>
      lc_coverage_hook lc = lc_coverage_hook (sw_lc w) \<and> lc_last_compile_fingerprint lc = lc_last_compile_fingerprint (sw_lc w) \<and>
      lc_current_plan lc = lc_current_plan (sw_lc w) \<and> lc_probed_mailboxes lc = lc_probed_mailboxes (sw_lc w)" for lc
    using that keep memo_ok_None by blast
  show ?thesis
  proof (cases op)
    case (ODrain env)
    then show ?thesis
      using memo_ok_drain [OF ok agrees, of env] safe s
      by (auto simp: memo_step_def input_after_def sends_def env_at_def split: if_splits)
  next
    case (ORecompile env)
    then show ?thesis
      using memo_ok_recompile [OF ok agrees, of env] safe s
      by (auto simp: memo_step_def input_after_def sends_def ok_frames_def env_at_def split: if_splits)
  next
    case (OTrigger t)
    have "memo_ok base (sw_mailboxes w) inp (enqueue_trigger t (sw_lc w))"
      by (rule keep_or_None, cases t) (simp_all add: enqueue_trigger_def push_trigger_def bump_mailbox_generation_def)
    then show ?thesis using OTrigger inp' by (simp add: w' on_lc_def)
  next
    case (OMailboxes cache t)
    have "lc_last_compile_fingerprint (enqueue_trigger t (sw_lc w)) = None"
      using safe by (cases t) (auto simp: OMailboxes enqueue_trigger_def push_trigger_def bump_mailbox_generation_def)
    then show ?thesis by (simp add: OMailboxes w' on_lc_def memo_ok_None)
  next
    case (OLane up)
    then show ?thesis using inp'
      by (simp add: w' on_lc_def) (rule keep_or_None, simp add: setter_defs Let_def)
  next
    case OClearProbes
    then show ?thesis by (simp add: w' on_lc_def setter_defs memo_ok_None)
  next
    case OWatermark
    then show ?thesis by (simp add: w' on_lc_def setter_defs memo_ok_None)
  qed (insert inp', auto simp: w' on_lc_def replayed_def sends_def handle_auth_state_change_def setter_defs split_def Let_def intro!: keep)
qed

lemma memo_ok_run:
  assumes "list_all (memo_safe base) ops" "memo_run ops = (w, inp)"
  shows "memo_ok base (sw_mailboxes w) inp (sw_lc w)"
proof -
  have run: "memo_ok base (sw_mailboxes v) j (sw_lc v) \<Longrightarrow> list_all (memo_safe base) ops \<Longrightarrow> fold memo_step ops (v, j) = (w, inp) \<Longrightarrow>
      memo_ok base (sw_mailboxes w) inp (sw_lc w)" for v j
  proof (induction ops arbitrary: v j)
    case (Cons op ops)
    obtain v' j' where step: "memo_step op (v, j) = (v', j')" by fastforce
    with Cons.IH [of v' j'] Cons.prems memo_ok_step [OF Cons.prems(1) _ step] show ?case by simp
  qed simp
  have "memo_ok base (sw_mailboxes world_new) None (sw_lc world_new)"
    by (rule memo_ok_None) (simp add: world_new_def lifecycle_new_def)
  then show ?thesis using assms unfolding memo_run_def by (rule run)
qed

text \<open>The memo does not look at the scores: a recompile it skips it skips under any lookup.\<close>

lemma memo_ignores_lookup:
  assumes "memo_hit env lc"
  shows "recompile_inner (env\<lparr>se_lookup := lookup\<rparr>) lc = (Inr [], lc)"
proof -
  have "memo_hit (env\<lparr>se_lookup := lookup\<rparr>) lc"
    using assms by (simp add: memo_hit_def compile_fingerprint_def fingerprint_input_of_def se_blocked_set_def)
  then show ?thesis by (rule recompile_memo)
qed

text \<open>C27. With a constant warm-relay lookup the memo is invisible. Take any state reached by operations
  that announce their mailbox changes and whose recompiles and drains all come with one printer, one hash
  and one score lookup (the same function each time, or none), and a recompile with these. If the hash
  separates its inputs from those of the last recompile that was not skipped, then skipping answers as
  not skipping: the same frames, the same gate, the same probed authors and a plan with the same
  subscriptions. The lookup is no input of the hash: when its scores change between two
  recompiles, the second can be skipped although it would have chosen other relays.\<close>

theorem memo_transparent:
  assumes "list_all (memo_safe base) ops" and "env_agrees base env" and "memo_run ops = (w, inp)"
    and separates: "\<forall>i. inp = Some i \<longrightarrow> se_fingerprint base i = se_fingerprint base (fingerprint_input_of (env_at w env) (sw_lc w)) \<longrightarrow>
      i = fingerprint_input_of (env_at w env) (sw_lc w)"
  shows "let (answer, lc) = recompile_inner (env_at w env) (sw_lc w);
      (answer', lc') = recompile_inner (env_at w env) ((sw_lc w)\<lparr>lc_last_compile_fingerprint := None\<rparr>) in
    answer = answer' \<and> lc_auth_gate lc = lc_auth_gate lc' \<and> lc_probed_mailboxes lc = lc_probed_mailboxes lc' \<and>
    sub_keys (lc_current_plan lc) = sub_keys (lc_current_plan lc')"
proof -
  let ?env = "env_at w env" and ?lc = "sw_lc w"
  let ?fresh = "?lc\<lparr>lc_last_compile_fingerprint := None\<rparr>"
  have miss: "\<not> memo_hit ?env ?fresh" by (simp add: memo_hit_def)
  have "candidate_plan ?env ?fresh = candidate_plan ?env ?lc" "compiler_of ?env ?fresh = compiler_of ?env ?lc"
    by (simp_all add: candidate_plan_def compiler_of_def fun_eq_iff cong: if_cong)
  then have same: "next_plan ?env ?fresh = next_plan ?env ?lc" "probe_reqs ?env ?fresh = probe_reqs ?env ?lc"
    "wanted_probes ?env ?fresh = wanted_probes ?env ?lc" "content_frames ?env ?fresh = content_frames ?env ?lc"
    by (simp_all add: next_plan_def probe_reqs_def wanted_probes_def probe_relays_def content_frames_def)
  note fresh = recompile_full [OF miss, unfolded same]
  have answer: "fst (recompile_inner ?env ?fresh) = Inr (filter (passes (lc_auth_gate ?lc)) (content_frames ?env ?lc @ probe_reqs ?env ?lc))"
    using fst_recompile [OF miss] by (simp add: same)
  show ?thesis
  proof (cases "memo_hit ?env ?lc")
    case False
    then show ?thesis
      using fresh answer recompile_full [OF False] fst_recompile [OF False] by (simp add: split_def Let_def)
  next
    case True
    have agrees: "env_agrees base ?env" using assms(2) by (simp add: env_agrees_def env_at_def)
    have hook: "\<not> lc_coverage_hook ?lc" and
      hit: "lc_last_compile_fingerprint ?lc = Some (se_fingerprint base (fingerprint_input_of ?env ?lc))"
      using True agrees by (auto simp: memo_hit_def compile_fingerprint_def env_agrees_def)
    then obtain env0 lc0 where old: "env_agrees base env0" "se_mailboxes env0 = sw_mailboxes w" "\<not> lc_coverage_hook lc0"
        "inp = Some (fingerprint_input_of env0 lc0)"
        "se_fingerprint base (fingerprint_input_of env0 lc0) = se_fingerprint base (fingerprint_input_of ?env ?lc)"
        "sub_keys (lc_current_plan ?lc) = sub_keys (Some (next_plan env0 lc0))"
        "probe_relays lc0 = [] \<or> authors_to_probe (sw_mailboxes w) (lc_probed_mailboxes ?lc) (iter_active (lc_registry lc0)) = []"
      using memo_ok_run [OF assms(1,3)] by (auto simp: memo_ok_def)
    then have input: "fingerprint_input_of env0 lc0 = fingerprint_input_of ?env ?lc" using separates by blast
    have "sub_keys (Some (next_plan env0 lc0)) = sub_keys (Some (next_plan ?env ?lc))"
      using next_plan_cong [OF input old(1) agrees] old(2,3) hook by (simp add: env_at_def)
    with old(6) have keys: "sub_keys (lc_current_plan ?lc) = sub_keys (Some (next_plan ?env ?lc))" by simp
    have "iter_active (lc_registry lc0) = iter_active (lc_registry ?lc)" "probe_relays lc0 = probe_relays ?lc"
      using input by (simp_all add: fingerprint_input_of_def probe_relays_def)
    then have nobody: "wanted_probes ?env ?lc = []" using old(7) by (auto simp: wanted_probes_def env_at_def)
    have "content_frames ?env ?lc @ probe_reqs ?env ?lc = []"
      using keys nobody by (simp add: content_frames_def probe_reqs_def)
    then show ?thesis
      using fresh answer nobody keys True by (simp add: split_def Let_def recompile_memo bs_extend_def)
  qed
qed

lemma fingerprint_kept: "fingerprint_input_of env (snd (recompile_inner env lc)) = fingerprint_input_of env lc"
  by (auto simp: fingerprint_input_of_def recompile_inner_def mailbox_probes_def Let_def split: sum.split prod.split)

lemma quiet_run:
  "list_all (\<lambda>op. (case op of ODrain _ \<Rightarrow> False | ORecompile _ \<Rightarrow> False | _ \<Rightarrow> True)) ops \<Longrightarrow>
     fold memo_step ops (w, inp) = (fold subs_step ops w, inp)"
  by (induction ops arbitrary: w) (auto simp: memo_step_def split: subs_op.splits)

theorem memo_transparent_witness:
  "let w = subs_run demo_ops; env = env_at w demo_subs_env;
      (answer, lc) = recompile_inner env (sw_lc w);
      (answer', lc') = recompile_inner env ((sw_lc w)\<lparr>lc_last_compile_fingerprint := None\<rparr>) in
    memo_hit env (sw_lc w) \<and> answer = answer' \<and> lc_auth_gate lc = lc_auth_gate lc' \<and>
    lc_probed_mailboxes lc = lc_probed_mailboxes lc' \<and> sub_keys (lc_current_plan lc) = sub_keys (lc_current_plan lc')"
proof -
  define v where "v = subs_run demo_setup"
  define w where "w = subs_run demo_ops"
  have w: "w = subs_step (ORecompile demo_subs_env) v" by (simp only: w_def v_def demo_ops_run)
  have miss: "\<not> memo_hit (env_at v demo_subs_env) (sw_lc v)" using demo_setup_run(1) by (simp add: memo_hit_def v_def)
  have lc: "sw_lc w = snd (recompile_inner (env_at v demo_subs_env) (sw_lc v))" and env: "env_at w demo_subs_env = env_at v demo_subs_env"
    by (simp_all add: w sends_def ok_frames_def env_at_def)
  have "list_all (\<lambda>op. (case op of ODrain _ \<Rightarrow> False | ORecompile _ \<Rightarrow> False | _ \<Rightarrow> True)) demo_setup"
    by (simp add: demo_setup_def)
  then have run: "memo_run demo_ops = (w, Some (fingerprint_input_of (env_at v demo_subs_env) (sw_lc v)))"
    using miss by (simp only: memo_run_def demo_ops_def fold_append comp_apply fold_simps quiet_run v_def [unfolded subs_run_def, symmetric])
      (simp only: memo_step_def w Let_def split_conv subs_op.case input_after_def if_False)
  have "list_all (memo_safe demo_subs_env) demo_ops" "env_agrees demo_subs_env demo_subs_env"
    by (simp_all add: demo_ops_def demo_setup_def env_agrees_def)
  from memo_transparent [OF this run] have
    "let (answer, lc) = recompile_inner (env_at w demo_subs_env) (sw_lc w);
      (answer', lc') = recompile_inner (env_at w demo_subs_env) ((sw_lc w)\<lparr>lc_last_compile_fingerprint := None\<rparr>) in
    answer = answer' \<and> lc_auth_gate lc = lc_auth_gate lc' \<and> lc_probed_mailboxes lc = lc_probed_mailboxes lc' \<and>
    sub_keys (lc_current_plan lc) = sub_keys (lc_current_plan lc')"
    by (simp add: lc env fingerprint_kept)
  moreover have "\<not> lc_coverage_hook (sw_lc v)" using demo_setup_run(2) by (simp add: v_def)
  then have "memo_hit (env_at w demo_subs_env) (sw_lc w)"
    using recompile_full [OF miss] fingerprint_kept [of "env_at v demo_subs_env" "sw_lc v"]
    by (simp add: memo_hit_def lc env recompile_keeps compile_fingerprint_def)
  ultimately show ?thesis by (simp add: w_def [symmetric] Let_def split_def)
qed

end
