(* ===== verification/Subs_Oneshot.thy ===== *)
theory Subs_Oneshot
  imports Subs_Registry Planner_Plan
begin

text \<open>
  References to missing events and profiles (\<open>nmp-core/src/subs/unknown_ids.rs\<close>) and the transient reads
  that fetch them (\<open>subs/oneshot.rs\<close>). The stable hashes that mint slot and owner keys are parameters.
\<close>

section \<open>Unknown ids\<close>

record unknown_ids =
  ui_pubkeys :: "pubkey list"
  ui_event_ids :: "string list"

definition MAX_UNKNOWN_IDS :: usize where
  "MAX_UNKNOWN_IDS = 500"

definition unknown_ids_new :: unknown_ids where
  "unknown_ids_new = \<lparr>ui_pubkeys = [], ui_event_ids = []\<rparr>"

definition try_insert_capped :: "'a::linorder \<Rightarrow> 'a list \<Rightarrow> bool \<times> 'a list" where
  "try_insert_capped value ids =
     (if value \<in> set ids then (True, ids)
      else if length ids \<ge> MAX_UNKNOWN_IDS then (False, ids)
      else (True, bs_insert value ids))"

definition is_hexdigit_byte :: "char \<Rightarrow> bool" where
  "is_hexdigit_byte c \<longleftrightarrow> c \<in> set ''0123456789abcdefABCDEF''"

definition is_hex64 :: "string \<Rightarrow> bool" where
  "is_hex64 s \<longleftrightarrow> length s = 64 \<and> list_all is_hexdigit_byte s"

definition note_event :: "string \<Rightarrow> (string \<Rightarrow> bool) \<Rightarrow> unknown_ids \<Rightarrow> unknown_ids" where
  "note_event i has_event u =
     (if \<not> is_hex64 i \<or> i \<in> set (ui_event_ids u) \<or> has_event i then u
      else u\<lparr>ui_event_ids := snd (try_insert_capped i (ui_event_ids u))\<rparr>)"

definition note_pubkey :: "pubkey \<Rightarrow> (pubkey \<Rightarrow> bool) \<Rightarrow> unknown_ids \<Rightarrow> unknown_ids" where
  "note_pubkey pk has_pubkey u =
     (if \<not> is_hex64 pk \<or> pk \<in> set (ui_pubkeys u) \<or> has_pubkey pk then u
      else u\<lparr>ui_pubkeys := snd (try_insert_capped pk (ui_pubkeys u))\<rparr>)"

definition visit_tag :: "(string \<Rightarrow> bool) \<Rightarrow> (pubkey \<Rightarrow> bool) \<Rightarrow> string list \<Rightarrow> unknown_ids \<Rightarrow> unknown_ids" where
  "visit_tag has_event has_pubkey tag u =
     (case (get_nth 0 tag, get_nth 1 tag) of
        (Some key, Some value) \<Rightarrow>
          if key = ''e'' \<or> key = ''q'' then
            if \<not> is_hex64 value then u
            else if value \<in> set (ui_event_ids u) \<or> has_event value then u
            else u\<lparr>ui_event_ids := snd (try_insert_capped value (ui_event_ids u))\<rparr>
          else if key = ''p'' then
            if \<not> is_hex64 value then u
            else if value \<in> set (ui_pubkeys u) \<or> has_pubkey value then u
            else u\<lparr>ui_pubkeys := snd (try_insert_capped value (ui_pubkeys u))\<rparr>
          else u
      | _ \<Rightarrow> u)"

definition visit_tags :: "string list list \<Rightarrow> (string \<Rightarrow> bool) \<Rightarrow> (pubkey \<Rightarrow> bool) \<Rightarrow> unknown_ids \<Rightarrow> unknown_ids" where
  "visit_tags tags has_event has_pubkey u = fold (visit_tag has_event has_pubkey) tags u"

definition drain_unknown :: "unknown_ids \<Rightarrow> (string list \<times> pubkey list) \<times> unknown_ids" where
  "drain_unknown u = ((ui_event_ids u, ui_pubkeys u), u\<lparr>ui_event_ids := [], ui_pubkeys := []\<rparr>)"

definition pending_len :: "unknown_ids \<Rightarrow> nat" where
  "pending_len u = length (ui_event_ids u) + length (ui_pubkeys u)"

definition put_back_events :: "string list \<Rightarrow> unknown_ids \<Rightarrow> unknown_ids" where
  "put_back_events ids u = u\<lparr>ui_event_ids := fold (\<lambda>i acc. snd (try_insert_capped i acc)) ids (ui_event_ids u)\<rparr>"

definition put_back_pubkeys :: "pubkey list \<Rightarrow> unknown_ids \<Rightarrow> unknown_ids" where
  "put_back_pubkeys pks u = u\<lparr>ui_pubkeys := fold (\<lambda>pk acc. snd (try_insert_capped pk acc)) pks (ui_pubkeys u)\<rparr>"

section \<open>The collector stays bounded\<close>

definition capped :: "'a::linorder list \<Rightarrow> bool" where
  "capped xs \<longleftrightarrow> bs_wf xs \<and> length xs \<le> MAX_UNKNOWN_IDS"

lemma capped_Nil [simp]: "capped []"
  by (simp add: capped_def)

lemma capped_insert: "capped xs \<Longrightarrow> capped (snd (try_insert_capped v xs))"
  using bs_wf_insert [of xs v]
  by (cases "v \<in> set xs") (simp_all add: capped_def try_insert_capped_def insort_insert_key_def)

lemma capped_fold: "capped xs \<Longrightarrow> capped (fold (\<lambda>v xs. snd (try_insert_capped v xs)) vs xs)"
  by (induction vs arbitrary: xs) (auto simp: capped_insert)

lemma set_try_insert: "set (snd (try_insert_capped v xs)) \<subseteq> insert v (set xs)" "set xs \<subseteq> set (snd (try_insert_capped v xs))"
  by (auto simp: try_insert_capped_def)

lemma set_try_insert_room: "length xs < MAX_UNKNOWN_IDS \<Longrightarrow> set (snd (try_insert_capped v xs)) = insert v (set xs)"
  by (auto simp: try_insert_capped_def)

datatype unknown_op =
    UVisit "string list list" "string \<Rightarrow> bool" "pubkey \<Rightarrow> bool"
  | UEvent string "string \<Rightarrow> bool"
  | UPubkey pubkey "pubkey \<Rightarrow> bool"
  | UDrain
  | UPutBack "string list" "pubkey list"

fun unknown_step :: "unknown_op \<Rightarrow> unknown_ids \<Rightarrow> unknown_ids" where
  "unknown_step (UVisit tags has_event has_pubkey) u = visit_tags tags has_event has_pubkey u"
| "unknown_step (UEvent i has_event) u = note_event i has_event u"
| "unknown_step (UPubkey pk has_pubkey) u = note_pubkey pk has_pubkey u"
| "unknown_step UDrain u = snd (drain_unknown u)"
| "unknown_step (UPutBack ids pks) u = put_back_pubkeys pks (put_back_events ids u)"

definition unknown_ok :: "unknown_ids \<Rightarrow> bool" where
  "unknown_ok u \<longleftrightarrow> capped (ui_event_ids u) \<and> capped (ui_pubkeys u)"

lemma visit_tag_note:
  "visit_tag has_event has_pubkey tag u =
     (case (get_nth 0 tag, get_nth 1 tag) of
        (Some key, Some value) \<Rightarrow>
          if key = ''e'' \<or> key = ''q'' then note_event value has_event u
          else if key = ''p'' then note_pubkey value has_pubkey u else u
      | _ \<Rightarrow> u)"
  by (simp add: visit_tag_def note_event_def note_pubkey_def split: option.splits)

lemma note_ok: "unknown_ok u \<Longrightarrow> unknown_ok (note_event i f u)" "unknown_ok u \<Longrightarrow> unknown_ok (note_pubkey i f u)"
  by (simp_all add: unknown_ok_def note_event_def note_pubkey_def capped_insert)

lemma visit_ok: "unknown_ok u \<Longrightarrow> unknown_ok (visit_tags tags f g u)"
proof (induction tags arbitrary: u)
  case (Cons tag tags)
  have "unknown_ok (visit_tag f g tag u)" using Cons.prems by (auto simp: visit_tag_note note_ok split: option.splits)
  with Cons.IH show ?case by (simp add: visit_tags_def)
qed (simp add: visit_tags_def)

lemma unknown_step_ok: "unknown_ok u \<Longrightarrow> unknown_ok (unknown_step op u)"
  using visit_ok note_ok
  by (cases op) (simp_all add: drain_unknown_def put_back_events_def put_back_pubkeys_def, simp_all add: unknown_ok_def capped_fold)

lemma unknown_run_ok: "unknown_ok u \<Longrightarrow> unknown_ok (fold unknown_step ops u)"
  by (induction ops arbitrary: u) (auto simp: unknown_step_ok)

text \<open>Putting back what was drained restores the collector.\<close>

lemma put_back_all:
  assumes "bs_wf (xs @ ys)" "length (xs @ ys) \<le> MAX_UNKNOWN_IDS"
  shows "fold (\<lambda>v xs. snd (try_insert_capped v xs)) ys xs = xs @ ys"
  using assms
proof (induction ys arbitrary: xs)
  case (Cons y ys)
  have "y \<notin> set xs" using Cons.prems(1) by (auto simp: sorted_wrt_append)
  moreover have "insort y xs = xs @ [y]"
    using Cons.prems(1) by (induction xs) (auto simp: sorted_wrt_append less_le_not_le)
  ultimately have "snd (try_insert_capped y xs) = xs @ [y]"
    using Cons.prems(2) by (simp add: try_insert_capped_def insort_insert_key_def)
  with Cons.IH [of "xs @ [y]"] Cons.prems show ?case by simp
qed simp

text \<open>C36. The collector of missing references is bounded, free of duplicates and loses nothing it drained:
  after any sequence of operations both sets are strictly ordered and hold at most 500 ids each, and
  draining, then putting back, gives the collector back as it was.\<close>

theorem unknown_ids_bounded:
  "let u = fold unknown_step ops unknown_ids_new; ((events, pubkeys), empty) = drain_unknown u in
   bs_wf (ui_event_ids u) \<and> bs_wf (ui_pubkeys u) \<and> length (ui_event_ids u) \<le> 500 \<and> length (ui_pubkeys u) \<le> 500 \<and>
   pending_len empty = 0 \<and> put_back_pubkeys pubkeys (put_back_events events empty) = u"
proof -
  define u where "u = fold unknown_step ops unknown_ids_new"
  have "unknown_ok u" unfolding u_def by (rule unknown_run_ok) (simp add: unknown_ok_def unknown_ids_new_def)
  then have ok: "capped (ui_event_ids u)" "capped (ui_pubkeys u)" by (simp_all add: unknown_ok_def)
  then have "put_back_pubkeys (ui_pubkeys u) (put_back_events (ui_event_ids u) (snd (drain_unknown u))) = u"
    using put_back_all [of "[]" "ui_event_ids u"] put_back_all [of "[]" "ui_pubkeys u"]
    by (simp add: put_back_events_def put_back_pubkeys_def drain_unknown_def capped_def)
  with ok show ?thesis
    by (simp add: u_def [symmetric] drain_unknown_def capped_def MAX_UNKNOWN_IDS_def pending_len_def)
qed

text \<open>What one event adds: below the bound, exactly the well-formed references the predicates report as
  absent.\<close>

definition missing_events :: "(string \<Rightarrow> bool) \<Rightarrow> string list list \<Rightarrow> string set" where
  "missing_events has_event tags = {v. is_hex64 v \<and> \<not> has_event v \<and>
     (\<exists>tag \<in> set tags. get_nth 0 tag \<in> {Some ''e'', Some ''q''} \<and> get_nth 1 tag = Some v)}"

lemma visit_events:
  "length (ui_event_ids u) + length tags \<le> MAX_UNKNOWN_IDS \<Longrightarrow>
     set (ui_event_ids (visit_tags tags f g u)) = set (ui_event_ids u) \<union> missing_events f tags"
proof (induction tags arbitrary: u)
  case (Cons tag tags)
  let ?u = "visit_tag f g tag u"
  have room: "length (ui_event_ids u) < MAX_UNKNOWN_IDS" using Cons.prems by simp
  have one: "set (ui_event_ids ?u) = set (ui_event_ids u) \<union> missing_events f [tag]"
    using set_try_insert_room [OF room]
    by (auto simp: visit_tag_note note_event_def note_pubkey_def missing_events_def split: option.splits)
  have "length (ui_event_ids ?u) \<le> Suc (length (ui_event_ids u))"
    by (auto simp: visit_tag_note note_event_def note_pubkey_def try_insert_capped_def insort_insert_key_def split: option.splits)
  then have "set (ui_event_ids (visit_tags tags f g ?u)) = set (ui_event_ids ?u) \<union> missing_events f tags"
    using Cons.IH [of ?u] Cons.prems by simp
  moreover have "missing_events f (tag # tags) = missing_events f [tag] \<union> missing_events f tags"
    by (auto simp: missing_events_def)
  ultimately show ?case using one by (simp add: visit_tags_def Un_assoc)
qed (simp add: visit_tags_def missing_events_def)

section \<open>One-shot reads\<close>

datatype oneshot_token = OneshotToken (ot: u64)

lemma ot_inject [simp]: "ot a = ot b \<longleftrightarrow> a = b"
  by (cases a; cases b) simp

instantiation oneshot_token :: linorder
begin

definition less_eq_oneshot_token :: "oneshot_token \<Rightarrow> oneshot_token \<Rightarrow> bool" where
  "a \<le> b \<longleftrightarrow> ot a \<le> ot b"

definition less_oneshot_token :: "oneshot_token \<Rightarrow> oneshot_token \<Rightarrow> bool" where
  "a < b \<longleftrightarrow> ot a < ot b"

instance
  by standard (auto simp: less_eq_oneshot_token_def less_oneshot_token_def simp flip: ot_inject)

end

record oneshot_pending =
  os_identity :: sub_identity
  os_completed :: bool

record oneshot_api =
  oa_pending :: "(oneshot_token \<times> oneshot_pending) list"
  oa_next_token :: u64

definition oneshot_new :: oneshot_api where
  "oneshot_new = \<lparr>oa_pending = [], oa_next_token = 0\<rparr>"

text \<open>\<open>stable_hash64\<close> of the owner tuple and of the dedup tuple.\<close>

record oneshot_hash =
  oh_owner :: "u64 \<Rightarrow> u64"
  oh_shape :: "sub_scope \<Rightarrow> interest_shape \<Rightarrow> u64"

definition scope_to_sub_scope :: "interest_scope \<Rightarrow> sub_scope" where
  "scope_to_sub_scope scope = (case scope of Account pk \<Rightarrow> AccountScope pk | ActiveAccount \<Rightarrow> GlobalScope | Global \<Rightarrow> GlobalScope)"

definition shape_key :: "oneshot_hash \<Rightarrow> sub_scope \<Rightarrow> interest_shape \<Rightarrow> sub_key" where
  "shape_key h scope shape = SubKey (oh_shape h scope shape)"

definition prepare_oneshot ::
  "oneshot_hash \<Rightarrow> interest_scope \<Rightarrow> interest_shape \<Rightarrow> relay_hint list \<Rightarrow> oneshot_api \<Rightarrow>
     (oneshot_token \<times> interest_id \<times> sub_identity \<times> logical_interest) \<times> oneshot_api" where
  "prepare_oneshot h scope shape hints api =
     (let token = OneshotToken (oa_next_token api);
          sub_scope = scope_to_sub_scope scope;
          key = shape_key h sub_scope shape;
          owner = SubOwnerKey (oh_owner h (ot token));
          identity = sub_identity_new owner key sub_scope;
          interest_id = InterestId (sk key);
          interest = \<lparr>li_id = interest_id, li_scope = scope, li_shape = shape, li_hints = hints,
                      li_lifecycle = OneShot, li_is_indexer_discovery = True\<rparr>
      in ((token, interest_id, identity, interest),
          \<lparr>oa_pending = bm_insert token \<lparr>os_identity = identity, os_completed = False\<rparr> (oa_pending api),
           oa_next_token = saturating_inc (oa_next_token api)\<rparr>))"

definition complete_oneshot :: "oneshot_token \<Rightarrow> oneshot_api \<Rightarrow> oneshot_api" where
  "complete_oneshot token api =
     (case map_of (oa_pending api) token of
        Some p \<Rightarrow> api\<lparr>oa_pending := bm_insert token (p\<lparr>os_completed := True\<rparr>) (oa_pending api)\<rparr>
      | None \<Rightarrow> api)"

definition is_complete_oneshot :: "oneshot_token \<Rightarrow> oneshot_api \<Rightarrow> bool" where
  "is_complete_oneshot token api = (case map_of (oa_pending api) token of Some p \<Rightarrow> os_completed p | None \<Rightarrow> False)"

definition drain_completed :: "oneshot_api \<Rightarrow> oneshot_token list \<times> oneshot_api" where
  "drain_completed api =
     (let done = map fst (filter (\<lambda>(_, p). os_completed p) (oa_pending api)) in
      (done, fold (\<lambda>t api. case map_of (oa_pending api) t of
           Some p \<Rightarrow> api\<lparr>oa_pending := bm_insert t (p\<lparr>os_completed := False\<rparr>) (oa_pending api)\<rparr>
         | None \<Rightarrow> api) done api))"

definition release_oneshot :: "oneshot_token \<Rightarrow> oneshot_api \<Rightarrow> interest_registry \<Rightarrow> bool \<times> oneshot_api \<times> interest_registry" where
  "release_oneshot token api registry =
     (case map_of (oa_pending api) token of
        None \<Rightarrow> (False, api, registry)
      | Some p \<Rightarrow>
          (True, api\<lparr>oa_pending := hm_remove token (oa_pending api)\<rparr>, snd (drop_owner (os_identity p) registry)))"

definition identity_for_interest :: "interest_id \<Rightarrow> oneshot_api \<Rightarrow> sub_identity option" where
  "identity_for_interest i api =
     map_option (\<lambda>(_, p). os_identity p) (find (\<lambda>(_, p). sk (si_key (os_identity p)) = iid i) (oa_pending api))"

definition token_for_interest :: "interest_id \<Rightarrow> oneshot_api \<Rightarrow> oneshot_token option" where
  "token_for_interest i api =
     map_option fst (find (\<lambda>(_, p). sk (si_key (os_identity p)) = iid i) (oa_pending api))"

definition in_flight :: "oneshot_api \<Rightarrow> nat" where
  "in_flight api = length (oa_pending api)"

section \<open>Tokens own slots\<close>

text \<open>The kernel registers what it has prepared; nothing else touches the registry here.\<close>

datatype oneshot_op =
    Request interest_scope interest_shape "relay_hint list"
  | Complete oneshot_token
  | DrainCompleted
  | Release oneshot_token

fun oneshot_step :: "oneshot_hash \<Rightarrow> oneshot_op \<Rightarrow> oneshot_api \<times> interest_registry \<Rightarrow> oneshot_api \<times> interest_registry" where
  "oneshot_step h (Request scope shape hints) (api, reg) =
     (let ((token, i, identity, interest), api') = prepare_oneshot h scope shape hints api
      in (api', snd (registry_apply EnsureAbsent identity interest reg)))"
| "oneshot_step h (Complete t) (api, reg) = (complete_oneshot t api, reg)"
| "oneshot_step h DrainCompleted (api, reg) = (snd (drain_completed api), reg)"
| "oneshot_step h (Release t) (api, reg) = snd (release_oneshot t api reg)"

text \<open>The tokens in flight with the identities they hold.\<close>

definition holders :: "oneshot_api \<Rightarrow> oneshot_token \<Rightarrow> sub_identity option" where
  "holders api t = map_option os_identity (map_of (oa_pending api) t)"

definition oneshot_ok :: "oneshot_hash \<Rightarrow> nat \<Rightarrow> oneshot_api \<times> interest_registry \<Rightarrow> bool" where
  "oneshot_ok h n s \<longleftrightarrow>
     (let (api, reg) = s in
      oa_next_token api = n \<and> registry_wf reg \<and> bm_wf (oa_pending api) \<and>
      (\<forall>t i. holders api t = Some i \<longrightarrow> ot t < n \<and> si_owner i = SubOwnerKey (oh_owner h (ot t))) \<and>
      owners_at reg = (\<lambda>k. {si_owner i |i t. holders api t = Some i \<and> shared i = k}))"

lemma oneshot_okD:
  assumes "oneshot_ok h n (api, reg)"
  shows "oa_next_token api = n" "registry_wf reg" "bm_wf (oa_pending api)"
    "holders api t = Some i \<Longrightarrow> ot t < n \<and> si_owner i = SubOwnerKey (oh_owner h (ot t))"
    "owners_at reg k = {si_owner i |i t. holders api t = Some i \<and> shared i = k}"
  using assms unfolding oneshot_ok_def by simp_all

lemma holders_complete [simp]: "holders (complete_oneshot t api) = holders api"
  by (auto simp: holders_def complete_oneshot_def map_of_bm_insert fun_eq_iff split: option.split)

lemma complete_keeps:
  "bm_wf (oa_pending api) \<Longrightarrow> bm_wf (oa_pending (complete_oneshot t api))"
  "oa_next_token (complete_oneshot t api) = oa_next_token api"
  by (auto simp: complete_oneshot_def bm_wf_insert split: option.split)

lemma drain_keeps:
  "holders (snd (drain_completed api)) = holders api"
  "oa_next_token (snd (drain_completed api)) = oa_next_token api"
  "bm_wf (oa_pending api) \<Longrightarrow> bm_wf (oa_pending (snd (drain_completed api)))"
proof -
  let ?clear = "\<lambda>t api. case map_of (oa_pending api) t of
           Some p \<Rightarrow> api\<lparr>oa_pending := bm_insert t (p\<lparr>os_completed := False\<rparr>) (oa_pending api)\<rparr>
         | None \<Rightarrow> api"
  have one: "holders (?clear t api) = holders api" "oa_next_token (?clear t api) = oa_next_token api"
    "bm_wf (oa_pending api) \<Longrightarrow> bm_wf (oa_pending (?clear t api))" for t and api :: oneshot_api
    by (auto simp: holders_def map_of_bm_insert bm_wf_insert fun_eq_iff split: option.split)
  have "holders (fold ?clear ts api) = holders api" "oa_next_token (fold ?clear ts api) = oa_next_token api"
    "bm_wf (oa_pending api) \<Longrightarrow> bm_wf (oa_pending (fold ?clear ts api))" for ts api
    by (induction ts arbitrary: api) (simp_all add: one)
  then show "holders (snd (drain_completed api)) = holders api"
    "oa_next_token (snd (drain_completed api)) = oa_next_token api"
    "bm_wf (oa_pending api) \<Longrightarrow> bm_wf (oa_pending (snd (drain_completed api)))"
    by (simp_all add: drain_completed_def Let_def)
qed

lemma owner_count_card: "registry_wf reg \<Longrightarrow> owner_count reg (fst k) (snd k) = card (owners_at reg k)"
  using registry_wf_slot [of reg k] by (auto simp: owner_count_def owners_at_def length_bs_card split: option.splits)

lemma owners_registered:
  "registry_wf reg \<Longrightarrow> owners_at (snd (registry_apply policy i interest reg)) =
     (owners_at reg)(shared i := insert (si_owner i) (owners_at reg (shared i)))"
  using registry_step_spec [of reg "Register policy i interest"] by (simp add: ownership_of_def)

lemma owners_dropped:
  "registry_wf reg \<Longrightarrow> owners_at (snd (drop_owner i reg)) = (owners_at reg)(shared i := owners_at reg (shared i) - {si_owner i})"
  using registry_step_spec [of reg "Unregister i"] by (simp add: ownership_of_def)

lemma holders_fields:
  "holders (snd (prepare_oneshot h scope shape hints api)) =
     (holders api)(OneshotToken (oa_next_token api) := Some (sub_identity_new
        (SubOwnerKey (oh_owner h (oa_next_token api))) (shape_key h (scope_to_sub_scope scope) shape) (scope_to_sub_scope scope)))"
  by (auto simp: holders_def prepare_oneshot_def Let_def map_of_bm_insert fun_eq_iff)

lemma holder_owners_new:
  fixes H :: "oneshot_token \<Rightarrow> sub_identity option"
  assumes "H T = None"
  shows "{si_owner i |i t. (H(T := Some j)) t = Some i \<and> shared i = k} =
    {si_owner i |i t. H t = Some i \<and> shared i = k} \<union> (if shared j = k then {si_owner j} else {})"
  using assms by (auto split: if_splits) (metis option.distinct(1))+

lemma oneshot_ok_request:
  assumes ok: "oneshot_ok h n (api, reg)" and "n < u64_max"
  shows "oneshot_ok h (Suc n) (oneshot_step h (Request scope shape hints) (api, reg))"
proof -
  let ?i = "sub_identity_new (SubOwnerKey (oh_owner h n)) (shape_key h (scope_to_sub_scope scope) shape) (scope_to_sub_scope scope)"
  let ?api = "snd (prepare_oneshot h scope shape hints api)"
  have n: "oa_next_token api = n" and wf: "registry_wf reg" "bm_wf (oa_pending api)"
    and below: "holders api t = Some i \<Longrightarrow> ot t < n \<and> si_owner i = SubOwnerKey (oh_owner h (ot t))"
    and own: "owners_at reg k = {si_owner i |i t. holders api t = Some i \<and> shared i = k}" for t i k
    using oneshot_okD [OF ok] by blast+
  have new: "holders api (OneshotToken n) = None" using below [of "OneshotToken n"] by (cases "holders api (OneshotToken n)") auto
  have h: "holders ?api = (holders api)(OneshotToken n := Some ?i)" using holders_fields by (simp add: n)
  obtain interest where step: "oneshot_step h (Request scope shape hints) (api, reg) = (?api, snd (registry_apply EnsureAbsent ?i interest reg))"
    by (simp add: prepare_oneshot_def Let_def n)
  have "owners_at (snd (registry_apply EnsureAbsent ?i interest reg)) k =
      {si_owner i |i t. holders ?api t = Some i \<and> shared i = k}" for k
    unfolding owners_registered [OF wf(1)] h holder_owners_new [where H = "holders api", OF new] by (simp add: own)
  moreover have "registry_wf (snd (registry_apply EnsureAbsent ?i interest reg))"
    using registry_step_wf [OF wf(1), of "Register EnsureAbsent ?i interest"] by simp
  moreover have "oa_next_token ?api = Suc n" "bm_wf (oa_pending ?api)"
    using assms(2) wf(2) by (simp_all add: prepare_oneshot_def Let_def n saturating_inc_def bm_wf_insert)
  moreover have "ot t < Suc n \<and> si_owner i = SubOwnerKey (oh_owner h (ot t))" if "holders ?api t = Some i" for t i
    using that below by (auto simp: h sub_identity_new_def less_Suc_eq split: if_splits)
  ultimately show ?thesis unfolding oneshot_ok_def step by (simp add: fun_eq_iff)
qed

lemma oneshot_ok_release:
  assumes ok: "oneshot_ok h n (api, reg)" and inj: "inj_on (oh_owner h) {..<n}"
  shows "oneshot_ok h n (snd (release_oneshot t api reg))"
    and "holders (fst (snd (release_oneshot t api reg))) = (holders api)(t := None)"
proof -
  have n: "oa_next_token api = n" and wf: "registry_wf reg" "bm_wf (oa_pending api)"
    and below: "holders api t = Some i \<Longrightarrow> ot t < n \<and> si_owner i = SubOwnerKey (oh_owner h (ot t))"
    and own: "owners_at reg k = {si_owner i |i t. holders api t = Some i \<and> shared i = k}" for t i k
    using oneshot_okD [OF ok] by blast+
  have "oneshot_ok h n (snd (release_oneshot t api reg)) \<and> holders (fst (snd (release_oneshot t api reg))) = (holders api)(t := None)"
  proof (cases "map_of (oa_pending api) t")
    case None
    then have "holders api t = None" by (simp add: holders_def)
    with None ok show ?thesis by (auto simp: release_oneshot_def)
  next
    case (Some p)
    let ?i = "os_identity p"
    let ?api = "api\<lparr>oa_pending := hm_remove t (oa_pending api)\<rparr>"
    have res: "snd (release_oneshot t api reg) = (?api, snd (drop_owner ?i reg))" by (simp add: release_oneshot_def Some)
    have h: "holders ?api = (holders api)(t := None)" by (auto simp: holders_def hash_map.get_del fun_eq_iff)
    have t: "holders api t = Some ?i" by (simp add: holders_def Some)
    have other: "si_owner i \<noteq> si_owner ?i" if "holders api t' = Some i" "t' \<noteq> t" for t' i
      using below [OF that(1)] below [OF t] that(2) inj by (auto simp: inj_on_def simp flip: ot_inject)
    have "owners_at (snd (drop_owner ?i reg)) k = {si_owner i |i t'. holders ?api t' = Some i \<and> shared i = k}" for k
    proof (cases "k = shared ?i")
      case True
      have "owners_at reg k - {si_owner ?i} = {si_owner i |i t'. holders ?api t' = Some i \<and> shared i = k}"
        unfolding own h using other t by auto (metis option.inject)
      then show ?thesis by (simp add: owners_dropped [OF wf(1)] True)
    next
      case False
      have "owners_at reg k = {si_owner i |i t'. holders ?api t' = Some i \<and> shared i = k}"
        unfolding own h using t False by auto (metis option.inject)
      then show ?thesis using False by (simp add: owners_dropped [OF wf(1)])
    qed
    moreover have "registry_wf (snd (drop_owner ?i reg))" using registry_step_wf [OF wf(1), of "Unregister ?i"] by simp
    moreover have "bm_wf (oa_pending ?api)" using wf(2) by (simp add: bm_wf_remove)
    moreover have "ot t' < n \<and> si_owner i = SubOwnerKey (oh_owner h (ot t'))" if "holders ?api t' = Some i" for t' i
      using that below by (auto simp: h split: if_splits)
    ultimately show ?thesis unfolding oneshot_ok_def res using n h by (simp add: fun_eq_iff)
  qed
  then show "oneshot_ok h n (snd (release_oneshot t api reg))"
    "holders (fst (snd (release_oneshot t api reg))) = (holders api)(t := None)" by simp_all
qed

lemma oneshot_run_ok:
  assumes "oneshot_ok h n s" "n + length ops \<le> u64_max" "inj_on (oh_owner h) {..<n + length ops}"
  shows "\<exists>m \<le> n + length ops. oneshot_ok h m (fold (oneshot_step h) ops s)"
  using assms
proof (induction ops arbitrary: n s)
  case (Cons op ops)
  obtain api reg where s: "s = (api, reg)" by fastforce
  have inj: "inj_on (oh_owner h) {..<n}" by (rule inj_on_subset [OF Cons.prems(3)]) auto
  have "\<exists>m \<le> Suc n. oneshot_ok h m (oneshot_step h op s)"
  proof (cases op)
    case (Request scope shape hints)
    then show ?thesis using oneshot_ok_request [of h n api reg] Cons.prems by (auto simp: s)
  next
    case (Release t)
    then show ?thesis using oneshot_ok_release(1) [of h n api reg t] inj Cons.prems(1) by (auto simp: s intro!: exI [of _ n])
  qed (use Cons.prems(1) in \<open>auto simp: s oneshot_ok_def complete_keeps drain_keeps intro!: exI [of _ n]\<close>)
  then obtain m where m: "m \<le> Suc n" "oneshot_ok h m (oneshot_step h op s)" by blast
  have "inj_on (oh_owner h) {..<m + length ops}" by (rule inj_on_subset [OF Cons.prems(3)]) (use m(1) in auto)
  moreover have "m + length ops \<le> u64_max" using m(1) Cons.prems(2) by simp
  ultimately obtain k where "k \<le> m + length ops" "oneshot_ok h k (fold (oneshot_step h) ops (oneshot_step h op s))"
    using Cons.IH [OF m(2)] by blast
  with m(1) show ?case by (intro exI [of _ k]) simp
qed auto

text \<open>C35. One-shot reads share slots and hold them no longer than they last. After any sequence of
  requests, completions, drains and releases, a slot has one owner per token in flight for it and is gone
  exactly when there is none; releasing a token frees its slot exactly when it was the last.\<close>

theorem oneshot_tokens_own_slots:
  assumes "length ops \<le> u64_max" and "inj_on (oh_owner h) {..<length ops}"
  shows "let (api, reg) = fold (oneshot_step h) ops (oneshot_new, []);
      tokens = {t. map_option shared (holders api t) = Some k} in
    in_flight api = card {t. holders api t \<noteq> None} \<and>
    owner_count reg (fst k) (snd k) = card tokens \<and>
    (map_of reg k = None) = (tokens = {}) \<and>
    fst (release_oneshot t api reg) = (holders api t \<noteq> None) \<and>
    (map_of (snd (snd (release_oneshot t api reg))) k = None) = (tokens \<subseteq> {t})"
proof -
  have "oneshot_ok h 0 (oneshot_new, [])"
    by (simp add: oneshot_ok_def oneshot_new_def holders_def)
  from oneshot_run_ok [OF this, of ops] assms obtain n where
    n: "n \<le> length ops" and ok: "oneshot_ok h n (fold (oneshot_step h) ops (oneshot_new, []))" by auto
  obtain api reg where run: "fold (oneshot_step h) ops (oneshot_new, []) = (api, reg)" by fastforce
  have inj: "inj_on (oh_owner h) {..<n}" by (rule inj_on_subset [OF assms(2)]) (use n in auto)
  have slot: "owners_at reg' k = (\<lambda>t. SubOwnerKey (oh_owner h (ot t))) ` {t. map_option shared (holders api' t) = Some k} \<and>
      {t. map_option shared (holders api' t) = Some k} \<subseteq> {t. ot t < n} \<and>
      (map_of reg' k = None) = ({t. map_option shared (holders api' t) = Some k} = {})"
    if "oneshot_ok h n (api', reg')" for api' reg'
  proof -
    have wf: "registry_wf reg'"
      and below: "holders api' t = Some i \<Longrightarrow> ot t < n \<and> si_owner i = SubOwnerKey (oh_owner h (ot t))"
      and own: "owners_at reg' k = {si_owner i |i t. holders api' t = Some i \<and> shared i = k}" for t i
      using oneshot_okD [OF that] by blast+
    have "owners_at reg' k = (\<lambda>t. SubOwnerKey (oh_owner h (ot t))) ` {t. map_option shared (holders api' t) = Some k}"
      unfolding own using below by (auto simp: image_iff) metis
    then show ?thesis using owners_at_empty [OF wf, of k] below by auto
  qed
  note now = slot [OF ok [unfolded run]]
  have "oneshot_ok h n (fst (snd (release_oneshot t api reg)), snd (snd (release_oneshot t api reg)))"
    using oneshot_ok_release(1) [OF ok [unfolded run] inj, of t] by simp
  note later = slot [OF this, unfolded oneshot_ok_release(2) [OF ok [unfolded run] inj, of t]]
  have "inj_on (\<lambda>t. SubOwnerKey (oh_owner h (ot t))) {t. ot t < n}"
    using inj by (auto simp: inj_on_def simp flip: ot_inject)
  then have "card (owners_at reg k) = card {t. map_option shared (holders api t) = Some k}"
    using now by (metis card_image inj_on_subset)
  moreover have "owner_count reg (fst k) (snd k) = card (owners_at reg k)"
    by (rule owner_count_card [OF oneshot_okD(2) [OF ok [unfolded run]]])
  moreover have "in_flight api = card {t. holders api t \<noteq> None}"
  proof -
    have "{t. holders api t \<noteq> None} = set (map fst (oa_pending api))"
      by (auto simp: holders_def map_of_eq_None_iff)
    moreover have "distinct (map fst (oa_pending api))" using ok by (simp add: run oneshot_ok_def bm_wf_distinct)
    ultimately show ?thesis by (metis distinct_card in_flight_def length_map)
  qed
  moreover have "fst (release_oneshot t api reg) = (holders api t \<noteq> None)"
    by (simp add: release_oneshot_def holders_def split: option.split)
  moreover have "{t'. map_option shared (((holders api)(t := None)) t') = Some k} = {t'. map_option shared (holders api t') = Some k} - {t}"
    by auto
  ultimately show ?thesis using now later by (auto simp: run Let_def)
qed

definition demo_hash :: oneshot_hash where
  "demo_hash = \<lparr>oh_owner = (\<lambda>n. n), oh_shape = (\<lambda>_ shape. length (sh_authors shape) + 10 * length (sh_event_ids shape))\<rparr>"

definition demo_requests :: "oneshot_op list" where
  "demo_requests = [Request Global (profile_for ''alice'') [], Request Global (profile_for ''alice'') [], Complete (OneshotToken 0),
     DrainCompleted, Release (OneshotToken 0)]"

theorem oneshot_tokens_own_slots_witness:
  "let (api, reg) = fold (oneshot_step demo_hash) demo_requests (oneshot_new, []) in
    in_flight api = 1 \<and> owner_count reg GlobalScope (SubKey 1) = 1 \<and>
    owner_count reg GlobalScope (SubKey 1) = card {t. map_option shared (holders api t) = Some (GlobalScope, SubKey 1)} \<and>
    (map_of (snd (snd (release_oneshot (OneshotToken 1) api reg))) (GlobalScope, SubKey 1) = None) =
      ({t. map_option shared (holders api t) = Some (GlobalScope, SubKey 1)} \<subseteq> {OneshotToken 1})"
proof -
  obtain api reg where run: "fold (oneshot_step demo_hash) demo_requests (oneshot_new, []) = (api, reg)" by fastforce
  have "case fold (oneshot_step demo_hash) demo_requests (oneshot_new, []) of (api, reg) \<Rightarrow>
      in_flight api = 1 \<and> owner_count reg GlobalScope (SubKey 1) = 1" by code_simp
  note one = this [unfolded run split_conv]
  have "length demo_requests \<le> u64_max" by (simp add: demo_requests_def u64_max_def)
  moreover have "inj_on (oh_owner demo_hash) {..<length demo_requests}" by (simp add: demo_hash_def)
  ultimately show ?thesis
    using oneshot_tokens_own_slots [of demo_requests demo_hash "(GlobalScope, SubKey 1)" "OneshotToken 1"] one
    unfolding run Let_def split_conv fst_conv snd_conv by blast
qed

end
