(* ===== verification/Subs_Discovery.thy ===== *)
theory Subs_Discovery
  imports Subs_Oneshot Subs_Lifecycle
begin

text \<open>
  The discovery of missing references (\<open>nmp-core/src/kernel/discovery.rs\<close>): references of ingested
  events are collected, drained into one-shot reads under a bound on concurrency, and completed at EOSE.
  With it the registration front door (\<open>kernel/cache_serve/mod.rs\<close>) and the bridge that learns the wire
  id of a read from the planner's frames (\<open>kernel/requests/mod.rs\<close>). The part of the kernel they touch is
  a record; what is known already is a pair of predicates.
\<close>

section \<open>The front door of the registry\<close>

record interest_registration =
  ir_identity :: sub_identity
  ir_interest :: logical_interest
  ir_policy :: interest_write

definition apply_interest_registrations ::
  "interest_registration list \<Rightarrow> interest_registry \<Rightarrow> registration_outcome list \<times> interest_registry" where
  "apply_interest_registrations items reg =
     fold (\<lambda>item (outcomes, reg).
       let (outcome, reg) = registry_apply (ir_policy item) (ir_identity item) (ir_interest item) reg
       in (outcomes @ [outcome], reg)) items ([], reg)"

definition register_interest ::
  "interest_registration list \<Rightarrow> string \<Rightarrow> subscription_lifecycle \<Rightarrow> registration_outcome list \<times> subscription_lifecycle" where
  "register_interest items reason lc =
     (let (outcomes, reg) = apply_interest_registrations items (lc_registry lc);
          lc = lc\<lparr>lc_registry := reg\<rparr>
      in (outcomes,
          if list_ex ro_changed outcomes then enqueue_trigger (InvalidateCompile (External reason)) lc else lc))"

section \<open>The kernel's discovery state\<close>

datatype oneshot_kind = Discovery

record discovery =
  kd_unknown_ids :: unknown_ids
  kd_oneshot :: oneshot_api
  kd_oneshot_subs :: "(string \<times> (oneshot_token \<times> oneshot_kind)) list"
  kd_pending_discovery_oneshots :: "(interest_id \<times> oneshot_token) list"
  kd_claim_sub_index :: "(string \<times> interest_id) list"
  kd_lifecycle :: subscription_lifecycle

definition discovery_new :: discovery where
  "discovery_new = \<lparr>kd_unknown_ids = unknown_ids_new, kd_oneshot = oneshot_new, kd_oneshot_subs = [],
     kd_pending_discovery_oneshots = [], kd_claim_sub_index = [], kd_lifecycle = lifecycle_new\<rparr>"

definition KIND_PROFILE_METADATA :: u32 where
  "KIND_PROFILE_METADATA = 0"

definition KIND_CONTACT_LIST :: u32 where
  "KIND_CONTACT_LIST = 3"

definition DISCOVERY_BATCH :: usize where
  "DISCOVERY_BATCH = 50"

definition MAX_DISCOVERY_CONCURRENCY :: usize where
  "MAX_DISCOVERY_CONCURRENCY = 2"

definition collect_unknown_refs :: "(string \<Rightarrow> bool) \<Rightarrow> (pubkey \<Rightarrow> bool) \<Rightarrow> string list list \<Rightarrow> discovery \<Rightarrow> discovery" where
  "collect_unknown_refs known_event known_profile tags d =
     d\<lparr>kd_unknown_ids := visit_tags tags known_event known_profile (kd_unknown_ids d)\<rparr>"

text \<open>One read: prepared, registered, and its token kept until the planner names it.\<close>

definition event_batch_shape :: "string list \<Rightarrow> interest_shape" where
  "event_batch_shape batch = shape_default\<lparr>sh_event_ids := bs_of_list batch, sh_limit := Some (length batch)\<rparr>"

definition profile_batch_shape :: "pubkey list \<Rightarrow> interest_shape" where
  "profile_batch_shape batch = shape_default\<lparr>sh_authors := bs_of_list batch,
     sh_kinds := bs_of_list [KIND_PROFILE_METADATA, KIND_CONTACT_LIST, KIND_RELAY_LIST], sh_limit := Some (length batch * 3)\<rparr>"

definition start_discovery :: "oneshot_hash \<Rightarrow> interest_shape \<Rightarrow> string \<Rightarrow> discovery \<Rightarrow> discovery" where
  "start_discovery h shape reason d =
     (let ((token, interest_id, identity, interest), api) = prepare_oneshot h Global shape [] (kd_oneshot d);
          (_, lc) = register_interest [\<lparr>ir_identity = identity, ir_interest = interest, ir_policy = EnsureAbsent\<rparr>] reason
                      (kd_lifecycle d)
      in d\<lparr>kd_oneshot := api, kd_lifecycle := lc,
           kd_pending_discovery_oneshots := hm_insert interest_id token (kd_pending_discovery_oneshots d)\<rparr>)"

definition drain_events_arm :: "oneshot_hash \<Rightarrow> usize \<Rightarrow> string list \<Rightarrow> discovery \<times> usize \<Rightarrow> discovery \<times> usize" where
  "drain_events_arm h slots event_ids acc =
     (let (d, slots_used) = acc in
      if event_ids \<noteq> [] \<and> slots_used < slots then
        let batch = take (min (length event_ids) DISCOVERY_BATCH) event_ids;
            remainder = drop (min (length event_ids) DISCOVERY_BATCH) event_ids;
            d = start_discovery h (event_batch_shape batch) ''oneshot-discovery-events'' d;
            d = (if remainder \<noteq> [] then d\<lparr>kd_unknown_ids := put_back_events remainder (kd_unknown_ids d)\<rparr> else d)
        in (d, slots_used + 1)
      else if event_ids \<noteq> [] then (d\<lparr>kd_unknown_ids := put_back_events event_ids (kd_unknown_ids d)\<rparr>, slots_used)
      else (d, slots_used))"

definition drain_profiles_arm :: "oneshot_hash \<Rightarrow> usize \<Rightarrow> pubkey list \<Rightarrow> discovery \<times> usize \<Rightarrow> discovery" where
  "drain_profiles_arm h slots pubkeys acc =
     (let (d, slots_used) = acc in
      if pubkeys \<noteq> [] \<and> slots_used < slots then
        let batch = take (min (length pubkeys) DISCOVERY_BATCH) pubkeys;
            remainder = drop (min (length pubkeys) DISCOVERY_BATCH) pubkeys;
            d = start_discovery h (profile_batch_shape batch) ''oneshot-discovery-profiles'' d
        in if remainder \<noteq> [] then d\<lparr>kd_unknown_ids := put_back_pubkeys remainder (kd_unknown_ids d)\<rparr> else d
      else if pubkeys \<noteq> [] then d\<lparr>kd_unknown_ids := put_back_pubkeys pubkeys (kd_unknown_ids d)\<rparr>
      else d)"

definition drain_unknown_oneshots :: "oneshot_hash \<Rightarrow> discovery \<Rightarrow> discovery" where
  "drain_unknown_oneshots h d =
     (if in_flight (kd_oneshot d) \<ge> MAX_DISCOVERY_CONCURRENCY then d
      else
        let slots = MAX_DISCOVERY_CONCURRENCY - in_flight (kd_oneshot d);
            ((event_ids, pubkeys), unknown) = drain_unknown (kd_unknown_ids d);
            d = d\<lparr>kd_unknown_ids := unknown\<rparr>
        in if event_ids = [] \<and> pubkeys = [] then d
           else drain_profiles_arm h slots pubkeys (drain_events_arm h slots event_ids (d, 0)))"

text \<open>The part of the planner-frame bridge that concerns discovery.\<close>

definition bridge_frame :: "wire_frame \<Rightarrow> discovery \<Rightarrow> discovery" where
  "bridge_frame frame d =
     (case frame of
        Req _ sub_id _ interest_id _ \<Rightarrow>
          (case map_of (kd_pending_discovery_oneshots d) interest_id of
             Some token \<Rightarrow> d\<lparr>kd_pending_discovery_oneshots := hm_remove interest_id (kd_pending_discovery_oneshots d),
                             kd_oneshot_subs := hm_insert sub_id (token, Discovery) (kd_oneshot_subs d)\<rparr>
           | None \<Rightarrow> d)
      | Close _ _ \<Rightarrow> d)"

definition is_discovery_oneshot :: "string \<Rightarrow> discovery \<Rightarrow> bool" where
  "is_discovery_oneshot sub_id d \<longleftrightarrow> map_option snd (map_of (kd_oneshot_subs d) sub_id) = Some Discovery"

definition complete_unknown_oneshot :: "string \<Rightarrow> discovery \<Rightarrow> discovery" where
  "complete_unknown_oneshot sub_id d =
     (case map_of (kd_oneshot_subs d) sub_id of
        None \<Rightarrow> d
      | Some (token, _) \<Rightarrow>
          let d = d\<lparr>kd_oneshot_subs := hm_remove sub_id (kd_oneshot_subs d)\<rparr>;
              api = snd (drain_completed (complete_oneshot token (kd_oneshot d)))
          in if hm_contains sub_id (kd_claim_sub_index d) then d\<lparr>kd_oneshot := api\<rparr>
             else let (_, api, reg) = release_oneshot token api (lc_registry (kd_lifecycle d))
                  in d\<lparr>kd_oneshot := api, kd_lifecycle := (kd_lifecycle d)\<lparr>lc_registry := reg\<rparr>\<rparr>)"

section \<open>Runs\<close>

datatype discovery_op =
    Ingest "string \<Rightarrow> bool" "pubkey \<Rightarrow> bool" "string list list"
  | Drain
  | Frames "wire_frame list"
  | Eose string

fun discovery_step :: "oneshot_hash \<Rightarrow> discovery_op \<Rightarrow> discovery \<Rightarrow> discovery" where
  "discovery_step h (Ingest known_event known_profile tags) d = collect_unknown_refs known_event known_profile tags d"
| "discovery_step h Drain d = drain_unknown_oneshots h d"
| "discovery_step h (Frames frames) d = fold bridge_frame frames d"
| "discovery_step h (Eose sub_id) d = (if is_discovery_oneshot sub_id d then complete_unknown_oneshot sub_id d else d)"

definition discovery_run :: "oneshot_hash \<Rightarrow> discovery_op list \<Rightarrow> discovery" where
  "discovery_run h ops = fold (discovery_step h) ops discovery_new"












lemma capped_take: "capped xs \<Longrightarrow> capped (take n xs)"
  by (auto simp: capped_def sorted_wrt_take)
















section \<open>A small run\<close>

definition demo_ref :: "char \<Rightarrow> string list" where
  "demo_ref c = [''e'', replicate 64 c]"

definition demo_keys :: oneshot_hash where
  "demo_keys = \<lparr>oh_owner = (\<lambda>n. n), oh_shape = (\<lambda>_ shape. case concat (sh_event_ids shape) of [] \<Rightarrow> 0 | c # _ \<Rightarrow> of_char c)\<rparr>"

definition demo_ingest :: "char \<Rightarrow> discovery_op" where
  "demo_ingest c = Ingest (\<lambda>_. False) (\<lambda>_. True) [demo_ref c]"


text \<open>Tokens leak. A reference seen again while its read is in flight gets a second token for the same
  slot; the slot is not new, so nothing is recompiled, no frame carries its id, and EOSE releases the first
  token only. One seen again when both places are taken is asked for anew after EOSE: the registry is then
  what the last plan was compiled from, so the recompile sends nothing either. Two such references take both
  places for good: a third stays undiscovered, with no wire id left whose EOSE could free a place.\<close>

definition demo_frame :: "char \<Rightarrow> wire_frame" where
  "demo_frame c = Req ''wss://r'' (''sub-'' @ [c]) ''{}'' (InterestId (of_char c)) OneShot"

definition demo_round :: "char \<Rightarrow> discovery_op list" where
  "demo_round c = [demo_ingest c, Drain, Frames [demo_frame c], demo_ingest c, Drain, Eose (''sub-'' @ [c])]"

lemma discovery_leak:
  "let compiled = discovery_run demo_keys (demo_round CHR ''a'' @ take 3 (demo_round CHR ''b''));
       d = discovery_run demo_keys (demo_round CHR ''a'' @ demo_round CHR ''b'' @ [Drain, demo_ingest CHR ''c'', Drain]) in
   iter_active (lc_registry (kd_lifecycle d)) = iter_active (lc_registry (kd_lifecycle compiled)) \<and>
   in_flight (kd_oneshot d) = 2 \<and> kd_oneshot_subs d = [] \<and> ui_event_ids (kd_unknown_ids d) = [replicate 64 CHR ''c'']"
  by code_simp

end
