(* ===== verification/Subs_Open.thy ===== *)
theory Subs_Open
  imports Subs_Registry
begin

text \<open>
  Opening and closing an interest by its filter (\<open>nmp-core/src/subs/interest_builder.rs\<close>): both sides
  derive the identity of the slot from the filter, so a close finds what an open attached. The stable
  hashes are parameters.
\<close>

record open_hash =
  oi_key :: "interest_shape \<Rightarrow> u32 \<Rightarrow> bool \<Rightarrow> u64"
  oi_owner :: "string \<Rightarrow> u64"

definition build_interest_pair ::
  "(string \<Rightarrow> json option) \<Rightarrow> open_hash \<Rightarrow> string \<Rightarrow> string \<Rightarrow> u32 \<Rightarrow> relay option \<Rightarrow> bool \<Rightarrow> interest_lifecycle \<Rightarrow>
     (sub_identity \<times> logical_interest) option" where
  "build_interest_pair parse h filter_json consumer_id scope relay_pin is_indexer_discovery lifecycle =
     (case from_filter_json parse filter_json of
        None \<Rightarrow> None
      | Some parsed \<Rightarrow>
          let shape = parsed\<lparr>sh_relay_pin := relay_pin\<rparr>;
              interest_scope = (if scope = 0 then ActiveAccount else Global);
              key = SubKey (oi_key h shape scope is_indexer_discovery);
              identity = sub_identity_new (SubOwnerKey (oi_owner h consumer_id)) key GlobalScope
          in Some (identity, logical_default\<lparr>li_id := InterestId (sk key), li_scope := interest_scope, li_shape := shape,
                     li_lifecycle := lifecycle, li_is_indexer_discovery := is_indexer_discovery\<rparr>))"

text \<open>A close undoes the open of a slot nobody else holds, whatever lifecycle either names.\<close>

lemma hm_remove_fresh: "bm_wf m \<Longrightarrow> map_of m k = None \<Longrightarrow> hm_remove k (bm_insert k v m) = m"
  by (rule bm_eqI) (auto simp: bm_wf_insert bm_wf_remove map_of_bm_insert hash_map.get_del)

lemma close_undoes_open:
  assumes "registry_wf reg" and "map_of reg (shared i) = None"
    and "build_interest_pair parse h json consumer scope pin disc lifecycle = Some (i, interest)"
  shows "\<exists>interest'. build_interest_pair parse h json consumer scope pin disc lifecycle' = Some (i, interest') \<and>
    drop_owner i (snd (registry_apply EnsureAbsent i interest reg)) = (True, reg)"
proof -
  have "drop_owner i (snd (registry_apply EnsureAbsent i interest reg)) = (True, reg)"
    using assms(1,2) hm_remove_fresh [of reg "shared i"]
    by (simp add: registry_apply_def drop_owner_def map_of_bm_insert bs_remove_def registry_wf_def)
  then show ?thesis using assms(3) by (auto simp: build_interest_pair_def Let_def split: option.splits)
qed

text \<open>The lifecycle is not part of the key: an open that wants to tail joins the slot of an earlier
  one-shot open of the same filter, reports no change, and the interest stays a one-shot.\<close>

lemma oneshot_masks_tailing:
  assumes "build_interest_pair parse h json a scope pin disc OneShot = Some (i, first)"
    and "build_interest_pair parse h json b scope pin disc Tailing = Some (j, second)"
    and "map_of reg (shared i) = None"
  shows "let reg1 = snd (registry_apply EnsureAbsent i first reg); (outcome, reg2) = registry_apply EnsureAbsent j second reg1 in
    \<not> ro_changed outcome \<and> map_option sl_interest (map_of reg2 (shared j)) = Some first \<and>
    li_lifecycle first = OneShot \<and> li_lifecycle second = Tailing"
proof -
  have "shared j = shared i" "li_lifecycle first = OneShot" "li_lifecycle second = Tailing"
    using assms(1,2) by (auto simp: build_interest_pair_def Let_def sub_identity_new_def shared_def split: option.splits)
  then show ?thesis using assms(3) by (simp add: registry_apply_def Let_def map_of_bm_insert)
qed

end
