(* ===== verification/Publish_Policy.thy ===== *)
theory Publish_Policy
  imports Relay_Url
begin

text \<open>
  The pure part of the publish path: the per-relay state machine and its retry policy
  (\<open>nmp-core/src/publish/state.rs\<close>), the publish-policy table (\<open>policy.rs\<close>), publish targets
  (\<open>action/target.rs\<close>) and the NIP-65 resolver (\<open>nmp-router/src/nip65_resolver.rs\<close>).
\<close>

type_synonym publish_relay = string
type_synonym publish_handle = string

section \<open>Acknowledgements and per-relay states\<close>

record relay_ack =
  ack_relay_url :: publish_relay
  ack_ok :: bool
  ack_code :: string
  ack_message :: string

definition ack_of_ok :: "publish_relay \<Rightarrow> relay_ack" where
  "ack_of_ok relay_url = \<lparr>ack_relay_url = relay_url, ack_ok = True, ack_code = [], ack_message = []\<rparr>"

definition TIMEOUT_CODE :: string where
  "TIMEOUT_CODE = ''timeout''"

definition AUTH_REQUIRED_CODE :: string where
  "AUTH_REQUIRED_CODE = ''auth-required''"

definition ack_timed_out :: "publish_relay \<Rightarrow> relay_ack" where
  "ack_timed_out relay_url =
     \<lparr>ack_relay_url = relay_url, ack_ok = False, ack_code = TIMEOUT_CODE, ack_message = ''no response from relay''\<rparr>"

definition ack_failed :: "publish_relay \<Rightarrow> string \<Rightarrow> string \<Rightarrow> relay_ack" where
  "ack_failed relay_url code message =
     \<lparr>ack_relay_url = relay_url, ack_ok = False, ack_code = code, ack_message = message\<rparr>"

definition PERMANENT_CODES :: "string list" where
  "PERMANENT_CODES = [''blocked'', ''pow'', ''restricted'', ''invalid'', ''duplicate'', ''mute'']"

datatype ack_class = AuthRequired | Transient | Permanent

definition classify_ack :: "relay_ack \<Rightarrow> ack_class" where
  "classify_ack ack =
     (if ack_ok ack then Permanent
      else if ack_code ack = AUTH_REQUIRED_CODE then AuthRequired
      else if ack_code ack \<in> set PERMANENT_CODES then Permanent
      else Transient)"

datatype per_relay_state =
    Pending
  | InFlight (sent_at_ms: u64) (inflight_attempt: u32)
  | AckedOk (acked_at_ms: u64)
  | RelayError (err_message: string) (error_attempt: u32) (error_at_ms: u64)
  | TimedOut (timeout_attempt: u32) (timeout_at_ms: u64)
  | FailedAfterRetries (fail_reason: string) (failed_at_ms: u64)

definition is_terminal :: "per_relay_state \<Rightarrow> bool" where
  "is_terminal s = (case s of AckedOk _ \<Rightarrow> True | FailedAfterRetries _ _ \<Rightarrow> True | _ \<Rightarrow> False)"

definition state_attempt :: "per_relay_state \<Rightarrow> u32" where
  "state_attempt s =
     (case s of InFlight _ a \<Rightarrow> a | RelayError _ a _ \<Rightarrow> a | TimedOut a _ \<Rightarrow> a
      | Pending \<Rightarrow> 0 | AckedOk _ \<Rightarrow> 0 | FailedAfterRetries _ _ \<Rightarrow> 0)"

definition is_in_flight :: "per_relay_state \<Rightarrow> bool" where
  "is_in_flight s = (case s of InFlight _ _ \<Rightarrow> True | _ \<Rightarrow> False)"

section \<open>Retry policy\<close>

record retry_policy =
  transient_max_retries :: u32
  backoff_base_ms :: u64
  backoff_factor :: u32
  inflight_deadline_ms :: u64

definition default_inflight_deadline_ms :: u64 where
  "default_inflight_deadline_ms = 30000"

definition retry_policy_default :: retry_policy where
  "retry_policy_default =
     \<lparr>transient_max_retries = 3, backoff_base_ms = 1000, backoff_factor = 4, inflight_deadline_ms = default_inflight_deadline_ms\<rparr>"

definition saturating_mul :: "u64 \<Rightarrow> u64 \<Rightarrow> u64" where
  "saturating_mul a b = min (a * b) u64_max"

definition saturating_add :: "u64 \<Rightarrow> u64 \<Rightarrow> u64" where
  "saturating_add a b = min (a + b) u64_max"

text \<open>The loop over \<open>1..attempt_just_failed\<close>.\<close>

definition backoff_for :: "retry_policy \<Rightarrow> u32 \<Rightarrow> u64" where
  "backoff_for policy attempt_just_failed =
     fold (\<lambda>_ delay. saturating_mul delay (backoff_factor policy)) [1..<attempt_just_failed] (backoff_base_ms policy)"

datatype retry_verdict =
    Settled per_relay_state
  | ScheduleRetry u64 u32
  | ParkAwaitingAuth string

definition apply_ack :: "per_relay_state \<Rightarrow> relay_ack \<Rightarrow> retry_policy \<Rightarrow> u64 \<Rightarrow> retry_verdict" where
  "apply_ack state ack policy now_ms =
     (if \<not> is_in_flight state then Settled state
      else
        let attempt = max (state_attempt state) 1; message = ack_message ack in
        if ack_ok ack then Settled (AckedOk now_ms)
        else case classify_ack ack of
          Permanent \<Rightarrow> Settled (FailedAfterRetries (if message = [] then ack_code ack else message) now_ms)
        | AuthRequired \<Rightarrow> ParkAwaitingAuth (if message = [] then ''auth-required'' else message)
        | Transient \<Rightarrow>
            if transient_max_retries policy \<le> attempt then
              Settled (FailedAfterRetries
                (if ack_code ack = TIMEOUT_CODE then ''timeout after '' @ show_nat attempt @ '' retries''
                 else if message = [] then ''transient after '' @ show_nat attempt @ '' retries: '' @ ack_code ack
                 else ''transient after '' @ show_nat attempt @ '' retries: '' @ message) now_ms)
            else ScheduleRetry (backoff_for policy attempt) (attempt + 1))"

section \<open>Targets and selection reasons\<close>

datatype publish_route_class = ManualOverride | GroupHostPin | VerifiedPrivateInbox | ImportedOrPresigned | Diagnostic

definition wire_token :: "publish_route_class \<Rightarrow> string" where
  "wire_token c =
     (case c of ManualOverride \<Rightarrow> ''manual_override'' | GroupHostPin \<Rightarrow> ''group_host_pin''
      | VerifiedPrivateInbox \<Rightarrow> ''verified_private_inbox'' | ImportedOrPresigned \<Rightarrow> ''imported_or_presigned''
      | Diagnostic \<Rightarrow> ''diagnostic'')"

definition from_wire_token :: "string \<Rightarrow> publish_route_class option" where
  "from_wire_token token =
     (if token = ''manual_override'' then Some ManualOverride
      else if token = ''group_host_pin'' then Some GroupHostPin
      else if token = ''verified_private_inbox'' then Some VerifiedPrivateInbox
      else if token = ''imported_or_presigned'' then Some ImportedOrPresigned
      else if token = ''diagnostic'' then Some Diagnostic
      else None)"

datatype publish_target = Auto | Explicit (explicit_relays: "publish_relay list") (explicit_class: publish_route_class)

definition canonical_relay_identity :: "string \<Rightarrow> publish_relay" where
  "canonical_relay_identity raw = unwrap_or raw (canonicalize raw)"

text \<open>The first relay that is no \<open>ws\<close> or \<open>wss\<close> URL is reported.\<close>

definition validate_explicit_relays :: "publish_relay list \<Rightarrow> string + unit" where
  "validate_explicit_relays relays =
     (if relays = [] then Inl ''explicit publish target requires at least one relay''
      else case List.find (\<lambda>relay. canonicalize relay = None) relays of
        Some relay \<Rightarrow> Inl (''explicit publish target relay '' @ [CHR 0x27] @ relay @ [CHR 0x27] @
                          '' must be a ws:// or wss:// relay URL'')
      | None \<Rightarrow> Inr ())"

definition validate_publish_target :: "publish_target \<Rightarrow> string + unit" where
  "validate_publish_target target = (case target of Auto \<Rightarrow> Inr () | Explicit relays _ \<Rightarrow> validate_explicit_relays relays)"

definition validate_presigned_publish_target :: "publish_target \<Rightarrow> string + unit" where
  "validate_presigned_publish_target target =
     (case target of
        Auto \<Rightarrow> Inl ''pre-signed publish requires an explicit non-empty imported/protocol relay target''
      | Explicit relays route_class \<Rightarrow>
          (case validate_explicit_relays relays of
             Inl e \<Rightarrow> Inl e
           | Inr _ \<Rightarrow>
               (case route_class of
                  ImportedOrPresigned \<Rightarrow> Inr ()
                | GroupHostPin \<Rightarrow> Inr ()
                | VerifiedPrivateInbox \<Rightarrow> Inr ()
                | ManualOverride \<Rightarrow> Inl ''pre-signed publish rejects manual_override routes; use unsigned app publish or an imported/protocol route''
                | Diagnostic \<Rightarrow> Inl ''pre-signed publish rejects diagnostic routes without a reviewed protocol entrypoint'')))"

datatype relay_selection_reason =
    AuthorWriteRelay
  | LocalConfigRelay
  | DiscoveryIndexer u32
  | RecipientInbox string
  | ExplicitReason publish_route_class

record resolved_relay =
  rr_url :: publish_relay
  rr_reason :: relay_selection_reason

section \<open>The publish-policy table\<close>

type_synonym reserved_builder_policy = string

record exact_publish_policy =
  epp_kind :: u32
  epp_reserved_builder :: "reserved_builder_policy option"
  epp_discovery_indexable :: bool

record publish_policy_registry =
  ppr_exact :: "exact_publish_policy list"
  ppr_discovery_ranges :: "(u32 \<times> u32) list"

record registration_error =
  reg_kind :: u32
  reg_existing :: reserved_builder_policy
  reg_incoming :: reserved_builder_policy

definition registry_default :: publish_policy_registry where
  "registry_default = \<lparr>ppr_exact = [], ppr_discovery_ranges = []\<rparr>"

text \<open>\<open>exact_slot\<close> followed by a mutation of the slot it returns.\<close>

fun with_exact_slot :: "u32 \<Rightarrow> (exact_publish_policy \<Rightarrow> exact_publish_policy) \<Rightarrow> exact_publish_policy list \<Rightarrow> exact_publish_policy list" where
  "with_exact_slot kind f [] = [f \<lparr>epp_kind = kind, epp_reserved_builder = None, epp_discovery_indexable = False\<rparr>]"
| "with_exact_slot kind f (e # es) = (if epp_kind e = kind then f e # es else e # with_exact_slot kind f es)"

definition reserved_builder :: "publish_policy_registry \<Rightarrow> u32 \<Rightarrow> reserved_builder_policy option" where
  "reserved_builder reg kind = Option.bind (List.find (\<lambda>e. epp_kind e = kind) (ppr_exact reg)) epp_reserved_builder"

definition register_reserved_builder ::
  "u32 \<Rightarrow> reserved_builder_policy \<Rightarrow> publish_policy_registry \<Rightarrow> (registration_error + unit) \<times> publish_policy_registry" where
  "register_reserved_builder kind policy reg =
     (let slotted = reg\<lparr>ppr_exact := with_exact_slot kind id (ppr_exact reg)\<rparr> in
      case reserved_builder reg kind of
        Some existing \<Rightarrow>
          if existing \<noteq> policy then (Inl \<lparr>reg_kind = kind, reg_existing = existing, reg_incoming = policy\<rparr>, slotted)
          else (Inr (), slotted)
      | None \<Rightarrow> (Inr (), reg\<lparr>ppr_exact := with_exact_slot kind (\<lambda>e. e\<lparr>epp_reserved_builder := Some policy\<rparr>) (ppr_exact reg)\<rparr>))"

definition register_discovery_kind :: "u32 \<Rightarrow> publish_policy_registry \<Rightarrow> publish_policy_registry" where
  "register_discovery_kind kind reg =
     reg\<lparr>ppr_exact := with_exact_slot kind (\<lambda>e. e\<lparr>epp_discovery_indexable := True\<rparr>) (ppr_exact reg)\<rparr>"

definition register_discovery_range :: "u32 \<times> u32 \<Rightarrow> publish_policy_registry \<Rightarrow> publish_policy_registry" where
  "register_discovery_range span reg =
     (if span \<in> set (ppr_discovery_ranges reg) then reg
      else reg\<lparr>ppr_discovery_ranges := ppr_discovery_ranges reg @ [span]\<rparr>)"

definition is_discovery_indexable :: "publish_policy_registry \<Rightarrow> u32 \<Rightarrow> bool" where
  "is_discovery_indexable reg kind \<longleftrightarrow>
     (\<exists>e \<in> set (ppr_exact reg). epp_kind e = kind \<and> epp_discovery_indexable e) \<or>
     (\<exists>(a, b) \<in> set (ppr_discovery_ranges reg). a \<le> kind \<and> kind \<le> b)"

datatype publish_behavior = PrivateFailClosed | ReservedBuilderOnly reserved_builder_policy | DiscoveryIndexable | PublicRoutable

definition classify_publish_behavior :: "publish_policy_registry \<Rightarrow> u32 \<Rightarrow> publish_behavior" where
  "classify_publish_behavior reg kind =
     (if kind = KIND_GIFT_WRAP \<or> kind = KIND_CHAT_MESSAGE then PrivateFailClosed
      else case reserved_builder reg kind of
        Some policy \<Rightarrow> ReservedBuilderOnly policy
      | None \<Rightarrow> if is_discovery_indexable reg kind then DiscoveryIndexable else PublicRoutable)"

definition is_private_fail_closed :: "publish_behavior \<Rightarrow> bool" where
  "is_private_fail_closed b \<longleftrightarrow> b = PrivateFailClosed"

definition target_is_verified_private_inbox :: "publish_target \<Rightarrow> bool" where
  "target_is_verified_private_inbox target =
     (case target of Explicit relays VerifiedPrivateInbox \<Rightarrow> relays \<noteq> [] | _ \<Rightarrow> False)"

definition private_fail_closed_rejection :: "u32 \<Rightarrow> string" where
  "private_fail_closed_rejection kind =
     ''cannot publish kind:'' @ show_nat kind @ '' private/encrypted envelope with automatic routing: '' @
     ''it requires an explicit non-empty recipient-inbox relay set classified as '' @
     ''verified_private_inbox (PublishTarget::Explicit). Auto, empty routing, or an '' @
     ''unverified explicit route would leak the encrypted envelope to public relays (D10).''"

definition validate_publish_routing :: "publish_policy_registry \<Rightarrow> u32 \<Rightarrow> publish_target \<Rightarrow> string + unit" where
  "validate_publish_routing reg kind target =
     (if is_private_fail_closed (classify_publish_behavior reg kind) \<and> \<not> target_is_verified_private_inbox target
      then Inl (private_fail_closed_rejection kind) else Inr ())"

definition relay_emit_is_sanctioned :: "publish_policy_registry \<Rightarrow> u32 \<Rightarrow> relay_selection_reason list \<Rightarrow> bool" where
  "relay_emit_is_sanctioned reg kind relay_reasons \<longleftrightarrow>
     (if \<not> is_private_fail_closed (classify_publish_behavior reg kind) then True
      else list_ex (\<lambda>r. r = ExplicitReason VerifiedPrivateInbox) relay_reasons)"

section \<open>The NIP-65 resolver\<close>

text \<open>What the resolver reads: the mailbox cache and the shared slots.\<close>

record nip65_outbox_resolver =
  nr_mailboxes :: "(string \<times> nip65_relay_list) list"
  nr_indexer_relays :: "publish_relay list"
  nr_local_write_relays :: "publish_relay list"
  nr_active_account :: "string option"

definition is_discovery_kind :: "u32 \<Rightarrow> bool" where
  "is_discovery_kind kind = is_replaceable kind"

definition RECIPIENT_INBOX_FANOUT_PTAG_THRESHOLD :: usize where
  "RECIPIENT_INBOX_FANOUT_PTAG_THRESHOLD = 15"

definition lookup_kind10002 :: "nip65_outbox_resolver \<Rightarrow> string \<Rightarrow> (publish_relay list \<times> publish_relay list) option" where
  "lookup_kind10002 nr author = map_option (\<lambda>parsed. (write_set parsed, read_set parsed)) (map_of (nr_mailboxes nr) author)"

definition is_active_account :: "nip65_outbox_resolver \<Rightarrow> string \<Rightarrow> bool" where
  "is_active_account nr author \<longleftrightarrow> nr_active_account nr = Some author"

definition tagged :: "relay_selection_reason \<Rightarrow> publish_relay list \<Rightarrow> resolved_relay list" where
  "tagged reason urls = map (\<lambda>url. \<lparr>rr_url = url, rr_reason = reason\<rparr>) urls"

definition nip65_resolve ::
  "nip65_outbox_resolver \<Rightarrow> string \<Rightarrow> string list \<Rightarrow> publish_target \<Rightarrow> u32 \<Rightarrow> publish_relay list \<Rightarrow> resolved_relay list" where
  "nip65_resolve nr author_pubkey p_tags target kind blocked =
     (case target of
        Explicit relays route_class \<Rightarrow> tagged (ExplicitReason route_class) (filter (\<lambda>url. url \<notin> set blocked) relays)
      | Auto \<Rightarrow>
          let kind10002 = lookup_kind10002 nr author_pubkey;
              out = (case kind10002 of Some (writes, _) \<Rightarrow> tagged AuthorWriteRelay writes | None \<Rightarrow> []);
              explicitly_empty = (case kind10002 of Some (writes, _) \<Rightarrow> writes = [] | None \<Rightarrow> False);
              out = (if \<not> explicitly_empty \<and> is_active_account nr author_pubkey
                     then out @ tagged LocalConfigRelay (nr_local_write_relays nr) else out);
              out = (if is_discovery_kind kind then out @ tagged (DiscoveryIndexer kind) (nr_indexer_relays nr) else out);
              out = (if ptags_are_recipients kind \<and> length p_tags < RECIPIENT_INBOX_FANOUT_PTAG_THRESHOLD
                     then out @ concat (map (\<lambda>p. case lookup_kind10002 nr p of
                                                   Some (_, reads) \<Rightarrow> tagged (RecipientInbox p) reads | None \<Rightarrow> []) p_tags)
                     else out)
          in filter (\<lambda>r. rr_url r \<notin> set blocked) out)"

end
