(* ===== verification/Publish_Action.thy ===== *)
theory Publish_Action
  imports Publish_Policy Planner_Interest
begin

text \<open>
  The publish action an application dispatches (\<open>nmp-core/src/publish/action.rs\<close>, \<open>action/signer.rs\<close>) and the
  tags added to what it publishes (\<open>outbound_tags.rs\<close>). The flat object of profile fields is kept in the
  order of its iteration.
\<close>

record signed_event =
  sv_id :: string
  sv_sig :: string
  sv_pubkey :: string
  sv_kind :: u32
  sv_tags :: "string list list"
  sv_content :: string
  sv_created_at :: u64

section \<open>Signers\<close>

datatype publish_signer_provenance = AppManaged | UserSelected | ProtocolPinned | DiagnosticSigner

definition provenance_wire_token :: "publish_signer_provenance \<Rightarrow> string" where
  "provenance_wire_token p =
     (case p of AppManaged \<Rightarrow> ''app_managed'' | UserSelected \<Rightarrow> ''user_selected''
      | ProtocolPinned \<Rightarrow> ''protocol_pinned'' | DiagnosticSigner \<Rightarrow> ''diagnostic'')"

definition provenance_from_wire_token :: "string \<Rightarrow> publish_signer_provenance option" where
  "provenance_from_wire_token token =
     (if token = ''app_managed'' then Some AppManaged
      else if token = ''user_selected'' then Some UserSelected
      else if token = ''protocol_pinned'' then Some ProtocolPinned
      else if token = ''diagnostic'' then Some DiagnosticSigner
      else None)"

datatype publish_signer = ActiveSigner | RegisteredSigner (registered_pubkey: string) (registered_provenance: publish_signer_provenance)

definition signer_pubkey :: "publish_signer \<Rightarrow> string option" where
  "signer_pubkey s = (case s of ActiveSigner \<Rightarrow> None | RegisteredSigner pubkey _ \<Rightarrow> Some pubkey)"

section \<open>The action module\<close>

datatype publish_action =
    Publish publish_handle signed_event publish_target
  | PublishProfile "(string \<times> json) list"
  | PublishRaw u32 "string list list" string publish_target publish_signer
  | PublishReply string string publish_target publish_signer

datatype publish_command =
    ProfileCommand "(string \<times> json) list" "string option"
  | RawEventCommand u32 "string list list" string publish_target "string option" "string option"
  | ReplyCommand string string publish_target "string option" "string option"

definition behavior_reserved_builder :: "publish_behavior \<Rightarrow> reserved_builder_policy option" where
  "behavior_reserved_builder b = (case b of ReservedBuilderOnly policy \<Rightarrow> Some policy | _ \<Rightarrow> None)"

definition is_json_string :: "json \<Rightarrow> bool" where
  "is_json_string v = (as_str v \<noteq> None)"

definition is_ascii_hexdigit :: "char \<Rightarrow> bool" where
  "is_ascii_hexdigit c \<longleftrightarrow> c \<in> set ''0123456789abcdefABCDEF''"

text \<open>\<open>ActionModule::start\<close>: the checks before an action is accepted.\<close>

definition publish_action_start :: "publish_policy_registry \<Rightarrow> publish_action \<Rightarrow> string + unit" where
  "publish_action_start reg action =
     (case action of
        Publish _ _ _ \<Rightarrow> Inl (''pre-signed PublishAction::Publish is internal/protocol-only; apps must dispatch '' @
          ''unsigned PublishRaw/PublishProfile/PublishReply builders'')
      | PublishProfile entries \<Rightarrow>
          (case List.find (\<lambda>(_, value). \<not> is_json_string value) entries of
             Some (key, _) \<Rightarrow> Inl (''profile field '' @ [CHR 0x27] @ key @ [CHR 0x27] @ '' must be a string value'')
           | None \<Rightarrow> Inr ())
      | PublishRaw kind _ _ target _ \<Rightarrow>
          (case behavior_reserved_builder (classify_publish_behavior reg kind) of
             Some reserved \<Rightarrow> Inl reserved
           | None \<Rightarrow>
               (case validate_publish_target target of
                  Inl e \<Rightarrow> Inl e
                | Inr _ \<Rightarrow> validate_publish_routing reg kind target))
      | PublishReply content reply_to target _ \<Rightarrow>
          if trim content = [] then Inl ''reply content must not be empty''
          else if length reply_to \<noteq> 64 \<or> \<not> list_all is_ascii_hexdigit reply_to
          then Inl ''reply_to_event_id must be a 64-character hex event id''
          else validate_publish_target target)"

text \<open>\<open>ActionModule::execute\<close>: the command an accepted action sends to the actor.\<close>

definition publish_action_execute :: "publish_action \<Rightarrow> string \<Rightarrow> string + publish_command" where
  "publish_action_execute action correlation_id =
     (case action of
        Publish _ _ _ \<Rightarrow> Inl ''pre-signed PublishAction::Publish is internal/protocol-only''
      | PublishProfile entries \<Rightarrow> Inr (ProfileCommand entries (Some correlation_id))
      | PublishRaw kind tags content target signer \<Rightarrow>
          Inr (RawEventCommand kind tags content target (signer_pubkey signer) (Some correlation_id))
      | PublishReply content reply_to target signer \<Rightarrow>
          Inr (ReplyCommand content reply_to target (signer_pubkey signer) (Some correlation_id)))"

definition finalize_outbound_tags :: "publish_policy_registry \<Rightarrow> string list list \<Rightarrow> u32 \<Rightarrow> string list list \<Rightarrow> string list list" where
  "finalize_outbound_tags reg outbound_public_tags kind tags =
     (if classify_publish_behavior reg kind \<noteq> PublicRoutable then tags else tags @ outbound_public_tags)"

section \<open>What the gate lets through\<close>

lemma validate_explicit_relays_ok:
  "validate_explicit_relays relays = Inr () \<longleftrightarrow> relays \<noteq> [] \<and> list_all (\<lambda>relay. canonicalize relay \<noteq> None) relays"
  by (auto simp: validate_explicit_relays_def list_all_iff find_None_iff find_Some_iff split: option.split)

text \<open>Tokens of route classes and signer provenances are read back.\<close>

lemma wire_token_roundtrip:
  "from_wire_token (wire_token c) = Some c" "provenance_from_wire_token (provenance_wire_token p) = Some p"
  by (cases c; simp add: from_wire_token_def wire_token_def)
    (cases p; simp add: provenance_from_wire_token_def provenance_wire_token_def)

text \<open>A raw publish the module accepts names no reserved kind; its explicit relays are relay URLs; and a private
  envelope carries an explicit verified inbox.\<close>

theorem raw_publish_gate:
  assumes "publish_action_start reg (PublishRaw kind tags content target signer) = Inr ()"
  shows "(is_private_fail_closed (classify_publish_behavior reg kind) \<or> reserved_builder reg kind = None) \<and>
    validate_publish_target target = Inr () \<and>
    (kind \<in> {KIND_GIFT_WRAP, KIND_CHAT_MESSAGE} \<longrightarrow>
       (\<exists>relays. target = Explicit relays VerifiedPrivateInbox \<and> relays \<noteq> [] \<and> list_all (\<lambda>relay. canonicalize relay \<noteq> None) relays))"
proof -
  have accepted: "behavior_reserved_builder (classify_publish_behavior reg kind) = None" "validate_publish_target target = Inr ()"
    "validate_publish_routing reg kind target = Inr ()"
    using assms by (auto simp: publish_action_start_def split: option.splits sum.splits)
  have "is_private_fail_closed (classify_publish_behavior reg kind) \<or> reserved_builder reg kind = None"
    using accepted(1) by (auto simp: behavior_reserved_builder_def classify_publish_behavior_def is_private_fail_closed_def split: option.splits if_splits)
  moreover have "\<exists>relays. target = Explicit relays VerifiedPrivateInbox \<and> relays \<noteq> [] \<and> list_all (\<lambda>relay. canonicalize relay \<noteq> None) relays"
    if "kind \<in> {KIND_GIFT_WRAP, KIND_CHAT_MESSAGE}"
  proof -
    have "target_is_verified_private_inbox target"
      using accepted(3) that by (auto simp: validate_publish_routing_def classify_publish_behavior_def is_private_fail_closed_def split: if_splits)
    then obtain relays where "target = Explicit relays VerifiedPrivateInbox" "relays \<noteq> []"
      by (auto simp: target_is_verified_private_inbox_def split: publish_target.splits publish_route_class.splits)
    then show ?thesis using accepted(2) by (simp add: validate_publish_target_def validate_explicit_relays_ok)
  qed
  ultimately show ?thesis using accepted(2) by blast
qed

end
