(* ===== verification/Publish_Engine.thy ===== *)
theory Publish_Engine
  imports Publish_Action
begin

text \<open>
  The publish engine (\<open>nmp-core/src/publish/engine.rs\<close> and \<open>engine/\<close>): the rows in flight, the
  availability gate, the retry ladder, the durable store behind it, the terminal verdicts it reports and
  the status view.

  \<^item> Each operation is a function on the engine; where the source returns a \<open>Result\<close>, the error is an
    option beside the new engine, so that an early return keeps the mutations made before it.
  \<^item> The dispatcher is the queue the kernel installs (\<open>QueueDispatcher\<close>): it buffers the frame and returns
    no acknowledgement. A frame is the JSON array \<open>["EVENT", event]\<close>, kept as its event.
  \<^item> The store is the rows of \<open>PublishStore\<close> with the error its backend is returning, if any.
  \<^item> The resolver and the blocked-relay lookup are the functions of their traits.
\<close>

section \<open>Data\<close>

datatype frame = EventFrame (frame_event: signed_event)

definition build_event_frame :: "signed_event \<Rightarrow> frame" where
  "build_event_frame event = EventFrame event"

type_synonym relay_states = "(publish_relay \<times> per_relay_state) list"
type_synonym relay_reasons = "(publish_relay \<times> relay_selection_reason list) list"

record in_flight_row =
  if_event :: signed_event
  if_target :: publish_target
  if_per_relay :: relay_states
  if_relay_reasons :: relay_reasons
  if_pending_retries :: "(publish_relay \<times> u64) list"
  if_dirty :: bool
  if_correlation_id_override :: "string option"

record publish_record =
  pr_handle :: publish_handle
  pr_event :: signed_event
  pr_target :: publish_target
  pr_per_relay :: relay_states
  pr_pending_retries :: "(publish_relay \<times> u64) list"
  pr_relay_reasons :: relay_reasons

datatype publish_store_error = NotFound | Backend string

text \<open>A reason shown to the user: a text, or a text followed by the debug form of a store error.\<close>

datatype shown_reason = Text string | StoreText string publish_store_error

record terminal_outcome =
  to_event_id :: string
  to_accepted :: "publish_relay list"
  to_failed :: "(publish_relay \<times> string) list"
  to_relay_reasons :: relay_reasons

datatype publish_queue_terminal = QueueSettled terminal_outcome | QueueCancelled string | QueueNone

datatype terminal_status = StatusOk | StatusFailed | StatusCancelled

record last_terminal =
  lt_correlation_id :: string
  lt_status :: terminal_status
  lt_error :: "string option"
  lt_event_id :: "string option"
  lt_publish_queue :: publish_queue_terminal

record event_publish_status =
  es_handle :: publish_handle
  es_event_id :: string
  es_kind :: u32
  es_created_at :: u64
  es_content :: string
  es_per_relay :: relay_states
  es_relay_reasons :: relay_reasons

record recent_success =
  rs_handle :: publish_handle
  rs_event_id :: string
  rs_accepted_by :: "publish_relay list"
  rs_at_ms :: u64

record recent_failure =
  rf_handle :: publish_handle
  rf_event_id :: string
  rf_relay_url :: publish_relay
  rf_reason :: shown_reason
  rf_at_ms :: u64

section \<open>The status view\<close>

record publish_status_state =
  vs_recent_ok_cap :: usize
  vs_recent_err_cap :: usize
  vs_rev :: u64
  vs_in_flight :: "event_publish_status list"
  vs_recent_ok :: "recent_success list"
  vs_recent_errors :: "recent_failure list"

definition status_state_new :: "usize \<Rightarrow> usize \<Rightarrow> publish_status_state" where
  "status_state_new ok_cap err_cap =
     \<lparr>vs_recent_ok_cap = (if ok_cap = 0 then 32 else ok_cap), vs_recent_err_cap = (if err_cap = 0 then 32 else err_cap),
      vs_rev = 0, vs_in_flight = [], vs_recent_ok = [], vs_recent_errors = []\<rparr>"

definition replace_in_flight :: "event_publish_status list \<Rightarrow> publish_status_state \<Rightarrow> publish_status_state" where
  "replace_in_flight rows v = v\<lparr>vs_in_flight := rows\<rparr>"

definition push_success :: "recent_success \<Rightarrow> publish_status_state \<Rightarrow> publish_status_state" where
  "push_success success v =
     (let xs = vs_recent_ok v @ [success] in v\<lparr>vs_recent_ok := drop (length xs - vs_recent_ok_cap v) xs\<rparr>)"

definition push_failure :: "recent_failure \<Rightarrow> publish_status_state \<Rightarrow> publish_status_state" where
  "push_failure failure v =
     (let xs = vs_recent_errors v @ [failure] in v\<lparr>vs_recent_errors := drop (length xs - vs_recent_err_cap v) xs\<rparr>)"

definition bump_rev :: "publish_status_state \<Rightarrow> publish_status_state" where
  "bump_rev v = v\<lparr>vs_rev := saturating_add (vs_rev v) 1\<rparr>"

section \<open>The durable store\<close>

record publish_store =
  ps_rows :: "(publish_handle \<times> publish_record) list"
  ps_failing :: "publish_store_error option"

definition store_upsert :: "publish_record \<Rightarrow> publish_store \<Rightarrow> publish_store_error option \<times> publish_store" where
  "store_upsert r st =
     (case ps_failing st of
        Some e \<Rightarrow> (Some e, st)
      | None \<Rightarrow> (None, st\<lparr>ps_rows := hm_insert (pr_handle r) r (ps_rows st)\<rparr>))"

definition store_delete :: "publish_handle \<Rightarrow> publish_store \<Rightarrow> publish_store_error option \<times> publish_store" where
  "store_delete handle st =
     (case ps_failing st of
        Some e \<Rightarrow> (Some e, st)
      | None \<Rightarrow> (None, st\<lparr>ps_rows := hm_remove handle (ps_rows st)\<rparr>))"

definition load_pending :: "publish_store \<Rightarrow> publish_store_error + publish_record list" where
  "load_pending st =
     (case ps_failing st of
        Some e \<Rightarrow> Inl e
      | None \<Rightarrow> Inr (filter (\<lambda>r. list_ex (\<lambda>(_, state). \<not> is_terminal state) (pr_per_relay r)) (map snd (ps_rows st))))"

section \<open>The engine\<close>

datatype publish_engine_error =
    DuplicateHandle publish_handle
  | NoTargets
  | StoreError publish_store_error
  | UnsupportedAction string

type_synonym outbox_resolver = "string \<Rightarrow> string list \<Rightarrow> publish_target \<Rightarrow> u32 \<Rightarrow> publish_relay list \<Rightarrow> resolved_relay list"

record publish_engine =
  en_in_flight :: "(publish_handle \<times> in_flight_row) list"
  en_unavailable_relays :: "(publish_relay \<times> u64 option) list"
  en_view :: publish_status_state
  en_policy :: retry_policy
  en_outbox :: outbox_resolver
  en_blocked_relays :: "string \<Rightarrow> publish_relay list"
  en_queued :: "(publish_relay \<times> frame) list"
  en_store :: publish_store
  en_needs_in_flight_rebuild :: bool
  en_pending_terminals :: "last_terminal list"
  en_resolver_composed :: bool
  en_registry :: publish_policy_registry

definition engine_new :: "outbox_resolver \<Rightarrow> publish_store \<Rightarrow> retry_policy \<Rightarrow> publish_policy_registry \<Rightarrow> publish_engine" where
  "engine_new outbox store policy registry =
     \<lparr>en_in_flight = [], en_unavailable_relays = [], en_view = status_state_new 0 0, en_policy = policy,
      en_outbox = outbox, en_blocked_relays = (\<lambda>_. []), en_queued = [], en_store = store,
      en_needs_in_flight_rebuild = False, en_pending_terminals = [], en_resolver_composed = False, en_registry = registry\<rparr>"

definition set_outbox :: "outbox_resolver \<Rightarrow> publish_engine \<Rightarrow> publish_engine" where
  "set_outbox outbox e = e\<lparr>en_outbox := outbox, en_resolver_composed := True\<rparr>"

definition set_blocked_relay_lookup :: "(string \<Rightarrow> publish_relay list) \<Rightarrow> publish_engine \<Rightarrow> publish_engine" where
  "set_blocked_relay_lookup lookup e = e\<lparr>en_blocked_relays := lookup\<rparr>"

text \<open>\<open>QueueDispatcher\<close>: buffer the frame, acknowledge later; and the drain of the buffer.\<close>

definition dispatch_frame :: "publish_relay \<Rightarrow> frame \<Rightarrow> (publish_relay \<times> frame) list \<Rightarrow> relay_ack list \<times> (publish_relay \<times> frame) list" where
  "dispatch_frame relay_url f queued = ([], queued @ [(relay_url, f)])"

definition drain_frames :: "publish_engine \<Rightarrow> (publish_relay \<times> frame) list \<times> publish_engine" where
  "drain_frames e = (en_queued e, e\<lparr>en_queued := []\<rparr>)"

subsection \<open>Helpers on a row\<close>

definition collect_p_tags :: "signed_event \<Rightarrow> string list" where
  "collect_p_tags event = bs_of_list (List.map_filter (\<lambda>tag. case tag of ''p'' # v # _ \<Rightarrow> Some v | _ \<Rightarrow> None) (sv_tags event))"

definition is_complete :: "in_flight_row \<Rightarrow> bool" where
  "is_complete row \<longleftrightarrow> list_all (\<lambda>(_, s). is_terminal s) (if_per_relay row)"

definition is_accepted :: "per_relay_state \<Rightarrow> bool" where
  "is_accepted s = (case s of AckedOk _ \<Rightarrow> True | _ \<Rightarrow> False)"

definition has_any_accepted :: "in_flight_row \<Rightarrow> bool" where
  "has_any_accepted row \<longleftrightarrow> list_ex (\<lambda>(_, s). is_accepted s) (if_per_relay row)"

definition accepted_relays :: "relay_states \<Rightarrow> publish_relay list" where
  "accepted_relays states = map fst (filter (\<lambda>(_, s). is_accepted s) states)"

definition failed_relays :: "relay_states \<Rightarrow> (publish_relay \<times> string) list" where
  "failed_relays states =
     List.map_filter (\<lambda>(url, s). case s of FailedAfterRetries reason _ \<Rightarrow> Some (url, reason) | _ \<Rightarrow> None) states"

definition for_each_terminal :: "in_flight_row \<Rightarrow> publish_handle \<Rightarrow> u64 \<Rightarrow> publish_status_state \<Rightarrow> publish_status_state" where
  "for_each_terminal row handle now_ms view =
     (let accepted = accepted_relays (if_per_relay row);
          event_id = sv_id (if_event row);
          view = (if accepted = [] then view
                  else push_success \<lparr>rs_handle = handle, rs_event_id = event_id, rs_accepted_by = accepted, rs_at_ms = now_ms\<rparr> view)
      in fold (\<lambda>(url, reason). push_failure \<lparr>rf_handle = handle, rf_event_id = event_id, rf_relay_url = url,
                 rf_reason = Text reason, rf_at_ms = now_ms\<rparr>) (failed_relays (if_per_relay row)) view)"

definition terminal_outcome_of :: "in_flight_row \<Rightarrow> terminal_outcome" where
  "terminal_outcome_of row =
     \<lparr>to_event_id = sv_id (if_event row), to_accepted = accepted_relays (if_per_relay row),
      to_failed = failed_relays (if_per_relay row), to_relay_reasons = if_relay_reasons row\<rparr>"

definition join_failures :: "(publish_relay \<times> string) list \<Rightarrow> string" where
  "join_failures failed =
     (case map (\<lambda>(url, reason). url @ '': '' @ reason) failed of
        [] \<Rightarrow> []
      | x # xs \<Rightarrow> x @ concat (map (\<lambda>y. ''; '' @ y) xs))"

definition from_outcome :: "publish_handle \<Rightarrow> string option \<Rightarrow> terminal_outcome \<Rightarrow> last_terminal" where
  "from_outcome handle correlation_id_override outcome =
     (let failed = (to_accepted outcome = []) in
      \<lparr>lt_correlation_id = unwrap_or handle correlation_id_override,
       lt_status = (if failed then StatusFailed else StatusOk),
       lt_error = (if failed
                   then Some (if to_failed outcome = [] then ''publish failed: no relays settled'' else join_failures (to_failed outcome))
                   else None),
       lt_event_id = Some (to_event_id outcome), lt_publish_queue = QueueSettled outcome\<rparr>)"

datatype publish_outcome =
    OutcomeAccepted "publish_relay list"
  | OutcomeMixed "publish_relay list" "publish_relay list"
  | OutcomeFailed "publish_relay list"
  | OutcomeNoTargets
  | OutcomeCancelled

definition outcome_of :: "relay_states \<Rightarrow> publish_outcome" where
  "outcome_of states =
     (let accepted = accepted_relays states; failed = map fst (failed_relays states) in
      if accepted \<noteq> [] \<and> failed = [] then OutcomeAccepted accepted
      else if accepted \<noteq> [] then OutcomeMixed accepted failed
      else if failed \<noteq> [] then OutcomeFailed failed
      else OutcomeNoTargets)"

text \<open>Whether the loop body of \<open>dispatch_due\<close> sends to (or refuses) a relay now.\<close>

definition dispatch_ready :: "in_flight_row \<Rightarrow> u64 \<Rightarrow> publish_relay option \<Rightarrow> (publish_relay \<times> u64 option) list \<Rightarrow> publish_relay \<Rightarrow> per_relay_state \<Rightarrow> bool" where
  "dispatch_ready row now_ms relay_filter unavailable relay_url state \<longleftrightarrow>
     (relay_filter = None \<or> relay_filter = Some relay_url) \<and> \<not> hm_contains relay_url unavailable \<and>
     (case state of
        Pending \<Rightarrow> True
      | RelayError _ _ _ \<Rightarrow> (case map_of (if_pending_retries row) relay_url of None \<Rightarrow> True | Some due \<Rightarrow> due \<le> now_ms)
      | TimedOut _ _ \<Rightarrow> (case map_of (if_pending_retries row) relay_url of None \<Rightarrow> True | Some due \<Rightarrow> due \<le> now_ms)
      | _ \<Rightarrow> False)"

definition D10_REFUSAL :: string where
  "D10_REFUSAL = ''refused: private envelope not routable to a non-explicit relay (D10)''"

definition dispatch_relay ::
  "publish_policy_registry \<Rightarrow> u64 \<Rightarrow> publish_relay option \<Rightarrow> (publish_relay \<times> u64 option) list \<Rightarrow> publish_relay \<times> per_relay_state \<Rightarrow>
   in_flight_row \<times> relay_ack list \<times> (publish_relay \<times> frame) list \<Rightarrow> in_flight_row \<times> relay_ack list \<times> (publish_relay \<times> frame) list" where
  "dispatch_relay reg now_ms relay_filter unavailable slot s =
     (let (relay_url, state) = slot; (row, acks, queued) = s in
      if \<not> dispatch_ready row now_ms relay_filter unavailable relay_url state then s
      else if \<not> relay_emit_is_sanctioned reg (sv_kind (if_event row)) (unwrap_or [] (map_of (if_relay_reasons row) relay_url)) then
        (row\<lparr>if_per_relay := bm_insert relay_url (FailedAfterRetries D10_REFUSAL now_ms) (if_per_relay row),
             if_pending_retries := hm_remove relay_url (if_pending_retries row), if_dirty := True\<rparr>, acks, queued)
      else
        let attempt = max (state_attempt state + 1) 1;
            (new_acks, queued) = dispatch_frame relay_url (build_event_frame (if_event row)) queued in
        (row\<lparr>if_per_relay := bm_insert relay_url (InFlight now_ms attempt) (if_per_relay row),
             if_pending_retries := hm_remove relay_url (if_pending_retries row), if_dirty := True\<rparr>, acks @ new_acks, queued))"

definition dispatch_due ::
  "publish_policy_registry \<Rightarrow> u64 \<Rightarrow> publish_relay option \<Rightarrow> (publish_relay \<times> u64 option) list \<Rightarrow> in_flight_row \<Rightarrow>
   (publish_relay \<times> frame) list \<Rightarrow> in_flight_row \<times> relay_ack list \<times> (publish_relay \<times> frame) list" where
  "dispatch_due reg now_ms relay_filter unavailable row queued =
     fold (dispatch_relay reg now_ms relay_filter unavailable) (if_per_relay row) (row, [], queued)"

text \<open>The second component is \<open>True\<close> for a park.\<close>

definition apply_verdict :: "in_flight_row \<Rightarrow> publish_relay \<Rightarrow> retry_verdict \<Rightarrow> u64 \<Rightarrow> in_flight_row \<times> bool" where
  "apply_verdict row relay_url verdict now_ms =
     (if \<not> hm_contains relay_url (if_per_relay row) then (row, False)
      else case verdict of
        Settled next \<Rightarrow> (row\<lparr>if_per_relay := bm_insert relay_url next (if_per_relay row), if_dirty := True\<rparr>, False)
      | ScheduleRetry delay_ms next_attempt \<Rightarrow>
          (row\<lparr>if_per_relay := bm_insert relay_url
                 (RelayError (''retry scheduled (attempt '' @ show_nat next_attempt @ '')'') (next_attempt - 1) now_ms) (if_per_relay row),
               if_pending_retries := bm_insert relay_url (saturating_add now_ms delay_ms) (if_pending_retries row), if_dirty := True\<rparr>, False)
      | ParkAwaitingAuth _ \<Rightarrow> (row, True))"

definition sweep_inflight_state :: "u64 \<Rightarrow> u64 \<Rightarrow> retry_policy \<Rightarrow> per_relay_state \<Rightarrow> per_relay_state" where
  "sweep_inflight_state now_ms deadline_ms policy s =
     (case s of
        InFlight sent attempt \<Rightarrow>
          if deadline_ms \<le> now_ms - sent then
            if transient_max_retries policy \<le> attempt
            then FailedAfterRetries (''timeout after '' @ show_nat attempt @ '' retries'') now_ms
            else TimedOut attempt now_ms
          else s
      | _ \<Rightarrow> s)"

definition sweep_inflight_timeouts :: "u64 \<Rightarrow> u64 \<Rightarrow> retry_policy \<Rightarrow> in_flight_row \<Rightarrow> in_flight_row" where
  "sweep_inflight_timeouts now_ms deadline_ms policy row =
     (let states = map (\<lambda>(url, s). (url, sweep_inflight_state now_ms deadline_ms policy s)) (if_per_relay row);
          changed = list_ex (\<lambda>(_, s). sweep_inflight_state now_ms deadline_ms policy s \<noteq> s) (if_per_relay row) in
      row\<lparr>if_per_relay := states, if_dirty := if_dirty row \<or> changed\<rparr>)"

definition UNREACHABLE_REASON :: string where
  "UNREACHABLE_REASON = ''relay unreachable past the publish deadline''"

definition sweep_unavailable_state :: "u64 \<Rightarrow> u64 \<Rightarrow> (publish_relay \<times> u64 option) list \<Rightarrow> publish_relay \<Rightarrow> per_relay_state \<Rightarrow> per_relay_state" where
  "sweep_unavailable_state now_ms deadline_ms unavailable relay_url s =
     (if is_terminal s then s
      else case map_of unavailable relay_url of
        Some (Some since) \<Rightarrow> if deadline_ms \<le> now_ms - since then FailedAfterRetries UNREACHABLE_REASON now_ms else s
      | _ \<Rightarrow> s)"

definition sweep_unavailable_timeouts :: "u64 \<Rightarrow> u64 \<Rightarrow> (publish_relay \<times> u64 option) list \<Rightarrow> in_flight_row \<Rightarrow> in_flight_row" where
  "sweep_unavailable_timeouts now_ms deadline_ms unavailable row =
     (if \<not> has_any_accepted row then row
      else
        let states = map (\<lambda>(url, s). (url, sweep_unavailable_state now_ms deadline_ms unavailable url s)) (if_per_relay row);
            changed = list_ex (\<lambda>(url, s). sweep_unavailable_state now_ms deadline_ms unavailable url s \<noteq> s) (if_per_relay row) in
        row\<lparr>if_per_relay := states, if_dirty := if_dirty row \<or> changed\<rparr>)"

definition relay_deadline :: "in_flight_row \<Rightarrow> (publish_relay \<times> u64 option) list \<Rightarrow> u64 \<Rightarrow> retry_policy \<Rightarrow> publish_relay \<times> per_relay_state \<Rightarrow> u64 option" where
  "relay_deadline row unavailable now_ms policy slot =
     (let (relay_url, state) = slot in
      case map_of unavailable relay_url of
        Some since \<Rightarrow>
          if \<not> is_terminal state \<and> has_any_accepted row
          then map_option (\<lambda>t. saturating_add t (inflight_deadline_ms policy)) since else None
      | None \<Rightarrow>
          (case state of
             Pending \<Rightarrow> Some now_ms
           | InFlight sent _ \<Rightarrow> Some (saturating_add sent (inflight_deadline_ms policy))
           | RelayError _ _ _ \<Rightarrow> Some (unwrap_or now_ms (map_of (if_pending_retries row) relay_url))
           | TimedOut _ _ \<Rightarrow> Some (unwrap_or now_ms (map_of (if_pending_retries row) relay_url))
           | AckedOk _ \<Rightarrow> None
           | FailedAfterRetries _ _ \<Rightarrow> None))"

definition min_option :: "u64 option \<Rightarrow> u64 option \<Rightarrow> u64 option" where
  "min_option candidate next =
     (case candidate of None \<Rightarrow> next | Some c \<Rightarrow> Some (case next of None \<Rightarrow> c | Some current \<Rightarrow> min current c))"

definition row_next_deadline_ms :: "in_flight_row \<Rightarrow> (publish_relay \<times> u64 option) list \<Rightarrow> u64 \<Rightarrow> retry_policy \<Rightarrow> u64 option" where
  "row_next_deadline_ms row unavailable now_ms policy =
     fold (\<lambda>slot. min_option (relay_deadline row unavailable now_ms policy slot)) (if_per_relay row) None"

subsection \<open>Engine operations\<close>

definition record_terminal :: "last_terminal \<Rightarrow> publish_engine \<Rightarrow> publish_engine" where
  "record_terminal t e = e\<lparr>en_pending_terminals := en_pending_terminals e @ [t]\<rparr>"

definition take_pending_terminals :: "publish_engine \<Rightarrow> last_terminal list \<times> publish_engine" where
  "take_pending_terminals e = (en_pending_terminals e, e\<lparr>en_pending_terminals := []\<rparr>)"

definition status_of :: "publish_handle \<Rightarrow> in_flight_row \<Rightarrow> event_publish_status" where
  "status_of handle row =
     \<lparr>es_handle = handle, es_event_id = sv_id (if_event row), es_kind = sv_kind (if_event row),
      es_created_at = sv_created_at (if_event row), es_content = sv_content (if_event row),
      es_per_relay = if_per_relay row, es_relay_reasons = if_relay_reasons row\<rparr>"

definition flush_view :: "publish_engine \<Rightarrow> publish_engine" where
  "flush_view e =
     (let any_dirty = en_needs_in_flight_rebuild e \<or> list_ex (\<lambda>(_, row). if_dirty row) (en_in_flight e);
          rows = map (\<lambda>(handle, row). status_of handle row) (en_in_flight e);
          e = e\<lparr>en_needs_in_flight_rebuild := False,
                en_in_flight := hm_map_values (\<lambda>row. row\<lparr>if_dirty := False\<rparr>) (en_in_flight e)\<rparr>
      in if \<not> any_dirty then e else e\<lparr>en_view := bump_rev (replace_in_flight rows (en_view e))\<rparr>)"

definition emit_no_targets :: "publish_handle \<Rightarrow> signed_event \<Rightarrow> string option \<Rightarrow> u64 \<Rightarrow> publish_engine \<Rightarrow> publish_engine" where
  "emit_no_targets handle event correlation_id_override now_ms e =
     (let e = e\<lparr>en_view := push_failure \<lparr>rf_handle = handle, rf_event_id = sv_id event, rf_relay_url = ''(none)'',
                 rf_reason = Text ''no relays resolved for publish target'', rf_at_ms = now_ms\<rparr> (en_view e)\<rparr>;
          e = record_terminal \<lparr>lt_correlation_id = unwrap_or handle correlation_id_override, lt_status = StatusFailed,
                lt_error = Some ''no relays resolved for publish target'', lt_event_id = Some handle, lt_publish_queue = QueueNone\<rparr> e
      in e\<lparr>en_view := bump_rev (en_view e)\<rparr>)"

definition ENGINE_FAILURE_RELAY_URL :: publish_relay where
  "ENGINE_FAILURE_RELAY_URL = ''(engine)''"

definition engine_error_to_failure :: "publish_engine_error \<Rightarrow> publish_handle \<Rightarrow> string \<Rightarrow> u64 \<Rightarrow> recent_failure" where
  "engine_error_to_failure err handle event_id now_ms =
     \<lparr>rf_handle = handle, rf_event_id = event_id, rf_relay_url = ENGINE_FAILURE_RELAY_URL,
      rf_reason = (case err of
          DuplicateHandle h \<Rightarrow> Text (''duplicate publish handle: '' @ h)
        | NoTargets \<Rightarrow> Text ''no relays resolved for publish target''
        | StoreError store_err \<Rightarrow> StoreText ''publish store backend failure: '' store_err
        | UnsupportedAction detail \<Rightarrow> Text (''publish engine received an unsupported action: '' @ detail)),
      rf_at_ms = now_ms\<rparr>"

definition record_engine_error :: "publish_engine_error \<Rightarrow> publish_handle \<Rightarrow> string \<Rightarrow> u64 \<Rightarrow> publish_engine \<Rightarrow> publish_engine" where
  "record_engine_error err handle event_id now_ms e =
     e\<lparr>en_view := bump_rev (push_failure (engine_error_to_failure err handle event_id now_ms) (en_view e))\<rparr>"

definition record_of :: "publish_handle \<Rightarrow> in_flight_row \<Rightarrow> publish_record" where
  "record_of handle row =
     \<lparr>pr_handle = handle, pr_event = if_event row, pr_target = if_target row, pr_per_relay = if_per_relay row,
      pr_pending_retries = if_pending_retries row, pr_relay_reasons = if_relay_reasons row\<rparr>"

definition persist :: "publish_handle \<Rightarrow> publish_engine \<Rightarrow> publish_engine_error option \<times> publish_engine" where
  "persist handle e =
     (case map_of (en_in_flight e) handle of
        None \<Rightarrow> (None, e)
      | Some row \<Rightarrow>
          let (err, st) = store_upsert (record_of handle row) (en_store e)
          in (map_option StoreError err, e\<lparr>en_store := st\<rparr>))"

text \<open>The final step of a completed row, shared by \<open>on_ack\<close> and \<open>finalize_completed_rows\<close> up to what
  they do with the error of the store.\<close>

definition settle_row :: "publish_handle \<Rightarrow> in_flight_row \<Rightarrow> u64 \<Rightarrow> publish_engine \<Rightarrow> publish_store_error option \<times> publish_engine" where
  "settle_row handle row now_ms e =
     (let e = e\<lparr>en_view := for_each_terminal row handle now_ms (en_view e)\<rparr>;
          e = record_terminal (from_outcome handle (if_correlation_id_override row) (terminal_outcome_of row)) e;
          (err, st) = store_delete handle (en_store e)
      in (err, e\<lparr>en_store := st\<rparr>))"

definition finalize_row :: "u64 \<Rightarrow> publish_handle \<Rightarrow> publish_engine \<Rightarrow> publish_engine" where
  "finalize_row now_ms handle e =
     (case map_of (en_in_flight e) handle of
        None \<Rightarrow> e
      | Some row \<Rightarrow>
          if \<not> is_complete row then e
          else
            let (_, e) = settle_row handle row now_ms e
            in e\<lparr>en_in_flight := hm_remove handle (en_in_flight e), en_needs_in_flight_rebuild := True\<rparr>)"

definition finalize_completed_rows :: "publish_handle list \<Rightarrow> u64 \<Rightarrow> publish_engine \<Rightarrow> publish_engine" where
  "finalize_completed_rows handles now_ms e = fold (finalize_row now_ms) handles e"

text \<open>Put an in-flight relay back to pending, in every row; the handles of the rows that changed.\<close>

definition demote_row :: "publish_relay \<Rightarrow> in_flight_row \<Rightarrow> in_flight_row option" where
  "demote_row relay_url row =
     (case map_of (if_per_relay row) relay_url of
        Some (InFlight _ _) \<Rightarrow>
          Some (row\<lparr>if_per_relay := bm_insert relay_url Pending (if_per_relay row),
                    if_pending_retries := hm_remove relay_url (if_pending_retries row), if_dirty := True\<rparr>)
      | _ \<Rightarrow> None)"

fun persist_all :: "publish_handle list \<Rightarrow> publish_engine \<Rightarrow> publish_engine_error option \<times> publish_engine" where
  "persist_all [] e = (None, e)"
| "persist_all (h # hs) e =
     (case persist h e of
        (Some err, e) \<Rightarrow> (Some err, e)
      | (None, e) \<Rightarrow> persist_all hs e)"

definition demote_inflight_to_pending :: "publish_relay \<Rightarrow> publish_engine \<Rightarrow> publish_engine_error option \<times> publish_engine" where
  "demote_inflight_to_pending relay_url e =
     (let changed = map fst (filter (\<lambda>(_, row). demote_row relay_url row \<noteq> None) (en_in_flight e));
          rows = hm_map_values (\<lambda>row. unwrap_or row (demote_row relay_url row)) (en_in_flight e)
      in persist_all changed (e\<lparr>en_in_flight := rows\<rparr>))"

definition mark_relay_unavailable :: "publish_relay \<Rightarrow> u64 \<Rightarrow> publish_engine \<Rightarrow> publish_engine_error option \<times> publish_engine" where
  "mark_relay_unavailable raw now_ms e =
     (let relay_url = canonical_relay_identity raw;
          unavailable = (case map_of (en_unavailable_relays e) relay_url of
             Some (Some _) \<Rightarrow> en_unavailable_relays e
           | _ \<Rightarrow> bm_insert relay_url (Some now_ms) (en_unavailable_relays e))
      in case demote_inflight_to_pending relay_url (e\<lparr>en_unavailable_relays := unavailable\<rparr>) of
           (Some err, e) \<Rightarrow> (Some err, e)
         | (None, e) \<Rightarrow> (None, flush_view e))"

definition park_relay_awaiting_auth :: "publish_relay \<Rightarrow> publish_engine \<Rightarrow> publish_engine_error option \<times> publish_engine" where
  "park_relay_awaiting_auth raw e =
     (let relay_url = canonical_relay_identity raw;
          unavailable = (if hm_contains relay_url (en_unavailable_relays e) then en_unavailable_relays e
                         else bm_insert relay_url None (en_unavailable_relays e))
      in case demote_inflight_to_pending relay_url (e\<lparr>en_unavailable_relays := unavailable\<rparr>) of
           (Some err, e) \<Rightarrow> (Some err, e)
         | (None, e) \<Rightarrow> (None, flush_view e))"

definition on_ack :: "publish_handle \<Rightarrow> relay_ack \<Rightarrow> u64 \<Rightarrow> publish_engine \<Rightarrow> publish_engine" where
  "on_ack handle ack now_ms e =
     (case map_of (en_in_flight e) handle of
        None \<Rightarrow> e
      | Some row \<Rightarrow>
          let relay_url = canonical_relay_identity (ack_relay_url ack) in
          case map_of (if_per_relay row) relay_url of
            None \<Rightarrow> e
          | Some state \<Rightarrow>
              let (row, park_awaiting_auth) = apply_verdict row relay_url (apply_ack state ack (en_policy e) now_ms) now_ms;
                  e = e\<lparr>en_in_flight := hm_insert handle row (en_in_flight e)\<rparr>
              in if park_awaiting_auth then
                   (case park_relay_awaiting_auth relay_url e of
                      (Some err, e) \<Rightarrow> flush_view (record_engine_error err handle [] now_ms e)
                    | (None, e) \<Rightarrow> flush_view e)
                 else if is_complete row then
                   (let (err, e) = settle_row handle row now_ms e;
                        e = (case err of
                               None \<Rightarrow> e
                             | Some se \<Rightarrow> e\<lparr>en_view := push_failure \<lparr>rf_handle = handle, rf_event_id = sv_id (if_event row),
                                   rf_relay_url = ''(store)'', rf_reason = StoreText ''store delete failed: '' se, rf_at_ms = now_ms\<rparr> (en_view e)\<rparr>)
                    in flush_view (e\<lparr>en_in_flight := hm_remove handle (en_in_flight e), en_needs_in_flight_rebuild := True\<rparr>))
                 else
                   (case persist handle e of
                      (Some (StoreError se), e) \<Rightarrow>
                        flush_view (e\<lparr>en_view := push_failure \<lparr>rf_handle = handle, rf_event_id = sv_id (if_event row),
                          rf_relay_url = ''(store)'', rf_reason = StoreText ''store upsert failed: '' se, rf_at_ms = now_ms\<rparr> (en_view e)\<rparr>)
                    | (_, e) \<Rightarrow> flush_view e))"

definition dispatch_pending_matching :: "publish_relay option \<Rightarrow> u64 \<Rightarrow> publish_handle \<Rightarrow> publish_engine \<Rightarrow> publish_engine" where
  "dispatch_pending_matching relay_filter now_ms handle e =
     (case map_of (en_in_flight e) handle of
        None \<Rightarrow> e
      | Some row \<Rightarrow>
          let (row, acks, queued) = dispatch_due (en_registry e) now_ms relay_filter (en_unavailable_relays e) row (en_queued e);
              e = e\<lparr>en_in_flight := hm_insert handle row (en_in_flight e), en_queued := queued\<rparr>
          in fold (\<lambda>ack. on_ack handle ack now_ms) acks e)"

definition dispatch_pending :: "u64 \<Rightarrow> publish_handle \<Rightarrow> publish_engine \<Rightarrow> publish_engine" where
  "dispatch_pending now_ms handle e = dispatch_pending_matching None now_ms handle e"

definition dispatch_pending_for_relay :: "publish_relay \<Rightarrow> u64 \<Rightarrow> publish_handle \<Rightarrow> publish_engine \<Rightarrow> publish_engine" where
  "dispatch_pending_for_relay relay_url now_ms handle e = dispatch_pending_matching (Some relay_url) now_ms handle e"

text \<open>The relays of a resolution by canonical URL, each with its distinct reasons.\<close>

definition add_reason :: "relay_selection_reason \<Rightarrow> relay_selection_reason list \<Rightarrow> relay_selection_reason list" where
  "add_reason reason bucket = (if reason \<in> set bucket then bucket else bucket @ [reason])"

definition relay_map_of :: "(publish_relay \<Rightarrow> bool) \<Rightarrow> resolved_relay list \<Rightarrow> relay_reasons" where
  "relay_map_of known resolved =
     fold (\<lambda>r m. let canonical = canonical_relay_identity (rr_url r) in
             if known canonical then m else bm_entry [] canonical (add_reason (rr_reason r)) m) resolved []"

definition resolve_row :: "signed_event \<Rightarrow> publish_target \<Rightarrow> publish_engine \<Rightarrow> resolved_relay list" where
  "resolve_row event target e =
     en_outbox e (sv_pubkey event) (collect_p_tags event) target (sv_kind event) (en_blocked_relays e (sv_pubkey event))"

definition start_publish_inner ::
  "publish_handle \<Rightarrow> signed_event \<Rightarrow> publish_target \<Rightarrow> string option \<Rightarrow> u64 \<Rightarrow> publish_engine \<Rightarrow> publish_engine_error option \<times> publish_engine" where
  "start_publish_inner handle event target correlation_id_override now_ms e =
     (if hm_contains handle (en_in_flight e) then (Some (DuplicateHandle handle), e)
      else
        let relay_map = relay_map_of (\<lambda>_. False) (resolve_row event target e) in
        if relay_map = [] then (Some NoTargets, emit_no_targets handle event correlation_id_override now_ms e)
        else
          let row = \<lparr>if_event = event, if_target = target, if_per_relay = map (\<lambda>(url, _). (url, Pending)) relay_map,
                     if_relay_reasons = relay_map, if_pending_retries = [], if_dirty = True,
                     if_correlation_id_override = correlation_id_override\<rparr> in
          case persist handle (e\<lparr>en_in_flight := hm_insert handle row (en_in_flight e)\<rparr>) of
            (Some err, e) \<Rightarrow> (Some err, e)
          | (None, e) \<Rightarrow> (None, flush_view (finalize_completed_rows [handle] now_ms (dispatch_pending now_ms handle e))))"

definition start_publish :: "publish_action \<Rightarrow> u64 \<Rightarrow> string option \<Rightarrow> publish_engine \<Rightarrow> publish_engine_error option \<times> publish_engine" where
  "start_publish action now_ms correlation_id_override e =
     (case action of
        Publish handle event target \<Rightarrow> start_publish_inner handle event target correlation_id_override now_ms e
      | PublishProfile _ \<Rightarrow> (Some (UnsupportedAction ''PublishProfile is published via ActorCommand::PublishProfile, not the publish engine''), e)
      | PublishRaw _ _ _ _ _ \<Rightarrow> (Some (UnsupportedAction ''PublishRaw is published via ActorCommand::PublishRawEvent, not the publish engine''), e)
      | PublishReply _ _ _ _ \<Rightarrow> (Some (UnsupportedAction ''PublishReply is published via ActorCommand::PublishReply, not the publish engine''), e))"

definition sweep_row :: "u64 \<Rightarrow> publish_engine \<Rightarrow> in_flight_row \<Rightarrow> in_flight_row" where
  "sweep_row now_ms e row =
     sweep_unavailable_timeouts now_ms (inflight_deadline_ms (en_policy e)) (en_unavailable_relays e)
       (sweep_inflight_timeouts now_ms (inflight_deadline_ms (en_policy e)) (en_policy e) row)"

definition tick :: "u64 \<Rightarrow> publish_engine \<Rightarrow> publish_engine" where
  "tick now_ms e =
     (let handles = map fst (en_in_flight e);
          e = e\<lparr>en_in_flight := hm_map_values (sweep_row now_ms e) (en_in_flight e)\<rparr>;
          e = fold (dispatch_pending now_ms) handles e
      in flush_view (finalize_completed_rows handles now_ms e))"

definition next_deadline_ms :: "publish_engine \<Rightarrow> u64 \<Rightarrow> u64 option" where
  "next_deadline_ms e now_ms =
     fold (\<lambda>(_, row). min_option (row_next_deadline_ms row (en_unavailable_relays e) now_ms (en_policy e))) (en_in_flight e) None"

definition has_active_relay :: "publish_relay \<Rightarrow> publish_engine \<Rightarrow> bool" where
  "has_active_relay raw e =
     (let key = canonical_relay_identity raw in
      list_ex (\<lambda>(_, row). hm_contains key (if_per_relay row) \<or> hm_contains key (if_pending_retries row)) (en_in_flight e))"

definition per_relay_of :: "publish_handle \<Rightarrow> publish_engine \<Rightarrow> relay_states" where
  "per_relay_of handle e = (case map_of (en_in_flight e) handle of Some row \<Rightarrow> if_per_relay row | None \<Rightarrow> [])"

definition cancel_by_handle :: "publish_handle \<Rightarrow> string \<Rightarrow> publish_engine \<Rightarrow> publish_engine" where
  "cancel_by_handle handle correlation_id e =
     (let e = (if hm_contains handle (en_in_flight e)
               then e\<lparr>en_in_flight := hm_remove handle (en_in_flight e), en_needs_in_flight_rebuild := True\<rparr> else e);
          e = record_terminal \<lparr>lt_correlation_id = correlation_id, lt_status = StatusCancelled, lt_error = None,
                lt_event_id = Some handle, lt_publish_queue = QueueCancelled handle\<rparr> e;
          (_, st) = store_delete handle (en_store e)
      in flush_view (e\<lparr>en_store := st\<rparr>))"

definition canonical_map :: "(publish_relay \<times> 'v) list \<Rightarrow> (publish_relay \<times> 'v) list" where
  "canonical_map kvs = fold (\<lambda>(url, v). bm_insert (canonical_relay_identity url) v) kvs []"

definition row_of_record :: "publish_record \<Rightarrow> in_flight_row" where
  "row_of_record r =
     \<lparr>if_event = pr_event r, if_target = pr_target r, if_per_relay = canonical_map (pr_per_relay r),
      if_relay_reasons = canonical_map (pr_relay_reasons r), if_pending_retries = canonical_map (pr_pending_retries r),
      if_dirty = True, if_correlation_id_override = None\<rparr>"

definition resume_record :: "u64 \<Rightarrow> publish_record \<Rightarrow> publish_engine \<Rightarrow> publish_engine" where
  "resume_record now_ms r e =
     (let e = e\<lparr>en_in_flight := hm_insert (pr_handle r) (row_of_record r) (en_in_flight e)\<rparr>;
          e = dispatch_pending now_ms (pr_handle r) e
      in finalize_completed_rows [pr_handle r] now_ms e)"

definition resume_from_store :: "u64 \<Rightarrow> publish_engine \<Rightarrow> publish_engine_error option \<times> publish_engine" where
  "resume_from_store now_ms e =
     (case load_pending (en_store e) of
        Inl err \<Rightarrow> (Some (StoreError err), e)
      | Inr records \<Rightarrow> (None, flush_view (fold (resume_record now_ms) records e)))"

text \<open>Re-resolve a row and add the relays it did not know.\<close>

definition retarget_row :: "publish_handle \<Rightarrow> publish_engine \<Rightarrow> publish_engine" where
  "retarget_row handle e =
     (case map_of (en_in_flight e) handle of
        None \<Rightarrow> e
      | Some row \<Rightarrow>
          if is_complete row then e
          else
            let new_relays = relay_map_of (\<lambda>url. hm_contains url (if_per_relay row)) (resolve_row (if_event row) (if_target row) e) in
            if new_relays = [] then e
            else
              let row = row\<lparr>if_per_relay := fold (\<lambda>(url, _). bm_insert url Pending) new_relays (if_per_relay row),
                            if_relay_reasons := fold (\<lambda>(url, reasons). bm_insert url reasons) new_relays (if_relay_reasons row),
                            if_dirty := True\<rparr>
              in snd (persist handle (e\<lparr>en_in_flight := hm_insert handle row (en_in_flight e)\<rparr>)))"

definition mark_relay_available :: "publish_relay \<Rightarrow> u64 \<Rightarrow> publish_engine \<Rightarrow> publish_engine" where
  "mark_relay_available raw now_ms e =
     (let relay_url = canonical_relay_identity raw;
          e = e\<lparr>en_unavailable_relays := hm_remove relay_url (en_unavailable_relays e)\<rparr>;
          handles = map fst (en_in_flight e);
          e = fold (\<lambda>handle e. dispatch_pending_for_relay relay_url now_ms handle (retarget_row handle e)) handles e
      in flush_view (finalize_completed_rows handles now_ms e))"

definition retry_now :: "publish_handle \<Rightarrow> u64 \<Rightarrow> publish_engine \<Rightarrow> publish_engine_error option \<times> publish_engine" where
  "retry_now handle now_ms e =
     (case map_of (en_in_flight e) handle of
        None \<Rightarrow> (Some (StoreError NotFound), e)
      | Some row \<Rightarrow>
          let live = map fst (filter (\<lambda>(_, s). \<not> is_terminal s) (if_per_relay row));
              row = row\<lparr>if_pending_retries := fold hm_remove live (if_pending_retries row), if_dirty := True\<rparr>
          in case persist handle (e\<lparr>en_in_flight := hm_insert handle row (en_in_flight e)\<rparr>) of
               (Some err, e) \<Rightarrow> (Some err, e)
             | (None, e) \<Rightarrow> (None, flush_view (finalize_completed_rows [handle] now_ms (dispatch_pending now_ms handle e))))"

end
