(* ===== verification/Publish_Rows.thy ===== *)
theory Publish_Rows
  imports Publish_Engine
begin

text \<open>
  The row operations of the publish engine in closed form: dispatching and sweeping act on each relay of
  a row on its own, so the loops of the source are maps over the states.
\<close>

section \<open>Updating a map in place\<close>

lemma bm_insert_mid:
  "bm_wf (pre @ (k, w) # rest) \<Longrightarrow> bm_insert k v (pre @ (k, w) # rest) = pre @ (k, v) # rest"
  by (induction pre) (auto simp: sorted_wrt_append)

lemma bm_insert_update:
  assumes "bm_wf m" "map_of m k = Some w"
  shows "bm_insert k v m = map (\<lambda>(k', w'). (k', if k' = k then v else w')) m"
proof -
  obtain pre rest where m: "m = pre @ (k, w) # rest" using map_of_SomeD [OF assms(2)] by (metis split_list)
  have "k \<notin> fst ` set pre" "k \<notin> fst ` set rest" using bm_wf_distinct [OF assms(1)] by (auto simp: m)
  then have "map (\<lambda>(k', w'). (k', if k' = k then v else w')) pre = pre" "map (\<lambda>(k', w'). (k', if k' = k then v else w')) rest = rest"
    by (intro map_idI; force)+
  then show ?thesis using bm_insert_mid [of pre k w rest v] assms(1) by (simp add: m)
qed

lemma bm_wf_map_values [simp]: "bm_wf (map (\<lambda>(k, v). (k, f k v)) m) = bm_wf m"
  by (simp add: comp_def split_def)

lemma fst_map_values [simp]: "map fst (map (\<lambda>(k, v). (k, f k v)) m) = map fst m"
  by (simp add: comp_def split_def)

lemma map_of_values: "map_of (map (\<lambda>(k, v). (k, f k v)) m) k = map_option (f k) (map_of m k)"
  by (induction m) auto

lemma map_of_filter_key: "map_of (filter (\<lambda>(k', _). k' \<notin> S) m) k = (if k \<in> S then None else map_of m k)"
  by (induction m) auto

lemma hm_remove_filter: "hm_remove k m = filter (\<lambda>(k', _). k' \<noteq> k) m"
  by (simp add: AList.delete_eq) (rule filter_cong, auto)

section \<open>Dispatch\<close>

definition fires ::
  "publish_policy_registry \<Rightarrow> u64 \<Rightarrow> publish_relay option \<Rightarrow> (publish_relay \<times> u64 option) list \<Rightarrow> in_flight_row \<Rightarrow>
   publish_relay \<Rightarrow> per_relay_state \<Rightarrow> bool" where
  "fires reg now_ms flt unavailable row url s \<longleftrightarrow>
     dispatch_ready row now_ms flt unavailable url s \<and>
     relay_emit_is_sanctioned reg (sv_kind (if_event row)) (unwrap_or [] (map_of (if_relay_reasons row) url))"

definition dispatched ::
  "publish_policy_registry \<Rightarrow> u64 \<Rightarrow> publish_relay option \<Rightarrow> (publish_relay \<times> u64 option) list \<Rightarrow> in_flight_row \<Rightarrow>
   publish_relay \<Rightarrow> per_relay_state \<Rightarrow> per_relay_state" where
  "dispatched reg now_ms flt unavailable row url s =
     (if \<not> dispatch_ready row now_ms flt unavailable url s then s
      else if fires reg now_ms flt unavailable row url s then InFlight now_ms (max (state_attempt s + 1) 1)
      else FailedAfterRetries D10_REFUSAL now_ms)"

text \<open>The row and the queue after a dispatch.\<close>

definition dispatched_row ::
  "publish_policy_registry \<Rightarrow> u64 \<Rightarrow> publish_relay option \<Rightarrow> (publish_relay \<times> u64 option) list \<Rightarrow> in_flight_row \<Rightarrow> in_flight_row" where
  "dispatched_row reg now_ms flt unavailable row =
     (let touched = map fst (filter (\<lambda>(url, s). dispatch_ready row now_ms flt unavailable url s) (if_per_relay row)) in
      row\<lparr>if_per_relay := map (\<lambda>(url, s). (url, dispatched reg now_ms flt unavailable row url s)) (if_per_relay row),
          if_pending_retries := filter (\<lambda>(url, _). url \<notin> set touched) (if_pending_retries row),
          if_dirty := if_dirty row \<or> touched \<noteq> []\<rparr>)"

definition dispatched_frames ::
  "publish_policy_registry \<Rightarrow> u64 \<Rightarrow> publish_relay option \<Rightarrow> (publish_relay \<times> u64 option) list \<Rightarrow> in_flight_row \<Rightarrow> (publish_relay \<times> frame) list" where
  "dispatched_frames reg now_ms flt unavailable row =
     map (\<lambda>(url, _). (url, EventFrame (if_event row)))
       (filter (\<lambda>(url, s). fires reg now_ms flt unavailable row url s) (if_per_relay row))"

lemma dispatch_ready_local:
  assumes "map_of (if_pending_retries row') url = map_of (if_pending_retries row) url"
  shows "dispatch_ready row' now_ms flt unavailable url s = dispatch_ready row now_ms flt unavailable url s"
  using assms by (simp add: dispatch_ready_def split: per_relay_state.split)

text \<open>The loop after the prefix \<open>pre\<close>.\<close>

definition mid_row ::
  "publish_policy_registry \<Rightarrow> u64 \<Rightarrow> publish_relay option \<Rightarrow> (publish_relay \<times> u64 option) list \<Rightarrow> in_flight_row \<Rightarrow>
   relay_states \<Rightarrow> relay_states \<Rightarrow> in_flight_row" where
  "mid_row reg now_ms flt unavailable row pre suf =
     (let touched = map fst (filter (\<lambda>(url, s). dispatch_ready row now_ms flt unavailable url s) pre) in
      row\<lparr>if_per_relay := map (\<lambda>(url, s). (url, dispatched reg now_ms flt unavailable row url s)) pre @ suf,
          if_pending_retries := filter (\<lambda>(url, _). url \<notin> set touched) (if_pending_retries row),
          if_dirty := if_dirty row \<or> touched \<noteq> []\<rparr>)"

lemma dispatch_relay_mid:
  assumes wf: "bm_wf (pre @ (url, s) # suf)"
  shows "dispatch_relay reg now_ms flt unavailable (url, s) (mid_row reg now_ms flt unavailable row pre ((url, s) # suf), acks, queued) =
    (mid_row reg now_ms flt unavailable row (pre @ [(url, s)]) suf, acks,
     queued @ (if fires reg now_ms flt unavailable row url s then [(url, EventFrame (if_event row))] else []))"
proof -
  let ?row = "mid_row reg now_ms flt unavailable row pre ((url, s) # suf)"
  let ?d = "\<lambda>(url, s). (url, dispatched reg now_ms flt unavailable row url s)"
  have fresh: "url \<notin> fst ` set pre" using bm_wf_distinct [OF wf] by auto
  then have "map_of (if_pending_retries ?row) url = map_of (if_pending_retries row) url"
    by (auto simp: mid_row_def Let_def map_of_filter_key)
  then have ready: "dispatch_ready ?row now_ms flt unavailable url s = dispatch_ready row now_ms flt unavailable url s"
    by (rule dispatch_ready_local)
  have fields: "if_event ?row = if_event row" "if_relay_reasons ?row = if_relay_reasons row" by (simp_all add: mid_row_def Let_def)
  have put: "bm_insert url v (map ?d pre @ (url, s) # suf) = map ?d pre @ (url, v) # suf" for v
    using wf by (intro bm_insert_mid) (simp add: comp_def split_def)
  have gone: "hm_remove url (filter (\<lambda>(k, _). k \<notin> S) m) = filter (\<lambda>(k, _). k \<notin> insert url S) m" for S and m :: "(publish_relay \<times> u64) list"
    by (simp add: hm_remove_filter split_def) (rule filter_cong, auto)
  let ?ok = "relay_emit_is_sanctioned reg (sv_kind (if_event row)) (unwrap_or [] (map_of (if_relay_reasons row) url))"
  show ?thesis
  proof (cases "dispatch_ready row now_ms flt unavailable url s")
    case False
    then have "dispatched reg now_ms flt unavailable row url s = s" "\<not> fires reg now_ms flt unavailable row url s"
      by (simp_all add: dispatched_def fires_def)
    with False show ?thesis by (simp add: dispatch_relay_def ready) (simp add: mid_row_def Let_def)
  next
    case True
    then have "dispatched reg now_ms flt unavailable row url s =
        (if ?ok then InFlight now_ms (max (state_attempt s + 1) 1) else FailedAfterRetries D10_REFUSAL now_ms)"
      "fires reg now_ms flt unavailable row url s = ?ok"
      by (simp_all add: dispatched_def fires_def)
    with True show ?thesis
      by (simp add: dispatch_relay_def ready fields build_event_frame_def dispatch_frame_def)
        (simp add: mid_row_def Let_def put gone)
  qed
qed

lemma dispatch_due_exact:
  assumes wf: "bm_wf (if_per_relay row)"
  shows "dispatch_due reg now_ms flt unavailable row queued =
    (dispatched_row reg now_ms flt unavailable row, [], queued @ dispatched_frames reg now_ms flt unavailable row)"
proof -
  have go: "fold (dispatch_relay reg now_ms flt unavailable) suf (mid_row reg now_ms flt unavailable row pre suf, [], q) =
      (mid_row reg now_ms flt unavailable row (pre @ suf) [], [],
       q @ map (\<lambda>(url, _). (url, EventFrame (if_event row))) (filter (\<lambda>(url, s). fires reg now_ms flt unavailable row url s) suf))"
    if "bm_wf (pre @ suf)" for pre suf q
    using that
  proof (induction suf arbitrary: pre q)
    case (Cons slot suf)
    obtain url s where [simp]: "slot = (url, s)" by (cases slot)
    show ?case using Cons.prems Cons.IH [of "pre @ [slot]"] by (simp add: dispatch_relay_mid)
  qed simp
  have "mid_row reg now_ms flt unavailable row [] (if_per_relay row) = row" by (simp add: mid_row_def)
  then show ?thesis using go [of "[]" "if_per_relay row" queued] wf
    by (simp add: dispatch_due_def dispatched_frames_def) (simp add: mid_row_def dispatched_row_def)
qed

end
