(* ===== verification/Publish_Inv.thy ===== *)
theory Publish_Inv
  imports Publish_Rows
begin

text \<open>
  The operations of the publish engine as one step function, and the contract by which a predicate on
  rows becomes an invariant of the engine: a client states what holds of a row, of a stored record and of
  a queued frame, shows that the row operations keep it, and the locale \<open>publish_rows\<close> carries it through
  every operation of the engine.
\<close>

section \<open>Operations\<close>

datatype publish_op =
    StartPublish publish_action u64 "string option"
  | Tick u64
  | OnAck publish_handle relay_ack u64
  | RelayUnavailable publish_relay u64
  | RelayAwaitingAuth publish_relay
  | RelayAvailable publish_relay u64
  | CancelByHandle publish_handle string
  | RetryNow publish_handle u64
  | ResumeFromStore u64
  | SetOutbox outbox_resolver
  | SetBlockedRelayLookup "string \<Rightarrow> publish_relay list"
  | DrainFrames
  | TakePendingTerminals
  | StoreHealth "publish_store_error option"
  | Restart outbox_resolver

text \<open>\<open>StoreHealth\<close> is the environment: the backend starts or stops failing. \<open>Restart\<close> loses everything but
  the store.\<close>

definition publish_step :: "publish_op \<Rightarrow> publish_engine \<Rightarrow> publish_engine" where
  "publish_step op e =
     (case op of
        StartPublish action now_ms correlation \<Rightarrow> snd (start_publish action now_ms correlation e)
      | Tick now_ms \<Rightarrow> tick now_ms e
      | OnAck handle ack now_ms \<Rightarrow> on_ack handle ack now_ms e
      | RelayUnavailable url now_ms \<Rightarrow> snd (mark_relay_unavailable url now_ms e)
      | RelayAwaitingAuth url \<Rightarrow> snd (park_relay_awaiting_auth url e)
      | RelayAvailable url now_ms \<Rightarrow> mark_relay_available url now_ms e
      | CancelByHandle handle correlation \<Rightarrow> cancel_by_handle handle correlation e
      | RetryNow handle now_ms \<Rightarrow> snd (retry_now handle now_ms e)
      | ResumeFromStore now_ms \<Rightarrow> snd (resume_from_store now_ms e)
      | SetOutbox outbox \<Rightarrow> set_outbox outbox e
      | SetBlockedRelayLookup lookup \<Rightarrow> set_blocked_relay_lookup lookup e
      | DrainFrames \<Rightarrow> snd (drain_frames e)
      | TakePendingTerminals \<Rightarrow> snd (take_pending_terminals e)
      | StoreHealth health \<Rightarrow> e\<lparr>en_store := (en_store e)\<lparr>ps_failing := health\<rparr>\<rparr>
      | Restart outbox \<Rightarrow> engine_new outbox (en_store e) (en_policy e) (en_registry e))"

definition publish_run :: "publish_op list \<Rightarrow> publish_engine \<Rightarrow> publish_engine" where
  "publish_run ops e = fold publish_step ops e"

section \<open>The parts of the engine an operation leaves alone\<close>

lemma set_hm_insert: "set (hm_insert k v m) \<subseteq> insert (k, v) (set m)"
  by (induction m) auto

lemma set_hm_remove: "set (hm_remove k m) \<subseteq> set m"
  by (auto simp: hm_remove_filter)

lemma set_bm_insert: "set (bm_insert k v m) \<subseteq> insert (k, v) (set m)"
  by (induction k v m rule: bm_insert.induct) auto

named_theorems engine_simps \<open>fields of the engine after an auxiliary operation\<close>

lemma record_terminal_fields [engine_simps, simp]:
  "en_in_flight (record_terminal t e) = en_in_flight e" "en_store (record_terminal t e) = en_store e"
  "en_queued (record_terminal t e) = en_queued e" "en_policy (record_terminal t e) = en_policy e"
  "en_registry (record_terminal t e) = en_registry e" "en_outbox (record_terminal t e) = en_outbox e"
  "en_unavailable_relays (record_terminal t e) = en_unavailable_relays e"
  "en_pending_terminals (record_terminal t e) = en_pending_terminals e @ [t]"
  by (simp_all add: record_terminal_def)

lemma flush_view_fields [engine_simps, simp]:
  "en_in_flight (flush_view e) = hm_map_values (\<lambda>row. row\<lparr>if_dirty := False\<rparr>) (en_in_flight e)"
  "en_store (flush_view e) = en_store e"
  "en_queued (flush_view e) = en_queued e" "en_policy (flush_view e) = en_policy e"
  "en_registry (flush_view e) = en_registry e" "en_outbox (flush_view e) = en_outbox e"
  "en_unavailable_relays (flush_view e) = en_unavailable_relays e"
  "en_pending_terminals (flush_view e) = en_pending_terminals e"
  by (simp_all add: flush_view_def Let_def)

lemma record_engine_error_fields [engine_simps, simp]:
  "en_in_flight (record_engine_error err h i now_ms e) = en_in_flight e" "en_store (record_engine_error err h i now_ms e) = en_store e"
  "en_queued (record_engine_error err h i now_ms e) = en_queued e" "en_policy (record_engine_error err h i now_ms e) = en_policy e"
  "en_registry (record_engine_error err h i now_ms e) = en_registry e" "en_outbox (record_engine_error err h i now_ms e) = en_outbox e"
  "en_unavailable_relays (record_engine_error err h i now_ms e) = en_unavailable_relays e"
  "en_pending_terminals (record_engine_error err h i now_ms e) = en_pending_terminals e"
  by (simp_all add: record_engine_error_def)

lemma emit_no_targets_fields [engine_simps, simp]:
  "en_in_flight (emit_no_targets h ev c now_ms e) = en_in_flight e" "en_store (emit_no_targets h ev c now_ms e) = en_store e"
  "en_queued (emit_no_targets h ev c now_ms e) = en_queued e" "en_policy (emit_no_targets h ev c now_ms e) = en_policy e"
  "en_registry (emit_no_targets h ev c now_ms e) = en_registry e" "en_outbox (emit_no_targets h ev c now_ms e) = en_outbox e"
  "en_unavailable_relays (emit_no_targets h ev c now_ms e) = en_unavailable_relays e"
  by (simp_all add: emit_no_targets_def Let_def)

lemma persist_fields [engine_simps, simp]:
  "en_in_flight (snd (persist h e)) = en_in_flight e"
  "en_queued (snd (persist h e)) = en_queued e" "en_policy (snd (persist h e)) = en_policy e"
  "en_registry (snd (persist h e)) = en_registry e" "en_outbox (snd (persist h e)) = en_outbox e"
  "en_unavailable_relays (snd (persist h e)) = en_unavailable_relays e"
  "en_pending_terminals (snd (persist h e)) = en_pending_terminals e"
  by (simp_all add: persist_def Let_def split: option.split prod.split)

lemma store_upsert_fields [simp]:
  "ps_failing (snd (store_upsert r st)) = ps_failing st"
  "ps_rows (snd (store_upsert r st)) = (if ps_failing st = None then hm_insert (pr_handle r) r (ps_rows st) else ps_rows st)"
  "fst (store_upsert r st) = ps_failing st"
  by (simp_all add: store_upsert_def split: option.split)

lemma store_delete_fields [simp]:
  "ps_failing (snd (store_delete h st)) = ps_failing st"
  "ps_rows (snd (store_delete h st)) = (if ps_failing st = None then hm_remove h (ps_rows st) else ps_rows st)"
  "fst (store_delete h st) = ps_failing st"
  by (simp_all add: store_delete_def split: option.split)

lemma persist_store:
  "en_store (snd (persist h e)) =
     (case map_of (en_in_flight e) h of None \<Rightarrow> en_store e | Some row \<Rightarrow> snd (store_upsert (record_of h row) (en_store e)))"
  "fst (persist h e) =
     (case map_of (en_in_flight e) h of None \<Rightarrow> None | Some row \<Rightarrow> map_option StoreError (ps_failing (en_store e)))"
  by (simp_all add: persist_def Let_def split_beta split: option.split)

lemma settle_row_fields [engine_simps, simp]:
  "en_in_flight (snd (settle_row h row now_ms e)) = en_in_flight e"
  "en_store (snd (settle_row h row now_ms e)) = snd (store_delete h (en_store e))"
  "en_queued (snd (settle_row h row now_ms e)) = en_queued e" "en_policy (snd (settle_row h row now_ms e)) = en_policy e"
  "en_registry (snd (settle_row h row now_ms e)) = en_registry e" "en_outbox (snd (settle_row h row now_ms e)) = en_outbox e"
  "en_unavailable_relays (snd (settle_row h row now_ms e)) = en_unavailable_relays e"
  "en_pending_terminals (snd (settle_row h row now_ms e)) =
     en_pending_terminals e @ [from_outcome h (if_correlation_id_override row) (terminal_outcome_of row)]"
  by (simp_all add: settle_row_def Let_def split_beta)

lemma record_of_fields [simp]:
  "pr_handle (record_of h row) = h" "pr_event (record_of h row) = if_event row" "pr_target (record_of h row) = if_target row"
  "pr_per_relay (record_of h row) = if_per_relay row" "pr_relay_reasons (record_of h row) = if_relay_reasons row"
  "pr_pending_retries (record_of h row) = if_pending_retries row"
  by (simp_all add: record_of_def)

text \<open>An early return on the error of a previous step.\<close>

lemma snd_bail [simp]:
  "snd (case r of (Some err, e) \<Rightarrow> (Some err, e) | (None, e) \<Rightarrow> (None, f e)) = (if fst r = None then f (snd r) else snd r)"
  "fst (case r of (Some err, e) \<Rightarrow> (Some err, e) | (None, e) \<Rightarrow> (None, f e)) = fst r"
  by (auto split: prod.split option.split)

lemma persist_all_Cons [simp]:
  "persist_all (h # hs) e = (if fst (persist h e) = None then persist_all hs (snd (persist h e)) else persist h e)"
  by (auto split: prod.split option.split)

declare persist_all.simps(2) [simp del]

text \<open>The engine without what it reports: the rows, the store, the queue and the parameters.\<close>

definition core :: "publish_engine \<Rightarrow> publish_engine" where
  "core e = e\<lparr>en_view := status_state_new 0 0, en_pending_terminals := [], en_needs_in_flight_rebuild := False\<rparr>"

lemma core_fields [simp]:
  "en_in_flight (core e) = en_in_flight e" "en_store (core e) = en_store e" "en_queued (core e) = en_queued e"
  "en_policy (core e) = en_policy e" "en_registry (core e) = en_registry e" "en_outbox (core e) = en_outbox e"
  "en_unavailable_relays (core e) = en_unavailable_relays e"
  by (simp_all add: core_def)

lemma core_eqD:
  assumes "core e = core e'"
  shows "en_in_flight e = en_in_flight e'" "en_store e = en_store e'" "en_queued e = en_queued e'" "en_policy e = en_policy e'"
    "en_registry e = en_registry e'" "en_outbox e = en_outbox e'" "en_unavailable_relays e = en_unavailable_relays e'"
  using assms by (metis core_fields)+

lemma core_on_ack:
  assumes "map_of (en_in_flight e) handle = Some row" "map_of (if_per_relay row) (canonical_relay_identity (ack_relay_url ack)) = Some s"
    and "apply_verdict row (canonical_relay_identity (ack_relay_url ack)) (apply_ack s ack (en_policy e) now_ms) now_ms = (row', park)"
  shows "core (on_ack handle ack now_ms e) = core (flush_view (
     let e' = e\<lparr>en_in_flight := hm_insert handle row' (en_in_flight e)\<rparr> in
     if park then snd (park_relay_awaiting_auth (canonical_relay_identity (ack_relay_url ack)) e')
     else if is_complete row' then (snd (settle_row handle row' now_ms e'))\<lparr>en_in_flight := hm_remove handle (en_in_flight e')\<rparr>
     else snd (persist handle e')))"
proof -
  have flush: "core (flush_view e1) = core (flush_view e2)" if "core e1 = core e2" for e1 e2
    using that by (cases e1; cases e2) (simp add: core_def flush_view_def Let_def)
  have report: "core (flush_view (e\<lparr>en_view := v\<rparr>)) = core (flush_view e)"
    "core (flush_view (record_engine_error err h i t e)) = core (flush_view e)"
    "core (flush_view (e\<lparr>en_in_flight := m, en_needs_in_flight_rebuild := b\<rparr>)) = core (flush_view (e\<lparr>en_in_flight := m\<rparr>))"
    "core (flush_view (e\<lparr>en_view := v, en_in_flight := m\<rparr>)) = core (flush_view (e\<lparr>en_in_flight := m\<rparr>))"
    for e v err h i t m b
    by (rule flush, simp add: core_def record_engine_error_def)+
  let ?url = "canonical_relay_identity (ack_relay_url ack)"
  let ?e = "e\<lparr>en_in_flight := hm_insert handle row' (en_in_flight e)\<rparr>"
  show ?thesis
  proof (cases park)
    case True
    obtain err e2 where "park_relay_awaiting_auth ?url ?e = (err, e2)" by (meson surj_pair)
    then show ?thesis unfolding on_ack_def using True
      by (simp only: assms option.case Let_def prod.case if_True) (cases err; simp add: report)
  next
    case not_parked: False
    show ?thesis
    proof (cases "is_complete row'")
      case True
      obtain err e2 where settled: "settle_row handle row' now_ms ?e = (err, e2)" by (meson surj_pair)
      have "en_in_flight e2 = en_in_flight ?e" using settle_row_fields(1) [of handle row' now_ms ?e] settled by simp
      then show ?thesis unfolding on_ack_def using True not_parked settled
        by (simp only: assms option.case Let_def prod.case if_True if_False)
          (cases err; simp add: report)
    next
      case False
      obtain err e2 where "persist handle ?e = (err, e2)" by (meson surj_pair)
      then show ?thesis unfolding on_ack_def using False not_parked
        by (simp only: assms option.case Let_def prod.case if_False)
          (cases err; simp add: report split: publish_engine_error.split)
    qed
  qed
qed

section \<open>Rows that keep a property\<close>

definition started_row :: "signed_event \<Rightarrow> publish_target \<Rightarrow> string option \<Rightarrow> relay_reasons \<Rightarrow> in_flight_row" where
  "started_row event target correlation relay_map =
     \<lparr>if_event = event, if_target = target, if_per_relay = map (\<lambda>(url, _). (url, Pending)) relay_map,
      if_relay_reasons = relay_map, if_pending_retries = [], if_dirty = True, if_correlation_id_override = correlation\<rparr>"

definition extended_row :: "relay_reasons \<Rightarrow> in_flight_row \<Rightarrow> in_flight_row" where
  "extended_row new_relays row =
     row\<lparr>if_per_relay := fold (\<lambda>(url, _). bm_insert url Pending) new_relays (if_per_relay row),
         if_relay_reasons := fold (\<lambda>(url, reasons). bm_insert url reasons) new_relays (if_relay_reasons row), if_dirty := True\<rparr>"

definition rows_hold ::
  "publish_policy_registry \<Rightarrow> retry_policy \<Rightarrow> (in_flight_row \<Rightarrow> bool) \<Rightarrow> (publish_record \<Rightarrow> bool) \<Rightarrow>
   (publish_relay \<times> frame \<Rightarrow> bool) \<Rightarrow> (outbox_resolver \<Rightarrow> bool) \<Rightarrow> publish_engine \<Rightarrow> bool" where
  "rows_hold reg pol row_ok rec_ok frame_ok out_ok e \<longleftrightarrow>
     en_registry e = reg \<and> en_policy e = pol \<and> out_ok (en_outbox e) \<and>
     hm_wf (en_in_flight e) \<and> hm_wf (ps_rows (en_store e)) \<and> (\<forall>(h, row) \<in> set (en_in_flight e). row_ok row) \<and>
     (\<forall>(h, r) \<in> set (ps_rows (en_store e)). rec_ok r) \<and> (\<forall>f \<in> set (en_queued e). frame_ok f)"

text \<open>What an operation is allowed to bring in: a resolver, or an event with its target.\<close>

definition op_admitted :: "(outbox_resolver \<Rightarrow> bool) \<Rightarrow> (signed_event \<Rightarrow> publish_target \<Rightarrow> bool) \<Rightarrow> publish_op \<Rightarrow> bool" where
  "op_admitted out_ok start_ok op =
     (case op of
        StartPublish (Publish _ event target) _ _ \<Rightarrow> start_ok event target
      | SetOutbox outbox \<Rightarrow> out_ok outbox
      | Restart outbox \<Rightarrow> out_ok outbox
      | _ \<Rightarrow> True)"

locale publish_rows =
  fixes reg :: publish_policy_registry
    and pol :: retry_policy
    and row_ok :: "in_flight_row \<Rightarrow> bool"
    and rec_ok :: "publish_record \<Rightarrow> bool"
    and frame_ok :: "publish_relay \<times> frame \<Rightarrow> bool"
    and out_ok :: "outbox_resolver \<Rightarrow> bool"
    and start_ok :: "signed_event \<Rightarrow> publish_target \<Rightarrow> bool"
  assumes ok_wf: "row_ok row \<Longrightarrow> bm_wf (if_per_relay row)"
    and ok_clean: "row_ok row \<Longrightarrow> row_ok (row\<lparr>if_dirty := d\<rparr>)"
    and ok_dispatch: "row_ok row \<Longrightarrow> row_ok (dispatched_row reg now_ms flt unavailable row)"
    and ok_frames: "row_ok row \<Longrightarrow> f \<in> set (dispatched_frames reg now_ms flt unavailable row) \<Longrightarrow> frame_ok f"
    and ok_verdict: "row_ok row \<Longrightarrow> map_of (if_per_relay row) url = Some s \<Longrightarrow>
      row_ok (fst (apply_verdict row url (apply_ack s ack pol now_ms) now_ms))"
    and ok_sweep_inflight: "row_ok row \<Longrightarrow> row_ok (sweep_inflight_timeouts now_ms deadline pol row)"
    and ok_sweep_unavailable: "row_ok row \<Longrightarrow> row_ok (sweep_unavailable_timeouts now_ms deadline unavailable row)"
    and ok_demote: "row_ok row \<Longrightarrow> demote_row url row = Some row' \<Longrightarrow> row_ok row'"
    and ok_retry: "row_ok row \<Longrightarrow> row_ok (row\<lparr>if_pending_retries := fold hm_remove urls (if_pending_retries row), if_dirty := True\<rparr>)"
    and ok_extend: "row_ok row \<Longrightarrow> out_ok outbox \<Longrightarrow>
      row_ok (extended_row (relay_map_of (\<lambda>url. hm_contains url (if_per_relay row))
        (outbox (sv_pubkey (if_event row)) p_tags (if_target row) (sv_kind (if_event row)) blocked)) row)"
    and ok_start: "start_ok event target \<Longrightarrow> out_ok outbox \<Longrightarrow>
      row_ok (started_row event target correlation
        (relay_map_of (\<lambda>_. False) (outbox (sv_pubkey event) p_tags target (sv_kind event) blocked)))"
    and ok_record: "row_ok row \<Longrightarrow> rec_ok (record_of h row)"
    and ok_load: "rec_ok r \<Longrightarrow> row_ok (row_of_record r)"
begin

abbreviation holds :: "publish_engine \<Rightarrow> bool" where
  "holds e \<equiv> rows_hold reg pol row_ok rec_ok frame_ok out_ok e"

lemma holds_row: "holds e \<Longrightarrow> map_of (en_in_flight e) h = Some row \<Longrightarrow> row_ok row"
  by (auto simp: rows_hold_def dest: map_of_SomeD)

lemma holds_put: "holds e \<Longrightarrow> row_ok row \<Longrightarrow> holds (e\<lparr>en_in_flight := hm_insert h row (en_in_flight e)\<rparr>)"
  using set_hm_insert [of h row "en_in_flight e"] by (auto simp: rows_hold_def AList.distinct_update)

lemma holds_drop: "holds e \<Longrightarrow> holds (e\<lparr>en_in_flight := hm_remove h (en_in_flight e), en_needs_in_flight_rebuild := b\<rparr>)"
  using set_hm_remove [of h "en_in_flight e"] by (auto simp: rows_hold_def AList.distinct_delete)

lemma holds_map: "holds e \<Longrightarrow> (\<And>row. row_ok row \<Longrightarrow> row_ok (f row)) \<Longrightarrow> holds (e\<lparr>en_in_flight := hm_map_values f (en_in_flight e)\<rparr>)"
  using hm_wf_map_values [of "en_in_flight e" f] by (force simp: rows_hold_def hm_map_values_def)

lemma holds_flush: "holds e \<Longrightarrow> holds (flush_view e)"
  using ok_clean hm_wf_map_values [of "en_in_flight e" "\<lambda>row. row\<lparr>if_dirty := False\<rparr>"] by (force simp: rows_hold_def hm_map_values_def)

lemma holds_view [simp]:
  "holds (e\<lparr>en_view := v\<rparr>) = holds e" "holds (record_terminal t e) = holds e"
  "holds (record_engine_error err h i now_ms e) = holds e" "holds (emit_no_targets h ev c now_ms e) = holds e"
  "holds (e\<lparr>en_unavailable_relays := u\<rparr>) = holds e" "holds (e\<lparr>en_needs_in_flight_rebuild := b\<rparr>) = holds e"
  by (simp_all add: rows_hold_def)

lemma holds_core: "holds (core e) = holds e"
  by (simp add: rows_hold_def)

lemma holds_delete: "holds e \<Longrightarrow> holds (e\<lparr>en_store := snd (store_delete h (en_store e))\<rparr>)"
  using set_hm_remove [of h "ps_rows (en_store e)"] by (auto simp: rows_hold_def AList.distinct_delete)

lemma holds_settle: "holds e \<Longrightarrow> holds (snd (settle_row h row now_ms e))"
  using holds_delete [of e h] by (simp add: rows_hold_def)

lemma holds_persist: "holds e \<Longrightarrow> holds (snd (persist h e))"
proof (cases "map_of (en_in_flight e) h")
  case (Some row)
  assume e: "holds e"
  then have "rec_ok (record_of h row)" using Some by (auto intro: ok_record holds_row)
  then show ?thesis using e set_hm_insert [of h "record_of h row" "ps_rows (en_store e)"]
    by (auto simp: rows_hold_def persist_store Some AList.distinct_update)
qed (simp add: rows_hold_def persist_store)

lemma holds_finalize_row: "holds e \<Longrightarrow> holds (finalize_row now_ms h e)"
  using holds_drop [OF holds_settle, where b = True] by (auto simp: finalize_row_def split_beta Let_def split: option.split)

lemma holds_finalize: "holds e \<Longrightarrow> holds (finalize_completed_rows hs now_ms e)"
  by (induction hs arbitrary: e) (auto simp: finalize_completed_rows_def holds_finalize_row)

lemma holds_persist_all: "holds e \<Longrightarrow> holds (snd (persist_all hs e))"
proof (induction hs arbitrary: e)
  case (Cons h hs)
  then show ?case using holds_persist [OF Cons.prems, of h] by simp
qed simp

lemma holds_demote: "holds e \<Longrightarrow> holds (snd (demote_inflight_to_pending url e))"
proof -
  assume e: "holds e"
  have "row_ok (unwrap_or row (demote_row url row))" if "row_ok row" for row
    using that ok_demote [of row url] by (cases "demote_row url row") auto
  then show ?thesis unfolding demote_inflight_to_pending_def Let_def by (intro holds_persist_all holds_map e)
qed

lemma holds_unavailable: "holds e \<Longrightarrow> holds (snd (mark_relay_unavailable raw now_ms e))"
  by (simp add: mark_relay_unavailable_def Let_def holds_demote holds_flush)

lemma holds_park: "holds e \<Longrightarrow> holds (snd (park_relay_awaiting_auth raw e))"
  by (simp add: park_relay_awaiting_auth_def Let_def holds_demote holds_flush)

lemma holds_on_ack: "holds e \<Longrightarrow> holds (on_ack handle ack now_ms e)"
proof (cases "map_of (en_in_flight e) handle")
  case (Some row)
  let ?url = "canonical_relay_identity (ack_relay_url ack)"
  assume e: "holds e"
  show ?thesis
  proof (cases "map_of (if_per_relay row) ?url")
    case (Some s)
    obtain row' park where v: "apply_verdict row ?url (apply_ack s ack (en_policy e) now_ms) now_ms = (row', park)"
      by (meson surj_pair)
    let ?e = "e\<lparr>en_in_flight := hm_insert handle row' (en_in_flight e)\<rparr>"
    have pol: "en_policy e = pol" using e by (simp add: rows_hold_def)
    have "row_ok row'" using ok_verdict [OF holds_row [OF e \<open>map_of (en_in_flight e) handle = Some row\<close>] Some] v by (simp add: pol) (metis fst_conv)
    then have put: "holds ?e" by (rule holds_put [OF e])
    have "holds (core (on_ack handle ack now_ms e))"
      using holds_park [OF put, of ?url] holds_drop [OF holds_settle [OF put], where b = False] holds_persist [OF put, of handle]
      unfolding core_on_ack [OF \<open>map_of (en_in_flight e) handle = Some row\<close> Some v] holds_core Let_def
      by (auto intro!: holds_flush)
    then show ?thesis by (simp only: holds_core)
  qed (simp add: on_ack_def \<open>map_of (en_in_flight e) handle = Some row\<close> e)
qed (simp add: on_ack_def)

lemma holds_dispatch: "holds e \<Longrightarrow> holds (dispatch_pending_matching flt now_ms handle e)"
proof (cases "map_of (en_in_flight e) handle")
  case (Some row)
  assume e: "holds e"
  have row: "row_ok row" by (rule holds_row [OF e Some])
  have reg: "en_registry e = reg" using e by (simp add: rows_hold_def)
  let ?row = "dispatched_row reg now_ms flt (en_unavailable_relays e) row"
  have "holds (e\<lparr>en_in_flight := hm_insert handle ?row (en_in_flight e)\<rparr>)" by (rule holds_put [OF e ok_dispatch [OF row]])
  then show ?thesis using ok_frames [OF row]
    by (auto simp: AList.distinct_update dispatch_pending_matching_def Some reg dispatch_due_exact [OF ok_wf [OF row]] rows_hold_def)
qed (simp add: dispatch_pending_matching_def)

lemma holds_fold: "(\<And>x e. holds e \<Longrightarrow> holds (f x e)) \<Longrightarrow> holds e \<Longrightarrow> holds (fold f xs e)"
  by (induction xs arbitrary: e) auto

lemma holds_start_inner:
  assumes "start_ok event target" and e: "holds e"
  shows "holds (snd (start_publish_inner handle event target correlation now_ms e))"
proof -
  have out: "out_ok (en_outbox e)" using e by (simp add: rows_hold_def)
  have "holds (e\<lparr>en_in_flight := hm_insert handle (started_row event target correlation (relay_map_of (\<lambda>_. False) (resolve_row event target e))) (en_in_flight e)\<rparr>)"
    using ok_start [OF assms(1) out] by (intro holds_put e) (simp add: resolve_row_def)
  from holds_persist [OF this, of handle] e show ?thesis
    by (simp add: start_publish_inner_def Let_def started_row_def [symmetric] dispatch_pending_def holds_flush holds_finalize holds_dispatch)
qed

lemma holds_start: "op_admitted out_ok start_ok (StartPublish action now_ms correlation) \<Longrightarrow> holds e \<Longrightarrow> holds (snd (start_publish action now_ms correlation e))"
  by (cases action) (simp_all add: start_publish_def op_admitted_def holds_start_inner)

lemma holds_tick: "holds e \<Longrightarrow> holds (tick now_ms e)"
proof -
  assume e: "holds e"
  have pol: "en_policy e = pol" using e by (simp add: rows_hold_def)
  have "holds (e\<lparr>en_in_flight := hm_map_values (sweep_row now_ms e) (en_in_flight e)\<rparr>)"
    by (intro holds_map e) (simp add: sweep_row_def pol ok_sweep_inflight ok_sweep_unavailable)
  then show ?thesis unfolding tick_def Let_def dispatch_pending_def
    by (intro holds_flush holds_finalize holds_fold) (auto intro: holds_dispatch)
qed

lemma holds_retarget: "holds e \<Longrightarrow> holds (retarget_row handle e)"
proof (cases "map_of (en_in_flight e) handle")
  case (Some row)
  assume e: "holds e"
  have out: "out_ok (en_outbox e)" using e by (simp add: rows_hold_def)
  let ?new = "relay_map_of (\<lambda>url. hm_contains url (if_per_relay row)) (resolve_row (if_event row) (if_target row) e)"
  have "holds (e\<lparr>en_in_flight := hm_insert handle (extended_row ?new row) (en_in_flight e)\<rparr>)"
    using ok_extend [OF holds_row [OF e Some] out] by (intro holds_put e) (simp add: resolve_row_def)
  from holds_persist [OF this, of handle] e show ?thesis
    by (simp add: retarget_row_def Some Let_def extended_row_def)
qed (simp add: retarget_row_def)

lemma holds_available: "holds e \<Longrightarrow> holds (mark_relay_available raw now_ms e)"
  unfolding mark_relay_available_def Let_def dispatch_pending_for_relay_def
  by (intro holds_flush holds_finalize holds_fold) (auto intro: holds_dispatch holds_retarget)

lemma holds_cancel: "holds e \<Longrightarrow> holds (cancel_by_handle handle correlation e)"
proof -
  assume e: "holds e"
  let ?e = "if hm_contains handle (en_in_flight e)
    then e\<lparr>en_in_flight := hm_remove handle (en_in_flight e), en_needs_in_flight_rebuild := True\<rparr> else e"
  have "holds ?e" using e holds_drop [OF e, of True handle] by auto
  from holds_delete [OF this, of handle] show ?thesis unfolding cancel_by_handle_def Let_def split_beta
    by (intro holds_flush) (simp add: rows_hold_def)
qed

lemma holds_retry: "holds e \<Longrightarrow> holds (snd (retry_now handle now_ms e))"
proof (cases "map_of (en_in_flight e) handle")
  case (Some row)
  assume e: "holds e"
  let ?row = "row\<lparr>if_pending_retries := fold hm_remove (map fst (filter (\<lambda>(_, s). \<not> is_terminal s) (if_per_relay row))) (if_pending_retries row), if_dirty := True\<rparr>"
  have "holds (e\<lparr>en_in_flight := hm_insert handle ?row (en_in_flight e)\<rparr>)"
    by (intro holds_put e ok_retry holds_row [OF e Some])
  from holds_persist [OF this, of handle] show ?thesis
    by (simp add: retry_now_def Some Let_def dispatch_pending_def holds_flush holds_finalize holds_dispatch)
qed (simp add: retry_now_def)

lemma holds_resume: "holds e \<Longrightarrow> holds (snd (resume_from_store now_ms e))"
proof -
  assume e: "holds e"
  have each: "rec_ok r \<Longrightarrow> holds e \<Longrightarrow> holds (resume_record now_ms r e)" for r e
    unfolding resume_record_def Let_def dispatch_pending_def by (intro holds_finalize holds_dispatch holds_put ok_load)
  have "holds (fold (resume_record now_ms) rs e)" if "\<forall>r \<in> set rs. rec_ok r" for rs
    using that e by (induction rs arbitrary: e) (auto intro: each)
  moreover have "\<forall>r \<in> set rs. rec_ok r" if "load_pending (en_store e) = Inr rs" for rs
    using that e by (force simp: load_pending_def rows_hold_def split: option.splits)
  ultimately show ?thesis using e by (auto simp: resume_from_store_def holds_flush split: sum.split)
qed

lemma holds_settings:
  assumes "holds e"
  shows "out_ok outbox \<Longrightarrow> holds (set_outbox outbox e)" "holds (set_blocked_relay_lookup lookup e)" "holds (snd (drain_frames e))"
    "holds (snd (take_pending_terminals e))" "holds (e\<lparr>en_store := (en_store e)\<lparr>ps_failing := health\<rparr>\<rparr>)"
    "out_ok outbox \<Longrightarrow> holds (engine_new outbox (en_store e) (en_policy e) (en_registry e))"
  using assms
  by (simp_all add: rows_hold_def set_outbox_def set_blocked_relay_lookup_def drain_frames_def take_pending_terminals_def engine_new_def)

lemma holds_step: "op_admitted out_ok start_ok op \<Longrightarrow> holds e \<Longrightarrow> holds (publish_step op e)"
  by (cases op) (simp_all add: publish_step_def holds_start holds_tick holds_on_ack holds_unavailable holds_park holds_available
    holds_cancel holds_retry holds_resume holds_settings op_admitted_def [of _ _ "SetOutbox _"] op_admitted_def [of _ _ "Restart _"])

theorem holds_run: "list_all (op_admitted out_ok start_ok) ops \<Longrightarrow> holds e \<Longrightarrow> holds (publish_run ops e)"
  unfolding publish_run_def by (induction ops arbitrary: e) (auto simp: holds_step)

end

end
