(* ===== verification/Publish_Safety.thy ===== *)
theory Publish_Safety
  imports Publish_Inv
begin

text \<open>
  What holds in every state the publish engine reaches: bounds on the attempts, and the confinement of
  private envelopes to the relays their recipients verified.
\<close>

section \<open>Maps the engine builds\<close>

lemma bm_wf_canonical_map: "bm_wf (canonical_map kvs)"
proof -
  have "bm_wf m \<Longrightarrow> bm_wf (fold (\<lambda>(url, v). bm_insert (canonical_relay_identity url) v) kvs m)" for m
    by (induction kvs arbitrary: m) (auto simp: bm_wf_insert)
  then show ?thesis by (simp add: canonical_map_def)
qed

lemma set_canonical_map: "set (canonical_map kvs) \<subseteq> (\<lambda>(url, v). (canonical_relay_identity url, v)) ` set kvs"
proof -
  have "set (fold (\<lambda>(url, v). bm_insert (canonical_relay_identity url) v) kvs m) \<subseteq> set m \<union> (\<lambda>(url, v). (canonical_relay_identity url, v)) ` set kvs" for m
  proof (induction kvs arbitrary: m)
    case (Cons kv kvs)
    obtain url v where [simp]: "kv = (url, v)" by (cases kv)
    show ?case using Cons [of "bm_insert (canonical_relay_identity url) v m"] set_bm_insert [of "canonical_relay_identity url" v m] by auto
  qed simp
  from this [of "[]"] show ?thesis by (simp add: canonical_map_def)
qed

lemma bm_wf_relay_map_of: "bm_wf (relay_map_of known resolved)"
proof -
  have "bm_wf m \<Longrightarrow> bm_wf (fold (\<lambda>r m. let canonical = canonical_relay_identity (rr_url r) in
           if known canonical then m else bm_entry [] canonical (add_reason (rr_reason r)) m) resolved m)" for m
    by (induction resolved arbitrary: m) (auto simp: bm_wf_entry Let_def)
  then show ?thesis by (simp add: relay_map_of_def)
qed

text \<open>Every reason of a resolution comes from a relay the resolver returned.\<close>

lemma relay_map_of_reasons:
  assumes "(url, reasons) \<in> set (relay_map_of known resolved)" "reason \<in> set reasons"
  shows "\<exists>r \<in> set resolved. url = canonical_relay_identity (rr_url r) \<and> reason = rr_reason r"
proof -
  let ?from = "\<lambda>rs m. \<forall>(url, reasons) \<in> set m. \<forall>reason \<in> set reasons.
     \<exists>r \<in> rs. url = canonical_relay_identity (rr_url r) \<and> reason = rr_reason r"
  have "?from (set resolved) (fold (\<lambda>r m. let canonical = canonical_relay_identity (rr_url r) in
           if known canonical then m else bm_entry [] canonical (add_reason (rr_reason r)) m) rest m)"
    if "set rest \<subseteq> set resolved" "?from (set resolved) m" for rest m
    using that
  proof (induction rest arbitrary: m)
    case (Cons r rest)
    let ?c = "canonical_relay_identity (rr_url r)"
    have "?from (set resolved) (bm_entry [] ?c (add_reason (rr_reason r)) m)"
    proof (safe)
      fix url reasons reason
      assume "(url, reasons) \<in> set (bm_entry [] ?c (add_reason (rr_reason r)) m)" and reason: "reason \<in> set reasons"
      then have "(url, reasons) \<in> set m \<or> (url = ?c \<and> reasons = add_reason (rr_reason r) (unwrap_or [] (map_of m ?c)))"
        unfolding bm_entry_def using set_bm_insert [of ?c _ m] by blast
      then show "\<exists>r \<in> set resolved. url = canonical_relay_identity (rr_url r) \<and> reason = rr_reason r"
      proof (elim disjE conjE)
        assume "(url, reasons) \<in> set m"
        then show ?thesis using Cons.prems(2) reason by blast
      next
        assume new: "url = ?c" "reasons = add_reason (rr_reason r) (unwrap_or [] (map_of m ?c))"
        show ?thesis
        proof (cases "reason = rr_reason r")
          case True
          then show ?thesis using Cons.prems(1) new by auto
        next
          case False
          then obtain old where "map_of m ?c = Some old" "reason \<in> set old"
            using new reason by (cases "map_of m ?c") (auto simp: add_reason_def split: if_splits)
          then show ?thesis using Cons.prems(2) new by (fastforce dest: map_of_SomeD)
        qed
      qed
    qed
    then show ?case using Cons by (simp add: Let_def)
  qed simp
  from this [of resolved "[]"] assms show ?thesis by (fastforce simp: relay_map_of_def)
qed

lemma set_fold_bm_insert: "set (fold (\<lambda>(k, x). bm_insert k (f x)) kvs m) \<subseteq> set m \<union> (\<lambda>(k, x). (k, f x)) ` set kvs"
proof (induction kvs arbitrary: m)
  case (Cons kv kvs)
  obtain k x where [simp]: "kv = (k, x)" by (cases kv)
  show ?case using Cons [of "bm_insert k (f x) m"] set_bm_insert [of k "f x" m] by auto
qed simp

lemma bm_wf_fold_insert: "bm_wf m \<Longrightarrow> bm_wf (fold (\<lambda>(k, x). bm_insert k (f x)) kvs m)"
  by (induction kvs arbitrary: m) (auto simp: bm_wf_insert)

section \<open>Predicates on one relay's state\<close>

text \<open>A predicate on states that survives the transitions of the state machine holds throughout the engine.\<close>

definition all_states :: "(per_relay_state \<Rightarrow> bool) \<Rightarrow> relay_states \<Rightarrow> bool" where
  "all_states P states \<longleftrightarrow> list_all (\<lambda>(_, s). P s) states"

lemma all_states_insert: "all_states P m \<Longrightarrow> P s \<Longrightarrow> all_states P (bm_insert url s m)"
  using set_bm_insert [of url s m] by (auto simp: all_states_def list_all_iff)

lemma all_states_get: "all_states P m \<Longrightarrow> map_of m url = Some s \<Longrightarrow> P s"
  by (auto simp: all_states_def list_all_iff dest: map_of_SomeD)

lemma all_states_map: "all_states P m \<Longrightarrow> (\<And>url s. P s \<Longrightarrow> P (f url s)) \<Longrightarrow> all_states P (map (\<lambda>(url, s). (url, f url s)) m)"
  by (force simp: all_states_def list_all_iff)

locale relay_state_rule =
  fixes reg :: publish_policy_registry and pol :: retry_policy and P :: "per_relay_state \<Rightarrow> bool"
  assumes P_pending: "P Pending"
    and P_failed: "P (FailedAfterRetries reason t)"
    and P_acked: "P (AckedOk t)"
    and P_send: "P s \<Longrightarrow> \<not> is_terminal s \<Longrightarrow> \<not> is_in_flight s \<Longrightarrow> P (InFlight t (max (state_attempt s + 1) 1))"
    and P_retry: "P (InFlight sent a) \<Longrightarrow> max a 1 < transient_max_retries pol \<Longrightarrow> P (RelayError m (max a 1) t)"
    and P_timeout: "P (InFlight sent a) \<Longrightarrow> a < transient_max_retries pol \<Longrightarrow> P (TimedOut a t)"
begin

lemma dispatched_keeps: "P s \<Longrightarrow> P (dispatched r t flt unavailable row url s)"
  using P_send [of s t] P_failed
  by (auto simp: dispatched_def dispatch_ready_def is_terminal_def is_in_flight_def split: per_relay_state.splits)

lemma verdict_keeps:
  assumes "P s" "all_states P (if_per_relay row)"
  shows "all_states P (if_per_relay (fst (apply_verdict row url (apply_ack s ack pol t) t)))"
proof -
  have "all_states P (bm_insert url x (if_per_relay row))" if "P x" for x by (rule all_states_insert [OF assms(2) that])
  moreover have "P (RelayError m (max a 1) t)" if "s = InFlight sent a" "\<not> transient_max_retries pol \<le> max a 1" for m sent a
    using P_retry [of sent a m t] assms(1) that by (simp only: not_le)
  ultimately show ?thesis using assms P_acked P_failed
    by (cases s) (auto simp: apply_verdict_def apply_ack_def is_in_flight_def state_attempt_def Let_def split: ack_class.split)
qed

lemma sweep_inflight_keeps: "P s \<Longrightarrow> P (sweep_inflight_state t deadline pol s)"
  using P_timeout P_failed by (auto simp: sweep_inflight_state_def split: per_relay_state.split)

lemma sweep_unavailable_keeps: "P s \<Longrightarrow> P (sweep_unavailable_state t deadline unavailable url s)"
  using P_failed by (auto simp: sweep_unavailable_state_def split: option.split)

end

sublocale relay_state_rule \<subseteq> publish_rows reg pol
  "\<lambda>row. bm_wf (if_per_relay row) \<and> all_states P (if_per_relay row)" "\<lambda>r. all_states P (pr_per_relay r)"
  "\<lambda>_. True" "\<lambda>_. True" "\<lambda>_ _. True"
proof (unfold_locales, goal_cases)
  case (3 row t flt unavailable)
  then show ?case by (simp add: dispatched_row_def Let_def all_states_map dispatched_keeps del: map_map)
next
  case (5 row url s ack t)
  have "bm_wf (if_per_relay (fst (apply_verdict row url v t)))" for v
    using 5 by (auto simp: apply_verdict_def bm_wf_insert split: retry_verdict.split)
  then show ?case using verdict_keeps [of s row url ack t] all_states_get [of P _ url s] 5 by auto
next
  case (6 row t deadline)
  then show ?case by (simp add: sweep_inflight_timeouts_def Let_def all_states_map sweep_inflight_keeps del: map_map)
next
  case (7 row t deadline unavailable)
  then show ?case by (simp add: sweep_unavailable_timeouts_def Let_def all_states_map sweep_unavailable_keeps del: map_map)
next
  case (8 row url row')
  then show ?case by (auto simp: demote_row_def bm_wf_insert all_states_insert P_pending split: option.splits per_relay_state.splits)
next
  case (10 row outbox p_tags blocked)
  then show ?case
    using set_fold_bm_insert [of "\<lambda>_. Pending" _ "if_per_relay row"] P_pending
    by (fastforce simp: extended_row_def bm_wf_fold_insert all_states_def list_all_iff)
next
  case (11 event target outbox correlation p_tags blocked)
  show ?case using bm_wf_relay_map_of P_pending
    by (auto simp: started_row_def all_states_def list_all_iff comp_def split_def)
next
  case (13 r)
  then show ?case using set_canonical_map [of "pr_per_relay r"]
    by (auto simp: row_of_record_def bm_wf_canonical_map all_states_def list_all_iff)
qed simp_all

section \<open>Attempts\<close>

text \<open>A relay is tried at most \<open>transient_max_retries\<close> times (once when that is 0), and a scheduled retry has
  an attempt left.\<close>

definition attempts_bounded :: "retry_policy \<Rightarrow> per_relay_state \<Rightarrow> bool" where
  "attempts_bounded pol s \<longleftrightarrow>
     (case s of
        InFlight _ a \<Rightarrow> 1 \<le> a \<and> a \<le> max 1 (transient_max_retries pol)
      | RelayError _ a _ \<Rightarrow> 1 \<le> a \<and> a < transient_max_retries pol
      | TimedOut a _ \<Rightarrow> 1 \<le> a \<and> a < transient_max_retries pol
      | _ \<Rightarrow> True)"

interpretation attempts: relay_state_rule reg pol "attempts_bounded pol" for reg pol
  by unfold_locales (auto simp: attempts_bounded_def is_in_flight_def is_terminal_def state_attempt_def split: per_relay_state.splits)

section \<open>Private envelopes\<close>

text \<open>A resolver gives an explicit reason only to a relay the target names, under the target's class.\<close>

definition honest_outbox :: "outbox_resolver \<Rightarrow> bool" where
  "honest_outbox outbox \<longleftrightarrow>
     (\<forall>author p_tags target kind blocked. \<forall>r \<in> set (outbox author p_tags target kind blocked). \<forall>c.
        rr_reason r = ExplicitReason c \<longrightarrow> (\<exists>relays. target = Explicit relays c \<and> rr_url r \<in> set relays))"

lemma nip65_honest: "honest_outbox (nip65_resolve nr)"
  by (auto simp: honest_outbox_def nip65_resolve_def tagged_def Let_def split: publish_target.splits option.splits if_splits)

text \<open>A relay under its canonical identity; every restart takes the identity once more.\<close>

definition spelled :: "publish_relay \<Rightarrow> publish_relay \<Rightarrow> bool" where
  "spelled raw url \<longleftrightarrow> (\<exists>n. url = (canonical_relay_identity ^^ Suc n) raw)"

lemma spelled_once: "spelled raw (canonical_relay_identity raw)"
  unfolding spelled_def by (rule exI [of _ 0]) simp

lemma spelled_again: "spelled raw url \<Longrightarrow> spelled raw (canonical_relay_identity url)"
  unfolding spelled_def by (metis funpow.simps(2) comp_apply)

definition inbox_sanctions :: "publish_target \<Rightarrow> relay_reasons \<Rightarrow> bool" where
  "inbox_sanctions target reasons \<longleftrightarrow>
     (\<forall>(url, rs) \<in> set reasons. ExplicitReason VerifiedPrivateInbox \<in> set rs \<longrightarrow>
        (\<exists>relays raw. target = Explicit relays VerifiedPrivateInbox \<and> raw \<in> set relays \<and> spelled raw url))"

definition sanctioned_frame ::
  "publish_policy_registry \<Rightarrow> (signed_event \<Rightarrow> publish_target \<Rightarrow> bool) \<Rightarrow> publish_relay \<times> frame \<Rightarrow> bool" where
  "sanctioned_frame reg started f \<longleftrightarrow>
     (case f of (url, EventFrame event) \<Rightarrow>
        is_private_fail_closed (classify_publish_behavior reg (sv_kind event)) \<longrightarrow>
        (\<exists>relays raw. started event (Explicit relays VerifiedPrivateInbox) \<and> raw \<in> set relays \<and> spelled raw url))"

lemma inbox_sanctions_resolved:
  assumes "honest_outbox outbox"
  shows "inbox_sanctions target (relay_map_of known (outbox author p_tags target kind blocked))"
  unfolding inbox_sanctions_def
proof (safe)
  fix url rs
  assume "(url, rs) \<in> set (relay_map_of known (outbox author p_tags target kind blocked))" "ExplicitReason VerifiedPrivateInbox \<in> set rs"
  from relay_map_of_reasons [OF this] obtain r where r: "r \<in> set (outbox author p_tags target kind blocked)"
    "url = canonical_relay_identity (rr_url r)" "rr_reason r = ExplicitReason VerifiedPrivateInbox" by auto
  then show "\<exists>relays raw. target = Explicit relays VerifiedPrivateInbox \<and> raw \<in> set relays \<and> spelled raw url"
    using assms spelled_once unfolding honest_outbox_def by blast
qed

lemma inbox_sanctions_Un: "inbox_sanctions t xs \<Longrightarrow> inbox_sanctions t ys \<Longrightarrow> set zs \<subseteq> set xs \<union> set ys \<Longrightarrow> inbox_sanctions t zs"
  unfolding inbox_sanctions_def by blast

lemma inbox_sanctions_canonical: "inbox_sanctions t m \<Longrightarrow> inbox_sanctions t (canonical_map m)"
  unfolding inbox_sanctions_def
proof (safe)
  fix url rs
  assume m: "\<forall>(url, rs) \<in> set m. ExplicitReason VerifiedPrivateInbox \<in> set rs \<longrightarrow>
      (\<exists>relays raw. t = Explicit relays VerifiedPrivateInbox \<and> raw \<in> set relays \<and> spelled raw url)"
    and "(url, rs) \<in> set (canonical_map m)" "ExplicitReason VerifiedPrivateInbox \<in> set rs"
  then obtain url' where "(url', rs) \<in> set m" "url = canonical_relay_identity url'" using set_canonical_map [of m] by auto
  moreover from this(1) obtain relays raw where "t = Explicit relays VerifiedPrivateInbox" "raw \<in> set relays" "spelled raw url'"
    using m \<open>ExplicitReason VerifiedPrivateInbox \<in> set rs\<close> by fast
  ultimately show "\<exists>relays raw. t = Explicit relays VerifiedPrivateInbox \<and> raw \<in> set relays \<and> spelled raw url"
    using spelled_again by blast
qed

text \<open>The origin of a row: its event was published to its target, and the sanctions it carries are of that target.\<close>

definition row_origin :: "(signed_event \<Rightarrow> publish_target \<Rightarrow> bool) \<Rightarrow> in_flight_row \<Rightarrow> bool" where
  "row_origin started row \<longleftrightarrow>
     bm_wf (if_per_relay row) \<and> started (if_event row) (if_target row) \<and> inbox_sanctions (if_target row) (if_relay_reasons row)"

lemma row_origin_same:
  "row_origin started row \<Longrightarrow> if_event row' = if_event row \<Longrightarrow> if_target row' = if_target row \<Longrightarrow>
   if_relay_reasons row' = if_relay_reasons row \<Longrightarrow> bm_wf (if_per_relay row') \<Longrightarrow> row_origin started row'"
  by (simp add: row_origin_def)

lemma row_origin_frames:
  assumes "row_origin started row" "f \<in> set (dispatched_frames reg t flt unavailable row)"
  shows "sanctioned_frame reg started f"
proof -
  obtain url s where f: "f = (url, EventFrame (if_event row))" "fires reg t flt unavailable row url s"
    using assms(2) by (auto simp: dispatched_frames_def)
  show ?thesis
  proof (cases "is_private_fail_closed (classify_publish_behavior reg (sv_kind (if_event row)))")
    case True
    then have "ExplicitReason VerifiedPrivateInbox \<in> set (unwrap_or [] (map_of (if_relay_reasons row) url))"
      using f(2) by (auto simp: fires_def relay_emit_is_sanctioned_def list_ex_iff)
    then obtain rs where "(url, rs) \<in> set (if_relay_reasons row)" "ExplicitReason VerifiedPrivateInbox \<in> set rs"
      by (cases "map_of (if_relay_reasons row) url") (auto dest: map_of_SomeD)
    then obtain relays raw where "if_target row = Explicit relays VerifiedPrivateInbox" "raw \<in> set relays" "spelled raw url"
      using assms(1) unfolding row_origin_def inbox_sanctions_def by fast
    then show ?thesis using assms(1) f(1) unfolding row_origin_def sanctioned_frame_def by auto
  qed (simp add: f(1) sanctioned_frame_def)
qed

interpretation origin: publish_rows reg pol "row_origin started"
  "\<lambda>r. started (pr_event r) (pr_target r) \<and> inbox_sanctions (pr_target r) (pr_relay_reasons r)"
  "sanctioned_frame reg started" honest_outbox started
  for reg pol started
proof (unfold_locales, goal_cases)
  case (1 row)
  then show ?case by (simp add: row_origin_def)
next
  case (2 row)
  then show ?case by (intro row_origin_same [OF 2]) (simp_all add: row_origin_def)
next
  case (3 row)
  then show ?case by (intro row_origin_same [OF 3]) (simp_all add: row_origin_def dispatched_row_def Let_def del: map_map)
next
  case (4 row)
  then show ?case by (rule row_origin_frames)
next
  case (5 row)
  from 5(1) show ?case
    by (intro row_origin_same [OF 5(1)]) (auto simp: row_origin_def apply_verdict_def bm_wf_insert split: retry_verdict.split)
next
  case (6 row)
  then show ?case by (intro row_origin_same [OF 6]) (simp_all add: row_origin_def sweep_inflight_timeouts_def Let_def del: map_map)
next
  case (7 row t deadline unavailable)
  then show ?case by (intro row_origin_same [OF 7]) (simp_all add: row_origin_def sweep_unavailable_timeouts_def Let_def del: map_map)
next
  case (8 row url row')
  then show ?case
    by (intro row_origin_same [OF 8(1)]) (auto simp: row_origin_def demote_row_def bm_wf_insert split: option.splits per_relay_state.splits)
next
  case (9 row)
  then show ?case by (intro row_origin_same [OF 9]) (simp_all add: row_origin_def)
next
  case (10 row outbox p_tags blocked)
  then show ?case
    using inbox_sanctions_Un [OF _ inbox_sanctions_resolved [OF 10(2)] set_fold_bm_insert [of "\<lambda>reasons. reasons", simplified]]
    by (auto simp: row_origin_def extended_row_def bm_wf_fold_insert)
next
  case (11 event target outbox)
  then show ?case using inbox_sanctions_resolved [OF 11(2)] bm_wf_relay_map_of
    by (auto simp: row_origin_def started_row_def comp_def split_def)
next
  case (12 row)
  then show ?case by (simp add: row_origin_def)
next
  case (13 r)
  then show ?case by (simp add: row_origin_def row_of_record_def bm_wf_canonical_map inbox_sanctions_canonical)
qed

section \<open>Properties\<close>

lemma rows_hold_new:
  "out_ok outbox \<Longrightarrow> rows_hold reg pol row_ok rec_ok frame_ok out_ok (engine_new outbox \<lparr>ps_rows = [], ps_failing = health\<rparr> pol reg)"
  by (simp add: rows_hold_def engine_new_def)

text \<open>The events an operation list publishes, with their targets.\<close>

definition started_by :: "publish_op list \<Rightarrow> signed_event \<Rightarrow> publish_target \<Rightarrow> bool" where
  "started_by ops event target \<longleftrightarrow>
     list_ex (\<lambda>op. case op of StartPublish (Publish _ ev t) _ _ \<Rightarrow> ev = event \<and> t = target | _ \<Rightarrow> False) ops"

definition installs_honest :: "publish_op \<Rightarrow> bool" where
  "installs_honest op \<longleftrightarrow> (case op of SetOutbox outbox \<Rightarrow> honest_outbox outbox | Restart outbox \<Rightarrow> honest_outbox outbox | _ \<Rightarrow> True)"

lemma op_admitted_started: "op \<in> set ops \<Longrightarrow> installs_honest op \<Longrightarrow> op_admitted honest_outbox (started_by ops) op"
  by (force simp: op_admitted_def installs_honest_def started_by_def list_ex_iff split: publish_op.split publish_action.split)

lemma origin_run:
  assumes "honest_outbox outbox" "list_all installs_honest ops"
  shows "rows_hold reg pol (row_origin (started_by ops)) (\<lambda>r. started_by ops (pr_event r) (pr_target r) \<and> inbox_sanctions (pr_target r) (pr_relay_reasons r))
    (sanctioned_frame reg (started_by ops)) honest_outbox
    (publish_run ops (engine_new outbox \<lparr>ps_rows = [], ps_failing = health\<rparr> pol reg))"
  using assms by (intro origin.holds_run rows_hold_new) (auto simp: list_all_iff op_admitted_started)

text \<open>C37. A private envelope (a gift wrap or a chat message) leaves the engine only for a relay of an explicit
  target classified as verified private inbox, under which that event was published; no sequence of acks, retries,
  re-resolutions, store failures and restarts changes this.\<close>

theorem private_envelopes_confined:
  assumes "honest_outbox outbox" "list_all installs_honest ops" "sv_kind event \<in> {KIND_CHAT_MESSAGE, KIND_GIFT_WRAP}"
    and "(url, EventFrame event) \<in> set (en_queued (publish_run ops (engine_new outbox \<lparr>ps_rows = [], ps_failing = health\<rparr> pol reg)))"
  shows "\<exists>relays raw n. started_by ops event (Explicit relays VerifiedPrivateInbox) \<and> raw \<in> set relays \<and>
    url = (canonical_relay_identity ^^ Suc n) raw"
proof -
  have "sanctioned_frame reg (started_by ops) (url, EventFrame event)"
    using origin_run [OF assms(1,2), of reg pol health] assms(4) unfolding rows_hold_def by blast
  moreover have "is_private_fail_closed (classify_publish_behavior reg (sv_kind event))"
    using assms(3) by (auto simp: is_private_fail_closed_def classify_publish_behavior_def)
  ultimately show ?thesis by (auto simp: sanctioned_frame_def spelled_def)
qed

definition demo_wrap :: signed_event where
  "demo_wrap = \<lparr>sv_id = ''e1'', sv_sig = ''s'', sv_pubkey = ''a'', sv_kind = 1059, sv_tags = [[''p'', ''b'']], sv_content = ''x'', sv_created_at = 5\<rparr>"

definition demo_resolver :: nip65_outbox_resolver where
  "demo_resolver = \<lparr>nr_mailboxes = [], nr_indexer_relays = [], nr_local_write_relays = [''wss://l''], nr_active_account = Some ''a''\<rparr>"

lemma private_envelopes_confined_witness:
  "\<exists>relays raw n. started_by [StartPublish (Publish ''h'' demo_wrap (Explicit [''wss://R/''] VerifiedPrivateInbox)) 10 None] demo_wrap
     (Explicit relays VerifiedPrivateInbox) \<and> raw \<in> set relays \<and> ''wss://r'' = (canonical_relay_identity ^^ Suc n) raw"
proof (rule private_envelopes_confined)
  show "honest_outbox (nip65_resolve demo_resolver)" by (rule nip65_honest)
  show "(''wss://r'', EventFrame demo_wrap) \<in> set (en_queued (publish_run
      [StartPublish (Publish ''h'' demo_wrap (Explicit [''wss://R/''] VerifiedPrivateInbox)) 10 None]
      (engine_new (nip65_resolve demo_resolver) \<lparr>ps_rows = [], ps_failing = None\<rparr> retry_policy_default registry_default)))"
    by code_simp
  show "sv_kind demo_wrap \<in> {KIND_CHAT_MESSAGE, KIND_GIFT_WRAP}" by code_simp
qed (simp add: installs_honest_def)

end
