(* ===== verification/Publish_Tick.thy ===== *)
theory Publish_Tick
  imports Publish_Safety "HOL-Library.Multiset"
begin

text \<open>
  The tick of the publish engine in closed form, and what follows: silent relays are given up after a bounded
  number of ticks, and a tick before the deadline the engine reports changes nothing.
\<close>

section \<open>Loops over the rows\<close>

definition rows_wf :: "publish_engine \<Rightarrow> bool" where
  "rows_wf e \<longleftrightarrow> hm_wf (en_in_flight e) \<and> (\<forall>(h, row) \<in> set (en_in_flight e). bm_wf (if_per_relay row))"

lemma hm_insert_update:
  assumes "hm_wf m" "map_of m k = Some w"
  shows "hm_insert k v m = map (\<lambda>(k', w'). (k', if k' = k then v else w')) m"
  using assms
proof (induction m)
  case (Cons kw m)
  show ?case
  proof (cases "fst kw = k")
    case True
    then have "k \<notin> fst ` set m" using Cons.prems by (cases kw) auto
    then have "map (\<lambda>(k', w'). (k', if k' = k then v else w')) m = m" by (intro map_idI) force
    with True show ?thesis by (cases kw) simp
  next
    case False
    with Cons show ?thesis by (cases kw) simp
  qed
qed simp

lemma rows_wf_row: "rows_wf e \<Longrightarrow> map_of (en_in_flight e) h = Some row \<Longrightarrow> bm_wf (if_per_relay row)"
  by (auto simp: rows_wf_def dest: map_of_SomeD)

abbreviation sent_row :: "publish_engine \<Rightarrow> u64 \<Rightarrow> publish_relay option \<Rightarrow> in_flight_row \<Rightarrow> in_flight_row" where
  "sent_row e now_ms flt row \<equiv> dispatched_row (en_registry e) now_ms flt (en_unavailable_relays e) row"

abbreviation sent_frames :: "publish_engine \<Rightarrow> u64 \<Rightarrow> publish_relay option \<Rightarrow> in_flight_row \<Rightarrow> (publish_relay \<times> frame) list" where
  "sent_frames e now_ms flt row \<equiv> dispatched_frames (en_registry e) now_ms flt (en_unavailable_relays e) row"

lemma dispatch_pending_exact:
  assumes "rows_wf e"
  shows "dispatch_pending_matching flt now_ms h e =
    e\<lparr>en_in_flight := map (\<lambda>(k, row). (k, if k = h then sent_row e now_ms flt row else row)) (en_in_flight e),
      en_queued := en_queued e @ (case map_of (en_in_flight e) h of None \<Rightarrow> [] | Some row \<Rightarrow> sent_frames e now_ms flt row)\<rparr>"
proof (cases "map_of (en_in_flight e) h")
  case None
  then have "h \<notin> fst ` set (en_in_flight e)" by (simp add: map_of_eq_None_iff)
  then have "map (\<lambda>(k, row). (k, if k = h then sent_row e now_ms flt row else row)) (en_in_flight e) = en_in_flight e"
    by (intro map_idI) force
  with None show ?thesis by (simp add: dispatch_pending_matching_def)
next
  case (Some row)
  have "map (\<lambda>(k, x). (k, if k = h then sent_row e now_ms flt row else x)) (en_in_flight e) =
      map (\<lambda>(k, x). (k, if k = h then sent_row e now_ms flt x else x)) (en_in_flight e)"
  proof (rule map_cong, simp)
    fix kv assume kv: "kv \<in> set (en_in_flight e)"
    obtain k x where [simp]: "kv = (k, x)" by fastforce
    have "x = row" if "k = h" using hm_mem_iff [of "en_in_flight e" h x] assms kv that Some by (simp add: rows_wf_def)
    then show "(case kv of (k, x) \<Rightarrow> (k, if k = h then sent_row e now_ms flt row else x)) =
        (case kv of (k, x) \<Rightarrow> (k, if k = h then sent_row e now_ms flt x else x))" by simp
  qed
  with Some assms rows_wf_row [OF assms Some] show ?thesis
    by (simp add: dispatch_pending_matching_def dispatch_due_exact hm_insert_update [OF _ Some] rows_wf_def)
qed

lemma rows_wf_map:
  "rows_wf e \<Longrightarrow> (\<And>k row. bm_wf (if_per_relay row) \<Longrightarrow> bm_wf (if_per_relay (f k row))) \<Longrightarrow>
   en_in_flight e' = map (\<lambda>(k, row). (k, f k row)) (en_in_flight e) \<Longrightarrow> rows_wf e'"
  by (auto simp: rows_wf_def simp del: map_map)

lemma bm_wf_dispatched [simp]: "bm_wf (if_per_relay (dispatched_row reg now_ms flt unavailable row)) = bm_wf (if_per_relay row)"
  by (simp add: dispatched_row_def Let_def del: map_map)

lemma dispatch_all_exact:
  assumes "rows_wf e" "distinct hs"
  shows "fold (dispatch_pending now_ms) hs e =
    e\<lparr>en_in_flight := map (\<lambda>(k, row). (k, if k \<in> set hs then sent_row e now_ms None row else row)) (en_in_flight e),
      en_queued := en_queued e @ concat (map (\<lambda>h. case map_of (en_in_flight e) h of None \<Rightarrow> [] | Some row \<Rightarrow> sent_frames e now_ms None row) hs)\<rparr>"
  using assms
proof (induction hs arbitrary: e)
  case Nil
  have "map (\<lambda>(k, row). (k, row)) (en_in_flight e) = en_in_flight e" by (intro map_idI) auto
  then show ?case by simp
next
  case (Cons h hs)
  let ?e = "dispatch_pending_matching None now_ms h e"
  have step: "?e = e\<lparr>en_in_flight := map (\<lambda>(k, row). (k, if k = h then sent_row e now_ms None row else row)) (en_in_flight e),
      en_queued := en_queued e @ (case map_of (en_in_flight e) h of None \<Rightarrow> [] | Some row \<Rightarrow> sent_frames e now_ms None row)\<rparr>"
    by (rule dispatch_pending_exact [OF Cons.prems(1)])
  have wf: "rows_wf ?e" by (rule rows_wf_map [OF Cons.prems(1), of "\<lambda>k row. if k = h then sent_row e now_ms None row else row"]) (simp_all add: step)
  have same: "en_registry ?e = en_registry e" "en_unavailable_relays ?e = en_unavailable_relays e" by (simp_all add: step)
  have rows: "map (\<lambda>(k, row). (k, if k \<in> set hs then sent_row e now_ms None row else row))
      (map (\<lambda>(k, row). (k, if k = h then sent_row e now_ms None row else row)) (en_in_flight e)) =
    map (\<lambda>(k, row). (k, if k = h \<or> k \<in> set hs then sent_row e now_ms None row else row)) (en_in_flight e)"
    using Cons.prems(2) by (auto simp: comp_def split_def)
  have frames: "map (\<lambda>g. case map_of (en_in_flight ?e) g of None \<Rightarrow> [] | Some row \<Rightarrow> sent_frames e now_ms None row) hs =
    map (\<lambda>g. case map_of (en_in_flight e) g of None \<Rightarrow> [] | Some row \<Rightarrow> sent_frames e now_ms None row) hs"
    using Cons.prems(2) by (intro map_cong) (auto simp: step map_of_values split: option.split)
  have "fold (dispatch_pending now_ms) (h # hs) e = fold (dispatch_pending now_ms) hs ?e" by (simp add: dispatch_pending_def)
  also have "\<dots> = ?e\<lparr>en_in_flight := map (\<lambda>(k, row). (k, if k \<in> set hs then sent_row e now_ms None row else row)) (en_in_flight ?e),
      en_queued := en_queued ?e @ concat (map (\<lambda>g. case map_of (en_in_flight ?e) g of None \<Rightarrow> [] | Some row \<Rightarrow> sent_frames e now_ms None row) hs)\<rparr>"
    using Cons.IH [OF wf] Cons.prems(2) unfolding same by simp
  finally show ?case unfolding frames using rows by (simp add: step del: map_map)
qed

lemma finalize_exact:
  assumes "hm_wf (en_in_flight e)"
  shows "en_in_flight (finalize_completed_rows hs now_ms e) = filter (\<lambda>(h, row). \<not> (h \<in> set hs \<and> is_complete row)) (en_in_flight e)"
  using assms
proof (induction hs arbitrary: e)
  case Nil
  have "filter (\<lambda>(h, row). True) (en_in_flight e) = en_in_flight e" by (simp add: split_def)
  then show ?case by (simp add: finalize_completed_rows_def)
next
  case (Cons h hs)
  have one: "en_in_flight (finalize_row now_ms h e) = filter (\<lambda>(g, row). \<not> (g = h \<and> is_complete row)) (en_in_flight e)"
  proof (cases "map_of (en_in_flight e) h")
    case None
    then have "h \<notin> fst ` set (en_in_flight e)" by (simp add: map_of_eq_None_iff)
    then have "filter (\<lambda>(g, row). \<not> (g = h \<and> is_complete row)) (en_in_flight e) = en_in_flight e"
      by (intro filter_True) force
    with None show ?thesis by (simp add: finalize_row_def)
  next
    case (Some row)
    have only: "row' = row" if "(h, row') \<in> set (en_in_flight e)" for row'
      using hm_mem_iff [OF Cons.prems, of h row'] that Some by simp
    have "filter (\<lambda>(g, row). \<not> (g = h \<and> is_complete row)) (en_in_flight e) =
        (if is_complete row then filter (\<lambda>(g, _). g \<noteq> h) (en_in_flight e) else en_in_flight e)"
    proof (cases "is_complete row")
      case True
      then have "filter (\<lambda>(g, row). \<not> (g = h \<and> is_complete row)) (en_in_flight e) = filter (\<lambda>(g, _). g \<noteq> h) (en_in_flight e)"
        by (intro filter_cong) (auto dest: only)
      with True show ?thesis by simp
    next
      case False
      then have "filter (\<lambda>(g, row). \<not> (g = h \<and> is_complete row)) (en_in_flight e) = en_in_flight e"
        by (intro filter_True) (auto dest: only)
      with False show ?thesis by simp
    qed
    with Some show ?thesis by (simp add: finalize_row_def split_beta Let_def hm_remove_filter)
  qed
  have "hm_wf (en_in_flight (finalize_row now_ms h e))" using Cons.prems by (simp add: one distinct_map_filter)
  from Cons.IH [OF this] show ?case
    by (simp add: finalize_completed_rows_def one) (rule filter_cong, auto)
qed

section \<open>The tick\<close>

definition ticked :: "publish_engine \<Rightarrow> u64 \<Rightarrow> in_flight_row \<Rightarrow> in_flight_row" where
  "ticked e now_ms row = sent_row e now_ms None (sweep_row now_ms e row)"

lemma sweep_row_fields [simp]:
  "bm_wf (if_per_relay (sweep_row now_ms e row)) = bm_wf (if_per_relay row)"
  "if_pending_retries (sweep_row now_ms e row) = if_pending_retries row"
  "if_event (sweep_row now_ms e row) = if_event row"
  "if_relay_reasons (sweep_row now_ms e row) = if_relay_reasons row"
  "if_correlation_id_override (sweep_row now_ms e row) = if_correlation_id_override row"
  by (simp_all add: sweep_row_def sweep_unavailable_timeouts_def sweep_inflight_timeouts_def Let_def del: map_map)

lemma ticked_correlation [simp]: "if_correlation_id_override (ticked e now_ms row) = if_correlation_id_override row"
  by (simp add: ticked_def dispatched_row_def Let_def)

text \<open>The engine after the sweep and the dispatch of every row.\<close>

lemma tick_dispatched:
  assumes "rows_wf e"
  obtains e' where "tick now_ms e = flush_view (finalize_completed_rows (map fst (en_in_flight e)) now_ms e')"
    and "en_in_flight e' = map (\<lambda>(h, row). (h, ticked e now_ms row)) (en_in_flight e)"
    and "en_queued e' = en_queued e @ concat (map (\<lambda>(h, row). sent_frames e now_ms None (sweep_row now_ms e row)) (en_in_flight e))"
    and "en_policy e' = en_policy e" "en_registry e' = en_registry e" "en_unavailable_relays e' = en_unavailable_relays e"
    and "en_pending_terminals e' = en_pending_terminals e" "hm_wf (en_in_flight e')"
proof -
  let ?swept = "e\<lparr>en_in_flight := hm_map_values (sweep_row now_ms e) (en_in_flight e)\<rparr>"
  let ?hs = "map fst (en_in_flight e)"
  have wf: "rows_wf ?swept"
    by (rule rows_wf_map [OF assms, of "\<lambda>_. sweep_row now_ms e"]) (simp_all add: hm_map_values_def)
  have dist: "distinct ?hs" using assms by (simp add: rows_wf_def)
  note all = dispatch_all_exact [OF wf dist, of now_ms]
  have rows: "map (\<lambda>(k, row). (k, if k \<in> set ?hs then sent_row ?swept now_ms None row else row)) (en_in_flight ?swept) =
      map (\<lambda>(h, row). (h, ticked e now_ms row)) (en_in_flight e)"
    by (auto simp: hm_map_values_def ticked_def comp_def split_def)
  have "map (\<lambda>h. case map_of (en_in_flight ?swept) h of None \<Rightarrow> [] | Some row \<Rightarrow> sent_frames ?swept now_ms None row) ?hs =
      map (\<lambda>(h, row). sent_frames e now_ms None (sweep_row now_ms e row)) (en_in_flight e)"
    using assms by (auto simp: rows_wf_def hm_get_map_values)
  note frames = this
  show thesis
  proof (rule that)
    show "tick now_ms e = flush_view (finalize_completed_rows ?hs now_ms (fold (dispatch_pending now_ms) ?hs ?swept))"
      by (simp add: tick_def Let_def)
    show "hm_wf (en_in_flight (fold (dispatch_pending now_ms) ?hs ?swept))"
      unfolding all rows using assms by (simp add: rows_wf_def del: map_map)
  qed (unfold all rows frames, simp_all del: map_map)
qed

theorem tick_rows:
  assumes "rows_wf e"
  shows "en_in_flight (tick now_ms e) =
    map (\<lambda>(h, row). (h, (ticked e now_ms row)\<lparr>if_dirty := False\<rparr>)) (filter (\<lambda>(h, row). \<not> is_complete (ticked e now_ms row)) (en_in_flight e))"
proof -
  obtain e' where e': "tick now_ms e = flush_view (finalize_completed_rows (map fst (en_in_flight e)) now_ms e')"
    "en_in_flight e' = map (\<lambda>(h, row). (h, ticked e now_ms row)) (en_in_flight e)" "hm_wf (en_in_flight e')"
    by (rule tick_dispatched [OF assms]) 
  have "filter (\<lambda>(h, row). \<not> (h \<in> set (map fst (en_in_flight e)) \<and> is_complete row)) (en_in_flight e') =
      filter (\<lambda>(h, row). \<not> is_complete row) (en_in_flight e')"
    by (rule filter_cong) (force simp: e'(2))+
  then show ?thesis by (simp add: e'(1) finalize_exact [OF e'(3)]) (simp add: e'(2) hm_map_values_def filter_map comp_def split_def)
qed

lemma finalize_settings [simp]:
  "en_unavailable_relays (finalize_completed_rows hs now_ms e) = en_unavailable_relays e"
  "en_policy (finalize_completed_rows hs now_ms e) = en_policy e"
  "en_registry (finalize_completed_rows hs now_ms e) = en_registry e"
  "en_queued (finalize_completed_rows hs now_ms e) = en_queued e"
proof -
  have "en_unavailable_relays (finalize_row now_ms h e) = en_unavailable_relays e \<and> en_policy (finalize_row now_ms h e) = en_policy e \<and>
      en_registry (finalize_row now_ms h e) = en_registry e \<and> en_queued (finalize_row now_ms h e) = en_queued e" for h e
    by (simp add: finalize_row_def split_beta Let_def split: option.split)
  then show "en_unavailable_relays (finalize_completed_rows hs now_ms e) = en_unavailable_relays e"
    "en_policy (finalize_completed_rows hs now_ms e) = en_policy e"
    "en_registry (finalize_completed_rows hs now_ms e) = en_registry e"
    "en_queued (finalize_completed_rows hs now_ms e) = en_queued e"
    unfolding finalize_completed_rows_def by (induction hs arbitrary: e) simp_all
qed

lemma tick_settings:
  assumes "rows_wf e"
  shows "en_unavailable_relays (tick now_ms e) = en_unavailable_relays e" "en_policy (tick now_ms e) = en_policy e"
    "en_registry (tick now_ms e) = en_registry e"
    "en_queued (tick now_ms e) = en_queued e @ concat (map (\<lambda>(h, row). sent_frames e now_ms None (sweep_row now_ms e row)) (en_in_flight e))"
  using tick_dispatched [OF assms] by (metis finalize_settings flush_view_fields(3,4,5,7))+

lemma rows_wf_tick: "rows_wf e \<Longrightarrow> rows_wf (tick now_ms e)"
  unfolding rows_wf_def [of "tick now_ms e"]
proof (intro conjI)
  assume e: "rows_wf e"
  then have "hm_wf (filter (\<lambda>(h, row). \<not> is_complete (ticked e now_ms row)) (en_in_flight e))"
    by (simp add: rows_wf_def distinct_map_filter)
  then show "hm_wf (en_in_flight (tick now_ms e))" unfolding tick_rows [OF e] by (simp only: fst_map_values)
  show "\<forall>(h, row) \<in> set (en_in_flight (tick now_ms e)). bm_wf (if_per_relay row)"
    using e unfolding tick_rows [OF e] by (force simp: rows_wf_def ticked_def)
qed

section \<open>Every publish is reported once\<close>

text \<open>The correlation ids owed: those of the rows in flight and those reported and not yet taken.\<close>

definition owed_ids :: "publish_engine \<Rightarrow> string multiset" where
  "owed_ids e =
     mset (map (\<lambda>(h, row). unwrap_or h (if_correlation_id_override row)) (en_in_flight e)) +
     mset (map lt_correlation_id (en_pending_terminals e))"

lemma mset_hm_remove: "hm_wf m \<Longrightarrow> map_of m h = Some row \<Longrightarrow> mset m = add_mset (h, row) (mset (hm_remove h m))"
proof (induction m)
  case (Cons kv m)
  show ?case
  proof (cases "fst kv = h")
    case True
    then have "h \<notin> fst ` set m" using Cons.prems(1) by auto
    then have "hm_remove h m = m" by (simp add: delete_id)
    with True Cons.prems show ?thesis by (cases kv) (simp add: delete_id)
  next
    case False
    with Cons show ?thesis by (cases kv) simp
  qed
qed simp

lemma from_outcome_correlation [simp]: "lt_correlation_id (from_outcome h c t) = unwrap_or h c"
  by (simp add: from_outcome_def Let_def)

lemma finalize_row_owed: "hm_wf (en_in_flight e) \<Longrightarrow> owed_ids (finalize_row now_ms h e) = owed_ids e"
  by (auto simp: owed_ids_def finalize_row_def split_beta Let_def mset_hm_remove [of "en_in_flight e" h] split: option.split)

lemma finalize_owed: "hm_wf (en_in_flight e) \<Longrightarrow> owed_ids (finalize_completed_rows hs now_ms e) = owed_ids e"
proof (induction hs arbitrary: e)
  case (Cons h hs)
  have "hm_wf (en_in_flight (finalize_row now_ms h e))"
    using Cons.prems by (auto simp: finalize_row_def split_beta Let_def AList.distinct_delete split: option.split)
  with Cons show ?case by (simp add: finalize_completed_rows_def finalize_row_owed)
qed (simp add: finalize_completed_rows_def)

lemma flush_owed [simp]: "owed_ids (flush_view e) = owed_ids e"
  by (simp add: owed_ids_def hm_map_values_def comp_def split_def)

lemma tick_owed: "rows_wf e \<Longrightarrow> owed_ids (tick now_ms e) = owed_ids e"
proof -
  assume e: "rows_wf e"
  obtain e' where e': "tick now_ms e = flush_view (finalize_completed_rows (map fst (en_in_flight e)) now_ms e')"
    "en_in_flight e' = map (\<lambda>(h, row). (h, ticked e now_ms row)) (en_in_flight e)" "hm_wf (en_in_flight e')"
    "en_pending_terminals e' = en_pending_terminals e"
    by (rule tick_dispatched [OF e])
  have "owed_ids (tick now_ms e) = owed_ids e'" by (simp add: e'(1) finalize_owed [OF e'(3)])
  also have "\<dots> = owed_ids e" by (simp add: owed_ids_def e'(2,4) comp_def split_def)
  finally show ?thesis .
qed

section \<open>Silent relays\<close>

text \<open>Every unsettled relay is waiting for the answer to at least its \<open>k\<close>-th attempt, sent by \<open>t\<close>.\<close>

definition waiting_since :: "nat \<Rightarrow> u64 \<Rightarrow> publish_engine \<Rightarrow> bool" where
  "waiting_since k t e \<longleftrightarrow>
     rows_wf e \<and> en_unavailable_relays e = [] \<and>
     (\<forall>(h, row) \<in> set (en_in_flight e).
        all_states (\<lambda>s. is_terminal s \<or> (\<exists>sent a. s = InFlight sent a \<and> sent \<le> t \<and> k \<le> a)) (if_per_relay row) \<and>
        (\<forall>(url, due) \<in> set (if_pending_retries row). due \<le> t))"

lemma pending_due: "\<forall>(url, due) \<in> set m. due \<le> t \<Longrightarrow> map_of m url = Some due \<Longrightarrow> due \<le> (t::u64)"
  by (auto dest: map_of_SomeD)

text \<open>What a tick makes of one state when no relay is marked unavailable.\<close>

definition tick_state :: "publish_engine \<Rightarrow> u64 \<Rightarrow> in_flight_row \<Rightarrow> publish_relay \<Rightarrow> per_relay_state \<Rightarrow> per_relay_state" where
  "tick_state e now_ms row url s =
     dispatched (en_registry e) now_ms None [] row url (sweep_inflight_state now_ms (inflight_deadline_ms (en_policy e)) (en_policy e) s)"

lemma dispatched_local:
  assumes "map_of (if_pending_retries row') url = map_of (if_pending_retries row) url" "if_event row' = if_event row"
    "if_relay_reasons row' = if_relay_reasons row"
  shows "dispatched reg now_ms flt unavailable row' url s = dispatched reg now_ms flt unavailable row url s"
  using dispatch_ready_local [OF assms(1)] assms(2,3) by (simp add: dispatched_def fires_def)

lemma ticked_states:
  assumes "en_unavailable_relays e = []"
  shows "if_per_relay (ticked e now_ms row) = map (\<lambda>(url, s). (url, tick_state e now_ms row url s)) (if_per_relay row)"
proof -
  let ?sweep = "sweep_inflight_state now_ms (inflight_deadline_ms (en_policy e)) (en_policy e)"
  have none: "sweep_unavailable_state now_ms d [] url s = s" for d url s by (simp add: sweep_unavailable_state_def)
  have swept: "if_per_relay (sweep_row now_ms e row) = map (\<lambda>(url, s). (url, ?sweep s)) (if_per_relay row)"
    by (simp add: sweep_row_def sweep_unavailable_timeouts_def sweep_inflight_timeouts_def assms none comp_def split_def)
  have "dispatched (en_registry e) now_ms None [] (sweep_row now_ms e row) url s = dispatched (en_registry e) now_ms None [] row url s" for url s
    by (rule dispatched_local) simp_all
  then show ?thesis by (simp add: ticked_def dispatched_row_def Let_def swept assms tick_state_def comp_def split_def)
qed

lemma ticked_pending: "set (if_pending_retries (ticked e now_ms row)) \<subseteq> set (if_pending_retries row)"
  by (auto simp: ticked_def dispatched_row_def Let_def)

lemma tick_state_again:
  assumes "\<forall>(url, due) \<in> set (if_pending_retries row). due \<le> t" "t + inflight_deadline_ms (en_policy e) \<le> now_ms"
    "sent \<le> t" "k \<le> a"
  shows "is_terminal (tick_state e now_ms row url (InFlight sent a)) \<or>
    (a < transient_max_retries (en_policy e) \<and> tick_state e now_ms row url (InFlight sent a) = InFlight now_ms (a + 1))"
proof (cases "transient_max_retries (en_policy e) \<le> a")
  case True
  have "inflight_deadline_ms (en_policy e) \<le> now_ms - sent" using assms(2,3) by simp
  with True show ?thesis by (simp add: tick_state_def sweep_inflight_state_def dispatched_def dispatch_ready_def is_terminal_def)
next
  case False
  have late: "inflight_deadline_ms (en_policy e) \<le> now_ms - sent" using assms(2,3) by simp
  have "due \<le> now_ms" if "map_of (if_pending_retries row) url = Some due" for due
    using pending_due [OF assms(1) that] assms(2) by simp
  with False late show ?thesis
    by (auto simp: tick_state_def sweep_inflight_state_def dispatched_def dispatch_ready_def is_terminal_def state_attempt_def split: option.split)
qed

lemma waiting_tick:
  assumes "waiting_since k t e" "t + inflight_deadline_ms (en_policy e) \<le> now_ms"
  shows "waiting_since (k + 1) now_ms (tick now_ms e)"
    and "transient_max_retries (en_policy e) \<le> k \<Longrightarrow> en_in_flight (tick now_ms e) = []"
proof -
  have wf: "rows_wf e" and none: "en_unavailable_relays e = []" using assms(1) by (simp_all add: waiting_since_def)
  have state: "is_terminal (tick_state e now_ms row url s) \<or>
      (k < transient_max_retries (en_policy e) \<and> (\<exists>a. tick_state e now_ms row url s = InFlight now_ms a \<and> k + 1 \<le> a))"
    if "(h, row) \<in> set (en_in_flight e)" "(url, s) \<in> set (if_per_relay row)" for h row url s
  proof -
    have due: "\<forall>(url, due) \<in> set (if_pending_retries row). due \<le> t"
      and "is_terminal s \<or> (\<exists>sent a. s = InFlight sent a \<and> sent \<le> t \<and> k \<le> a)"
      using assms(1) that by (fastforce simp: waiting_since_def all_states_def list_all_iff)+
    then consider "is_terminal s" | sent a where "s = InFlight sent a" "sent \<le> t" "k \<le> a" by blast
    then show ?thesis
    proof cases
      case 1
      then have "tick_state e now_ms row url s = s"
        by (auto simp: tick_state_def sweep_inflight_state_def dispatched_def dispatch_ready_def is_terminal_def split: per_relay_state.splits)
      with 1 show ?thesis by simp
    next
      case 2
      then show ?thesis using tick_state_again [OF due assms(2) 2(2) 2(3), of url] by auto
    qed
  qed
  have rows: "\<exists>row'. (h, row') \<in> set (en_in_flight e) \<and> row = (ticked e now_ms row')\<lparr>if_dirty := False\<rparr>"
    if "(h, row) \<in> set (en_in_flight (tick now_ms e))" for h row
    using that by (auto simp: tick_rows [OF wf])
  have pending: "due \<le> now_ms" if "(h, row) \<in> set (en_in_flight e)" "(url, due) \<in> set (if_pending_retries (ticked e now_ms row))" for h row url due
    using assms that ticked_pending [of e now_ms row] by (fastforce simp: waiting_since_def)
  show "waiting_since (k + 1) now_ms (tick now_ms e)"
    unfolding waiting_since_def
  proof (intro conjI)
    show "rows_wf (tick now_ms e)" by (rule rows_wf_tick [OF wf])
    show "en_unavailable_relays (tick now_ms e) = []" by (simp add: tick_settings [OF wf] none)
    show "\<forall>(h, row) \<in> set (en_in_flight (tick now_ms e)).
        all_states (\<lambda>s. is_terminal s \<or> (\<exists>sent a. s = InFlight sent a \<and> sent \<le> now_ms \<and> k + 1 \<le> a)) (if_per_relay row) \<and>
        (\<forall>(url, due) \<in> set (if_pending_retries row). due \<le> now_ms)"
    proof (intro ballI, clarify, intro conjI)
      fix h row assume "(h, row) \<in> set (en_in_flight (tick now_ms e))"
      then obtain row' where row': "(h, row') \<in> set (en_in_flight e)" "row = (ticked e now_ms row')\<lparr>if_dirty := False\<rparr>" using rows by blast
      show "all_states (\<lambda>s. is_terminal s \<or> (\<exists>sent a. s = InFlight sent a \<and> sent \<le> now_ms \<and> k + 1 \<le> a)) (if_per_relay row)"
        using state [OF row'(1)] by (fastforce simp: row'(2) ticked_states [OF none] all_states_def list_all_iff)
      show "\<forall>(url, due) \<in> set (if_pending_retries row). due \<le> now_ms" using pending [OF row'(1)] by (auto simp: row'(2))
    qed
  qed
  show "en_in_flight (tick now_ms e) = []" if "transient_max_retries (en_policy e) \<le> k"
  proof -
    have "is_complete (ticked e now_ms row)" if "(h, row) \<in> set (en_in_flight e)" for h row
      using state [OF that] \<open>transient_max_retries (en_policy e) \<le> k\<close>
      by (force simp: is_complete_def list_all_iff ticked_states [OF none])
    then show ?thesis by (auto simp: tick_rows [OF wf] filter_empty_conv)
  qed
qed

text \<open>The first tick sends everything that is due.\<close>

lemma waiting_first:
  assumes wf: "rows_wf e" and none: "en_unavailable_relays e = []"
    and bounded: "\<forall>(h, row) \<in> set (en_in_flight e). all_states (attempts_bounded (en_policy e)) (if_per_relay row)"
    and sent: "\<forall>(h, row) \<in> set (en_in_flight e). all_states (\<lambda>s. case s of InFlight sent _ \<Rightarrow> sent \<le> t | _ \<Rightarrow> True) (if_per_relay row)"
    and due: "\<forall>(h, row) \<in> set (en_in_flight e). \<forall>(url, due) \<in> set (if_pending_retries row). due \<le> t"
  shows "waiting_since 1 t (tick t e)"
proof -
  have state: "is_terminal (tick_state e t row url s) \<or> (\<exists>sent a. tick_state e t row url s = InFlight sent a \<and> sent \<le> t \<and> 1 \<le> a)"
    if "(h, row) \<in> set (en_in_flight e)" "(url, s) \<in> set (if_per_relay row)" for h row url s
  proof -
    have b: "attempts_bounded (en_policy e) s" and s: "case s of InFlight sent _ \<Rightarrow> sent \<le> t | _ \<Rightarrow> True"
      using bounded sent that by (fastforce simp: all_states_def list_all_iff)+
    have "\<forall>(url, due) \<in> set (if_pending_retries row). due \<le> t" using due that(1) by fast
    note d = pending_due [OF this, of url]
    show ?thesis using b s d
      by (cases s) (auto simp: tick_state_def sweep_inflight_state_def dispatched_def dispatch_ready_def is_terminal_def
        attempts_bounded_def state_attempt_def split: option.split)
  qed
  show ?thesis unfolding waiting_since_def
  proof (intro conjI ballI, goal_cases)
    case (3 hrow)
    then obtain h row where "(h, row) \<in> set (en_in_flight e)" "hrow = (h, (ticked e t row)\<lparr>if_dirty := False\<rparr>)"
      by (auto simp: tick_rows [OF wf])
    then show ?case using state [of h row] due ticked_pending [of e t row]
      by (fastforce simp: ticked_states [OF none] all_states_def list_all_iff)
  qed (simp_all add: rows_wf_tick [OF wf] tick_settings [OF wf] none)
qed

lemma waiting_ticks:
  assumes "waiting_since k t e" "successively (\<lambda>a b. a + inflight_deadline_ms (en_policy e) \<le> b) (t # ts)"
    and "1 \<le> length ts" "transient_max_retries (en_policy e) < k + length ts"
  shows "en_in_flight (fold tick ts e) = []"
  using assms
proof (induction ts arbitrary: k t e)
  case (Cons now ts)
  have step: "t + inflight_deadline_ms (en_policy e) \<le> now" using Cons.prems(2) by simp
  note tick = waiting_tick [OF Cons.prems(1) step]
  have wf: "rows_wf e" using Cons.prems(1) by (simp add: waiting_since_def)
  show ?case
  proof (cases ts)
    case Nil
    then show ?thesis using Cons.prems(4) tick(2) by simp
  next
    case (Cons b bs)
    then show ?thesis using Cons.IH [OF tick(1)] Cons.prems by (simp add: tick_settings [OF wf])
  qed
qed simp

lemma ticks_owed: "rows_wf e \<Longrightarrow> owed_ids (fold tick ts e) = owed_ids e"
  by (induction ts arbitrary: e) (simp_all add: tick_owed rows_wf_tick)

lemma reachable_attempts:
  "rows_hold reg pol (\<lambda>row. bm_wf (if_per_relay row) \<and> all_states (attempts_bounded pol) (if_per_relay row))
     (\<lambda>r. all_states (attempts_bounded pol) (pr_per_relay r)) (\<lambda>_. True) (\<lambda>_. True)
     (publish_run ops (engine_new outbox \<lparr>ps_rows = [], ps_failing = health\<rparr> pol reg))"
  by (intro attempts.holds_run rows_hold_new TrueI) (auto simp: list_all_iff op_admitted_def split: publish_op.split publish_action.split)

lemma reachable_rows_wf: "rows_wf (publish_run ops (engine_new outbox \<lparr>ps_rows = [], ps_failing = health\<rparr> pol reg))"
  using reachable_attempts [of reg pol ops outbox health] by (auto simp: rows_hold_def rows_wf_def)

text \<open>C38. When the relays stay silent, every publish ends: from any reachable state without unavailable relays,
  a tick and then \<open>max 1 transient_max_retries\<close> ticks, each at least the in-flight deadline after the last, leave no row in
  flight, and each row that was in flight has been reported exactly once under its correlation id.\<close>

theorem silent_relays_given_up:
  assumes "e = publish_run ops (engine_new outbox \<lparr>ps_rows = [], ps_failing = health\<rparr> pol reg)"
    and "en_unavailable_relays e = []"
    and "\<forall>(h, row) \<in> set (en_in_flight e). all_states (\<lambda>s. case s of InFlight sent _ \<Rightarrow> sent \<le> t | _ \<Rightarrow> True) (if_per_relay row)"
    and "\<forall>(h, row) \<in> set (en_in_flight e). \<forall>(url, due) \<in> set (if_pending_retries row). due \<le> t"
    and "successively (\<lambda>a b. a + inflight_deadline_ms pol \<le> b) (t # ts)" "max 1 (transient_max_retries pol) \<le> length ts"
  shows "en_in_flight (fold tick (t # ts) e) = [] \<and>
    mset (map lt_correlation_id (en_pending_terminals (fold tick (t # ts) e))) =
      mset (map (\<lambda>(h, row). unwrap_or h (if_correlation_id_override row)) (en_in_flight e)) +
      mset (map lt_correlation_id (en_pending_terminals e))"
proof -
  have pol: "en_policy e = pol" and wf: "rows_wf e"
    and bounded: "\<forall>(h, row) \<in> set (en_in_flight e). all_states (attempts_bounded (en_policy e)) (if_per_relay row)"
    using reachable_attempts [of reg pol ops outbox health] reachable_rows_wf [of ops outbox health pol reg] unfolding assms(1)
    by (auto simp: rows_hold_def)
  have "waiting_since 1 t (tick t e)" by (rule waiting_first [OF wf assms(2) bounded assms(3,4)])
  then have "en_in_flight (fold tick ts (tick t e)) = []"
    using assms(5,6) by (intro waiting_ticks [where k = 1]) (auto simp: tick_settings [OF wf] pol)
  moreover have "owed_ids (fold tick (t # ts) e) = owed_ids e" by (rule ticks_owed [OF wf])
  ultimately show ?thesis by (simp add: owed_ids_def)
qed

definition demo_started :: publish_engine where
  "demo_started = publish_run [StartPublish (Publish ''h'' demo_wrap (Explicit [''wss://R/'', ''wss://q''] VerifiedPrivateInbox)) 10 None]
     (engine_new (nip65_resolve demo_resolver) \<lparr>ps_rows = [], ps_failing = None\<rparr> retry_policy_default registry_default)"

lemma silent_relays_given_up_witness:
  "en_in_flight (fold tick [10, 30010, 60010, 90010] demo_started) = [] \<and>
   mset (map lt_correlation_id (en_pending_terminals (fold tick [10, 30010, 60010, 90010] demo_started))) =
     mset (map (\<lambda>(h, row). unwrap_or h (if_correlation_id_override row)) (en_in_flight demo_started)) +
     mset (map lt_correlation_id (en_pending_terminals demo_started))"
proof (rule silent_relays_given_up [OF demo_started_def])
  show "en_unavailable_relays demo_started = []" by code_simp
  show "\<forall>(h, row) \<in> set (en_in_flight demo_started).
      all_states (\<lambda>s. case s of InFlight sent _ \<Rightarrow> sent \<le> 10 | _ \<Rightarrow> True) (if_per_relay row)" by code_simp
  show "\<forall>(h, row) \<in> set (en_in_flight demo_started). \<forall>(url, due) \<in> set (if_pending_retries row). due \<le> 10" by code_simp
  show "successively (\<lambda>a b. a + inflight_deadline_ms retry_policy_default \<le> b) [10, 30010, 60010, 90010]"
    by (simp add: retry_policy_default_def default_inflight_deadline_ms_def)
  show "max 1 (transient_max_retries retry_policy_default) \<le> length [30010, 60010, 90010 :: u64]" by (simp add: retry_policy_default_def)
qed

end
