(* ===== verification/Publish_Durable.thy ===== *)
theory Publish_Durable
  imports Publish_Tick
begin

text \<open>
  Rows and records of the publish engine: a row in flight always has work left, and while the backend
  works every row in flight has a stored record from which a restart recovers it.
\<close>

section \<open>Live rows\<close>

definition live_rows :: "publish_engine \<Rightarrow> bool" where
  "live_rows e \<longleftrightarrow> (\<forall>(h, row) \<in> set (en_in_flight e). \<not> is_complete row)"

lemma is_complete_clean [simp]: "is_complete (row\<lparr>if_dirty := d\<rparr>) = is_complete row"
  by (simp add: is_complete_def)

lemma live_rows_flush [simp]: "live_rows (flush_view e) = live_rows e"
  by (auto simp: live_rows_def hm_map_values_def)

lemma live_rows_put: "live_rows e \<Longrightarrow> \<not> is_complete row \<Longrightarrow> live_rows (e\<lparr>en_in_flight := hm_insert h row (en_in_flight e)\<rparr>)"
  using set_hm_insert [of h row "en_in_flight e"] by (auto simp: live_rows_def)

lemma live_rows_finalize:
  assumes "hm_wf (en_in_flight e)" "\<forall>(h, row) \<in> set (en_in_flight e). h \<notin> set hs \<longrightarrow> \<not> is_complete row"
  shows "live_rows (finalize_completed_rows hs now_ms e)"
  using assms by (auto simp: live_rows_def finalize_exact)

lemma not_complete_iff: "\<not> is_complete row \<longleftrightarrow> (\<exists>(url, s) \<in> set (if_per_relay row). \<not> is_terminal s)"
  by (auto simp: is_complete_def list_all_iff)

lemma live_at: "map_of (if_per_relay row) url = Some s \<Longrightarrow> \<not> is_terminal s \<Longrightarrow> \<not> is_complete row"
  unfolding not_complete_iff by (blast dest: map_of_SomeD)

lemma demote_row_live: "demote_row url row = Some row' \<Longrightarrow> \<not> is_complete row'"
proof -
  assume "demote_row url row = Some row'"
  then have "map_of (if_per_relay row') url = Some Pending"
    by (auto simp: demote_row_def map_of_bm_insert split: option.splits per_relay_state.splits)
  then show ?thesis by (rule live_at) (simp add: is_terminal_def)
qed

lemma demote_row_fields:
  assumes "demote_row url row = Some row'"
  shows "if_event row' = if_event row" "if_target row' = if_target row" "bm_wf (if_per_relay row) \<Longrightarrow> bm_wf (if_per_relay row')"
  using assms by (auto simp: demote_row_def bm_wf_insert split: option.splits per_relay_state.splits)

abbreviation demoted :: "publish_relay \<Rightarrow> in_flight_row \<Rightarrow> in_flight_row" where
  "demoted url row \<equiv> unwrap_or row (demote_row url row)"

lemma demoted_fields:
  "if_event (demoted url row) = if_event row" "if_target (demoted url row) = if_target row"
  "bm_wf (if_per_relay row) \<Longrightarrow> bm_wf (if_per_relay (demoted url row))" "\<not> is_complete row \<Longrightarrow> \<not> is_complete (demoted url row)"
  by (cases "demote_row url row"; simp add: demote_row_fields demote_row_live)+

section \<open>Recoverable rows\<close>

text \<open>A record from which a row is recovered.\<close>

definition records_row :: "publish_store \<Rightarrow> publish_handle \<Rightarrow> in_flight_row \<Rightarrow> bool" where
  "records_row st h row \<longleftrightarrow>
     (\<exists>r. map_of (ps_rows st) h = Some r \<and> pr_handle r = h \<and> pr_event r = if_event row \<and> pr_target r = if_target row \<and>
        (\<exists>(url, s) \<in> set (pr_per_relay r). \<not> is_terminal s))"

definition durable :: "publish_engine \<Rightarrow> bool" where
  "durable e \<longleftrightarrow>
     rows_wf e \<and> ps_failing (en_store e) = None \<and> hm_wf (ps_rows (en_store e)) \<and>
     (\<forall>(h, r) \<in> set (ps_rows (en_store e)). pr_handle r = h) \<and> (\<forall>(h, row) \<in> set (en_in_flight e). records_row (en_store e) h row)"

lemma durable_wf: "durable e \<Longrightarrow> rows_wf e"
  by (simp add: durable_def)

lemma records_row_same: "records_row st h row \<Longrightarrow> if_event row' = if_event row \<Longrightarrow> if_target row' = if_target row \<Longrightarrow> records_row st h row'"
  by (simp add: records_row_def)

lemma records_row_upsert:
  assumes "ps_failing st = None"
  shows "h' \<noteq> h \<Longrightarrow> records_row (snd (store_upsert (record_of h' row') st)) h row = records_row st h row"
    and "\<not> is_complete row \<Longrightarrow> records_row (snd (store_upsert (record_of h row) st)) h row"
  using assms by (auto simp: records_row_def hash_map.get_put not_complete_iff)

lemma records_row_delete: "h' \<noteq> h \<Longrightarrow> records_row (snd (store_delete h' st)) h row = records_row st h row"
  by (auto simp: records_row_def hash_map.get_del)

text \<open>Storing a live row makes the engine durable where only that row was not.\<close>

lemma durable_persist:
  assumes "rows_wf e" "ps_failing (en_store e) = None" "hm_wf (ps_rows (en_store e))"
    and "\<forall>(h, r) \<in> set (ps_rows (en_store e)). pr_handle r = h"
    and others: "\<forall>(g, row) \<in> set (en_in_flight e). g \<noteq> h \<longrightarrow> records_row (en_store e) g row"
    and row: "map_of (en_in_flight e) h = Some row" "\<not> is_complete row"
  shows "durable (snd (persist h e))" "fst (persist h e) = None"
proof -
  show "fst (persist h e) = None" using assms(2) row by (simp add: persist_store)
  have "records_row (en_store (snd (persist h e))) g x" if "(g, x) \<in> set (en_in_flight e)" for g x
  proof (cases "g = h")
    case True
    then have "x = row" using that row(1) assms(1) hm_mem_iff [of "en_in_flight e" h x] by (simp add: rows_wf_def)
    then show ?thesis using True records_row_upsert(2) [OF assms(2) row(2), of h] row(1) by (simp add: persist_store)
  next
    case False
    then have "records_row (en_store e) g x" using others that by auto
    then show ?thesis using False records_row_upsert(1) [OF assms(2), of h g row x] row(1) by (simp add: persist_store)
  qed
  moreover have "\<forall>(h, r) \<in> set (ps_rows (en_store (snd (persist h e)))). pr_handle r = h"
    using assms(2,4) row(1) set_hm_insert [of h "record_of h row" "ps_rows (en_store e)"] by (auto simp: persist_store)
  ultimately show "durable (snd (persist h e))" using assms(1-3) row(1)
    by (auto simp: durable_def persist_store rows_wf_def AList.distinct_update)
qed

lemma durable_put_persist:
  assumes "durable e" "bm_wf (if_per_relay row)" "\<not> is_complete row"
  shows "durable (snd (persist h (e\<lparr>en_in_flight := hm_insert h row (en_in_flight e)\<rparr>)))"
    and "fst (persist h (e\<lparr>en_in_flight := hm_insert h row (en_in_flight e)\<rparr>)) = None"
proof -
  let ?e = "e\<lparr>en_in_flight := hm_insert h row (en_in_flight e)\<rparr>"
  have wf: "rows_wf ?e" using assms(1,2) set_hm_insert [of h row "en_in_flight e"]
    by (auto simp: durable_def rows_wf_def AList.distinct_update)
  have others: "\<forall>(g, x) \<in> set (en_in_flight ?e). g \<noteq> h \<longrightarrow> records_row (en_store ?e) g x"
    using assms(1) set_hm_insert [of h row "en_in_flight e"] by (auto simp: durable_def)
  have "map_of (en_in_flight ?e) h = Some row" by (simp add: hash_map.get_put)
  from durable_persist [OF wf _ _ _ others this assms(3)] assms(1)
  show "durable (snd (persist h ?e))" "fst (persist h ?e) = None" by (simp_all add: durable_def)
qed

lemma durable_map:
  assumes "durable e" "\<And>row. if_event (f row) = if_event row" "\<And>row. if_target (f row) = if_target row"
    and "\<And>row. bm_wf (if_per_relay row) \<Longrightarrow> bm_wf (if_per_relay (f row))"
  shows "durable (e\<lparr>en_in_flight := hm_map_values f (en_in_flight e)\<rparr>)"
proof -
  have "rows_wf (e\<lparr>en_in_flight := hm_map_values f (en_in_flight e)\<rparr>)"
    by (rule rows_wf_map [OF durable_wf [OF assms(1)], of "\<lambda>_. f"]) (simp_all add: hm_map_values_def assms(4))
  then show ?thesis using assms(1-3) records_row_same by (fastforce simp: durable_def hm_map_values_def)
qed

lemma durable_core: "durable (core e) = durable e"
  by (simp add: durable_def rows_wf_def)

lemma durable_fields:
  assumes "durable e" "en_in_flight e' = en_in_flight e" "en_store e' = en_store e"
  shows "durable e'"
  using assms by (simp add: durable_def rows_wf_def)

lemma durable_flush: "durable e \<Longrightarrow> durable (flush_view e)"
  by (rule durable_fields [OF durable_map [of e "\<lambda>row. row\<lparr>if_dirty := False\<rparr>"]]) simp_all

lemma durable_drop: "durable e \<Longrightarrow> en_in_flight e' = hm_remove h (en_in_flight e) \<Longrightarrow> en_store e' = snd (store_delete h (en_store e)) \<Longrightarrow> durable e'"
proof -
  assume e: "durable e" and flt: "en_in_flight e' = hm_remove h (en_in_flight e)" and st: "en_store e' = snd (store_delete h (en_store e))"
  have "records_row (en_store e') g row" if "(g, row) \<in> set (hm_remove h (en_in_flight e))" for g row
  proof -
    have "(g, row) \<in> set (en_in_flight e)" "h \<noteq> g" using that by (auto simp: hm_remove_filter)
    then show ?thesis using e records_row_delete [of h g "en_store e" row] by (auto simp: durable_def st)
  qed
  then show ?thesis using e set_hm_remove [of h "en_in_flight e"] set_hm_remove [of h "ps_rows (en_store e)"]
    by (auto simp: durable_def rows_wf_def flt st AList.distinct_delete)
qed

lemma durable_finalize: "durable e \<Longrightarrow> durable (finalize_completed_rows hs now_ms e)"
proof -
  have "durable (finalize_row now_ms h e)" if "durable e" for h e
    by (auto simp: finalize_row_def split_beta Let_def that intro!: durable_drop [OF that] split: option.split)
  then show "durable e \<Longrightarrow> durable (finalize_completed_rows hs now_ms e)"
    unfolding finalize_completed_rows_def by (induction hs arbitrary: e) simp_all
qed

lemma dispatched_row_fields [simp]:
  "if_event (dispatched_row reg now_ms flt unavailable row) = if_event row"
  "if_target (dispatched_row reg now_ms flt unavailable row) = if_target row"
  "if_correlation_id_override (dispatched_row reg now_ms flt unavailable row) = if_correlation_id_override row"
  by (simp_all add: dispatched_row_def Let_def)

lemma durable_dispatch: "durable e \<Longrightarrow> durable (dispatch_pending_matching flt now_ms h e)"
proof -
  assume e: "durable e"
  have "durable (e\<lparr>en_in_flight := map (\<lambda>(k, row). (k, if k = h then sent_row e now_ms flt row else row)) (en_in_flight e)\<rparr>)"
    using e rows_wf_map [OF durable_wf [OF e], of "\<lambda>k row. if k = h then sent_row e now_ms flt row else row"] records_row_same
    by (fastforce simp: durable_def)
  then show ?thesis unfolding dispatch_pending_exact [OF durable_wf [OF e]] by (rule durable_fields) simp_all
qed

section \<open>Live rows in every operation\<close>

text \<open>Well-formed rows, none of them complete.\<close>

definition resting :: "publish_engine \<Rightarrow> bool" where
  "resting e \<longleftrightarrow> rows_wf e \<and> live_rows e"

lemma resting_fields: "resting e \<Longrightarrow> en_in_flight e' = en_in_flight e \<Longrightarrow> resting e'"
  by (simp add: resting_def rows_wf_def live_rows_def)

lemma resting_put: "resting e \<Longrightarrow> bm_wf (if_per_relay row) \<Longrightarrow> \<not> is_complete row \<Longrightarrow> resting (e\<lparr>en_in_flight := hm_insert h row (en_in_flight e)\<rparr>)"
  using set_hm_insert [of h row "en_in_flight e"] by (auto simp: resting_def live_rows_put rows_wf_def AList.distinct_update)

lemma resting_persist [simp]: "resting (snd (persist h e)) = resting e"
  by (simp add: resting_def rows_wf_def live_rows_def)

lemma resting_persist_all [simp]: "resting (snd (persist_all hs e)) = resting e"
  by (induction hs arbitrary: e) simp_all

lemma resting_drop: "resting e \<Longrightarrow> en_in_flight e' = hm_remove h (en_in_flight e) \<Longrightarrow> resting e'"
  using set_hm_remove [of h "en_in_flight e"] by (auto simp: resting_def rows_wf_def live_rows_def AList.distinct_delete)

lemma rows_wf_flush: "rows_wf e \<Longrightarrow> rows_wf (flush_view e)"
  by (rule rows_wf_map [of e "\<lambda>_ row. row\<lparr>if_dirty := False\<rparr>"]) (simp_all add: hm_map_values_def)

lemma resting_flush: "resting e \<Longrightarrow> resting (flush_view e)"
  by (simp add: resting_def rows_wf_flush)

lemma rows_wf_finalize: "rows_wf e \<Longrightarrow> rows_wf (finalize_completed_rows hs now_ms e)"
  by (auto simp: rows_wf_def finalize_exact distinct_map_filter)

text \<open>An operation on one row that ends by finalizing it.\<close>

lemma resting_dispatch_finalize:
  assumes "rows_wf e" "\<forall>(g, row) \<in> set (en_in_flight e). g \<noteq> h \<longrightarrow> \<not> is_complete row"
  shows "resting (finalize_completed_rows [h] now_ms (dispatch_pending now_ms h e))"
proof -
  let ?e = "dispatch_pending now_ms h e"
  have rows: "en_in_flight ?e = map (\<lambda>(k, row). (k, if k = h then sent_row e now_ms None row else row)) (en_in_flight e)"
    by (simp add: dispatch_pending_def dispatch_pending_exact [OF assms(1)])
  have wf: "rows_wf ?e" by (rule rows_wf_map [OF assms(1) _ rows]) simp
  have "live_rows (finalize_completed_rows [h] now_ms ?e)"
    using wf assms(2) by (intro live_rows_finalize) (auto simp: rows rows_wf_def simp del: map_map)
  then show ?thesis by (simp add: resting_def rows_wf_finalize [OF wf])
qed

lemma resting_demote:
  assumes "resting e"
  shows "resting (snd (demote_inflight_to_pending url e))"
proof -
  let ?e = "e\<lparr>en_in_flight := hm_map_values (demoted url) (en_in_flight e)\<rparr>"
  have "rows_wf ?e"
    by (rule rows_wf_map [of e "\<lambda>_. demoted url"]) (insert assms, simp_all add: resting_def hm_map_values_def demoted_fields)
  moreover have "live_rows ?e"
    using assms demoted_fields(4) by (fastforce simp: resting_def live_rows_def hm_map_values_def)
  ultimately have "resting ?e" by (simp add: resting_def)
  then show ?thesis by (simp add: demote_inflight_to_pending_def Let_def)
qed

lemma resting_park: "resting e \<Longrightarrow> resting (snd (park_relay_awaiting_auth url e))"
proof -
  assume "resting e"
  then have "resting (snd (demote_inflight_to_pending u (e\<lparr>en_unavailable_relays := un\<rparr>)))" for u un
    by (intro resting_demote) (rule resting_fields, simp_all)
  then show ?thesis by (simp add: park_relay_awaiting_auth_def Let_def resting_flush)
qed

lemma resting_unavailable: "resting e \<Longrightarrow> resting (snd (mark_relay_unavailable url t e))"
proof -
  assume "resting e"
  then have "resting (snd (demote_inflight_to_pending u (e\<lparr>en_unavailable_relays := un\<rparr>)))" for u un
    by (intro resting_demote) (rule resting_fields, simp_all)
  then show ?thesis by (simp add: mark_relay_unavailable_def Let_def resting_flush)
qed

lemma apply_verdict_wf: "bm_wf (if_per_relay row) \<Longrightarrow> apply_verdict row url v t = (row', park) \<Longrightarrow> bm_wf (if_per_relay row')"
  by (auto simp: apply_verdict_def bm_wf_insert split: retry_verdict.splits if_splits)

lemma apply_verdict_fields:
  "apply_verdict row url v t = (row', park) \<Longrightarrow> if_event row' = if_event row \<and> if_target row' = if_target row"
  by (auto simp: apply_verdict_def split: retry_verdict.splits if_splits)

lemma apply_verdict_park: "apply_verdict row url v t = (row', True) \<Longrightarrow> row' = row"
  by (auto simp: apply_verdict_def split: retry_verdict.splits if_splits)

lemma resting_core: "resting (core e) = resting e"
  by (simp add: resting_def rows_wf_def live_rows_def)

lemma hm_remove_insert [simp]: "hm_remove k (hm_insert k v m) = hm_remove k m"
  by (induction m) (auto simp: AList.delete_eq)

lemma resting_on_ack:
  assumes "resting e"
  shows "resting (on_ack handle ack now_ms e)"
proof (cases "map_of (en_in_flight e) handle")
  case row: (Some row)
  let ?url = "canonical_relay_identity (ack_relay_url ack)"
  have wf: "bm_wf (if_per_relay row)" using assms row by (auto simp: resting_def intro: rows_wf_row)
  have live: "\<not> is_complete row" using assms row by (auto simp: resting_def live_rows_def dest: map_of_SomeD)
  show ?thesis
  proof (cases "map_of (if_per_relay row) ?url")
    case (Some s)
    obtain row' park where v: "apply_verdict row ?url (apply_ack s ack (en_policy e) now_ms) now_ms = (row', park)" by (meson surj_pair)
    let ?e = "e\<lparr>en_in_flight := hm_insert handle row' (en_in_flight e)\<rparr>"
    have wf': "bm_wf (if_per_relay row')" by (rule apply_verdict_wf [OF wf v])
    have parked: "resting (snd (park_relay_awaiting_auth ?url ?e))" if park
    proof (intro resting_park resting_put [OF assms wf'])
      have "row' = row" using v that by (intro apply_verdict_park [of row ?url "apply_ack s ack (en_policy e) now_ms" now_ms]) simp
      then show "\<not> is_complete row'" using live by simp
    qed
    have settled: "resting ((snd (settle_row handle row' now_ms ?e))\<lparr>en_in_flight := hm_remove handle (en_in_flight ?e)\<rparr>)"
      by (rule resting_drop [OF assms]) simp
    have "resting (core (on_ack handle ack now_ms e))"
      unfolding core_on_ack [OF row Some v] resting_core Let_def
      using parked settled resting_put [OF assms wf'] by (intro resting_flush) auto
    then show ?thesis by (simp only: resting_core)
  qed (simp add: on_ack_def row assms)
qed (simp add: on_ack_def assms)

lemma started_row_live: "relay_map \<noteq> [] \<Longrightarrow> \<not> is_complete (started_row event target correlation relay_map)"
  by (cases relay_map) (auto simp: is_complete_def started_row_def is_terminal_def)

lemma started_row_wf [simp]: "bm_wf (if_per_relay (started_row event target correlation (relay_map_of known resolved)))"
  using bm_wf_relay_map_of by (simp add: started_row_def comp_def split_def)

lemma resting_start:
  assumes "resting e"
  shows "resting (snd (start_publish_inner handle event target correlation now_ms e))"
proof -
  let ?map = "relay_map_of (\<lambda>_. False) (resolve_row event target e)"
  let ?e = "snd (persist handle (e\<lparr>en_in_flight := hm_insert handle (started_row event target correlation ?map) (en_in_flight e)\<rparr>))"
  have put: "resting ?e" if "?map \<noteq> []"
    using that by (simp add: resting_put [OF assms] started_row_live)
  then have "resting (finalize_completed_rows [handle] now_ms (dispatch_pending now_ms handle ?e))" if "?map \<noteq> []"
    using that by (intro resting_dispatch_finalize) (auto simp: resting_def live_rows_def)
  with put show ?thesis using resting_fields [OF assms, of "emit_no_targets handle event correlation now_ms e"] assms
    by (simp add: start_publish_inner_def Let_def started_row_def [symmetric] resting_flush)
qed

lemma resting_retry:
  assumes "resting e"
  shows "resting (snd (retry_now handle now_ms e))"
proof (cases "map_of (en_in_flight e) handle")
  case (Some row)
  let ?row = "row\<lparr>if_pending_retries := fold hm_remove (map fst (filter (\<lambda>(_, s). \<not> is_terminal s) (if_per_relay row))) (if_pending_retries row), if_dirty := True\<rparr>"
  let ?e = "snd (persist handle (e\<lparr>en_in_flight := hm_insert handle ?row (en_in_flight e)\<rparr>))"
  have "\<not> is_complete row" using assms Some by (auto simp: resting_def live_rows_def dest: map_of_SomeD)
  then have "\<not> is_complete ?row" by (simp add: is_complete_def)
  moreover have "bm_wf (if_per_relay ?row)" using assms Some by (auto simp: resting_def intro: rows_wf_row)
  ultimately have put: "resting ?e" unfolding resting_persist by (intro resting_put [OF assms])
  then have "resting (finalize_completed_rows [handle] now_ms (dispatch_pending now_ms handle ?e))"
    by (intro resting_dispatch_finalize) (auto simp: resting_def live_rows_def)
  with put show ?thesis by (simp add: retry_now_def Some Let_def resting_flush)
qed (simp add: retry_now_def assms)

lemma extended_row_live: "new_relays \<noteq> [] \<Longrightarrow> \<not> is_complete (extended_row new_relays row)"
proof -
  have keep: "map_of m url = Some Pending \<Longrightarrow> map_of (fold (\<lambda>(url, _). bm_insert url Pending) kvs m) url = Some Pending" for kvs :: relay_reasons and m url
    by (induction kvs arbitrary: m) (auto simp: map_of_bm_insert)
  assume "new_relays \<noteq> []"
  then obtain url r rest where [simp]: "new_relays = (url, r) # rest" by (metis list.exhaust surj_pair)
  have "map_of (if_per_relay (extended_row new_relays row)) url = Some Pending"
    by (simp add: extended_row_def keep map_of_bm_insert)
  then show ?thesis by (rule live_at) (simp add: is_terminal_def)
qed

lemma extended_row_wf: "bm_wf (if_per_relay row) \<Longrightarrow> bm_wf (if_per_relay (extended_row new_relays row))"
  using bm_wf_fold_insert [of "if_per_relay row" "\<lambda>_. Pending"] by (simp add: extended_row_def)

text \<open>Re-resolving and sending keep every row live or leave it to the finalization that follows.\<close>

lemma retarget_row_cases:
  assumes "rows_wf e"
  shows "retarget_row h e = e \<or> (\<exists>row row'. map_of (en_in_flight e) h = Some row \<and> \<not> is_complete row' \<and> bm_wf (if_per_relay row') \<and>
    if_event row' = if_event row \<and> if_target row' = if_target row \<and>
    retarget_row h e = snd (persist h (e\<lparr>en_in_flight := hm_insert h row' (en_in_flight e)\<rparr>)))"
proof (cases "map_of (en_in_flight e) h")
  case (Some row)
  let ?new = "relay_map_of (\<lambda>url. hm_contains url (if_per_relay row)) (resolve_row (if_event row) (if_target row) e)"
  show ?thesis
  proof (cases "is_complete row \<or> ?new = []")
    case False
    then have "retarget_row h e = snd (persist h (e\<lparr>en_in_flight := hm_insert h (extended_row ?new row) (en_in_flight e)\<rparr>))"
      by (simp add: retarget_row_def Some Let_def extended_row_def)
    then show ?thesis using False Some extended_row_live [of ?new row] extended_row_wf [OF rows_wf_row [OF assms Some]]
      by (intro disjI2 exI [of _ row] exI [of _ "extended_row ?new row"]) (auto simp: extended_row_def)
  qed (auto simp: retarget_row_def Some Let_def)
qed (simp add: retarget_row_def)

lemma rows_wf_put: "rows_wf e \<Longrightarrow> bm_wf (if_per_relay row) \<Longrightarrow> rows_wf (e\<lparr>en_in_flight := hm_insert h row (en_in_flight e)\<rparr>)"
  using set_hm_insert [of h row "en_in_flight e"] by (auto simp: rows_wf_def AList.distinct_update)

lemma rows_wf_persist [simp]: "rows_wf (snd (persist h e)) = rows_wf e"
  by (simp add: rows_wf_def)

lemma rows_wf_retarget: "rows_wf e \<Longrightarrow> rows_wf (retarget_row h e)"
  using retarget_row_cases [of e h] rows_wf_put [of e _ h] by (metis rows_wf_persist)

lemma keys_retarget: "rows_wf e \<Longrightarrow> hm_keys (en_in_flight (retarget_row h e)) = hm_keys (en_in_flight e)"
  using retarget_row_cases [of e h] by (auto dest: hm_get_Some_keys)

lemma rows_wf_dispatch: "rows_wf e \<Longrightarrow> rows_wf (dispatch_pending_matching flt now_ms h e)"
  using rows_wf_map [of e "\<lambda>k row. if k = h then sent_row e now_ms flt row else row"] by (simp add: dispatch_pending_exact)

lemma keys_dispatch: "rows_wf e \<Longrightarrow> hm_keys (en_in_flight (dispatch_pending_matching flt now_ms h e)) = hm_keys (en_in_flight e)"
  by (simp add: dispatch_pending_exact hm_keys_def image_image split_def)

lemma resting_available:
  assumes "resting e"
  shows "resting (mark_relay_available raw now_ms e)"
proof -
  let ?step = "\<lambda>h e. dispatch_pending_for_relay (canonical_relay_identity raw) now_ms h (retarget_row h e)"
  let ?hs = "map fst (en_in_flight e)"
  let ?e = "e\<lparr>en_unavailable_relays := hm_remove (canonical_relay_identity raw) (en_unavailable_relays e)\<rparr>"
  have run: "rows_wf (fold ?step hs e) \<and> hm_keys (en_in_flight (fold ?step hs e)) = hm_keys (en_in_flight e)" if "rows_wf e" for hs e
    using that by (induction hs arbitrary: e)
      (simp_all add: dispatch_pending_for_relay_def rows_wf_dispatch rows_wf_retarget keys_dispatch keys_retarget)
  have "rows_wf ?e" using assms by (simp add: resting_def rows_wf_def)
  from run [OF this, of ?hs] have wf: "rows_wf (fold ?step ?hs ?e)" and keys: "hm_keys (en_in_flight (fold ?step ?hs ?e)) = set ?hs"
    by (simp_all add: hm_keys_def)
  have "live_rows (finalize_completed_rows ?hs now_ms (fold ?step ?hs ?e))"
  proof (rule live_rows_finalize)
    show "hm_wf (en_in_flight (fold ?step ?hs ?e))" using wf by (simp add: rows_wf_def)
    show "\<forall>(h, row) \<in> set (en_in_flight (fold ?step ?hs ?e)). h \<notin> set ?hs \<longrightarrow> \<not> is_complete row"
      unfolding keys [symmetric] by (force simp: hm_keys_def)
  qed
  then show ?thesis using rows_wf_finalize [OF wf, of ?hs now_ms]
    unfolding mark_relay_available_def Let_def by (intro resting_flush) (simp add: resting_def)
qed

lemma resting_tick: "resting e \<Longrightarrow> resting (tick now_ms e)"
  by (auto simp: resting_def rows_wf_tick live_rows_def tick_rows)

lemma row_of_record_wf [simp]: "bm_wf (if_per_relay (row_of_record r))"
  by (simp add: row_of_record_def bm_wf_canonical_map)

lemma resting_resume_record: "resting e \<Longrightarrow> resting (resume_record now_ms r e)"
proof -
  assume e: "resting e"
  let ?e = "e\<lparr>en_in_flight := hm_insert (pr_handle r) (row_of_record r) (en_in_flight e)\<rparr>"
  have "rows_wf ?e" using e by (intro rows_wf_put) (simp_all add: resting_def)
  moreover have "\<forall>(g, row) \<in> set (en_in_flight ?e). g \<noteq> pr_handle r \<longrightarrow> \<not> is_complete row"
    using e set_hm_insert [of "pr_handle r" "row_of_record r" "en_in_flight e"] by (auto simp: resting_def live_rows_def)
  ultimately show ?thesis by (simp add: resume_record_def Let_def resting_dispatch_finalize)
qed

lemma resting_step: "resting e \<Longrightarrow> resting (publish_step op e)"
proof (cases op)
  case (StartPublish action t c)
  then show "resting e \<Longrightarrow> ?thesis" by (cases action) (simp_all add: publish_step_def start_publish_def resting_start)
next
  case (CancelByHandle h c)
  assume e: "resting e"
  have "hm_remove h m = m" if "h \<notin> hm_keys m" for m :: "(publish_handle \<times> in_flight_row) list" using that by (simp add: hm_keys_def delete_id)
  then show ?thesis unfolding CancelByHandle publish_step_def publish_op.case cancel_by_handle_def Let_def split_beta
    by (intro resting_flush) (rule resting_drop [OF e, of _ h], simp)
next
  case (ResumeFromStore t)
  assume "resting e"
  then have "resting (fold (resume_record t) rs e)" for rs by (induction rs arbitrary: e) (simp_all add: resting_resume_record)
  then show ?thesis using \<open>resting e\<close> by (simp add: ResumeFromStore publish_step_def resume_from_store_def resting_flush split: sum.split)
next
  case (Restart outbox)
  then show ?thesis by (simp add: publish_step_def engine_new_def resting_def rows_wf_def live_rows_def)
qed (auto simp: publish_step_def resting_tick resting_on_ack resting_unavailable resting_park resting_available resting_retry
       set_outbox_def set_blocked_relay_lookup_def drain_frames_def take_pending_terminals_def elim: resting_fields)

lemma resting_run: "resting e \<Longrightarrow> resting (publish_run ops e)"
  unfolding publish_run_def by (induction ops arbitrary: e) (simp_all add: resting_step)

lemma resting_new: "resting (engine_new outbox store pol reg)"
  by (simp add: engine_new_def resting_def rows_wf_def live_rows_def)

text \<open>C39. Whatever happens - acks in any order, store failures, restarts - a row in flight has a relay that is not
  settled, so it is never stuck finished in the queue; no relay is tried more than \<open>max 1 transient_max_retries\<close> times,
  and a scheduled retry has an attempt left.\<close>

theorem rows_in_flight_live:
  assumes "map_of (en_in_flight (publish_run ops (engine_new outbox \<lparr>ps_rows = [], ps_failing = health\<rparr> pol reg))) h = Some row"
  shows "list_ex (\<lambda>(_, s). \<not> is_terminal s) (if_per_relay row) \<and> all_states (attempts_bounded pol) (if_per_relay row)"
proof
  show "list_ex (\<lambda>(_, s). \<not> is_terminal s) (if_per_relay row)"
    using resting_run [OF resting_new, of ops outbox "\<lparr>ps_rows = [], ps_failing = health\<rparr>" pol reg] map_of_SomeD [OF assms]
    unfolding resting_def live_rows_def list_ex_iff not_complete_iff [symmetric] by fast
  show "all_states (attempts_bounded pol) (if_per_relay row)"
    using reachable_attempts [of reg pol ops outbox health] map_of_SomeD [OF assms] unfolding rows_hold_def by fast
qed

lemma rows_in_flight_live_witness:
  "list_ex (\<lambda>(_, s). \<not> is_terminal s) (if_per_relay (the (map_of (en_in_flight demo_started) ''h''))) \<and>
   all_states (attempts_bounded retry_policy_default) (if_per_relay (the (map_of (en_in_flight demo_started) ''h'')))"
proof (rule rows_in_flight_live)
  have "map_of (en_in_flight demo_started) ''h'' \<noteq> None" by code_simp
  then show "map_of (en_in_flight (publish_run
      [StartPublish (Publish ''h'' demo_wrap (Explicit [''wss://R/'', ''wss://q''] VerifiedPrivateInbox)) 10 None]
      (engine_new (nip65_resolve demo_resolver) \<lparr>ps_rows = [], ps_failing = None\<rparr> retry_policy_default registry_default))) ''h'' =
    Some (the (map_of (en_in_flight demo_started) ''h''))"
    unfolding demo_started_def by simp
qed

section \<open>Durability in every operation\<close>

text \<open>While the backend works: every row is recoverable and live.\<close>

definition sound :: "publish_engine \<Rightarrow> bool" where
  "sound e \<longleftrightarrow> durable e \<and> resting e"

lemma durable_persist_sound: "durable e \<Longrightarrow> resting e \<Longrightarrow> durable (snd (persist h e)) \<and> fst (persist h e) = None"
proof (cases "map_of (en_in_flight e) h")
  case None
  then show "durable e \<Longrightarrow> ?thesis" by (auto simp: persist_def)
next
  case (Some row)
  assume e: "durable e" "resting e"
  have live: "\<not> is_complete row" using e(2) map_of_SomeD [OF Some] by (auto simp: resting_def live_rows_def)
  have others: "\<forall>(g, x) \<in> set (en_in_flight e). g \<noteq> h \<longrightarrow> records_row (en_store e) g x" using e(1) by (auto simp: durable_def)
  show ?thesis using durable_persist [OF durable_wf [OF e(1)] _ _ _ others Some live] e(1) by (simp add: durable_def)
qed

lemma sound_persist: "sound e \<Longrightarrow> sound (snd (persist h e)) \<and> fst (persist h e) = None"
  by (simp add: sound_def durable_persist_sound)

lemma sound_persist_all: "sound e \<Longrightarrow> sound (snd (persist_all hs e)) \<and> fst (persist_all hs e) = None"
  by (induction hs arbitrary: e) (simp_all add: sound_persist)

lemma sound_flush: "sound e \<Longrightarrow> sound (flush_view e)"
  by (simp add: sound_def durable_flush resting_flush)

lemma sound_fields: "sound e \<Longrightarrow> en_in_flight e' = en_in_flight e \<Longrightarrow> en_store e' = en_store e \<Longrightarrow> sound e'"
  unfolding sound_def using durable_fields resting_fields by blast

lemma sound_demote: "sound e \<Longrightarrow> sound (snd (demote_inflight_to_pending url e)) \<and> fst (demote_inflight_to_pending url e) = None"
proof -
  assume e: "sound e"
  let ?e = "e\<lparr>en_in_flight := hm_map_values (demoted url) (en_in_flight e)\<rparr>"
  have "durable ?e" using e by (intro durable_map) (simp_all add: sound_def demoted_fields)
  moreover have "live_rows ?e" using e demoted_fields(4) by (fastforce simp: sound_def resting_def live_rows_def hm_map_values_def)
  ultimately have "sound ?e" by (simp add: sound_def resting_def durable_wf)
  then show ?thesis by (simp add: demote_inflight_to_pending_def Let_def sound_persist_all)
qed

lemma sound_park: "sound e \<Longrightarrow> sound (snd (park_relay_awaiting_auth url e))"
proof -
  assume "sound e"
  then have "sound (e\<lparr>en_unavailable_relays := un\<rparr>)" for un by (rule sound_fields) simp_all
  then show ?thesis by (simp add: park_relay_awaiting_auth_def Let_def sound_demote sound_flush)
qed

lemma sound_unavailable: "sound e \<Longrightarrow> sound (snd (mark_relay_unavailable url t e))"
proof -
  assume "sound e"
  then have "sound (e\<lparr>en_unavailable_relays := un\<rparr>)" for un by (rule sound_fields) simp_all
  then show ?thesis by (simp add: mark_relay_unavailable_def Let_def sound_demote sound_flush)
qed

lemma sound_put_persist:
  assumes "sound e" "bm_wf (if_per_relay row)" "\<not> is_complete row"
  shows "sound (snd (persist h (e\<lparr>en_in_flight := hm_insert h row (en_in_flight e)\<rparr>)))"
    and "fst (persist h (e\<lparr>en_in_flight := hm_insert h row (en_in_flight e)\<rparr>)) = None"
  using assms durable_put_persist [of e row h] by (simp_all add: sound_def resting_put)

lemma sound_dispatch_finalize: "sound e \<Longrightarrow> sound (finalize_completed_rows [h] now_ms (dispatch_pending now_ms h e))"
proof -
  assume e: "sound e"
  then have "resting (finalize_completed_rows [h] now_ms (dispatch_pending now_ms h e))"
    by (intro resting_dispatch_finalize) (auto simp: sound_def resting_def live_rows_def)
  with e show ?thesis by (simp add: sound_def durable_finalize durable_dispatch dispatch_pending_def)
qed

lemma sound_on_ack:
  assumes "sound e"
  shows "sound (on_ack handle ack now_ms e)"
proof -
  have rest: "resting (on_ack handle ack now_ms e)" using assms by (simp add: sound_def resting_on_ack)
  have "durable (on_ack handle ack now_ms e)"
  proof (cases "map_of (en_in_flight e) handle")
    case row: (Some row)
    let ?url = "canonical_relay_identity (ack_relay_url ack)"
    have e: "durable e" "resting e" using assms by (simp_all add: sound_def)
    have wf: "bm_wf (if_per_relay row)" by (rule rows_wf_row [OF durable_wf [OF e(1)] row])
    show ?thesis
    proof (cases "map_of (if_per_relay row) ?url")
      case (Some s)
      obtain row' park where v: "apply_verdict row ?url (apply_ack s ack (en_policy e) now_ms) now_ms = (row', park)" by (meson surj_pair)
      let ?e = "e\<lparr>en_in_flight := hm_insert handle row' (en_in_flight e)\<rparr>"
      have wf': "bm_wf (if_per_relay row')" by (rule apply_verdict_wf [OF wf v])
      have parked: "durable (snd (park_relay_awaiting_auth ?url ?e))" if park
      proof -
        have same: "row' = row" using v that by (intro apply_verdict_park [of row ?url "apply_ack s ack (en_policy e) now_ms" now_ms]) simp
        have "hm_insert handle row (en_in_flight e) = en_in_flight e"
          using row e(1) by (intro AList.update_triv) (simp_all add: durable_def rows_wf_def)
        then have "sound ?e" using assms by (simp add: same)
        then show ?thesis using sound_park by (simp add: sound_def)
      qed
      have settled: "durable ((snd (settle_row handle row' now_ms ?e))\<lparr>en_in_flight := hm_remove handle (en_in_flight ?e)\<rparr>)"
        by (rule durable_drop [OF e(1), of _ handle]) simp_all
      have "durable (core (on_ack handle ack now_ms e))"
        unfolding core_on_ack [OF row Some v] durable_core Let_def
        using parked settled durable_put_persist(1) [OF e(1) wf', of handle] by (intro durable_flush) auto
      then show ?thesis by (simp only: durable_core)
    qed (simp add: on_ack_def row e)
  next
    case None
    then show ?thesis using assms by (simp add: on_ack_def sound_def)
  qed
  with rest show ?thesis by (simp add: sound_def)
qed

lemma sound_start:
  assumes "sound e"
  shows "sound (snd (start_publish_inner handle event target correlation now_ms e))"
proof -
  let ?map = "relay_map_of (\<lambda>_. False) (resolve_row event target e)"
  let ?p = "persist handle (e\<lparr>en_in_flight := hm_insert handle (started_row event target correlation ?map) (en_in_flight e)\<rparr>)"
  have put: "sound (snd ?p)" "fst ?p = None" if "?map \<noteq> []"
    by (rule sound_put_persist [OF assms started_row_wf started_row_live [OF that]])+
  have "sound (emit_no_targets handle event correlation now_ms e)" by (rule sound_fields [OF assms]) simp_all
  then show ?thesis using put assms
    by (simp add: start_publish_inner_def Let_def started_row_def [symmetric] sound_flush sound_dispatch_finalize)
qed

lemma sound_retry:
  assumes "sound e"
  shows "sound (snd (retry_now handle now_ms e))"
proof (cases "map_of (en_in_flight e) handle")
  case (Some row)
  let ?row = "row\<lparr>if_pending_retries := fold hm_remove (map fst (filter (\<lambda>(_, s). \<not> is_terminal s) (if_per_relay row))) (if_pending_retries row), if_dirty := True\<rparr>"
  have "\<not> is_complete row" using assms map_of_SomeD [OF Some] by (auto simp: sound_def resting_def live_rows_def)
  then have live: "\<not> is_complete ?row" by (simp add: is_complete_def)
  have wf: "bm_wf (if_per_relay ?row)" using assms Some by (auto simp: sound_def resting_def intro: rows_wf_row)
  show ?thesis using sound_put_persist [OF assms wf live, of handle]
    by (simp add: retry_now_def Some Let_def sound_flush sound_dispatch_finalize)
qed (simp add: retry_now_def assms)

lemma durable_retarget:
  assumes "durable e"
  shows "durable (retarget_row h e)"
  using retarget_row_cases [OF durable_wf [OF assms], of h] durable_put_persist(1) [OF assms] assms by metis

lemma sound_available:
  assumes "sound e"
  shows "sound (mark_relay_available raw now_ms e)"
proof -
  let ?step = "\<lambda>h e. dispatch_pending_for_relay (canonical_relay_identity raw) now_ms h (retarget_row h e)"
  have run: "durable (fold ?step hs e)" if "durable e" for hs e
    using that by (induction hs arbitrary: e) (simp_all add: dispatch_pending_for_relay_def durable_dispatch durable_retarget)
  have "sound (e\<lparr>en_unavailable_relays := un\<rparr>)" for un by (rule sound_fields [OF assms]) simp_all
  then have "durable (e\<lparr>en_unavailable_relays := un\<rparr>)" for un by (simp add: sound_def)
  then have "durable (mark_relay_available raw now_ms e)"
    unfolding mark_relay_available_def Let_def by (intro durable_flush durable_finalize run)
  then show ?thesis using assms by (simp add: sound_def resting_available)
qed

lemma sweep_row_events [simp]:
  "if_event (sweep_row now_ms e row) = if_event row" "if_target (sweep_row now_ms e row) = if_target row"
  by (simp_all add: sweep_row_def sweep_unavailable_timeouts_def sweep_inflight_timeouts_def Let_def)

lemma sound_tick:
  assumes "sound e"
  shows "sound (tick now_ms e)"
proof -
  have run: "durable (fold (dispatch_pending now_ms) hs e)" if "durable e" for hs e
    using that by (induction hs arbitrary: e) (simp_all add: dispatch_pending_def durable_dispatch)
  have "durable (e\<lparr>en_in_flight := hm_map_values (sweep_row now_ms e) (en_in_flight e)\<rparr>)"
    using assms by (intro durable_map) (simp_all add: sound_def)
  then have "durable (tick now_ms e)" unfolding tick_def Let_def by (intro durable_flush durable_finalize run)
  then show ?thesis using assms by (simp add: sound_def resting_tick)
qed

lemma sound_cancel:
  assumes "sound e"
  shows "sound (cancel_by_handle handle correlation e)"
proof -
  have "hm_remove h m = m" if "h \<notin> hm_keys m" for h and m :: "(publish_handle \<times> in_flight_row) list" using that by (simp add: hm_keys_def delete_id)
  then have "durable (cancel_by_handle handle correlation e)"
    unfolding cancel_by_handle_def Let_def split_beta
    by (intro durable_flush) (rule durable_drop [of e _ handle], insert assms, simp_all add: sound_def)
  moreover have "resting (cancel_by_handle handle correlation e)"
    using resting_step [of e "CancelByHandle handle correlation"] assms by (simp add: publish_step_def sound_def)
  ultimately show ?thesis by (simp add: sound_def)
qed

section \<open>Recovery\<close>

text \<open>The record of \<open>h\<close> is stored and has work left.\<close>

definition stored_pending :: "publish_store \<Rightarrow> publish_record \<Rightarrow> bool" where
  "stored_pending st r \<longleftrightarrow>
     map_of (ps_rows st) (pr_handle r) = Some r \<and> (\<exists>(url, s) \<in> set (pr_per_relay r). \<not> is_terminal s)"

lemma row_of_record_fields [simp]:
  "if_event (row_of_record r) = pr_event r" "if_target (row_of_record r) = pr_target r" "if_correlation_id_override (row_of_record r) = None"
  by (simp_all add: row_of_record_def)

text \<open>A resumed handle is in flight again, or reported.\<close>

definition recovered :: "publish_engine \<Rightarrow> publish_handle \<Rightarrow> signed_event \<Rightarrow> publish_target \<Rightarrow> bool" where
  "recovered e h event target \<longleftrightarrow>
     (\<exists>row. map_of (en_in_flight e) h = Some row \<and> if_event row = event \<and> if_target row = target) \<or>
     (\<exists>t \<in> set (en_pending_terminals e). lt_correlation_id t = h \<and> lt_event_id t = Some (sv_id event))"

lemma from_outcome_event [simp]: "lt_event_id (from_outcome h c t) = Some (to_event_id t)"
  by (simp add: from_outcome_def Let_def)

lemma resume_record_effect:
  assumes "durable e" "stored_pending (en_store e) r"
  shows "durable (resume_record now_ms r e)"
    and "recovered (resume_record now_ms r e) (pr_handle r) (pr_event r) (pr_target r)"
    and "g \<noteq> pr_handle r \<Longrightarrow> map_of (ps_rows (en_store (resume_record now_ms r e))) g = map_of (ps_rows (en_store e)) g"
    and "g \<noteq> pr_handle r \<Longrightarrow> map_of (en_in_flight (resume_record now_ms r e)) g = map_of (en_in_flight e) g"
    and "set (en_pending_terminals e) \<subseteq> set (en_pending_terminals (resume_record now_ms r e))"
proof -
  let ?h = "pr_handle r"
  let ?e = "e\<lparr>en_in_flight := hm_insert ?h (row_of_record r) (en_in_flight e)\<rparr>"
  let ?sent = "sent_row ?e now_ms None (row_of_record r)"
  have "records_row (en_store e) ?h (row_of_record r)" using assms(2) by (simp add: records_row_def stored_pending_def)
  moreover have wf: "rows_wf ?e" using assms(1) by (intro rows_wf_put) (simp_all add: durable_wf)
  ultimately have put: "durable ?e" using assms(1) set_hm_insert [of ?h "row_of_record r" "en_in_flight e"]
    by (auto simp: durable_def)
  have one: "finalize_completed_rows [?h] now_ms e1 = finalize_row now_ms ?h e1" for e1 by (simp add: finalize_completed_rows_def)
  show "durable (resume_record now_ms r e)"
    unfolding resume_record_def Let_def dispatch_pending_def by (intro durable_finalize durable_dispatch put)
  have same: "map (\<lambda>(k, row). (k, if k = ?h then sent_row ?e now_ms None row else row)) (en_in_flight ?e) = hm_insert ?h ?sent (en_in_flight ?e)"
  proof -
    have row: "map_of (en_in_flight ?e) ?h = Some (row_of_record r)" by (simp add: hash_map.get_put)
    have "hm_wf (en_in_flight ?e)" using wf by (simp add: rows_wf_def)
    from hm_insert_update [OF this row, of ?sent] hm_mem_iff [OF this, of ?h] row show ?thesis
      by (auto intro!: map_cong simp del: AList.update_Some_unfold)
  qed
  obtain q where d: "dispatch_pending now_ms ?h ?e = ?e\<lparr>en_in_flight := hm_insert ?h ?sent (en_in_flight ?e), en_queued := q\<rparr>"
    unfolding dispatch_pending_def dispatch_pending_exact [OF wf] same by blast
  show "recovered (resume_record now_ms r e) ?h (pr_event r) (pr_target r)"
    by (auto simp: resume_record_def Let_def d one finalize_row_def hash_map.get_put split_beta recovered_def terminal_outcome_of_def)
  show "map_of (ps_rows (en_store (resume_record now_ms r e))) g = map_of (ps_rows (en_store e)) g" if "g \<noteq> ?h"
    using that by (simp add: resume_record_def Let_def d one finalize_row_def hash_map.get_put hash_map.get_del split_beta)
  show "map_of (en_in_flight (resume_record now_ms r e)) g = map_of (en_in_flight e) g" if "g \<noteq> ?h"
    using that by (simp add: resume_record_def Let_def d one finalize_row_def hash_map.get_put hash_map.get_del split_beta)
  show "set (en_pending_terminals e) \<subseteq> set (en_pending_terminals (resume_record now_ms r e))"
    by (auto simp: resume_record_def Let_def d one finalize_row_def hash_map.get_put split_beta)
qed

lemma resume_records:
  assumes "sound e" "\<forall>r \<in> set rs. stored_pending (en_store e) r" "distinct (map pr_handle rs)"
  shows "sound (fold (resume_record now_ms) rs e)"
    and "r \<in> set rs \<Longrightarrow> recovered (fold (resume_record now_ms) rs e) (pr_handle r) (pr_event r) (pr_target r)"
    and "h \<notin> pr_handle ` set rs \<Longrightarrow> recovered e h event target \<Longrightarrow> recovered (fold (resume_record now_ms) rs e) h event target"
  using assms
proof (induction rs arbitrary: e h event target r)
  case Nil
  {
    case 1
    then show ?case by simp
  next
    case 2
    then show ?case by simp
  next
    case 3
    then show ?case by simp
  }
next
  case (Cons x rs)
  have prems: "sound e \<Longrightarrow> \<forall>r \<in> set (x # rs). stored_pending (en_store e) r \<Longrightarrow> distinct (map pr_handle (x # rs)) \<Longrightarrow>
      sound (resume_record now_ms x e) \<and> (\<forall>r \<in> set rs. stored_pending (en_store (resume_record now_ms x e)) r) \<and> distinct (map pr_handle rs)" for e
  proof (intro conjI ballI)
    assume e: "sound e" and stored: "\<forall>r \<in> set (x # rs). stored_pending (en_store e) r" and dist: "distinct (map pr_handle (x # rs))"
    have x: "durable e" "stored_pending (en_store e) x" using e stored by (simp_all add: sound_def)
    show "sound (resume_record now_ms x e)" using e resume_record_effect(1) [OF x, of now_ms] by (simp add: sound_def resting_resume_record)
    show "stored_pending (en_store (resume_record now_ms x e)) r" if "r \<in> set rs" for r
    proof -
      have "pr_handle r \<in> pr_handle ` set rs" using that by (rule imageI)
      then have "pr_handle r \<noteq> pr_handle x" using dist by auto
      then show ?thesis using stored that resume_record_effect(3) [OF x, of "pr_handle r" now_ms] by (simp add: stored_pending_def)
    qed
    show "distinct (map pr_handle rs)" using dist by simp
  qed
  {
    case 1
    show ?case using prems [OF 1(1-3)] Cons.IH(1) by simp
  next
    case 2
    have x: "durable e" "stored_pending (en_store e) x" using 2(2,3) by (simp_all add: sound_def)
    show ?case
    proof (cases "r = x")
      case True
      then have "r \<notin> set rs" and "pr_handle r \<notin> pr_handle ` set rs" using 2(4) by auto
      then show ?thesis using prems [OF 2(2-4)] True Cons.IH(3) resume_record_effect(2) [OF x, of now_ms] by simp
    next
      case False
      then show ?thesis using 2(1) prems [OF 2(2-4)] Cons.IH(2) by simp
    qed
  next
    case 3
    have x: "durable e" "stored_pending (en_store e) x" using 3(3,4) by (simp_all add: sound_def)
    have "h \<noteq> pr_handle x" using 3(1) by simp
    then have "recovered (resume_record now_ms x e) h event target"
      using 3(2) resume_record_effect(4) [OF x, of h now_ms] resume_record_effect(5) [OF x, of now_ms] by (auto simp: recovered_def)
    then show ?case using 3(1) prems [OF 3(3-5)] Cons.IH(3) by simp
  }
qed

lemma durable_stored_pending:
  assumes "durable e" "load_pending (en_store e) = Inr rs"
  shows "\<forall>r \<in> set rs. stored_pending (en_store e) r" "distinct (map pr_handle rs)"
    and "map_of (en_in_flight e) h = Some row \<Longrightarrow> \<exists>r \<in> set rs. pr_handle r = h \<and> pr_event r = if_event row \<and> pr_target r = if_target row"
proof -
  let ?pending = "\<lambda>r. list_ex (\<lambda>(_, state). \<not> is_terminal state) (pr_per_relay r)"
  let ?rows = "ps_rows (en_store e)"
  have rs: "rs = filter ?pending (map snd ?rows)" using assms by (simp add: load_pending_def durable_def)
  have keys: "pr_handle r = h" if "(h, r) \<in> set ?rows" for h r using assms(1) that by (auto simp: durable_def)
  have wf: "hm_wf ?rows" using assms(1) by (simp add: durable_def)
  show "\<forall>r \<in> set rs. stored_pending (en_store e) r"
    using keys hm_mem_iff [OF wf] by (fastforce simp: rs stored_pending_def list_ex_iff)
  have "map pr_handle (map snd ?rows) = map fst ?rows" using keys by (auto simp: comp_def)
  then show "distinct (map pr_handle rs)" using wf unfolding rs by (metis distinct_map_filter)
  show "\<exists>r \<in> set rs. pr_handle r = h \<and> pr_event r = if_event row \<and> pr_target r = if_target row" if "map_of (en_in_flight e) h = Some row"
  proof -
    have "records_row (en_store e) h row" using assms(1) map_of_SomeD [OF that] by (auto simp: durable_def)
    then obtain r where r: "map_of ?rows h = Some r" "pr_handle r = h" "pr_event r = if_event row" "pr_target r = if_target row"
      "\<exists>(url, s) \<in> set (pr_per_relay r). \<not> is_terminal s" by (auto simp: records_row_def)
    then have "r \<in> snd ` set ?rows" using map_of_SomeD [OF r(1)] by force
    then have "r \<in> set rs" using r(5) by (auto simp: rs list_ex_iff)
    then show ?thesis using r by blast
  qed
qed

lemma sound_resume: "sound e \<Longrightarrow> sound (snd (resume_from_store now_ms e))"
proof (cases "load_pending (en_store e)")
  case (Inr rs)
  assume e: "sound e"
  then have "sound (fold (resume_record now_ms) rs e)"
    using durable_stored_pending(1,2) [OF _ Inr] by (intro resume_records(1)) (simp_all add: sound_def)
  then show ?thesis by (simp add: resume_from_store_def Inr sound_flush)
qed (simp add: resume_from_store_def)

lemma sound_restart: "sound e \<Longrightarrow> sound (engine_new outbox (en_store e) pol reg)"
  by (simp add: sound_def durable_def engine_new_def resting_def rows_wf_def live_rows_def)

text \<open>The backend does not start to fail.\<close>

definition backend_works :: "publish_op \<Rightarrow> bool" where
  "backend_works op \<longleftrightarrow> (case op of StoreHealth (Some _) \<Rightarrow> False | _ \<Rightarrow> True)"

lemma sound_step: "backend_works op \<Longrightarrow> sound e \<Longrightarrow> sound (publish_step op e)"
proof (cases op)
  case (StartPublish action t c)
  then show "sound e \<Longrightarrow> ?thesis" by (cases action) (simp_all add: publish_step_def start_publish_def sound_start)
next
  case (StoreHealth health)
  assume "backend_works op" "sound e"
  then have "health = None" "ps_failing (en_store e) = None" by (auto simp: StoreHealth backend_works_def sound_def durable_def split: option.splits)
  then have "publish_step op e = e" by (simp add: StoreHealth publish_step_def)
  with \<open>sound e\<close> show ?thesis by simp
next
  case (DrainFrames)
  then show "sound e \<Longrightarrow> ?thesis" by (simp add: publish_step_def drain_frames_def) (erule sound_fields, simp_all)
next
  case (TakePendingTerminals)
  then show "sound e \<Longrightarrow> ?thesis" by (simp add: publish_step_def take_pending_terminals_def) (erule sound_fields, simp_all)
next
  case (SetOutbox outbox)
  then show "sound e \<Longrightarrow> ?thesis" by (simp add: publish_step_def set_outbox_def) (erule sound_fields, simp_all)
next
  case (SetBlockedRelayLookup lookup)
  then show "sound e \<Longrightarrow> ?thesis" by (simp add: publish_step_def set_blocked_relay_lookup_def) (erule sound_fields, simp_all)
qed (simp_all add: publish_step_def sound_tick sound_on_ack sound_unavailable sound_park sound_available sound_cancel sound_retry
       sound_resume sound_restart)

lemma sound_run: "list_all backend_works ops \<Longrightarrow> sound e \<Longrightarrow> sound (publish_run ops e)"
  unfolding publish_run_def by (induction ops arbitrary: e) (simp_all add: sound_step)

lemma sound_new: "sound (engine_new outbox \<lparr>ps_rows = [], ps_failing = None\<rparr> pol reg)"
  by (simp add: sound_def durable_def engine_new_def resting_def rows_wf_def live_rows_def)

lemma recovered_flush: "recovered e h event target \<Longrightarrow> recovered (flush_view e) h event target"
  by (fastforce simp: recovered_def hm_get_map_values)

text \<open>C40. While the backend works, a crash loses no publish: after a restart and a resume every handle that was in
  flight is in flight again with its event and target, or has been reported as settled.\<close>

theorem restart_recovers:
  assumes "list_all backend_works ops" "e = publish_run ops (engine_new outbox \<lparr>ps_rows = [], ps_failing = None\<rparr> pol reg)"
    and "map_of (en_in_flight e) h = Some row"
    and "e' = publish_run [Restart outbox', ResumeFromStore now_ms] e"
  shows "(\<exists>row'. map_of (en_in_flight e') h = Some row' \<and> if_event row' = if_event row \<and> if_target row' = if_target row) \<or>
    (\<exists>t \<in> set (en_pending_terminals e'). lt_correlation_id t = h \<and> lt_event_id t = Some (sv_id (if_event row)))"
proof -
  let ?e = "engine_new outbox' (en_store e) (en_policy e) (en_registry e)"
  have e: "sound e" using assms(1,2) by (simp add: sound_run sound_new)
  then have new: "sound ?e" by (rule sound_restart)
  have "ps_failing (en_store e) = None" using e by (simp add: sound_def durable_def)
  then obtain rs where load: "load_pending (en_store e) = Inr rs" by (simp add: load_pending_def)
  have durable: "durable e" using e by (simp add: sound_def)
  have store: "en_store ?e = en_store e" by (simp add: engine_new_def)
  obtain r where r: "r \<in> set rs" "pr_handle r = h" "pr_event r = if_event row" "pr_target r = if_target row"
    using durable_stored_pending(3) [OF durable load assms(3)] by blast
  have "recovered (fold (resume_record now_ms) rs ?e) h (if_event row) (if_target row)"
    using resume_records(2) [OF new, of rs r] durable_stored_pending(1,2) [OF durable load] r unfolding store by simp
  then have "recovered e' h (if_event row) (if_target row)"
    by (simp add: assms(4) publish_run_def publish_step_def resume_from_store_def store load recovered_flush)
  then show ?thesis by (simp add: recovered_def)
qed

lemma restart_recovers_witness:
  "(\<exists>row'. map_of (en_in_flight (publish_run [Restart (nip65_resolve demo_resolver), ResumeFromStore 20] demo_started)) ''h'' = Some row' \<and>
      if_event row' = if_event (the (map_of (en_in_flight demo_started) ''h'')) \<and> if_target row' = if_target (the (map_of (en_in_flight demo_started) ''h''))) \<or>
   (\<exists>t \<in> set (en_pending_terminals (publish_run [Restart (nip65_resolve demo_resolver), ResumeFromStore 20] demo_started)).
      lt_correlation_id t = ''h'' \<and> lt_event_id t = Some (sv_id (if_event (the (map_of (en_in_flight demo_started) ''h'')))))"
proof (rule restart_recovers [OF _ demo_started_def _ refl])
  show "list_all backend_works [StartPublish (Publish ''h'' demo_wrap (Explicit [''wss://R/'', ''wss://q''] VerifiedPrivateInbox)) 10 None]"
    by (simp add: backend_works_def)
  have "map_of (en_in_flight demo_started) ''h'' \<noteq> None" by code_simp
  then show "map_of (en_in_flight demo_started) ''h'' = Some (the (map_of (en_in_flight demo_started) ''h''))" by simp
qed

end
