(* ===== verification/Publish_Deadline.thy ===== *)
theory Publish_Deadline
  imports Publish_Durable
begin

text \<open>
  Time in the publish engine: the deadline it reports to the runtime, and the backoff of the retries.
\<close>

section \<open>The reported deadline\<close>

definition beyond :: "u64 \<Rightarrow> u64 option \<Rightarrow> bool" where
  "beyond now_ms d \<longleftrightarrow> (case d of None \<Rightarrow> True | Some d \<Rightarrow> now_ms < d)"

lemma beyond_simps [simp]: "beyond now_ms None" "beyond now_ms (Some d) \<longleftrightarrow> now_ms < d"
  by (simp_all add: beyond_def)

lemma beyond_min_option: "beyond now_ms (min_option c n) \<longleftrightarrow> beyond now_ms c \<and> beyond now_ms n"
  by (auto simp: beyond_def min_option_def split: option.split)

lemma beyond_fold: "beyond now_ms (fold (\<lambda>x. min_option (f x)) xs a) \<longleftrightarrow> beyond now_ms a \<and> (\<forall>x \<in> set xs. beyond now_ms (f x))"
  by (induction xs arbitrary: a) (auto simp: beyond_min_option)

lemma beyond_next_deadline:
  "beyond now_ms (next_deadline_ms e t) \<longleftrightarrow>
     (\<forall>(h, row) \<in> set (en_in_flight e). \<forall>slot \<in> set (if_per_relay row).
        beyond now_ms (relay_deadline row (en_unavailable_relays e) t (en_policy e) slot))"
proof -
  have "next_deadline_ms e t =
      fold (\<lambda>x. min_option (row_next_deadline_ms (snd x) (en_unavailable_relays e) t (en_policy e))) (en_in_flight e) None"
    by (simp add: next_deadline_ms_def split_def)
  then show ?thesis by (auto simp: beyond_fold row_next_deadline_ms_def)
qed

lemma saturating_add_le: "now_ms < saturating_add a b \<Longrightarrow> now_ms < a + b"
  by (simp add: saturating_add_def)

text \<open>A row with every deadline ahead is left alone.\<close>

lemma row_untouched:
  assumes "t \<le> now_ms" "0 < inflight_deadline_ms (en_policy e)"
    and ahead: "\<forall>slot \<in> set (if_per_relay row). beyond now_ms (relay_deadline row (en_unavailable_relays e) t (en_policy e) slot)"
    and parked: "\<forall>(url, s) \<in> set (if_per_relay row). hm_contains url (en_unavailable_relays e) \<longrightarrow> \<not> is_in_flight s"
  shows "sweep_row now_ms e row = row" "sent_row e now_ms None row = row" "sent_frames e now_ms None row = []"
proof -
  let ?un = "en_unavailable_relays e" and ?d = "inflight_deadline_ms (en_policy e)"
  have "sweep_inflight_state now_ms ?d (en_policy e) s = s" if "(url, s) \<in> set (if_per_relay row)" for url s
  proof (cases s)
    case (InFlight sent a)
    then have "map_of ?un url = None" using parked that by (auto simp: is_in_flight_def hm_keys_map_of)
    then have "now_ms < saturating_add sent ?d" using ahead that InFlight by (fastforce simp: relay_deadline_def)
    then have "now_ms < sent + ?d" by (rule saturating_add_le)
    then have "\<not> ?d \<le> now_ms - sent" using assms(2) by linarith
    then show ?thesis by (simp add: sweep_inflight_state_def InFlight)
  qed (simp_all add: sweep_inflight_state_def)
  note inflight = this
  have "sweep_inflight_timeouts now_ms ?d (en_policy e) row = row"
  proof -
    have "map (\<lambda>(url, s). (url, sweep_inflight_state now_ms ?d (en_policy e) s)) (if_per_relay row) = if_per_relay row"
      using inflight by (intro map_idI) auto
    moreover have "\<not> list_ex (\<lambda>(_, s). sweep_inflight_state now_ms ?d (en_policy e) s \<noteq> s) (if_per_relay row)"
      using inflight by (auto simp: list_ex_iff)
    ultimately show ?thesis by (simp add: sweep_inflight_timeouts_def)
  qed
  moreover have "sweep_unavailable_timeouts now_ms ?d ?un row = row"
  proof (cases "has_any_accepted row")
    case True
    have "sweep_unavailable_state now_ms ?d ?un url s = s" if "(url, s) \<in> set (if_per_relay row)" for url s
    proof (cases "is_terminal s \<or> (\<forall>since. map_of ?un url \<noteq> Some (Some since))")
      case False
      then obtain since where since: "map_of ?un url = Some (Some since)" "\<not> is_terminal s" by auto
      then have "now_ms < saturating_add since ?d" using ahead that True by (fastforce simp: relay_deadline_def)
      then have "now_ms < since + ?d" by (rule saturating_add_le)
      then have "\<not> ?d \<le> now_ms - since" using assms(2) by linarith
      then show ?thesis using since by (simp add: sweep_unavailable_state_def)
    qed (auto simp: sweep_unavailable_state_def split: option.split)
    note kept = this
    have "map (\<lambda>(url, s). (url, sweep_unavailable_state now_ms ?d ?un url s)) (if_per_relay row) = if_per_relay row"
      using kept by (intro map_idI) auto
    moreover have "\<not> list_ex (\<lambda>(url, s). sweep_unavailable_state now_ms ?d ?un url s \<noteq> s) (if_per_relay row)"
      using kept by (auto simp: list_ex_iff)
    ultimately show ?thesis by (simp add: sweep_unavailable_timeouts_def)
  qed (simp add: sweep_unavailable_timeouts_def)
  ultimately show "sweep_row now_ms e row = row" by (simp add: sweep_row_def)
  have ready: "\<not> dispatch_ready row now_ms None ?un url s" if "(url, s) \<in> set (if_per_relay row)" for url s
  proof (cases "map_of ?un url")
    case None
    then have "beyond now_ms (relay_deadline row ?un t (en_policy e) (url, s))" using ahead that by blast
    then show ?thesis using None assms(1)
      by (cases s; cases "map_of (if_pending_retries row) url") (auto simp: relay_deadline_def dispatch_ready_def)
  qed (simp add: dispatch_ready_def hm_keys_map_of)
  have "map (\<lambda>(url, s). (url, dispatched (en_registry e) now_ms None ?un row url s)) (if_per_relay row) = if_per_relay row"
    using ready by (intro map_idI) (auto simp: dispatched_def)
  moreover have "filter (\<lambda>(url, s). dispatch_ready row now_ms None ?un url s) (if_per_relay row) = []"
    using ready by (auto simp: filter_empty_conv)
  ultimately show "sent_row e now_ms None row = row" by (simp add: dispatched_row_def split_def)
  show "sent_frames e now_ms None row = []" using ready by (auto simp: dispatched_frames_def filter_empty_conv fires_def)
qed

text \<open>The runtime may sleep until the deadline the engine reports: a tick before it sends nothing, gives up
  nothing, settles nothing and stores nothing - it only refreshes the view. Relays marked unavailable must hold no frame in
  flight, which marking them ensures.\<close>

theorem tick_before_deadline_idle:
  assumes "e = publish_run ops (engine_new outbox \<lparr>ps_rows = [], ps_failing = health\<rparr> pol reg)"
    and "\<forall>(h, row) \<in> set (en_in_flight e). \<forall>(url, s) \<in> set (if_per_relay row).
           hm_contains url (en_unavailable_relays e) \<longrightarrow> \<not> is_in_flight s"
    and "0 < inflight_deadline_ms pol" "t \<le> now_ms" "case next_deadline_ms e t of None \<Rightarrow> True | Some d \<Rightarrow> now_ms < d"
  shows "tick now_ms e = flush_view e"
proof -
  have rest: "resting e" unfolding assms(1) by (intro resting_run resting_new)
  then have wf: "rows_wf e" and live: "\<forall>(h, row) \<in> set (en_in_flight e). \<not> is_complete row" by (simp_all add: resting_def live_rows_def)
  have clock: "0 < inflight_deadline_ms (en_policy e)"
    using reachable_attempts [of reg pol ops outbox health] assms(1,3) by (simp add: rows_hold_def)
  have same: "sweep_row now_ms e row = row" "sent_row e now_ms None row = row" "sent_frames e now_ms None row = []"
    if "(h, row) \<in> set (en_in_flight e)" for h row
  proof -
    have "\<forall>slot \<in> set (if_per_relay row). beyond now_ms (relay_deadline row (en_unavailable_relays e) t (en_policy e) slot)"
      using assms(5) beyond_next_deadline [of now_ms e t] that unfolding beyond_def by fast
    moreover have "\<forall>(url, s) \<in> set (if_per_relay row). hm_contains url (en_unavailable_relays e) \<longrightarrow> \<not> is_in_flight s"
      using assms(2) that by fast
    ultimately show "sweep_row now_ms e row = row" "sent_row e now_ms None row = row" "sent_frames e now_ms None row = []"
      using row_untouched [OF assms(4) clock, of row] by blast+
  qed
  let ?hs = "map fst (en_in_flight e)"
  have swept: "hm_map_values (sweep_row now_ms e) (en_in_flight e) = en_in_flight e"
    using same(1) by (auto simp: hm_map_values_def intro!: map_idI)
  have rows: "map (\<lambda>(k, row). (k, if k \<in> set ?hs then sent_row e now_ms None row else row)) (en_in_flight e) = en_in_flight e"
    using same(2) by (intro map_idI) auto
  have frames: "concat (map (\<lambda>h. case map_of (en_in_flight e) h of None \<Rightarrow> [] | Some row \<Rightarrow> sent_frames e now_ms None row) ?hs) = []"
    using same(3) by (auto split: option.split dest: map_of_SomeD)
  have "distinct ?hs" using wf by (simp add: rows_wf_def)
  from dispatch_all_exact [OF wf this, of now_ms] have sent: "fold (dispatch_pending now_ms) ?hs e = e"
    unfolding rows frames by simp
  have "finalize_row now_ms h e = e" for h
    using live by (auto simp: finalize_row_def split: option.split dest: map_of_SomeD)
  then have "finalize_completed_rows hs now_ms e = e" for hs by (induction hs) (simp_all add: finalize_completed_rows_def)
  then show ?thesis by (simp add: tick_def Let_def swept sent)
qed

lemma tick_before_deadline_idle_witness: "tick 30009 demo_started = flush_view demo_started"
proof (rule tick_before_deadline_idle [OF demo_started_def])
  show "\<forall>(h, row) \<in> set (en_in_flight demo_started). \<forall>(url, s) \<in> set (if_per_relay row).
      hm_contains url (en_unavailable_relays demo_started) \<longrightarrow> \<not> is_in_flight s" by code_simp
  show "0 < inflight_deadline_ms retry_policy_default" by (simp add: retry_policy_default_def default_inflight_deadline_ms_def)
  show "case next_deadline_ms demo_started 10 of None \<Rightarrow> True | Some d \<Rightarrow> 30009 < d" by code_simp
qed simp

section \<open>Backoff\<close>

text \<open>The delay before a retry grows geometrically in the attempts and saturates at the range of the clock.\<close>

theorem backoff_geometric:
  assumes "backoff_base_ms pol \<le> u64_max"
  shows "backoff_for pol attempt = min (backoff_base_ms pol * backoff_factor pol ^ (attempt - 1)) u64_max"
proof -
  have step: "min (min a M * f) M = min (a * f) M" for a f M :: nat
  proof (cases "f = 0 \<or> a \<le> M")
    case False
    then have "M * 1 \<le> M * f" "M * 1 \<le> a * f" by (intro mult_le_mono; auto)+
    then have "min (M * f) M = M" "min (a * f) M = M" "min a M = M" using False by (intro min_absorb2; simp)+
    then show ?thesis by simp
  qed auto
  have "fold (\<lambda>_ delay. saturating_mul delay (backoff_factor pol)) xs (min a u64_max) =
      min (a * backoff_factor pol ^ length xs) u64_max" for xs :: "nat list" and a
  proof (induction xs arbitrary: a)
    case (Cons x xs)
    then show ?case using Cons [of "a * backoff_factor pol"] by (simp add: saturating_mul_def step mult.assoc)
  qed simp
  from this [of "[1..<attempt]" "backoff_base_ms pol"] assms show ?thesis by (simp add: backoff_for_def)
qed

lemma backoff_geometric_witness: "backoff_for retry_policy_default 3 = min (1000 * 4 ^ (3 - 1)) u64_max"
  using backoff_geometric [of retry_policy_default 3] by (simp add: retry_policy_default_def u64_max_def)

end
