(* ===== verification/Spec2Isabelle.thy ===== *)
theory Spec2Isabelle
  imports Store_Machine Subs_Memo Subs_Discovery Subs_Open Publish_Deadline
begin

text \<open>
  A model of the core of the Nostr multi-platform client: the event store, the subscription planner, the
  subscription lifecycle and the publish engine, with the relay URLs, kinds and filters they share. All paths are under
  \<open>src/crates/\<close>.

  \<^bold>\<open>How the program is put together.\<close> A kernel actor receives commands and relay messages and drives pure
  components. Events that arrive are verified and inserted into the event store (\<open>nmp-store\<close>), which keeps one
  version per replaceable coordinate, applies deletion requests, logs every change for the feeds that pull from it, and is
  collected under a budget. What the views want to read is a set of interests; the planner (\<open>nmp-planner\<close>)
  partitions them over relays by the mailboxes of their authors, merges the filters per relay, and selects a bounded set
  of relays. The subscription lifecycle (\<open>nmp-core/src/subs\<close>) keeps the registry of those interests, recompiles
  the plan when a trigger says so, sends the difference of two plans as REQ and CLOSE frames through an authentication
  gate, and replays the plan to a relay that reconnects; references to events and profiles that are missing become bounded
  one-shot reads (\<open>kernel/discovery.rs\<close>). What the user writes goes to the publish engine (\<open>nmp-core/src/publish\<close>), which resolves the
  relays of an event (\<open>nmp-router/src/nip65_resolver.rs\<close>), sends it, folds the acknowledgements into a state
  machine per relay with retries and backoff, and stores what is unfinished.

  \<^bold>\<open>Theories.\<close>
  \<^item> \<open>NMP_Prelude\<close>, \<open>NMP_Strings\<close>: the hash maps, ordered maps and ordered sets of the source as lists with an
    invariant (one locale for keyed maps, interpreted on both), folds, saturating arithmetic, decimal and hex text.
  \<^item> \<open>Nostr_Kinds\<close> (\<open>nmp-kinds\<close>), \<open>Relay_Url\<close> (\<open>nmp-relay-url\<close>, \<open>nmp-nip65-types\<close>): the storage
    classes of a kind; the canonical form of a relay URL on UTF-8 bytes; NIP-65 lists.
  \<^item> \<open>Store_Types\<close>, \<open>Mem_State\<close>: the value types of \<open>nmp-store/src/types\<close> and the state of the memory
    store with its indexes and provenance (\<open>mem/mod.rs\<close>, \<open>mem/indexes.rs\<close>).
  \<^item> \<open>Text_Search\<close> (\<open>mem/text_search\<close>), \<open>Store_Log\<close> (\<open>mem/log.rs\<close>): the search visitor; the ingest log,
    its retention, its protected cursors and the contract of a pull.
  \<^item> \<open>Store_Insert\<close>, \<open>Store_Inv\<close>, \<open>Store_Semantics\<close>, \<open>Store_Converge\<close>: insertion with supersession and
    deletion requests; the structural invariant; what insertion and deletion mean; convergence of replicas and
    refinement of a last-writer-wins register.
  \<^item> \<open>Store_Query\<close>, \<open>Store_GC\<close>, \<open>Store_Domain\<close>: queries and their visitor form; collection under pins and
    budgets with the coverage ledger; the key-value domains and their migrations.
  \<^item> \<open>Store_Machine\<close>: the operations of the \<open>EventStore\<close> trait as one step relation, reachable states and
    the invariants that hold in all of them.
  \<^item> \<open>Planner_Interest\<close>, \<open>Planner_Lattice\<close>, \<open>Planner_Plan\<close>: filters and their JSON, the merge of two filters, the
    compiled plan and canonical hashes.
  \<^item> \<open>Planner_Routing\<close>, \<open>Planner_Partition\<close>, \<open>Planner_Compile\<close>, \<open>Planner_Selection\<close>: the compiler in the order of
    its stages (\<open>compiler/partition\<close>, \<open>compiler/mod.rs\<close>, \<open>compiler/plan_id.rs\<close>) and the greedy selection of relays
    (\<open>selection.rs\<close>).
  \<^item> \<open>Subs_Registry\<close>, \<open>Subs_Open\<close>, \<open>Subs_Wire\<close>, \<open>Subs_Gate\<close>: slots shared by owners (\<open>subs/registry.rs\<close>,
    \<open>sub_key.rs\<close>), the identity of an interest opened by its filter (\<open>interest_builder.rs\<close>), the diff of two plans
    and the filter on the wire (\<open>wire.rs\<close>), the buffer of withheld requests (\<open>auth_gate.rs\<close>).
  \<^item> \<open>Subs_Lifecycle\<close>, \<open>Subs_Recompile\<close>: the lifecycle record with its setters and triggers, the recompile, the tick and
    the handlers (\<open>mod.rs\<close>, \<open>lifecycle.rs\<close>, \<open>recompile.rs\<close>, \<open>handlers.rs\<close>, \<open>inbox.rs\<close>,
    \<open>trigger.rs\<close>, \<open>watermark_rewrite.rs\<close>). \<open>Subs_Plan\<close>: what a pass keeps, where it may route, probes and
    replay. \<open>Subs_World\<close>: the lifecycle against the subscriptions open at each relay, as a step relation.
    \<open>Subs_Memo\<close>: while the score lookup is constant the memo of the recompile changes no result.
  \<^item> \<open>Subs_Oneshot\<close>, \<open>Subs_Discovery\<close>: the collector of missing references and the tokens of one-shot reads
    (\<open>unknown_ids.rs\<close>, \<open>oneshot.rs\<close>); their drain, the registration front door and completion
    (\<open>kernel/discovery.rs\<close>, \<open>kernel/cache_serve\<close>).
  \<^item> \<open>Publish_Policy\<close>: \<open>publish/state.rs\<close>, \<open>policy.rs\<close>, \<open>action/target.rs\<close> and the NIP-65 resolver.
    \<open>Publish_Action\<close>: the action an application dispatches (\<open>action.rs\<close>, \<open>action/signer.rs\<close>).
  \<^item> \<open>Publish_Engine\<close>: \<open>publish/engine.rs\<close> and \<open>engine/\<close>, one function per operation, errors beside the new engine.
  \<^item> \<open>Publish_Rows\<close>: the loops over the relays of a row in closed form. \<open>Publish_Inv\<close>: the operations as one step
    function, and the locale that carries a predicate on rows through all of them. \<open>Publish_Safety\<close>: its
    instances, attempts and the origin of private envelopes. \<open>Publish_Tick\<close>: the tick in closed form and the end of
    silent publishes. \<open>Publish_Durable\<close>: live rows, stored records and recovery. \<open>Publish_Deadline\<close>: the reported
    deadline and the backoff.

  \<^bold>\<open>Conventions.\<close> Machine integers are natural numbers with the saturation or the wrap-around of the source written
  out; hashes are words. A \<open>HashMap\<close> or \<open>BTreeMap\<close> is an association list with distinct, or strictly
  ascending, keys; iteration is in list order, and for hash maps no result may depend on it. A \<open>Result\<close> is a sum;
  where a source function mutates before it fails, the error is returned beside the mutated state. A panic is
  \<open>None\<close>. Third-party behaviour (JSON parsing and printing, the filter builder, the stable hashes of keys and of
  compile inputs) and code behind traits (score lookups, resolvers, blocked-relay lookups, coverage hooks, watermark
  resolvers) are parameters of the definitions that use them.

  \<^bold>\<open>What the theorems show.\<close>
  \<^item> Store: the reachable-state invariant, no panic, convergence under reordering (of events that are no deletions, not
    expired on arrival and, when addressable, carry a \<open>d\<close> tag: deletions and missing tags do not converge), the
    authority of deletions, truthful outcomes, exact queries and the agreement of the optimised scan, collection that spares
    pins, keeps the coverage ledger honest and evicts the least recently used down to the ceiling, the step budget or the
    pins, a log that never skips silently, isolated domains, and migrations on every branch.
  \<^item> Planner: plans justified by interests and accounting for every author, direct-message filters confined to the
    inbox relays of the recipients, independence from unrelated mailboxes, merges that cover both sides, selection within
    its budgets that only restricts and keeps canonical hashes.
  \<^item> Subscriptions: a relay that is neither dead, blocked nor waiting for authentication has open exactly what the plan
    last asked of it, in every run of triggers, disconnects and replays; the diff sends each difference once; the memo is
    transparent as long as the warm-relay lookup answers the same; the gate passes no request to a relay that is challenged,
    authenticating or failed (the replay on a reconnect does not ask it); mailbox probes go out once per author; the filter on
    the wire covers shapes without addresses whose tag names are single characters; the registry
    tracks ownership; one-shot tokens never share a slot and the collector of references stays bounded.
  \<^item> Publish: private envelopes reach only verified inbox relays in every run; rows in flight always have work left and
    attempts stay within policy; silent relays are given up after \<open>max 1 transient_max_retries + 1\<close> ticks with one
    report per row; a restart recovers every row while the backend works; a tick before the reported deadline is idle.

  \<^bold>\<open>Bounds and fuel.\<close> No definition runs on fuel: loops of the source are folds, structural recursion, or functions
  with a termination measure (the greedy loop shrinks its pool, the drain of the log advances its cursor). Runs of the
  step relations are arbitrary finite operation lists, including failures of the store and restarts.

  \<^bold>\<open>Not modelled.\<close> The kernel actor and its channels, sockets and worker threads, LMDB and SQLite backends (the trait
  contract is proved of the memory store), negentropy reconciliation, signing and encryption (third-party cryptography),
  wallets, bindings, generated wire code and presentation. Of the subscription side: the scan of note content for
  mentions (it decodes bech32), the cache serve that answers a registration from the store, and the in-memory connection
  pool (a test double of the sockets). The subscription-side router, the feed windows and the durable outbox file.
\<close>

end
